(* ===== verification/TCQ_Prelude.thy ===== *)
theory TCQ_Prelude
  imports Complex_Main "HOL-Library.Word" "HOL-Library.Signed_Division"
begin

text \<open>
  The vocabulary the component theories share: the outcome of an operation that may
  leave through \<^verbatim>\<open>elog(ERROR)\<close>, a failed \<^verbatim>\<open>Assert\<close> (the tree is configured with
  \<^verbatim>\<open>--enable-cassert\<close>, \<^verbatim>\<open>src/src/include/pg_config.h\<close>) or a semaphore that blocks; C integer
  casts; byte memory with \<^verbatim>\<open>memcpy\<close> and \<^verbatim>\<open>memset\<close>; the little-endian image of a 32-bit
  integer. The collections \<open>tcq_mem\<close> and \<open>tcq_outcome\<close> gather the facts the component
  proofs use.
\<close>

unbundle bit_operations_syntax

named_theorems tcq_mem \<open>facts about byte memory\<close>
named_theorems tcq_outcome \<open>facts about outcomes\<close>

section \<open>Types\<close>

type_synonym byte = "8 word"

datatype tcq_error =
    Elog_error string
  | Assert_failed string
  | Would_block
  | Out_of_bounds string

type_synonym 'a outcome = "tcq_error + 'a"

definition bind_outcome :: "'a outcome \<Rightarrow> ('a \<Rightarrow> 'b outcome) \<Rightarrow> 'b outcome" where
  "bind_outcome m f = (case m of Inl e \<Rightarrow> Inl e | Inr x \<Rightarrow> f x)"

text \<open>
  A stateful operation returns its outcome together with the state it leaves behind, also when
  it leaves through \<^verbatim>\<open>elog(ERROR)\<close> or blocks half way: what was written before stays written.
\<close>

type_synonym ('s, 'a) prog = "'s \<Rightarrow> 'a outcome \<times> 's"

definition bind_prog :: "('s, 'a) prog \<Rightarrow> ('a \<Rightarrow> ('s, 'b) prog) \<Rightarrow> ('s, 'b) prog" where
  "bind_prog m f = (\<lambda>s. case m s of (Inl e, s') \<Rightarrow> (Inl e, s') | (Inr x, s') \<Rightarrow> f x s')"

definition return_prog :: "'a \<Rightarrow> ('s, 'a) prog" where
  "return_prog x = (\<lambda>s. (Inr x, s))"

definition fail_prog :: "tcq_error \<Rightarrow> ('s, 'a) prog" where
  "fail_prog e = (\<lambda>s. (Inl e, s))"

definition modify_prog :: "('s \<Rightarrow> 's) \<Rightarrow> ('s, unit) prog" where
  "modify_prog f = (\<lambda>s. (Inr (), f s))"

definition lift_outcome :: "'a outcome \<Rightarrow> ('s, 'a) prog" where
  "lift_outcome m = (\<lambda>s. (m, s))"

section \<open>C casts\<close>

text \<open>A C conversion from a floating point value to an integer drops the fraction.\<close>

definition c_int_of_rat :: "rat \<Rightarrow> int" where
  "c_int_of_rat q = (if 0 \<le> q then \<lfloor>q\<rfloor> else \<lceil>q\<rceil>)"

section \<open>Byte memory\<close>

fun mem_write :: "nat \<Rightarrow> 'a list \<Rightarrow> 'a list \<Rightarrow> 'a list" where
  "mem_write p [] m = m"
| "mem_write p (b # bs) m = mem_write (Suc p) bs (m[p := b])"

definition mem_read :: "nat \<Rightarrow> nat \<Rightarrow> 'a list \<Rightarrow> 'a list" where
  "mem_read p n m = take n (drop p m)"

definition mem_set :: "nat \<Rightarrow> 'a \<Rightarrow> nat \<Rightarrow> 'a list \<Rightarrow> 'a list" where
  "mem_set p b n m = mem_write p (replicate n b) m"

definition le32_bytes :: "32 word \<Rightarrow> byte list" where
  "le32_bytes w = map (\<lambda>k. ucast (drop_bit (8 * k) w)) [0, 1, 2, 3]"

definition le32_of_bytes :: "byte list \<Rightarrow> 32 word" where
  "le32_of_bytes bs =
     ucast (bs ! 0) OR push_bit 8 (ucast (bs ! 1)) OR push_bit 16 (ucast (bs ! 2)) OR
     push_bit 24 (ucast (bs ! 3))"

section \<open>Facts\<close>

lemma bind_outcome_simps [simp, tcq_outcome]:
  "bind_outcome (Inl e) f = Inl e"
  "bind_outcome (Inr x) f = f x"
  by (simp_all add: bind_outcome_def)

lemma bind_outcome_cong [fundef_cong]:
  "m = m' \<Longrightarrow> (\<And>x. m' = Inr x \<Longrightarrow> f x = f' x) \<Longrightarrow> bind_outcome m f = bind_outcome m' f'"
  by (auto simp: bind_outcome_def split: sum.splits)

lemma bind_outcome_Inr [tcq_outcome]:
  "bind_outcome m f = Inr y \<longleftrightarrow> (\<exists>x. m = Inr x \<and> f x = Inr y)"
  by (cases m) auto

lemma bind_outcome_Inl [tcq_outcome]:
  "bind_outcome m f = Inl e \<longleftrightarrow> m = Inl e \<or> (\<exists>x. m = Inr x \<and> f x = Inl e)"
  by (cases m) auto

lemma bind_prog_simps [tcq_outcome]:
  "m s = (Inl e, s') \<Longrightarrow> bind_prog m f s = (Inl e, s')"
  "m s = (Inr x, s') \<Longrightarrow> bind_prog m f s = f x s'"
  by (simp_all add: bind_prog_def)

lemma bind_basic_prog [simp, tcq_outcome]:
  "bind_prog (return_prog x) f = f x"
  "bind_prog (fail_prog e) f = fail_prog e"
  "bind_prog (modify_prog g) h s = h () (g s)"
  "bind_prog (lift_outcome (Inr x)) f = f x"
  "bind_prog (lift_outcome (Inl e)) f = fail_prog e"
  by (simp_all add: bind_prog_def return_prog_def fail_prog_def modify_prog_def lift_outcome_def fun_eq_iff)

lemma run_basic_prog [simp, tcq_outcome]:
  "return_prog x s = (Inr x, s)"
  "fail_prog e s = (Inl e, s)"
  "modify_prog g s = (Inr (), g s)"
  "lift_outcome m s = (m, s)"
  by (simp_all add: return_prog_def fail_prog_def modify_prog_def lift_outcome_def)

lemma c_int_of_rat_of_int [simp]: "c_int_of_rat (of_int k) = k"
  by (simp add: c_int_of_rat_def)

lemma c_int_of_rat_nonneg: "0 \<le> q \<Longrightarrow> c_int_of_rat q = \<lfloor>q\<rfloor>"
  by (simp add: c_int_of_rat_def)

lemma c_int_of_rat_neg: "q < 0 \<Longrightarrow> c_int_of_rat q = \<lceil>q\<rceil>"
  by (simp add: c_int_of_rat_def)

lemma length_mem_write [simp, tcq_mem]: "length (mem_write p bs m) = length m"
  by (induction p bs m rule: mem_write.induct) auto

lemma length_mem_set [simp, tcq_mem]: "length (mem_set p b n m) = length m"
  by (simp add: mem_set_def)

lemma length_mem_read [simp, tcq_mem]: "p + n \<le> length m \<Longrightarrow> length (mem_read p n m) = n"
  by (simp add: mem_read_def)

lemma nth_mem_write:
  "p + length bs \<le> length m \<Longrightarrow>
   mem_write p bs m ! i = (if p \<le> i \<and> i < p + length bs then bs ! (i - p) else m ! i)"
proof (induction p bs m rule: mem_write.induct)
  case (1 p m)
  then show ?case by auto
next
  case (2 p b bs m)
  show ?case
  proof (cases "i = p")
    case True
    with 2 show ?thesis by simp
  next
    case False
    moreover have "\<not> i < p \<Longrightarrow> i \<noteq> p \<Longrightarrow> (b # bs) ! (i - p) = bs ! (i - Suc p)"
      by (simp add: nth_Cons')
    ultimately show ?thesis using 2 by auto
  qed
qed

lemma nth_mem_set:
  "p + n \<le> length m \<Longrightarrow> mem_set p b n m ! i = (if p \<le> i \<and> i < p + n then b else m ! i)"
  by (auto simp: mem_set_def nth_mem_write)

lemma nth_mem_read [simp]: "p + n \<le> length m \<Longrightarrow> i < n \<Longrightarrow> mem_read p n m ! i = m ! (p + i)"
  by (simp add: mem_read_def)

lemma mem_read_0 [simp]: "mem_read p 0 m = []"
  by (simp add: mem_read_def)

lemma mem_read_split:
  "p + a + b \<le> length m \<Longrightarrow> mem_read p (a + b) m = mem_read p a m @ mem_read (p + a) b m"
  by (simp add: mem_read_def take_add add.commute)

lemma mem_read_write_same [simp, tcq_mem]:
  "p + length bs \<le> length m \<Longrightarrow> mem_read p (length bs) (mem_write p bs m) = bs"
  by (rule nth_equalityI) (simp_all add: nth_mem_write)

lemma mem_read_write_other [tcq_mem]:
  assumes "p + length bs \<le> length m" "q + n \<le> length m" "q + n \<le> p \<or> p + length bs \<le> q"
  shows "mem_read q n (mem_write p bs m) = mem_read q n m"
  by (rule nth_equalityI) (use assms in \<open>auto simp: nth_mem_write\<close>)

lemma mem_read_set_other [tcq_mem]:
  assumes "p + k \<le> length m" "q + n \<le> length m" "q + n \<le> p \<or> p + k \<le> q"
  shows "mem_read q n (mem_set p b k m) = mem_read q n m"
  using mem_read_write_other [of p "replicate k b" m q n] assms by (simp add: mem_set_def)

lemma mem_read_set_same [tcq_mem]:
  "p + n \<le> length m \<Longrightarrow> mem_read p n (mem_set p b n m) = replicate n b"
  using mem_read_write_same [of p "replicate n b" m] by (simp add: mem_set_def)

lemma mem_read_prefix:
  "n' \<le> n \<Longrightarrow> take n' (mem_read p n m) = mem_read p n' m"
  by (simp add: mem_read_def min_def)

lemma length_le32_bytes [simp]: "length (le32_bytes w) = 4"
  by (simp add: le32_bytes_def)

lemma le32_roundtrip [simp]: "le32_of_bytes (le32_bytes w @ rest) = w"
proof -
  have "le32_of_bytes (le32_bytes w @ rest) = le32_of_bytes (le32_bytes w)"
    by (simp add: le32_of_bytes_def nth_append)
  also have "\<dots> = w"
  proof (rule bit_word_eqI)
    fix n assume "n < LENGTH(32)"
    then consider "n < 8" | "8 \<le> n" "n < 16" | "16 \<le> n" "n < 24" | "24 \<le> n" "n < 32"
      by fastforce
    then show "bit (le32_of_bytes (le32_bytes w)) n = bit w n"
      by cases (simp_all add: le32_of_bytes_def le32_bytes_def bit_or_iff bit_push_bit_iff
          bit_unsigned_iff bit_drop_bit_eq less_diff_conv2)
  qed
  finally show ?thesis .
qed

lemma le32_roundtrip_take:
  assumes "take 4 bs = le32_bytes w" shows "le32_of_bytes bs = w"
  using le32_roundtrip [of w "drop 4 bs"] assms by (metis append_take_drop_id)

lemma sint_word_of_int_32: "0 \<le> k \<Longrightarrow> k < 2 ^ 31 \<Longrightarrow> sint (word_of_int k :: 32 word) = k"
  by (simp add: sint_sbintrunc' signed_take_bit_int_eq_self)

end
