(* ===== verification/Queue_Lock.thy ===== *)
theory Queue_Lock
  imports TCQ_Prelude
begin

text \<open>
  The three kinds of lock a result queue can carry (\<^verbatim>\<open>struct queue_lock\<close> in
  \<^verbatim>\<open>src/src/include/rqueue/resultq.h\<close>, second half of \<^verbatim>\<open>src/src/backend/rqueue/resultq.c\<close>) on
  top of the System V semaphores of \<^verbatim>\<open>src/src/backend/port/sysv_sema.c\<close>. The C struct is a table
  of function pointers; each constructor below is one of the three tables the file builds, with
  what \<^verbatim>\<open>lock_data\<close> points to as its argument. An operation that would wait gives
  \<open>Would_block\<close>; signals that interrupt a wait are not modelled.
\<close>

section \<open>Semaphores\<close>

text \<open>A semaphore is its count. \<^verbatim>\<open>semop\<close> with \<^verbatim>\<open>-1\<close> waits, or fails under \<^verbatim>\<open>IPC_NOWAIT\<close>, at zero.\<close>

definition TCQSemaphoreLock :: "int \<Rightarrow> int outcome" where
  "TCQSemaphoreLock v = (if 0 < v then Inr (v - 1) else Inl Would_block)"

definition TCQSemaphoreTryLock :: "int \<Rightarrow> bool \<times> int" where
  "TCQSemaphoreTryLock v = (if 0 < v then (True, v - 1) else (False, v))"

definition TCQSemaphoreUnlock :: "int \<Rightarrow> int" where
  "TCQSemaphoreUnlock v = v + 1"

definition TCQSemaphoreInitialize :: "nat \<Rightarrow> int \<Rightarrow> int list \<Rightarrow> int list" where
  "TCQSemaphoreInitialize i v semas = semas[i := v]"

definition QUEUELOCK_SEM_EMPTY :: nat where "QUEUELOCK_SEM_EMPTY = 0"
definition QUEUELOCK_SEM_FULL :: nat where "QUEUELOCK_SEM_FULL = 1"
definition QUEUELOCK_SEM_MUTEX :: nat where "QUEUELOCK_SEM_MUTEX = 2"

lemmas sem_index = QUEUELOCK_SEM_EMPTY_def QUEUELOCK_SEM_FULL_def QUEUELOCK_SEM_MUTEX_def

section \<open>Queue locks\<close>

datatype queue_lock =
    Lock_nolock
  | Lock_sl bool            \<comment> \<open>the \<^verbatim>\<open>slock_t\<close>: held or not\<close>
  | Lock_sem "int list"     \<comment> \<open>the three counts, indexed by \<^verbatim>\<open>QUEUELOCK_SEM_*\<close>\<close>

fun IsSemaphoreLock :: "queue_lock \<Rightarrow> bool" where
  "IsSemaphoreLock (Lock_sem semas) = True"
| "IsSemaphoreLock _ = False"

definition make_lock_nolock :: queue_lock where
  "make_lock_nolock = Lock_nolock"

definition make_lock_sl :: queue_lock where
  "make_lock_sl = Lock_sl False"

definition make_lock_sem :: "int \<Rightarrow> queue_lock" where
  "make_lock_sem empties = Lock_sem
     (TCQSemaphoreInitialize QUEUELOCK_SEM_EMPTY empties
       (TCQSemaphoreInitialize QUEUELOCK_SEM_FULL 0
         (TCQSemaphoreInitialize QUEUELOCK_SEM_MUTEX 1 [0, 0, 0])))"

fun mutex_lock :: "queue_lock \<Rightarrow> queue_lock outcome" where
  "mutex_lock Lock_nolock = Inr Lock_nolock"
| "mutex_lock (Lock_sl held) = (if held then Inl Would_block else Inr (Lock_sl True))"
| "mutex_lock (Lock_sem semas) =
     bind_outcome (TCQSemaphoreLock (semas ! QUEUELOCK_SEM_MUTEX))
       (\<lambda>v. Inr (Lock_sem (semas[QUEUELOCK_SEM_MUTEX := v])))"

fun mutex_unlock :: "queue_lock \<Rightarrow> queue_lock" where
  "mutex_unlock Lock_nolock = Lock_nolock"
| "mutex_unlock (Lock_sl held) = Lock_sl False"
| "mutex_unlock (Lock_sem semas) =
     Lock_sem (semas[QUEUELOCK_SEM_MUTEX := TCQSemaphoreUnlock (semas ! QUEUELOCK_SEM_MUTEX)])"

definition sem_down :: "nat \<Rightarrow> int list \<Rightarrow> bool \<Rightarrow> (bool \<times> queue_lock) outcome" where
  "sem_down i semas trylock =
     (if trylock
      then (let (got, v) = TCQSemaphoreTryLock (semas ! i) in Inr (got, Lock_sem (semas[i := v])))
      else bind_outcome (TCQSemaphoreLock (semas ! i)) (\<lambda>v. Inr (True, Lock_sem (semas[i := v]))))"

definition sem_up :: "nat \<Rightarrow> int list \<Rightarrow> queue_lock" where
  "sem_up i semas = Lock_sem (semas[i := TCQSemaphoreUnlock (semas ! i)])"

text \<open>The callers test \<^verbatim>\<open>IsSemaphoreLock\<close> first: for the other tables these pointers are \<^verbatim>\<open>NULL\<close>.\<close>

fun empty_down :: "queue_lock \<Rightarrow> bool \<Rightarrow> (bool \<times> queue_lock) outcome" where
  "empty_down (Lock_sem semas) trylock = sem_down QUEUELOCK_SEM_EMPTY semas trylock"
| "empty_down _ trylock = Inl (Out_of_bounds ''empty_down is NULL'')"

fun full_down :: "queue_lock \<Rightarrow> bool \<Rightarrow> (bool \<times> queue_lock) outcome" where
  "full_down (Lock_sem semas) trylock = sem_down QUEUELOCK_SEM_FULL semas trylock"
| "full_down _ trylock = Inl (Out_of_bounds ''full_down is NULL'')"

fun empty_up :: "queue_lock \<Rightarrow> queue_lock outcome" where
  "empty_up (Lock_sem semas) = Inr (sem_up QUEUELOCK_SEM_EMPTY semas)"
| "empty_up _ = Inl (Out_of_bounds ''empty_up is NULL'')"

fun full_up :: "queue_lock \<Rightarrow> queue_lock outcome" where
  "full_up (Lock_sem semas) = Inr (sem_up QUEUELOCK_SEM_FULL semas)"
| "full_up _ = Inl (Out_of_bounds ''full_up is NULL'')"

section \<open>Well-formed locks\<close>

text \<open>
  \<open>lock_free\<close>: nobody holds the mutex. \<open>full_count\<close> and \<open>empty_count\<close> read the two slot counts.
\<close>

fun lock_free :: "queue_lock \<Rightarrow> bool" where
  "lock_free Lock_nolock = True"
| "lock_free (Lock_sl held) = (\<not> held)"
| "lock_free (Lock_sem semas) =
     (length semas = 3 \<and> semas ! QUEUELOCK_SEM_MUTEX = 1 \<and>
      0 \<le> semas ! QUEUELOCK_SEM_FULL \<and> 0 \<le> semas ! QUEUELOCK_SEM_EMPTY)"

fun full_count :: "queue_lock \<Rightarrow> int option" where
  "full_count (Lock_sem semas) = Some (semas ! QUEUELOCK_SEM_FULL)"
| "full_count _ = None"

fun empty_count :: "queue_lock \<Rightarrow> int option" where
  "empty_count (Lock_sem semas) = Some (semas ! QUEUELOCK_SEM_EMPTY)"
| "empty_count _ = None"

lemma make_locks_free [simp]:
  "lock_free make_lock_nolock" "lock_free make_lock_sl" "0 \<le> n \<Longrightarrow> lock_free (make_lock_sem n)"
  by (simp_all add: make_lock_nolock_def make_lock_sl_def make_lock_sem_def
      TCQSemaphoreInitialize_def sem_index)

lemma make_lock_sem_counts [simp]:
  "full_count (make_lock_sem n) = Some 0" "empty_count (make_lock_sem n) = Some n"
  "IsSemaphoreLock (make_lock_sem n)"
  by (simp_all add: make_lock_sem_def TCQSemaphoreInitialize_def sem_index)

lemma mutex_lock_free:
  assumes "lock_free l"
  obtains l' where "mutex_lock l = Inr l'" "mutex_unlock l' = l" "\<not> lock_free l' \<or> l = Lock_nolock"
    "IsSemaphoreLock l' = IsSemaphoreLock l"
proof (cases l)
  case (Lock_sem semas)
  show thesis
  proof (rule that [of "Lock_sem (semas[2 := 0])"])
    show "mutex_unlock (Lock_sem (semas[2 := 0])) = l"
      using assms Lock_sem by (auto simp: TCQSemaphoreUnlock_def sem_index list_update_same_conv)
  qed (use assms Lock_sem in \<open>auto simp: TCQSemaphoreLock_def sem_index\<close>)
qed (use assms that in auto)

text \<open>A second \<open>mutex_lock\<close> waits for the holder: the mutex excludes.\<close>

lemma mutex_lock_excludes:
  assumes "lock_free l" "l \<noteq> Lock_nolock" "mutex_lock l = Inr l'"
  shows "mutex_lock l' = Inl Would_block"
  using assms by (cases l) (auto simp: TCQSemaphoreLock_def sem_index)

end
