(* ===== verification/Result_Queue.thy ===== *)
theory Result_Queue
  imports Queue_Lock
begin

text \<open>
  The variable-length element queue of \<^verbatim>\<open>src/src/backend/rqueue/resultq.c\<close>, which carries plans,
  control messages and results between the TelegraphCQ processes through shared memory.
  Pointers into the queue's buffer are offsets from \<^verbatim>\<open>start\<close>; \<open>buf\<close> is the memory from
  \<^verbatim>\<open>start\<close> to \<^verbatim>\<open>end\<close>. An element is a check word, its total size, the serialized data and five
  pad bytes (\<^verbatim>\<open>RESULTQ_DEBUG\<close> is defined in the file). The running average \<^verbatim>\<open>avgfree\<close>, a C double,
  is an exact rational. \<^verbatim>\<open>elog\<close> calls below \<^verbatim>\<open>ERROR\<close> only log and are left out.
\<close>

unbundle bit_operations_syntax

section \<open>Data\<close>

text \<open>
  \<^verbatim>\<open>struct queue_serializer\<close>: \<open>serialize x destlen\<close> gives its return value and the bytes it
  writes from \<^verbatim>\<open>dest\<close> on; \<open>deserialize\<close> reads the memory from its \<^verbatim>\<open>src\<close> pointer on.
\<close>

record 'a queue_serializer =
  determineSize :: "'a \<Rightarrow> int outcome"
  serialize :: "'a \<Rightarrow> int \<Rightarrow> (bool \<times> byte list) outcome"
  deserialize :: "byte list \<Rightarrow> 'a outcome"

record Queue =
  q_size :: int
  qid :: int
  q_end :: int
  head :: int
  tail :: int
  wall :: int
  ql :: queue_lock
  bytesfree :: int
  numelts :: int
  avgfree :: rat
  numcalls :: int
  buf :: "byte list"

definition sizeof_Queue :: int where "sizeof_Queue = 80"
definition QHDRSZ :: int where "QHDRSZ = 8"
definition PADSIZE :: int where "PADSIZE = 5"
definition PAD :: byte where "PAD = 0x3f"
definition ELTCHECK :: "32 word" where "ELTCHECK = 0xccabbaee"
definition MAXELTEST :: int where "MAXELTEST = 16383"
definition MINELTEST :: int where "MINELTEST = 5"
definition MaxAllocSize :: int where "MaxAllocSize = 0x3fffffff"

lemmas queue_consts = sizeof_Queue_def QHDRSZ_def PADSIZE_def MAXELTEST_def MINELTEST_def MaxAllocSize_def

text \<open>An \<^verbatim>\<open>int\<close> that meets a \<^verbatim>\<open>size_t\<close> operand is converted to it.\<close>

definition size_t :: "int \<Rightarrow> int" where
  "size_t x = x mod 2 ^ 64"

definition QEMPTY :: "Queue \<Rightarrow> bool" where
  "QEMPTY q \<longleftrightarrow> bytesfree q = q_end q"

definition QFREESPACE :: "Queue \<Rightarrow> int" where
  "QFREESPACE q = bytesfree q - (q_end q - wall q)"

definition QFULL :: "Queue \<Rightarrow> bool" where
  "QFULL q \<longleftrightarrow> QFREESPACE q = 0"

section \<open>Construction\<close>

text \<open>An operation of the queue's lock.\<close>

definition queue_lock_op :: "(queue_lock \<Rightarrow> queue_lock outcome) \<Rightarrow> (Queue, unit) prog" where
  "queue_lock_op f q = (case f (ql q) of Inl e \<Rightarrow> (Inl e, q) | Inr l \<Rightarrow> (Inr (), q\<lparr>ql := l\<rparr>))"

text \<open>
  Code between \<^verbatim>\<open>mutex_lock\<close> and \<^verbatim>\<open>mutex_unlock\<close>: an error raised inside leaves the mutex held.
\<close>

definition critical :: "(Queue, 'b) prog \<Rightarrow> (Queue, 'b) prog" where
  "critical body =
     bind_prog (queue_lock_op mutex_lock) (\<lambda>_. bind_prog body (\<lambda>r.
     bind_prog (modify_prog (\<lambda>q. q\<lparr>ql := mutex_unlock (ql q)\<rparr>)) (\<lambda>_. return_prog r)))"

definition clear_queue_eltest :: "int \<Rightarrow> int" where
  "clear_queue_eltest free =
     (let eltest = free sdiv QHDRSZ in if eltest > MAXELTEST then MAXELTEST - 1 else eltest)"

definition clear_queue_critical :: "Queue \<Rightarrow> Queue" where
  "clear_queue_critical q0 =
     (let q = q0\<lparr>head := 0, tail := 0, wall := q_end q0, bytesfree := q_end q0, numelts := 0,
                 avgfree := 0, numcalls := 0\<rparr>
      in (case ql q of
            Lock_sem semas \<Rightarrow>
              q\<lparr>ql := Lock_sem (TCQSemaphoreInitialize QUEUELOCK_SEM_EMPTY (clear_queue_eltest (bytesfree q))
                                 (TCQSemaphoreInitialize QUEUELOCK_SEM_FULL 0 semas))\<rparr>
          | _ \<Rightarrow> q))"

definition clear_queue :: "(Queue, unit) prog" where
  "clear_queue = critical (modify_prog clear_queue_critical)"

definition check_capacity :: "int \<Rightarrow> (Queue, bool) prog" where
  "check_capacity num = critical (\<lambda>q. (Inr (size_t (QFREESPACE q) \<ge> size_t (num + QHDRSZ)), q))"

text \<open>
  The fields \<^verbatim>\<open>make_queue\<close> sets in the zeroed allocation, and its estimate of the number of
  elements. \<^verbatim>\<open>palloc\<close> raises an error for a request outside \<^verbatim>\<open>1 .. MaxAllocSize\<close>; \<open>None\<close> is
  \<^verbatim>\<open>NULL\<close>.
\<close>

definition init_queue :: "queue_lock \<Rightarrow> int \<Rightarrow> Queue" where
  "init_queue l num =
     \<lparr>q_size = num, qid = 0, q_end = num - sizeof_Queue, head = 0, tail = 0, wall = num - sizeof_Queue,
      ql = l, bytesfree = num - sizeof_Queue, numelts = 0, avgfree = 0, numcalls = 0,
      buf = replicate (nat (num - sizeof_Queue)) 0\<rparr>"

definition make_queue_eltest :: "int \<Rightarrow> int" where
  "make_queue_eltest num =
     (let eltest = num sdiv QHDRSZ;
          eltest = (if eltest > MAXELTEST then MAXELTEST - 1 else eltest)
      in if eltest < MINELTEST then MINELTEST else eltest)"

definition make_queue :: "queue_lock option \<Rightarrow> int \<Rightarrow> Queue option outcome" where
  "make_queue lck num =
     (if size_t num < sizeof_Queue then Inr None
      else if size_t num > MaxAllocSize then Inl (Elog_error ''MemoryContextAlloc: invalid request size'')
      else Inr (Some (init_queue (case lck of Some l \<Rightarrow> l | None \<Rightarrow> make_lock_sem (make_queue_eltest num)) num)))"

section \<open>Elements\<close>

text \<open>
  First part of \<^verbatim>\<open>enqueue_elt\<close>: find \<open>eltsize\<close> bytes of contiguous space, moving \<^verbatim>\<open>tail\<close> to
  the start of the buffer behind a \<^verbatim>\<open>wall\<close> when the end of the buffer is too short. \<open>None\<close> is
  the early \<^verbatim>\<open>return false\<close>; otherwise the value is \<^verbatim>\<open>spaceavail\<close>.
\<close>

definition enqueue_space :: "int \<Rightarrow> Queue \<Rightarrow> int option \<times> Queue" where
  "enqueue_space eltsize q0 =
     (if QFULL q0 then (None, q0)
      else
        let q = (if tail q0 \<ge> wall q0 then q0\<lparr>wall := q_end q0\<rparr> else q0);
            spacetoend = q_end q - tail q
        in if tail q < head q then (Some (head q - tail q), q)
           else if spacetoend < eltsize then
             let q = q\<lparr>buf := mem_set (nat (tail q)) 0xff (nat spacetoend) (buf q),
                       wall := tail q, tail := 0\<rparr>;
                 spacetoend = q_end q - tail q
             in if QFULL q then (None, q)
                else (Some (if tail q < head q then head q - tail q else spacetoend), q)
           else (Some (if tail q < head q then head q - tail q else spacetoend), q))"

text \<open>Second part: write the element at \<^verbatim>\<open>tail\<close> and account for it.\<close>

definition enqueue_write :: "'a queue_serializer \<Rightarrow> 'a \<Rightarrow> int \<Rightarrow> (Queue, bool) prog" where
  "enqueue_write qs data eltsize q0 =
     (let p = nat (tail q0);
          q = q0\<lparr>buf := mem_set (p + 8) PAD (nat (eltsize - QHDRSZ))
                         (mem_write p (le32_bytes ELTCHECK @ le32_bytes (word_of_int eltsize)) (buf q0))\<rparr>
      in case serialize qs data (eltsize - QHDRSZ - PADSIZE) of
           Inl e \<Rightarrow> (Inl e, q)
         | Inr (_, bytes) \<Rightarrow>
             let q = q\<lparr>buf := mem_write (p + 8) bytes (buf q)\<rparr>;
                 q = q\<lparr>tail := tail q + eltsize, numelts := numelts q + 1,
                       avgfree := (of_int (numcalls q) * avgfree q + of_int (bytesfree q)) / of_int (numcalls q + 1),
                       numcalls := numcalls q + 1, bytesfree := bytesfree q - eltsize\<rparr>
             in if bytesfree q < 0 then (Inl (Elog_error ''RESULTQ: q->bytesfree is negative''), q)
                else (Inr True, q))"

definition enqueue_elt :: "'a queue_serializer \<Rightarrow> 'a \<Rightarrow> (Queue, bool) prog" where
  "enqueue_elt qs data q =
     (case determineSize qs data of
        Inl e \<Rightarrow> (Inl e, q)
      | Inr n \<Rightarrow>
          let eltsize = n + QHDRSZ + PADSIZE in
          case enqueue_space eltsize q of
            (None, q') \<Rightarrow> (Inr False, q')
          | (Some spaceavail, q') \<Rightarrow>
              if spaceavail < eltsize then (Inr False, q') else enqueue_write qs data eltsize q')"

definition elt_check :: "byte list \<Rightarrow> nat \<Rightarrow> 32 word" where
  "elt_check m p = le32_of_bytes (mem_read p 4 m)"

definition VARSIZE :: "byte list \<Rightarrow> int" where
  "VARSIZE m = uint (le32_of_bytes (mem_read 0 4 m) AND 0x3fffffff)"

definition dequeue_elt :: "'a queue_serializer \<Rightarrow> (Queue, 'a option) prog" where
  "dequeue_elt qs q0 =
     (if bytesfree q0 = q_end q0 then (Inr None, q0)
      else if head q0 > wall q0 then (Inl (Elog_error ''RESULTQ: q->head is past the wall''), q0)
      else
        let q = (if head q0 = wall q0 then q0\<lparr>head := 0, wall := q_end q0\<rparr> else q0);
            p = nat (head q);
            eltsize = VARSIZE (drop (p + 4) (buf q))
        in if elt_check (buf q) p \<noteq> ELTCHECK
           then (Inl (Elog_error ''RESULTQ: dequeue found an invalid element in the queue''), q)
           else case deserialize qs (drop (p + 8) (buf q)) of
                  Inl e \<Rightarrow> (Inl e, q)
                | Inr data \<Rightarrow>
                    (Inr (Some data),
                     q\<lparr>buf := mem_set p 0 (nat eltsize) (buf q), head := head q + eltsize,
                       bytesfree := bytesfree q + eltsize, numelts := numelts q - 1\<rparr>))"

section \<open>The locked interface\<close>

text \<open>
  The semaphore calls around the critical sections; the result of a failed \<^verbatim>\<open>trylock\<close> is ignored.
\<close>

definition sem_wait :: "(queue_lock \<Rightarrow> bool \<Rightarrow> (bool \<times> queue_lock) outcome) \<Rightarrow> bool \<Rightarrow> (Queue, unit) prog" where
  "sem_wait down isBlocking q =
     (if IsSemaphoreLock (ql q) then queue_lock_op (\<lambda>l. map_sum id snd (down l (\<not> isBlocking))) q
      else (Inr (), q))"

definition sem_signal :: "(queue_lock \<Rightarrow> queue_lock outcome) \<Rightarrow> bool \<Rightarrow> (Queue, unit) prog" where
  "sem_signal up ret q = (if ret \<and> IsSemaphoreLock (ql q) then queue_lock_op up q else (Inr (), q))"

text \<open>
  One round of the loop of \<^verbatim>\<open>enqueue\<close>: the value is the pair of \<^verbatim>\<open>ret\<close> and \<^verbatim>\<open>breakout\<close>.
\<close>

definition enqueue_round :: "'a queue_serializer \<Rightarrow> 'a \<Rightarrow> bool \<Rightarrow> (Queue, bool \<times> bool) prog" where
  "enqueue_round qs data isBlocking =
     bind_prog (sem_wait empty_down isBlocking) (\<lambda>_.
     bind_prog (critical (bind_prog (enqueue_elt qs data) (\<lambda>ret q. (Inr (ret, QEMPTY q), q)))) (\<lambda>(ret, breakout).
     bind_prog (sem_signal full_up ret) (\<lambda>_.
     return_prog (ret, breakout))))"

fun enqueue_loop :: "nat \<Rightarrow> 'a queue_serializer \<Rightarrow> 'a \<Rightarrow> bool \<Rightarrow> (Queue, bool) prog" where
  "enqueue_loop 0 qs data isBlocking = return_prog False"
| "enqueue_loop (Suc tries) qs data isBlocking =
     bind_prog (enqueue_round qs data isBlocking) (\<lambda>(ret, breakout).
       if \<not> isBlocking \<or> breakout \<or> ret then return_prog ret
       else enqueue_loop tries qs data isBlocking)"

definition enqueue :: "'a queue_serializer \<Rightarrow> 'a \<Rightarrow> bool \<Rightarrow> (Queue, bool) prog" where
  "enqueue qs data isBlocking q =
     (let tries = q_end q sdiv QHDRSZ in
      if \<not> tries > 0 then (Inl (Assert_failed ''tries > 0''), q)
      else enqueue_loop (nat tries) qs data isBlocking q)"

definition dequeue :: "'a queue_serializer \<Rightarrow> bool \<Rightarrow> (Queue, 'a option) prog" where
  "dequeue qs isBlocking =
     bind_prog (sem_wait full_down isBlocking) (\<lambda>_.
     bind_prog (critical (dequeue_elt qs)) (\<lambda>ret.
     bind_prog (sem_signal empty_up (\<not> Option.is_none ret)) (\<lambda>_.
     return_prog ret)))"

section \<open>Representation\<close>

text \<open>
  What the buffer means: \<open>elt_image d\<close> is the image of an element with serialized data \<open>d\<close>;
  \<open>laid m a ds b\<close> says that the bytes from \<open>a\<close> to \<open>b\<close> are the images of \<open>ds\<close>, back to back.
  A queue that holds \<open>ds\<close> is either linear, all elements between \<^verbatim>\<open>head\<close> and \<^verbatim>\<open>tail\<close>, or
  wrapped, the older elements between \<^verbatim>\<open>head\<close> and \<^verbatim>\<open>wall\<close> and the newer ones from the start
  of the buffer to \<^verbatim>\<open>tail\<close>.
\<close>

definition elt_image :: "byte list \<Rightarrow> byte list" where
  "elt_image d = le32_bytes ELTCHECK @ le32_bytes (word_of_int (int (length d) + 13)) @ d @ replicate 5 PAD"

definition laid :: "byte list \<Rightarrow> int \<Rightarrow> byte list list \<Rightarrow> int \<Rightarrow> bool" where
  "laid m a ds b \<longleftrightarrow> 0 \<le> a \<and> a \<le> b \<and> b \<le> int (length m) \<and>
     mem_read (nat a) (nat (b - a)) m = concat (map elt_image ds)"

definition rep_linear :: "Queue \<Rightarrow> byte list list \<Rightarrow> bool" where
  "rep_linear q ds \<longleftrightarrow> wall q = q_end q \<and> bytesfree q = q_end q - (tail q - head q) \<and>
     laid (buf q) (head q) ds (tail q)"

definition rep_wrapped :: "Queue \<Rightarrow> byte list list \<Rightarrow> bool" where
  "rep_wrapped q ds \<longleftrightarrow> tail q \<le> head q \<and>
     bytesfree q = q_end q - (wall q - head q) - tail q \<and>
     (\<exists>ds1 ds2. ds = ds1 @ ds2 \<and> laid (buf q) (head q) ds1 (wall q) \<and> laid (buf q) 0 ds2 (tail q))"

definition queue_rep :: "Queue \<Rightarrow> byte list list \<Rightarrow> bool" where
  "queue_rep q ds \<longleftrightarrow> q_end q = int (length (buf q)) \<and> q_end q \<le> MaxAllocSize \<and>
     numelts q = int (length ds) \<and> (rep_linear q ds \<or> rep_wrapped q ds)"

lemma length_elt_image [simp]: "length (elt_image d) = length d + 13"
  by (simp add: elt_image_def)

lemma laid_Nil: "laid m a [] b \<longleftrightarrow> 0 \<le> a \<and> a = b \<and> b \<le> int (length m)"
  by (auto simp: laid_def mem_read_def)

lemma laid_empty: "0 \<le> a \<Longrightarrow> a \<le> int (length m) \<Longrightarrow> laid m a [] a"
  by (simp add: laid_Nil)

lemma laid_bounds: "laid m a ds b \<Longrightarrow> 0 \<le> a \<and> a \<le> b \<and> b \<le> int (length m)"
  by (simp add: laid_def)

lemma laid_size: "laid m a ds b \<Longrightarrow> b - a = (\<Sum>d\<leftarrow>ds. int (length d) + 13)"
proof -
  assume l: "laid m a ds b"
  then have "nat (b - a) = length (concat (map elt_image ds))" using length_mem_read [of "nat a" "nat (b - a)" m] by (auto simp: laid_def)
  moreover have "int (length (concat (map elt_image ds))) = (\<Sum>d\<leftarrow>ds. int (length d) + 13)" by (induction ds) simp_all
  ultimately show ?thesis using laid_bounds [OF l] by linarith
qed

lemma laid_same: "laid m a ds a \<Longrightarrow> ds = []"
proof -
  assume "laid m a ds a"
  then have "concat (map elt_image ds) = []" by (simp add: laid_def)
  then show "ds = []" by (cases ds) (auto simp: elt_image_def le32_bytes_def)
qed

lemma laid_cong:
  assumes "laid m a ds b" "length m' = length m"
    and "mem_read (nat a) (nat (b - a)) m' = mem_read (nat a) (nat (b - a)) m"
  shows "laid m' a ds b"
  using assms by (simp add: laid_def)

lemma laid_append:
  assumes "laid m a ds b" "mem_read (nat b) (length d + 13) m = elt_image d"
    and "c = b + int (length d + 13)" "c \<le> int (length m)"
  shows "laid m a (ds @ [d]) c"
proof -
  have "nat (c - a) = nat (b - a) + (length d + 13)" "nat b = nat a + nat (b - a)"
    using assms(1,3) by (auto simp: laid_def)
  then show ?thesis
    using assms mem_read_split [of "nat a" "nat (b - a)" "length d + 13" m]
    by (auto simp: laid_def)
qed

lemma laid_Cons:
  assumes "laid m a (d # ds) b"
  shows "mem_read (nat a) (length d + 13) m = elt_image d"
    and "laid m (a + int (length d + 13)) ds b"
proof -
  let ?n = "length d + 13"
  have len: "nat (b - a) = ?n + length (concat (map elt_image ds))"
    using assms length_mem_read [of "nat a" "nat (b - a)" m] by (auto simp: laid_def)
  moreover have bounds: "nat a + ?n + length (concat (map elt_image ds)) \<le> length m"
    using laid_bounds [OF assms] len by linarith
  ultimately have split: "mem_read (nat a) (nat (b - a)) m =
      mem_read (nat a) ?n m @ mem_read (nat a + ?n) (length (concat (map elt_image ds))) m"
    by (simp only: mem_read_split [OF bounds])
  have *: "mem_read (nat a) ?n m @ mem_read (nat a + ?n) (length (concat (map elt_image ds))) m =
      elt_image d @ concat (map elt_image ds)"
    using assms split by (simp add: laid_def)
  have l: "length (mem_read (nat a) ?n m) = ?n"
    using bounds by (intro length_mem_read) simp
  with * show hd: "mem_read (nat a) ?n m = elt_image d" by (simp add: append_eq_append_conv)
  with * have "mem_read (nat a + ?n) (length (concat (map elt_image ds))) m = concat (map elt_image ds)"
    by simp
  moreover have "nat (a + int ?n) = nat a + ?n" "nat (b - (a + int ?n)) = length (concat (map elt_image ds))"
    using assms len by (auto simp: laid_def)
  ultimately show "laid m (a + int ?n) ds b"
    using assms len by (simp add: laid_def)
qed

text \<open>Writes outside a region leave what is laid out there.\<close>

lemma laid_write_other:
  assumes "laid m a ds b" "0 \<le> p" "p + int (length bs) \<le> int (length m)" "b \<le> p \<or> p + int (length bs) \<le> a"
  shows "laid (mem_write (nat p) bs m) a ds b"
proof (rule laid_cong [OF assms(1)])
  note bounds = laid_bounds [OF assms(1)]
  have "nat p + length bs \<le> length m" "nat a + nat (b - a) \<le> length m"
    "nat a + nat (b - a) \<le> nat p \<or> nat p + length bs \<le> nat a"
    using bounds assms(2-) by linarith+
  then show "mem_read (nat a) (nat (b - a)) (mem_write (nat p) bs m) = mem_read (nat a) (nat (b - a)) m"
    by (rule mem_read_write_other)
qed simp

lemma laid_set_other:
  assumes "laid m a ds b" "0 \<le> p" "0 \<le> n" "p + n \<le> int (length m)" "b \<le> p \<or> p + n \<le> a"
  shows "laid (mem_set (nat p) c (nat n) m) a ds b"
  unfolding mem_set_def by (rule laid_write_other [OF assms(1,2)]) (use assms(3-) in simp_all)

text \<open>The three writes of \<^verbatim>\<open>enqueue_elt\<close> amount to writing the image of the element.\<close>

lemma write_image:
  assumes "p + length d + 13 \<le> length m"
  shows "mem_write (p + 8) d (mem_set (p + 8) PAD (length d + 5)
           (mem_write p (le32_bytes ELTCHECK @ le32_bytes (word_of_int (int (length d) + 13))) m)) =
         mem_write p (elt_image d) m"
proof (rule nth_equalityI)
  fix i assume "i < length (mem_write (p + 8) d (mem_set (p + 8) PAD (length d + 5)
           (mem_write p (le32_bytes ELTCHECK @ le32_bytes (word_of_int (int (length d) + 13))) m)))"
  show "mem_write (p + 8) d (mem_set (p + 8) PAD (length d + 5)
           (mem_write p (le32_bytes ELTCHECK @ le32_bytes (word_of_int (int (length d) + 13))) m)) ! i =
         mem_write p (elt_image d) m ! i"
    using assms by (auto simp: nth_mem_write nth_mem_set elt_image_def nth_append add.commute)
qed simp

section \<open>Finding space\<close>

text \<open>
  \<open>queue_fits q n\<close> is when an element of \<open>n\<close> bytes is accepted; \<open>queue_room\<close> is what finding
  space establishes for the write at \<^verbatim>\<open>tail\<close>.
\<close>

definition queue_fits :: "Queue \<Rightarrow> int \<Rightarrow> bool" where
  "queue_fits q n \<longleftrightarrow> \<not> QFULL q \<and>
     (if tail q < head q then n \<le> head q - tail q else n \<le> q_end q - tail q \<or> n \<le> head q)"

definition queue_room :: "Queue \<Rightarrow> byte list list \<Rightarrow> int \<Rightarrow> bool" where
  "queue_room q ds n \<longleftrightarrow> queue_rep q ds \<and>
     (rep_linear q ds \<and> tail q + n \<le> q_end q \<or> rep_wrapped q ds \<and> tail q + n \<le> head q)"

lemma wall_reset_id: "wall q = q_end q \<Longrightarrow> q\<lparr>wall := q_end q\<rparr> = q"
  by (cases q) simp

lemma rep_wrappedD:
  "rep_wrapped q ds \<Longrightarrow> 0 \<le> tail q \<and> tail q \<le> head q \<and> head q \<le> wall q \<and> wall q \<le> int (length (buf q))"
  by (auto simp: rep_wrapped_def dest: laid_bounds)

lemma rep_linearD:
  "rep_linear q ds \<Longrightarrow> 0 \<le> head q \<and> head q \<le> tail q \<and> tail q \<le> int (length (buf q))"
  by (auto simp: rep_linear_def dest: laid_bounds)

lemma QFULL_wrapped: "rep_wrapped q ds \<Longrightarrow> QFULL q \<longleftrightarrow> tail q = head q"
  by (auto simp: rep_wrapped_def QFULL_def QFREESPACE_def)

lemma QFULL_linear: "rep_linear q ds \<Longrightarrow> QFULL q \<longleftrightarrow> q_end q = tail q - head q"
  by (auto simp: rep_linear_def QFULL_def QFREESPACE_def)

lemma space_wrapped:
  assumes "rep_wrapped q ds" "\<not> QFULL q"
  shows "enqueue_space n q = (Some (head q - tail q), q)" "tail q < head q"
  using assms rep_wrappedD [OF assms(1)] QFULL_wrapped [OF assms(1)]
  by (auto simp: enqueue_space_def Let_def)

lemma space_linear:
  assumes "rep_linear q ds" "\<not> QFULL q" "n \<le> q_end q - tail q"
  shows "enqueue_space n q = (Some (q_end q - tail q), q)"
proof -
  have "wall q = q_end q" using assms(1) by (simp add: rep_linear_def)
  then show ?thesis
    using assms rep_linearD [OF assms(1)] by (simp add: enqueue_space_def Let_def wall_reset_id)
qed

definition wrap_tail :: "Queue \<Rightarrow> Queue" where
  "wrap_tail q = q\<lparr>buf := mem_set (nat (tail q)) 0xff (nat (q_end q - tail q)) (buf q),
                    wall := tail q, tail := 0\<rparr>"

lemma space_wrap:
  assumes "rep_linear q ds" "\<not> QFULL q" "q_end q - tail q < n"
  shows "enqueue_space n q = (if head q = 0 then None else Some (head q), wrap_tail q)"
proof -
  have w: "wall q = q_end q" using assms(1) by (simp add: rep_linear_def)
  then have id: "q\<lparr>wall := q_end q\<rparr> = q" by (rule wall_reset_id)
  have "QFREESPACE (wrap_tail q) = head q"
    using assms(1) by (simp add: wrap_tail_def QFREESPACE_def rep_linear_def)
  then have full: "QFULL (wrap_tail q) \<longleftrightarrow> head q = 0" by (simp add: QFULL_def)
  have hd: "0 \<le> head q" "head q \<le> tail q" using rep_linearD [OF assms(1)] by auto
  show ?thesis
    using assms(2,3) hd full
    by (simp add: enqueue_space_def Let_def id wrap_tail_def [symmetric] cong: if_cong)
qed

lemma wrap_tail_rep:
  assumes "queue_rep q ds" "rep_linear q ds"
  shows "queue_rep (wrap_tail q) ds" "rep_wrapped (wrap_tail q) ds"
proof -
  let ?m = "mem_set (nat (tail q)) 0xff (nat (q_end q - tail q)) (buf q)"
  have len: "q_end q = int (length (buf q))" using assms(1) by (simp add: queue_rep_def)
  have b: "0 \<le> head q" "head q \<le> tail q" "tail q \<le> q_end q"
    using rep_linearD [OF assms(2)] len by auto
  have "laid (buf q) (head q) ds (tail q)" using assms(2) by (simp add: rep_linear_def)
  then have "laid ?m (head q) ds (tail q)"
    by (rule laid_set_other) (use b len in linarith)+
  moreover have "laid ?m 0 [] 0" by (simp add: laid_Nil)
  ultimately have "\<exists>ds1 ds2. ds = ds1 @ ds2 \<and> laid ?m (head q) ds1 (tail q) \<and> laid ?m 0 ds2 0"
    by (metis append_Nil2)
  then show w: "rep_wrapped (wrap_tail q) ds"
    using assms(2) b by (simp add: rep_wrapped_def wrap_tail_def rep_linear_def)
  show "queue_rep (wrap_tail q) ds"
    using assms(1) w by (simp add: queue_rep_def wrap_tail_def)
qed

lemma enqueue_space_cases:
  assumes "queue_rep q ds" "0 < n"
  obtains
    (refused) r where "\<not> queue_fits q n" "enqueue_space n q = (r, q)" "\<forall>sp. r = Some sp \<longrightarrow> sp < n"
  | (wrap_refused) r where "\<not> queue_fits q n" "rep_linear q ds" "enqueue_space n q = (r, wrap_tail q)"
      "\<forall>sp. r = Some sp \<longrightarrow> sp < n"
  | (here) sp where "queue_fits q n" "enqueue_space n q = (Some sp, q)" "n \<le> sp" "queue_room q ds n"
  | (wrap) sp where "queue_fits q n" "rep_linear q ds" "enqueue_space n q = (Some sp, wrap_tail q)" "n \<le> sp"
      "queue_room (wrap_tail q) ds n"
proof (cases "QFULL q")
  case True
  then show thesis by (intro refused [of None]) (simp_all add: queue_fits_def enqueue_space_def)
next
  case nf: False
  show thesis
  proof (cases "rep_wrapped q ds")
    case True
    note sp = space_wrapped [OF True nf]
    show thesis
    proof (cases "n \<le> head q - tail q")
      case fit: True
      show thesis
        by (rule here [OF _ sp(1) fit]) (use sp(2) nf fit True assms in \<open>auto simp: queue_fits_def queue_room_def\<close>)
    next
      case False
      then show thesis using sp nf by (intro refused [OF _ sp(1)]) (auto simp: queue_fits_def)
    qed
  next
    case False
    with assms have lin: "rep_linear q ds" by (simp add: queue_rep_def)
    note b = rep_linearD [OF lin]
    show thesis
    proof (cases "n \<le> q_end q - tail q")
      case fit: True
      show thesis
        by (rule here [OF _ space_linear [OF lin nf fit] fit])
          (use b nf fit lin assms in \<open>auto simp: queue_fits_def queue_room_def\<close>)
    next
      case nofit: False
      note sp = space_wrap [OF lin nf, of n] and w = wrap_tail_rep [OF assms(1) lin]
      show thesis
      proof (cases "n \<le> head q")
        case True
        have room: "queue_room (wrap_tail q) ds n"
          using w True by (simp add: queue_room_def) (simp add: wrap_tail_def)
        show thesis
          by (rule wrap [OF _ lin _ True room]) (use sp nofit True assms b nf in \<open>auto simp: queue_fits_def\<close>)
      next
        case False
        then show thesis
          using sp nofit nf b by (intro wrap_refused [OF _ lin]) (auto simp: queue_fits_def split: if_splits)
      qed
    qed
  qed
qed

section \<open>Adding and removing an element\<close>

definition put_elt :: "byte list \<Rightarrow> Queue \<Rightarrow> Queue" where
  "put_elt d q = q\<lparr>buf := mem_write (nat (tail q)) (elt_image d) (buf q),
     tail := tail q + (int (length d) + 13), numelts := numelts q + 1,
     avgfree := (of_int (numcalls q) * avgfree q + of_int (bytesfree q)) / of_int (numcalls q + 1),
     numcalls := numcalls q + 1, bytesfree := bytesfree q - (int (length d) + 13)\<rparr>"

lemma room_bounds:
  assumes "queue_room q ds n"
  shows "0 \<le> tail q" "tail q + n \<le> int (length (buf q))" "n \<le> bytesfree q"
proof -
  have len: "q_end q = int (length (buf q))" using assms by (simp add: queue_room_def queue_rep_def)
  consider (linear) "rep_linear q ds" "tail q + n \<le> q_end q" | (wrapped) "rep_wrapped q ds" "tail q + n \<le> head q"
    using assms by (auto simp: queue_room_def)
  then have "0 \<le> tail q \<and> tail q + n \<le> int (length (buf q)) \<and> n \<le> bytesfree q"
  proof cases
    case linear
    with rep_linearD [OF linear(1)] len show ?thesis by (simp add: rep_linear_def)
  next
    case wrapped
    with rep_wrappedD [OF wrapped(1)] len show ?thesis by (simp add: rep_wrapped_def)
  qed
  then show "0 \<le> tail q" "tail q + n \<le> int (length (buf q))" "n \<le> bytesfree q" by auto
qed

lemma enqueue_write_put:
  assumes room: "queue_room q ds (int (length d) + 13)"
    and ser: "serialize qs x (int (length d)) = Inr (ok, d)"
  shows "enqueue_write qs x (int (length d) + 13) q = (Inr True, put_elt d q)"
proof -
  note b = room_bounds [OF room]
  have "nat (tail q) + length d + 13 \<le> length (buf q)" using b by linarith
  note img = write_image [OF this]
  have n: "nat (int (length d) + 13 - QHDRSZ) = length d + 5"
    "int (length d) + 13 - QHDRSZ - PADSIZE = int (length d)"
    by (simp_all add: queue_consts nat_diff_distrib)
  show ?thesis
    using b img by (simp add: enqueue_write_def n ser Let_def put_elt_def)
qed

lemma laid_put:
  assumes "laid m a ds b" "b + (int (length d) + 13) \<le> int (length m)"
  shows "laid (mem_write (nat b) (elt_image d) m) a (ds @ [d]) (b + (int (length d) + 13))"
proof -
  note bounds = laid_bounds [OF assms(1)]
  have "laid (mem_write (nat b) (elt_image d) m) a ds b"
    by (rule laid_write_other [OF assms(1)]) (use assms(2) bounds in simp_all)
  moreover have "mem_read (nat b) (length (elt_image d)) (mem_write (nat b) (elt_image d) m) = elt_image d"
    by (rule mem_read_write_same) (simp, use assms(2) bounds in linarith)
  ultimately show ?thesis
    using assms(2) by (intro laid_append) simp_all
qed

lemma put_elt_rep:
  assumes room: "queue_room q ds (int (length d) + 13)"
  shows "queue_rep (put_elt d q) (ds @ [d])"
proof -
  have rep: "queue_rep q ds" using room by (simp add: queue_room_def)
  then have len: "q_end q = int (length (buf q))" by (simp add: queue_rep_def)
  consider (linear) "rep_linear q ds" "tail q + (int (length d) + 13) \<le> q_end q"
    | (wrapped) "rep_wrapped q ds" "tail q + (int (length d) + 13) \<le> head q"
    using room by (auto simp: queue_room_def)
  then have "rep_linear (put_elt d q) (ds @ [d]) \<or> rep_wrapped (put_elt d q) (ds @ [d])"
  proof cases
    case linear
    then show ?thesis
      using laid_put [of "buf q" "head q" ds "tail q" d] len by (simp add: rep_linear_def put_elt_def)
  next
    case wrapped
    then obtain ds1 ds2 where ds: "ds = ds1 @ ds2" "laid (buf q) (head q) ds1 (wall q)" "laid (buf q) 0 ds2 (tail q)"
      by (auto simp: rep_wrapped_def)
    note b = rep_wrappedD [OF wrapped(1)]
    have "laid (mem_write (nat (tail q)) (elt_image d) (buf q)) (head q) ds1 (wall q)"
      by (rule laid_write_other [OF ds(2)]) (use b wrapped(2) in simp_all)
    moreover have "laid (mem_write (nat (tail q)) (elt_image d) (buf q)) 0 (ds2 @ [d]) (tail q + (int (length d) + 13))"
      by (rule laid_put [OF ds(3)]) (use b wrapped(2) in simp)
    ultimately have "rep_wrapped (put_elt d q) (ds @ [d])"
      using wrapped ds(1) by (auto simp: rep_wrapped_def put_elt_def)
    then show ?thesis ..
  qed
  then show ?thesis using rep by (simp add: queue_rep_def put_elt_def)
qed

lemma enqueue_elt_cases:
  assumes rep: "queue_rep q ds"
    and sz: "determineSize qs x = Inr (int (length d))"
    and ser: "serialize qs x (int (length d)) = Inr (ok, d)"
  obtains
    (refused) q' where "\<not> queue_fits q (int (length d) + 13)" "enqueue_elt qs x q = (Inr False, q')"
      "q' = q \<or> rep_linear q ds \<and> q' = wrap_tail q"
  | (accepted) q' where "queue_fits q (int (length d) + 13)" "enqueue_elt qs x q = (Inr True, put_elt d q')"
      "q' = q \<or> rep_linear q ds \<and> q' = wrap_tail q" "queue_room q' ds (int (length d) + 13)"
proof -
  let ?n = "int (length d) + 13"
  have n: "int (length d) + QHDRSZ + PADSIZE = ?n" by (simp add: queue_consts)
  have pos: "0 < ?n" by simp
  show thesis
    using rep pos
  proof (cases rule: enqueue_space_cases)
    case (refused r)
    then show thesis
      by (intro that(1) [of q]) (auto simp: enqueue_elt_def sz n Let_def split: option.split)
  next
    case (wrap_refused r)
    then show thesis
      by (intro that(1) [of "wrap_tail q"]) (auto simp: enqueue_elt_def sz n Let_def split: option.split)
  next
    case (here sp)
    then show thesis
      by (intro that(2) [of q]) (simp_all add: enqueue_elt_def sz n Let_def enqueue_write_put [OF _ ser])
  next
    case (wrap sp)
    then show thesis
      by (intro that(2) [of "wrap_tail q"]) (simp_all add: enqueue_elt_def sz n Let_def enqueue_write_put [OF _ ser])
  qed
qed

text \<open>What \<^verbatim>\<open>enqueue_elt\<close> leaves alone.\<close>

definition same_frame :: "Queue \<Rightarrow> Queue \<Rightarrow> bool" where
  "same_frame q q' \<longleftrightarrow> q_size q' = q_size q \<and> qid q' = qid q \<and> q_end q' = q_end q \<and> ql q' = ql q"

lemma same_frame_ops [simp]:
  "same_frame q q" "same_frame q (wrap_tail q)" "same_frame q (put_elt d q') = same_frame q q'"
  by (auto simp: same_frame_def wrap_tail_def put_elt_def)

lemma fits_wrap_tail:
  assumes rep: "queue_rep q ds" and lin: "rep_linear q ds" and no: "\<not> queue_fits q n"
  shows "\<not> queue_fits (wrap_tail q) n"
proof -
  have b: "0 \<le> head q" "head q \<le> tail q" "tail q \<le> q_end q"
    using rep_linearD [OF lin] rep by (auto simp: queue_rep_def)
  have free: "QFREESPACE (wrap_tail q) = head q"
    using lin by (simp add: wrap_tail_def QFREESPACE_def rep_linear_def)
  show ?thesis
  proof (cases "QFULL q")
    case True
    then show ?thesis using QFULL_linear [OF lin] b free by (simp add: queue_fits_def QFULL_def)
  next
    case False
    then show ?thesis using no b free by (auto simp: queue_fits_def QFULL_def wrap_tail_def)
  qed
qed

lemma enqueue_elt_rep:
  assumes "queue_rep q ds" "determineSize qs x = Inr (int (length d))"
    "serialize qs x (int (length d)) = Inr (ok, d)"
  obtains q' where "enqueue_elt qs x q = (Inr (queue_fits q (int (length d) + 13)), q')" "same_frame q q'"
    "queue_rep q' (if queue_fits q (int (length d) + 13) then ds @ [d] else ds)"
    "\<not> queue_fits q (int (length d) + 13) \<Longrightarrow> \<not> queue_fits q' (int (length d) + 13)"
  using assms
proof (cases rule: enqueue_elt_cases)
  case (refused q')
  then show thesis
    using assms(1) wrap_tail_rep(1) [of q ds] fits_wrap_tail [of q ds] by (intro that [of q']) auto
next
  case (accepted q')
  then show thesis using put_elt_rep by (intro that [of "put_elt d q'"]) auto
qed

lemma image_fields:
  assumes "mem_read p (length d + 13) m = elt_image d" "length d + 13 < 2 ^ 30"
  shows "elt_check m p = ELTCHECK"
    and "VARSIZE (drop (p + 4) m) = int (length d) + 13"
    and "\<exists>rest. drop (p + 8) m = d @ rest"
proof -
  define r where "r = drop (length d + 13) (drop p m)"
  have m: "drop p m = elt_image d @ r"
    using assms(1) append_take_drop_id [of "length d + 13" "drop p m"] by (simp add: mem_read_def r_def)
  have d4: "drop (p + 4) m = drop 4 (elt_image d @ r)" and d8: "drop (p + 8) m = drop 8 (elt_image d @ r)"
    by (simp_all add: m [symmetric] add.commute)
  show "elt_check m p = ELTCHECK"
    unfolding elt_check_def
    by (rule le32_roundtrip_take) (simp add: mem_read_def m elt_image_def)
  have "le32_of_bytes (mem_read 0 4 (drop (p + 4) m)) = word_of_int (int (length d) + 13)"
    by (rule le32_roundtrip_take) (simp add: mem_read_def d4 elt_image_def)
  moreover have "uint (word_of_int (int (length d) + 13) AND 0x3fffffff :: 32 word) = int (length d) + 13"
  proof -
    have "0x3fffffff = (mask 30 :: 32 word)" by (simp add: mask_eq_exp_minus_1)
    moreover have "(int (length d) + 13) mod 2 ^ 32 = int (length d) + 13"
      "(int (length d) + 13) mod 2 ^ 30 = int (length d) + 13"
      using assms(2) by simp_all
    ultimately show ?thesis
      by (simp only: and_mask_mod_2p uint_and take_bit_eq_mask [symmetric] uint_word_of_int
          flip: take_bit_eq_mask) (simp add: unsigned_take_bit_eq take_bit_eq_mod)
  qed
  ultimately show "VARSIZE (drop (p + 4) m) = int (length d) + 13"
    by (simp add: VARSIZE_def)
  show "\<exists>rest. drop (p + 8) m = d @ rest"
    unfolding d8 by (simp add: elt_image_def)
qed

lemma queue_rep_empty:
  assumes "queue_rep q ds"
  shows "bytesfree q = q_end q \<longleftrightarrow> ds = []"
proof -
  consider "rep_linear q ds" | "rep_wrapped q ds" using assms by (auto simp: queue_rep_def)
  then show ?thesis
  proof cases
    case 1
    then show ?thesis using laid_same by (auto simp: rep_linear_def laid_Nil)
  next
    case 2
    then obtain ds1 ds2 where ds: "ds = ds1 @ ds2" "laid (buf q) (head q) ds1 (wall q)" "laid (buf q) 0 ds2 (tail q)"
      by (auto simp: rep_wrapped_def)
    have "bytesfree q = q_end q \<longleftrightarrow> wall q = head q \<and> tail q = 0"
      using 2 rep_wrappedD [OF 2] by (auto simp: rep_wrapped_def)
    also have "\<dots> \<longleftrightarrow> ds1 = [] \<and> ds2 = []"
      using ds laid_same by (auto simp: laid_Nil)
    finally show ?thesis using ds(1) by simp
  qed
qed

definition take_elt :: "int \<Rightarrow> Queue \<Rightarrow> Queue" where
  "take_elt n q = q\<lparr>buf := mem_set (nat (head q)) 0 (nat n) (buf q), head := head q + n,
     bytesfree := bytesfree q + n, numelts := numelts q - 1\<rparr>"

definition reset_head :: "Queue \<Rightarrow> Queue" where
  "reset_head q = (if head q = wall q then q\<lparr>head := 0, wall := q_end q\<rparr> else q)"

text \<open>After the wrap-around test of \<^verbatim>\<open>dequeue_elt\<close> the oldest element starts at \<^verbatim>\<open>head\<close>.\<close>

lemma reset_head_cases:
  assumes rep: "queue_rep q (d # ds)"
  obtains
    (linear) "queue_rep (reset_head q) (d # ds)" "head q \<le> wall q" "rep_linear (reset_head q) (d # ds)"
  | (wrapped) ds1 ds2 where "reset_head q = q" "head q \<le> wall q" "rep_wrapped q (d # ds)" "ds = ds1 @ ds2"
      "laid (buf q) (head q) (d # ds1) (wall q)" "laid (buf q) 0 ds2 (tail q)"
proof -
  have len: "q_end q = int (length (buf q))" using rep by (simp add: queue_rep_def)
  consider (lin) "rep_linear q (d # ds)" | (wrp) "rep_wrapped q (d # ds)"
    using rep by (auto simp: queue_rep_def)
  then show thesis
  proof cases
    case lin
    have "head q \<noteq> tail q"
      using lin laid_same [of "buf q" "head q" "d # ds"] by (auto simp: rep_linear_def)
    with lin rep_linearD [OF lin] len have "head q < wall q" by (simp add: rep_linear_def)
    then show thesis using lin rep by (intro linear) (simp_all add: reset_head_def)
  next
    case wrp
    then obtain ds1 ds2 where ds: "d # ds = ds1 @ ds2" "laid (buf q) (head q) ds1 (wall q)" "laid (buf q) 0 ds2 (tail q)"
      by (auto simp: rep_wrapped_def)
    note b = rep_wrappedD [OF wrp]
    show thesis
    proof (cases ds1)
      case Nil
      with ds have e: "head q = wall q" "laid (buf q) 0 (d # ds) (tail q)" by (simp_all add: laid_Nil)
      then have r: "reset_head q = q\<lparr>head := 0, wall := q_end q\<rparr>" by (simp add: reset_head_def)
      have "rep_linear (reset_head q) (d # ds)"
        using e wrp by (simp add: r rep_linear_def rep_wrapped_def)
      then show thesis using e rep b by (intro linear) (auto simp: r queue_rep_def)
    next
      case (Cons d' ds1')
      with ds laid_same [of "buf q" "head q" ds1] have "head q \<noteq> wall q" by auto
      then show thesis using Cons ds b wrp by (intro wrapped) (auto simp: reset_head_def)
    qed
  qed
qed

lemma head_image:
  assumes rep: "queue_rep q (d # ds)"
  shows "0 \<le> head (reset_head q)" "length d + 13 < 2 ^ 30"
    "mem_read (nat (head (reset_head q))) (length d + 13) (buf (reset_head q)) = elt_image d"
proof -
  let ?q = "reset_head q"
  have "\<exists>ds1 e. laid (buf ?q) (head ?q) (d # ds1) e \<and> length (buf ?q) < 2 ^ 30"
    using rep
  proof (cases rule: reset_head_cases)
    case linear
    then show ?thesis by (auto simp: rep_linear_def queue_rep_def queue_consts)
  next
    case (wrapped ds1 ds2)
    then show ?thesis using rep by (auto simp: queue_rep_def queue_consts)
  qed
  then obtain ds1 e where l: "laid (buf ?q) (head ?q) (d # ds1) e" and "length (buf ?q) < 2 ^ 30" by blast
  with laid_Cons(1) [OF l] laid_bounds [OF l] laid_bounds [OF laid_Cons(2) [OF l]]
  show "0 \<le> head ?q" "length d + 13 < 2 ^ 30"
    "mem_read (nat (head ?q)) (length d + 13) (buf ?q) = elt_image d" by auto
qed

lemma laid_take:
  assumes "laid m a (d # ds) b"
  shows "laid (mem_set (nat a) 0 (nat (int (length d) + 13)) m) (a + (int (length d) + 13)) ds b"
  using laid_Cons(2) [OF assms] laid_bounds [OF assms] laid_bounds [OF laid_Cons(2) [OF assms]]
  by (intro laid_set_other) simp_all

lemma take_elt_rep:
  assumes rep: "queue_rep q (d # ds)"
  shows "queue_rep (take_elt (int (length d) + 13) (reset_head q)) ds"
  using rep
proof (cases rule: reset_head_cases)
  case linear
  then have "rep_linear (take_elt (int (length d) + 13) (reset_head q)) ds"
    using laid_take [of "buf (reset_head q)" "head (reset_head q)"]
    by (simp add: rep_linear_def take_elt_def)
  with linear show ?thesis by (simp add: queue_rep_def take_elt_def)
next
  case (wrapped ds1 ds2)
  note b = rep_wrappedD [OF wrapped(3)] laid_bounds [OF wrapped(5)] laid_bounds [OF laid_Cons(2) [OF wrapped(5)]]
  have "laid (mem_set (nat (head q)) 0 (nat (int (length d) + 13)) (buf q)) 0 ds2 (tail q)"
    by (rule laid_set_other [OF wrapped(6)]) (use b in auto)
  with laid_take [OF wrapped(5)] wrapped have "rep_wrapped (take_elt (int (length d) + 13) q) ds"
    by (auto simp: rep_wrapped_def take_elt_def)
  with wrapped rep show ?thesis by (simp add: queue_rep_def take_elt_def)
qed

lemma dequeue_elt_take:
  assumes rep: "queue_rep q (d # ds)" and des: "\<And>rest. deserialize qs (d @ rest) = Inr x"
  shows "dequeue_elt qs q = (Inr (Some x), take_elt (int (length d) + 13) (reset_head q))"
proof -
  note img = image_fields [OF head_image(3,2) [OF rep]]
  obtain rest where "drop (nat (head (reset_head q)) + 8) (buf (reset_head q)) = d @ rest"
    using img(3) by blast
  moreover have "bytesfree q \<noteq> q_end q" using queue_rep_empty [OF rep] by simp
  moreover have "head q \<le> wall q" using rep by (cases rule: reset_head_cases)
  ultimately show ?thesis
    using img(1,2) des [of rest]
    by (simp add: dequeue_elt_def reset_head_def [symmetric] take_elt_def Let_def)
qed

lemma dequeue_elt_none:
  assumes "queue_rep q []"
  shows "dequeue_elt qs q = (Inr None, q)"
  using queue_rep_empty [OF assms] by (simp add: dequeue_elt_def)

lemma same_frame_dequeue [simp]: "same_frame q (take_elt n (reset_head q))"
  by (simp add: same_frame_def take_elt_def reset_head_def)

end
