(* ===== verification/Fifo_Spec.thy ===== *)
theory Fifo_Spec
  imports TCQ_Prelude
begin

text \<open>
  What a queue promises its clients: \<open>rep q es\<close> says that the queue \<open>q\<close> holds the elements
  \<open>es\<close>, oldest first. A \<open>put\<close> either appends or refuses; a \<open>get\<close> delivers the oldest element or
  reports that there is none. \<open>fifo_run\<close> is a client: a sequence of calls that collects the
  elements accepted and the elements delivered.
\<close>

datatype 'e fifo_op = Put 'e | Get

fun fifo_run :: "('e \<Rightarrow> ('q, bool) prog) \<Rightarrow> ('q, 'e option) prog \<Rightarrow> 'e fifo_op list \<Rightarrow> ('q, 'e list \<times> 'e list) prog" where
  "fifo_run put get [] = return_prog ([], [])"
| "fifo_run put get (Put x # ops) =
     bind_prog (put x) (\<lambda>accepted.
     bind_prog (fifo_run put get ops) (\<lambda>(ins, outs).
     return_prog (if accepted then x # ins else ins, outs)))"
| "fifo_run put get (Get # ops) =
     bind_prog get (\<lambda>r.
     bind_prog (fifo_run put get ops) (\<lambda>(ins, outs).
     return_prog (ins, (case r of None \<Rightarrow> outs | Some x \<Rightarrow> x # outs))))"

definition op_storable :: "('e \<Rightarrow> bool) \<Rightarrow> 'e fifo_op \<Rightarrow> bool" where
  "op_storable storable c = (case c of Put x \<Rightarrow> storable x | Get \<Rightarrow> True)"

locale fifo_buffer =
  fixes rep :: "'q \<Rightarrow> 'e list \<Rightarrow> bool"
    and put :: "'e \<Rightarrow> ('q, bool) prog"
    and get :: "('q, 'e option) prog"
    and storable :: "'e \<Rightarrow> bool"
  assumes put_step: "rep q es \<Longrightarrow> storable x \<Longrightarrow>
      \<exists>r q'. put x q = (Inr r, q') \<and> rep q' (if r then es @ [x] else es)"
    and get_step: "rep q es \<Longrightarrow>
      \<exists>q'. get q = (Inr (case es of [] \<Rightarrow> None | x # _ \<Rightarrow> Some x), q') \<and> rep q' (tl es)"
begin

text \<open>
  No call sequence fails, loses, duplicates or reorders: what was in the queue followed by what was
  accepted is what was delivered followed by what is still there.
\<close>

lemma run_conserves:
  "rep q es \<Longrightarrow> list_all (op_storable storable) ops \<Longrightarrow>
   \<exists>ins outs q' es'. fifo_run put get ops q = (Inr (ins, outs), q') \<and> rep q' es' \<and> es @ ins = outs @ es'"
proof (induction ops arbitrary: q es)
  case Nil
  then show ?case by auto
next
  case (Cons c ops)
  show ?case
  proof (cases c)
    case (Put x)
    with Cons.prems have "storable x" by (simp add: op_storable_def)
    from put_step [OF Cons.prems(1) this] obtain r q' where
      p: "put x q = (Inr r, q')" "rep q' (if r then es @ [x] else es)" by blast
    from Cons.IH [OF p(2)] Cons.prems(2) obtain ins outs q'' es' where
      run: "fifo_run put get ops q' = (Inr (ins, outs), q'')" "rep q'' es'"
      "(if r then es @ [x] else es) @ ins = outs @ es'" by auto
    then show ?thesis
      using p(1) by (cases r) (auto simp: Put bind_prog_simps)
  next
    case Get
    from get_step [OF Cons.prems(1)] obtain q' where
      g: "get q = (Inr (case es of [] \<Rightarrow> None | x # _ \<Rightarrow> Some x), q')" "rep q' (tl es)" by blast
    from Cons.IH [OF g(2)] Cons.prems(2) obtain ins outs q'' es' where
      run: "fifo_run put get ops q' = (Inr (ins, outs), q'')" "rep q'' es'" "tl es @ ins = outs @ es'" by auto
    then show ?thesis
      using g(1) by (cases es) (auto simp: Get bind_prog_simps)
  qed
qed

end

end
