(* ===== verification/Queue_Interface.thy ===== *)
theory Queue_Interface
  imports Result_Queue Fifo_Spec
begin

text \<open>
  The result queue as its clients see it. The locale \<open>queue_serializer_laws\<close> is the contract of a
  \<^verbatim>\<open>queue_serializer\<close> (\<^verbatim>\<open>src/src/include/rqueue/resultq.h\<close>): under it the element operations, and the
  locked operations \<^verbatim>\<open>enqueue\<close> and \<^verbatim>\<open>dequeue\<close> in non-blocking mode, are FIFO buffers of the
  serialized objects. The lock part shows that a call leaves the mutex free and keeps the
  semaphore that counts full slots equal to the number of elements.
\<close>

section \<open>Objects in the queue\<close>

definition encodes :: "'a queue_serializer \<Rightarrow> byte list \<Rightarrow> 'a \<Rightarrow> bool" where
  "encodes qs d x \<longleftrightarrow> determineSize qs x = Inr (int (length d)) \<and>
     (\<exists>ok. serialize qs x (int (length d)) = Inr (ok, d)) \<and> (\<forall>rest. deserialize qs (d @ rest) = Inr x)"

definition queue_holds :: "'a queue_serializer \<Rightarrow> Queue \<Rightarrow> 'a list \<Rightarrow> bool" where
  "queue_holds qs q xs \<longleftrightarrow> (\<exists>ds. queue_rep q ds \<and> list_all2 (encodes qs) ds xs)"

definition elt_bytes :: "'a queue_serializer \<Rightarrow> 'a \<Rightarrow> int" where
  "elt_bytes qs x = (case determineSize qs x of Inr n \<Rightarrow> n + QHDRSZ + PADSIZE | Inl _ \<Rightarrow> 0)"

lemma elt_bytes_encodes: "encodes qs d x \<Longrightarrow> elt_bytes qs x = int (length d) + 13"
  by (simp add: elt_bytes_def encodes_def queue_consts)

lemma enqueue_elt_holds:
  assumes "queue_holds qs q xs" "encodes qs d x"
  obtains q' where "enqueue_elt qs x q = (Inr (queue_fits q (elt_bytes qs x)), q')" "same_frame q q'"
    "queue_holds qs q' (if queue_fits q (elt_bytes qs x) then xs @ [x] else xs)"
    "\<not> queue_fits q (elt_bytes qs x) \<Longrightarrow> \<not> queue_fits q' (elt_bytes qs x)"
proof -
  obtain ds where ds: "queue_rep q ds" "list_all2 (encodes qs) ds xs"
    using assms(1) by (auto simp: queue_holds_def)
  obtain ok where e: "determineSize qs x = Inr (int (length d))" "serialize qs x (int (length d)) = Inr (ok, d)"
    using assms(2) by (auto simp: encodes_def)
  obtain q' where q': "enqueue_elt qs x q = (Inr (queue_fits q (int (length d) + 13)), q')" "same_frame q q'"
    "queue_rep q' (if queue_fits q (int (length d) + 13) then ds @ [d] else ds)"
    "\<not> queue_fits q (int (length d) + 13) \<Longrightarrow> \<not> queue_fits q' (int (length d) + 13)"
    using enqueue_elt_rep [OF ds(1) e] by blast
  note sz = elt_bytes_encodes [OF assms(2)]
  show thesis
  proof (rule that [of q'])
    show "queue_holds qs q' (if queue_fits q (elt_bytes qs x) then xs @ [x] else xs)"
      using q'(3) ds(2) assms(2) unfolding queue_holds_def sz
      by (cases "queue_fits q (int (length d) + 13)") (auto intro!: exI list_all2_appendI)
  qed (use q' sz in simp_all)
qed

lemma dequeue_elt_holds:
  assumes "queue_holds qs q xs"
  obtains q' where "dequeue_elt qs q = (Inr (case xs of [] \<Rightarrow> None | x # _ \<Rightarrow> Some x), q')" "same_frame q q'"
    "queue_holds qs q' (tl xs)"
proof -
  obtain ds where ds: "queue_rep q ds" "list_all2 (encodes qs) ds xs"
    using assms(1) by (auto simp: queue_holds_def)
  show thesis
  proof (cases xs)
    case Nil
    with ds have "dequeue_elt qs q = (Inr None, q)" by (simp add: dequeue_elt_none)
    with Nil assms show thesis by (intro that [of q]) auto
  next
    case (Cons x xs')
    with ds obtain d ds' where d: "ds = d # ds'" "encodes qs d x" "list_all2 (encodes qs) ds' xs'"
      by (auto simp: list_all2_Cons2)
    let ?q' = "take_elt (int (length d) + 13) (reset_head q)"
    have "dequeue_elt qs q = (Inr (Some x), ?q')"
      using ds(1) d by (intro dequeue_elt_take) (auto simp: encodes_def)
    moreover have "queue_holds qs ?q' xs'"
      using take_elt_rep ds(1) d by (auto simp: queue_holds_def)
    ultimately show thesis using Cons by (intro that [of ?q']) auto
  qed
qed

section \<open>Locks\<close>

text \<open>
  \<open>queue_ready\<close>: the queue holds \<open>xs\<close>, nobody is inside, the semaphore of full slots counts the
  elements, and the buffer is big enough for the \<^verbatim>\<open>Assert\<close> at the head of \<^verbatim>\<open>enqueue\<close>.
\<close>

definition full_ok :: "queue_lock \<Rightarrow> int \<Rightarrow> bool" where
  "full_ok l n \<longleftrightarrow> (case full_count l of None \<Rightarrow> True | Some k \<Rightarrow> k = n)"

definition queue_ready :: "'a queue_serializer \<Rightarrow> Queue \<Rightarrow> 'a list \<Rightarrow> bool" where
  "queue_ready qs q xs \<longleftrightarrow> queue_holds qs q xs \<and> QHDRSZ \<le> q_end q \<and> lock_free (ql q) \<and>
     full_ok (ql q) (int (length xs))"

lemma queue_rep_ql [simp]: "queue_rep (q\<lparr>ql := l\<rparr>) ds = queue_rep q ds"
  by (simp add: queue_rep_def rep_linear_def rep_wrapped_def)

lemma queue_holds_ql [simp]: "queue_holds qs (q\<lparr>ql := l\<rparr>) xs = queue_holds qs q xs"
  by (simp add: queue_holds_def)

lemma queue_fits_ql [simp]: "queue_fits (q\<lparr>ql := l\<rparr>) n = queue_fits q n"
  by (simp add: queue_fits_def QFULL_def QFREESPACE_def)

lemma QEMPTY_holds: "queue_holds qs q xs \<Longrightarrow> QEMPTY q \<longleftrightarrow> xs = []"
  using queue_rep_empty by (fastforce simp: queue_holds_def QEMPTY_def)

lemma sem_down_run:
  "trylock \<or> 0 < semas ! i \<Longrightarrow> sem_down i semas trylock =
     Inr (0 < semas ! i, Lock_sem (semas[i := if 0 < semas ! i then semas ! i - 1 else semas ! i]))"
  by (auto simp: sem_down_def TCQSemaphoreTryLock_def TCQSemaphoreLock_def)

lemma empty_down_free:
  assumes "lock_free l" "IsSemaphoreLock l" "trylock \<or> empty_count l \<noteq> Some 0"
  obtains g l1 where "empty_down l trylock = Inr (g, l1)" "lock_free l1" "IsSemaphoreLock l1" "full_count l1 = full_count l"
    "empty_count l1 = map_option (\<lambda>k. if 0 < k then k - 1 else k) (empty_count l)"
proof (cases l)
  case (Lock_sem semas)
  show thesis
    by (rule that) (use assms Lock_sem sem_down_run [of trylock semas] in \<open>auto simp: sem_index\<close>)
qed (use assms in auto)

lemma full_up_free:
  assumes "lock_free l" "IsSemaphoreLock l"
  obtains l1 where "full_up l = Inr l1" "lock_free l1" "IsSemaphoreLock l1"
    "full_count l1 = map_option (\<lambda>k. k + 1) (full_count l)" "empty_count l1 = empty_count l"
  using assms by (cases l) (auto simp: sem_up_def TCQSemaphoreUnlock_def sem_index)

lemma empty_up_free:
  assumes "lock_free l" "IsSemaphoreLock l"
  obtains l1 where "empty_up l = Inr l1" "lock_free l1" "IsSemaphoreLock l1" "full_count l1 = full_count l"
    "empty_count l1 = map_option (\<lambda>k. k + 1) (empty_count l)"
  using assms by (cases l) (auto simp: sem_up_def TCQSemaphoreUnlock_def sem_index)

lemma full_down_free:
  assumes "lock_free l" "IsSemaphoreLock l" "trylock \<or> full_count l \<noteq> Some 0"
  obtains g l1 where "full_down l trylock = Inr (g, l1)" "lock_free l1" "IsSemaphoreLock l1"
    "full_count l1 = map_option (\<lambda>k. if 0 < k then k - 1 else k) (full_count l)" "empty_count l1 = empty_count l"
proof (cases l)
  case (Lock_sem semas)
  show thesis
    by (rule that) (use assms Lock_sem sem_down_run [of trylock semas] in \<open>auto simp: sem_index\<close>)
qed (use assms in auto)

lemma empty_count_None: "empty_count l = None \<longleftrightarrow> \<not> IsSemaphoreLock l"
  by (cases l) auto

lemma full_count_None: "full_count l = None \<longleftrightarrow> \<not> IsSemaphoreLock l"
  by (cases l) auto

text \<open>A critical section whose body succeeds and leaves the lock alone leaves it as it was.\<close>

lemma critical_run:
  assumes "lock_free (ql q)"
    and "\<And>l. \<exists>q'. body (q\<lparr>ql := l\<rparr>) = (Inr r, q') \<and> ql q' = l \<and> P q'"
    and "\<And>q' l. P (q'\<lparr>ql := l\<rparr>) = P q'"
  obtains q' where "critical body q = (Inr r, q')" "ql q' = ql q" "P q'"
proof -
  obtain l where l: "mutex_lock (ql q) = Inr l" "mutex_unlock l = ql q"
    using assms(1) by (rule mutex_lock_free)
  from assms(2) [of l] obtain q' where q': "body (q\<lparr>ql := l\<rparr>) = (Inr r, q')" "ql q' = l" "P q'" by blast
  have "critical body q = (Inr r, q'\<lparr>ql := ql q\<rparr>)"
    using l q' by (simp add: critical_def queue_lock_op_def bind_prog_def)
  then show thesis by (rule that) (use q' assms(3) in simp_all)
qed

section \<open>The locked operations\<close>

lemma critical_enqueue:
  assumes "queue_holds qs q xs" "encodes qs d x" "lock_free (ql q)"
  obtains q' where
    "critical (bind_prog (enqueue_elt qs x) (\<lambda>ret q. (Inr (ret, QEMPTY q), q))) q =
       (Inr (queue_fits q (elt_bytes qs x), xs = [] \<and> \<not> queue_fits q (elt_bytes qs x)), q')"
    "ql q' = ql q" "q_end q' = q_end q"
    "queue_holds qs q' (if queue_fits q (elt_bytes qs x) then xs @ [x] else xs)"
    "\<not> queue_fits q (elt_bytes qs x) \<Longrightarrow> \<not> queue_fits q' (elt_bytes qs x)"
proof -
  let ?fit = "queue_fits q (elt_bytes qs x)"
  let ?P = "\<lambda>q'. q_end q' = q_end q \<and> queue_holds qs q' (if ?fit then xs @ [x] else xs) \<and>
      (\<not> ?fit \<longrightarrow> \<not> queue_fits q' (elt_bytes qs x))"
  have body: "\<exists>q'. bind_prog (enqueue_elt qs x) (\<lambda>ret q. (Inr (ret, QEMPTY q), q)) (q\<lparr>ql := l\<rparr>) =
      (Inr (?fit, xs = [] \<and> \<not> ?fit), q') \<and> ql q' = l \<and> ?P q'" for l
  proof -
    have "queue_holds qs (q\<lparr>ql := l\<rparr>) xs" using assms(1) by simp
    from enqueue_elt_holds [OF this assms(2), unfolded queue_fits_ql] obtain q' where
      "enqueue_elt qs x (q\<lparr>ql := l\<rparr>) = (Inr ?fit, q')" "same_frame (q\<lparr>ql := l\<rparr>) q'"
      "queue_holds qs q' (if ?fit then xs @ [x] else xs)"
      "\<not> ?fit \<Longrightarrow> \<not> queue_fits q' (elt_bytes qs x)" by blast
    moreover from this(3) have "QEMPTY q' \<longleftrightarrow> xs = [] \<and> \<not> ?fit" by (auto simp: QEMPTY_holds)
    ultimately show ?thesis by (auto simp: bind_prog_simps same_frame_def)
  qed
  show thesis
    by (rule critical_run [where P = ?P, OF assms(3) body]) (simp, rule that, assumption, simp_all)
qed

lemma critical_dequeue:
  assumes "queue_holds qs q xs" "lock_free (ql q)"
  obtains q' where "critical (dequeue_elt qs) q = (Inr (case xs of [] \<Rightarrow> None | x # _ \<Rightarrow> Some x), q')"
    "ql q' = ql q" "q_end q' = q_end q" "queue_holds qs q' (tl xs)"
proof -
  let ?P = "\<lambda>q'. q_end q' = q_end q \<and> queue_holds qs q' (tl xs)"
  have body: "\<exists>q'. dequeue_elt qs (q\<lparr>ql := l\<rparr>) = (Inr (case xs of [] \<Rightarrow> None | x # _ \<Rightarrow> Some x), q') \<and>
      ql q' = l \<and> ?P q'" for l
  proof -
    have "queue_holds qs (q\<lparr>ql := l\<rparr>) xs" using assms(1) by simp
    then obtain q' where "dequeue_elt qs (q\<lparr>ql := l\<rparr>) = (Inr (case xs of [] \<Rightarrow> None | x # _ \<Rightarrow> Some x), q')"
      "same_frame (q\<lparr>ql := l\<rparr>) q'" "queue_holds qs q' (tl xs)"
      by (rule dequeue_elt_holds)
    then show ?thesis by (auto simp: same_frame_def)
  qed
  show thesis
    by (rule critical_run [where P = ?P, OF assms(2) body]) (simp, rule that, assumption, simp_all)
qed

lemma enqueue_wait_ready:
  assumes "queue_ready qs q xs" "\<not> isBlocking \<or> empty_count (ql q) \<noteq> Some 0"
  obtains l where "sem_wait empty_down isBlocking q = (Inr (), q\<lparr>ql := l\<rparr>)" "queue_ready qs (q\<lparr>ql := l\<rparr>) xs"
    "IsSemaphoreLock l = IsSemaphoreLock (ql q)"
    "empty_count l = map_option (\<lambda>k. if 0 < k then k - 1 else k) (empty_count (ql q))"
proof (cases "IsSemaphoreLock (ql q)")
  case True
  moreover have "lock_free (ql q)" using assms(1) by (simp add: queue_ready_def)
  ultimately obtain g l where "empty_down (ql q) (\<not> isBlocking) = Inr (g, l)" "lock_free l"
    "IsSemaphoreLock l" "full_count l = full_count (ql q)"
    "empty_count l = map_option (\<lambda>k. if 0 < k then k - 1 else k) (empty_count (ql q))"
    using empty_down_free assms(2) by blast
  then show thesis
    using True assms(1) by (intro that [of l]) (auto simp: sem_wait_def queue_lock_op_def queue_ready_def full_ok_def)
next
  case False
  then show thesis
    using assms(1) empty_count_None [of "ql q"] by (intro that [of "ql q"]) (simp_all add: sem_wait_def)
qed

lemma enqueue_signal_ready:
  assumes holds: "queue_holds qs q (if ret then xs @ [x] else xs)" "QHDRSZ \<le> q_end q"
    and free: "lock_free (ql q)" "full_ok (ql q) (int (length xs))"
  obtains q' where "sem_signal full_up ret q = (Inr (), q')" "queue_ready qs q' (if ret then xs @ [x] else xs)"
    "q_end q' = q_end q" "\<not> ret \<Longrightarrow> q' = q"
proof (cases "ret \<and> IsSemaphoreLock (ql q)")
  case True
  then obtain l where "full_up (ql q) = Inr l" "lock_free l" "full_count l = map_option (\<lambda>k. k + 1) (full_count (ql q))"
    using full_up_free [OF free(1)] by blast
  then show thesis
    using True holds free by (intro that [of "q\<lparr>ql := l\<rparr>"])
      (auto simp: sem_signal_def queue_lock_op_def queue_ready_def full_ok_def split: option.splits)
next
  case False
  then show thesis
    using holds free full_count_None [of "ql q"]
    by (intro that [of q]) (auto simp: sem_signal_def queue_ready_def full_ok_def split: if_splits)
qed

lemma enqueue_round_ready:
  assumes ready: "queue_ready qs q xs" and enc: "encodes qs d x"
    and go: "\<not> isBlocking \<or> empty_count (ql q) \<noteq> Some 0"
  obtains q' where
    "enqueue_round qs x isBlocking q =
       (Inr (queue_fits q (elt_bytes qs x), xs = [] \<and> \<not> queue_fits q (elt_bytes qs x)), q')"
    "queue_ready qs q' (if queue_fits q (elt_bytes qs x) then xs @ [x] else xs)" "q_end q' = q_end q"
    "\<not> queue_fits q (elt_bytes qs x) \<Longrightarrow> \<not> queue_fits q' (elt_bytes qs x)"
    "\<not> queue_fits q (elt_bytes qs x) \<Longrightarrow> IsSemaphoreLock (ql q') = IsSemaphoreLock (ql q) \<and>
       empty_count (ql q') = map_option (\<lambda>k. if 0 < k then k - 1 else k) (empty_count (ql q))"
proof -
  let ?fit = "queue_fits q (elt_bytes qs x)"
  obtain l where l: "sem_wait empty_down isBlocking q = (Inr (), q\<lparr>ql := l\<rparr>)" "queue_ready qs (q\<lparr>ql := l\<rparr>) xs"
    "IsSemaphoreLock l = IsSemaphoreLock (ql q)"
    "empty_count l = map_option (\<lambda>k. if 0 < k then k - 1 else k) (empty_count (ql q))"
    using enqueue_wait_ready [OF ready go] by blast
  then have "queue_holds qs (q\<lparr>ql := l\<rparr>) xs" "lock_free (ql (q\<lparr>ql := l\<rparr>))" by (simp_all add: queue_ready_def)
  from critical_enqueue [OF this(1) enc this(2), unfolded queue_fits_ql] obtain q1 where
    c: "critical (bind_prog (enqueue_elt qs x) (\<lambda>ret q. (Inr (ret, QEMPTY q), q))) (q\<lparr>ql := l\<rparr>) =
       (Inr (?fit, xs = [] \<and> \<not> ?fit), q1)" "ql q1 = l" "q_end q1 = q_end q"
      "queue_holds qs q1 (if ?fit then xs @ [x] else xs)" "\<not> ?fit \<Longrightarrow> \<not> queue_fits q1 (elt_bytes qs x)" by auto
  have "QHDRSZ \<le> q_end q1" "lock_free (ql q1)" "full_ok (ql q1) (int (length xs))"
    using l(2) c by (simp_all add: queue_ready_def)
  from enqueue_signal_ready [OF c(4) this] obtain q2 where
    s: "sem_signal full_up ?fit q1 = (Inr (), q2)" "queue_ready qs q2 (if ?fit then xs @ [x] else xs)"
      "q_end q2 = q_end q1" "\<not> ?fit \<Longrightarrow> q2 = q1" by blast
  show thesis
    by (rule that [of q2])
      (use l c s in \<open>simp_all add: enqueue_round_def bind_prog_def\<close>)
qed

lemma enqueue_loop_ready:
  assumes "queue_ready qs q xs" "encodes qs d x" "\<not> isBlocking \<or> \<not> IsSemaphoreLock (ql q)" "0 < tries"
  shows "\<exists>q'. enqueue_loop tries qs x isBlocking q = (Inr (queue_fits q (elt_bytes qs x)), q') \<and>
     queue_ready qs q' (if queue_fits q (elt_bytes qs x) then xs @ [x] else xs) \<and> q_end q' = q_end q \<and>
     (\<not> queue_fits q (elt_bytes qs x) \<longrightarrow> \<not> queue_fits q' (elt_bytes qs x))"
  using assms(1,3,4)
proof (induction tries arbitrary: q)
  case (Suc tries)
  have go: "\<not> isBlocking \<or> empty_count (ql q) \<noteq> Some 0"
    using Suc.prems(2) empty_count_None [of "ql q"] by auto
  obtain q' where r: "enqueue_round qs x isBlocking q =
       (Inr (queue_fits q (elt_bytes qs x), xs = [] \<and> \<not> queue_fits q (elt_bytes qs x)), q')"
    "queue_ready qs q' (if queue_fits q (elt_bytes qs x) then xs @ [x] else xs)" "q_end q' = q_end q"
    "\<not> queue_fits q (elt_bytes qs x) \<Longrightarrow> \<not> queue_fits q' (elt_bytes qs x)"
    "\<not> queue_fits q (elt_bytes qs x) \<Longrightarrow> IsSemaphoreLock (ql q') = IsSemaphoreLock (ql q) \<and>
       empty_count (ql q') = map_option (\<lambda>k. if 0 < k then k - 1 else k) (empty_count (ql q))"
    by (rule enqueue_round_ready [OF Suc.prems(1) assms(2) go]) (rule that)
  show ?case
  proof (cases "\<not> isBlocking \<or> xs = [] \<or> queue_fits q (elt_bytes qs x) \<or> tries = 0")
    case True
    then have "enqueue_loop (Suc tries) qs x isBlocking q = (Inr (queue_fits q (elt_bytes qs x)), q')"
      by (auto simp: bind_prog_def r(1))
    then show ?thesis using r(2,3,4) by blast
  next
    case False
    then have "enqueue_loop (Suc tries) qs x isBlocking q = enqueue_loop tries qs x isBlocking q'"
      unfolding enqueue_loop.simps bind_prog_def r(1) by simp
    moreover have "queue_ready qs q' xs" "\<not> queue_fits q' (elt_bytes qs x)"
      "\<not> isBlocking \<or> \<not> IsSemaphoreLock (ql q')"
      using False r(2,4,5) Suc.prems(2) by simp_all
    ultimately show ?thesis using Suc.IH [of q'] False r(3) by (simp del: enqueue_loop.simps)
  qed
qed simp

lemma enqueue_ready:
  assumes "queue_ready qs q xs" "encodes qs d x" "\<not> isBlocking \<or> \<not> IsSemaphoreLock (ql q)"
  obtains q' where "enqueue qs x isBlocking q = (Inr (queue_fits q (elt_bytes qs x)), q')"
    "queue_ready qs q' (if queue_fits q (elt_bytes qs x) then xs @ [x] else xs)" "q_end q' = q_end q"
    "\<not> queue_fits q (elt_bytes qs x) \<Longrightarrow> \<not> queue_fits q' (elt_bytes qs x)"
proof -
  have "QHDRSZ \<le> q_end q" using assms(1) by (simp add: queue_ready_def)
  then have "1 \<le> q_end q div 8" "q_end q sdiv QHDRSZ = q_end q div 8"
    by (simp_all add: queue_consts signed_divide_int_def)
  then have "0 < q_end q sdiv QHDRSZ" "0 < nat (q_end q sdiv QHDRSZ)" by simp_all
  with enqueue_loop_ready [OF assms this(2)] show thesis
    by (auto simp: enqueue_def Let_def intro: that)
qed

lemma dequeue_ready:
  assumes ready: "queue_ready qs q xs" and go: "\<not> isBlocking \<or> \<not> IsSemaphoreLock (ql q) \<or> xs \<noteq> []"
  obtains q' where "dequeue qs isBlocking q = (Inr (case xs of [] \<Rightarrow> None | x # _ \<Rightarrow> Some x), q')"
    "queue_ready qs q' (tl xs)" "q_end q' = q_end q"
proof (cases "IsSemaphoreLock (ql q)")
  case sem: True
  have free: "lock_free (ql q)" and fc: "full_count (ql q) = Some (int (length xs))"
    using ready sem full_count_None [of "ql q"]
    by (auto simp: queue_ready_def full_ok_def split: option.splits)
  have "\<not> isBlocking \<or> full_count (ql q) \<noteq> Some 0" using go sem fc by auto
  from full_down_free [OF free sem this] obtain g l where
    l: "full_down (ql q) (\<not> isBlocking) = Inr (g, l)" "lock_free l" "IsSemaphoreLock l"
    "full_count l = map_option (\<lambda>k. if 0 < k then k - 1 else k) (full_count (ql q))" by blast
  have fc': "full_count l = Some (int (length (tl xs)))"
    using l(4) fc by (simp add: of_nat_diff Suc_le_eq)
  have w: "sem_wait full_down isBlocking q = (Inr (), q\<lparr>ql := l\<rparr>)"
    using sem l by (simp add: sem_wait_def queue_lock_op_def)
  have "queue_holds qs (q\<lparr>ql := l\<rparr>) xs" "lock_free (ql (q\<lparr>ql := l\<rparr>))"
    using ready l by (simp_all add: queue_ready_def)
  from critical_dequeue [OF this] obtain q1 where
    c: "critical (dequeue_elt qs) (q\<lparr>ql := l\<rparr>) = (Inr (case xs of [] \<Rightarrow> None | x # _ \<Rightarrow> Some x), q1)"
      "ql q1 = l" "q_end q1 = q_end q" "queue_holds qs q1 (tl xs)" by auto
  show thesis
  proof (cases xs)
    case Nil
    then show thesis
      using w c l(1-3) fc' ready by (intro that [of q1])
        (simp_all add: dequeue_def bind_prog_def sem_signal_def queue_ready_def full_ok_def)
  next
    case (Cons x xs')
    obtain l2 where l2: "empty_up l = Inr l2" "lock_free l2" "full_count l2 = full_count l"
      using empty_up_free [OF l(2,3)] by blast
    show thesis
      using Cons w c l(1-3) fc' l2 ready by (intro that [of "q1\<lparr>ql := l2\<rparr>"])
        (simp_all add: dequeue_def bind_prog_def sem_signal_def queue_lock_op_def queue_ready_def full_ok_def)
  qed
next
  case nosem: False
  have "queue_holds qs q xs" "lock_free (ql q)" using ready by (simp_all add: queue_ready_def)
  from critical_dequeue [OF this] obtain q1 where
    c: "critical (dequeue_elt qs) q = (Inr (case xs of [] \<Rightarrow> None | x # _ \<Rightarrow> Some x), q1)"
      "ql q1 = ql q" "q_end q1 = q_end q" "queue_holds qs q1 (tl xs)" by blast
  show thesis
    using nosem c ready full_count_None [of "ql q"] by (intro that [of q1])
      (simp_all add: dequeue_def bind_prog_def sem_wait_def sem_signal_def queue_ready_def full_ok_def)
qed

text \<open>Blocking calls on a semaphore queue.\<close>

lemma dequeue_blocks:
  assumes "queue_ready qs q []" "IsSemaphoreLock (ql q)"
  shows "dequeue qs True q = (Inl Would_block, q)"
proof -
  obtain semas where l: "ql q = Lock_sem semas" using assms(2) by (cases "ql q") auto
  then have "full_down (ql q) False = Inl Would_block"
    using assms(1) by (auto simp: queue_ready_def full_ok_def sem_down_def TCQSemaphoreLock_def sem_index)
  then show ?thesis
    using assms(2) by (simp add: dequeue_def bind_prog_def sem_wait_def queue_lock_op_def)
qed

lemma enqueue_round_blocks:
  assumes "empty_count (ql q) = Some 0"
  shows "enqueue_round qs x True q = (Inl Would_block, q)"
proof -
  obtain semas where l: "ql q = Lock_sem semas" "semas ! QUEUELOCK_SEM_EMPTY = 0"
    using assms by (cases "ql q") auto
  then have "empty_down (ql q) False = Inl Would_block"
    by (simp add: sem_down_def TCQSemaphoreLock_def)
  then show ?thesis
    using l by (simp add: enqueue_round_def bind_prog_def sem_wait_def queue_lock_op_def)
qed

text \<open>
  A blocking \<^verbatim>\<open>enqueue\<close> that finds no room in a queue that is not empty spends one token of the
  empty-slot semaphore per round. If the tokens run out first it waits, and if the tries run out first it gives up.
\<close>

lemma enqueue_loop_full:
  assumes "queue_ready qs q xs" "encodes qs d x" "xs \<noteq> []" "\<not> queue_fits q (elt_bytes qs x)" "empty_count (ql q) = Some (int k)"
  shows "\<exists>q'. enqueue_loop tries qs x True q = (if k < tries then Inl Would_block else Inr False, q') \<and> queue_ready qs q' xs \<and>
     \<not> queue_fits q' (elt_bytes qs x) \<and> q_end q' = q_end q \<and> empty_count (ql q') = Some (int (k - tries))"
  using assms
proof (induction tries arbitrary: q k)
  case 0
  then show ?case by (simp add: return_prog_def)
next
  case (Suc tries)
  show ?case
  proof (cases k)
    case 0
    then have "enqueue_loop (Suc tries) qs x True q = (Inl Would_block, q)"
      using enqueue_round_blocks [of q qs x] Suc.prems(5) by (simp add: bind_prog_def)
    with 0 Suc.prems(1,4,5) show ?thesis by (simp del: enqueue_loop.simps)
  next
    case (Suc k')
    then have "\<not> True \<or> empty_count (ql q) \<noteq> Some 0" using Suc.prems(5) by simp
    obtain q' where r: "enqueue_round qs x True q =
       (Inr (queue_fits q (elt_bytes qs x), xs = [] \<and> \<not> queue_fits q (elt_bytes qs x)), q')"
      "queue_ready qs q' (if queue_fits q (elt_bytes qs x) then xs @ [x] else xs)" "q_end q' = q_end q"
      "\<not> queue_fits q (elt_bytes qs x) \<Longrightarrow> \<not> queue_fits q' (elt_bytes qs x)"
      "\<not> queue_fits q (elt_bytes qs x) \<Longrightarrow> IsSemaphoreLock (ql q') = IsSemaphoreLock (ql q) \<and>
         empty_count (ql q') = map_option (\<lambda>k. if 0 < k then k - 1 else k) (empty_count (ql q))"
      by (rule enqueue_round_ready [OF Suc.prems(1) assms(2) \<open>\<not> True \<or> _\<close>]) (rule that)
    have "enqueue_loop (Suc tries) qs x True q = enqueue_loop tries qs x True q'"
      unfolding enqueue_loop.simps bind_prog_def r(1) using Suc.prems(3,4) by simp
    moreover have "queue_ready qs q' xs" "\<not> queue_fits q' (elt_bytes qs x)" "empty_count (ql q') = Some (int k')"
      using r(2,4,5) Suc.prems(4,5) Suc by simp_all
    ultimately show ?thesis
      using Suc.IH [of q' k'] Suc Suc.prems(2,3) r(3) by (simp del: enqueue_loop.simps)
  qed
qed

section \<open>Construction\<close>

lemma fresh_queue_rep:
  assumes "head q = 0" "tail q = 0" "wall q = q_end q" "bytesfree q = q_end q" "numelts q = 0"
    "q_end q = int (length (buf q))" "q_end q \<le> MaxAllocSize"
  shows "queue_rep q []"
  using assms by (simp add: queue_rep_def rep_linear_def laid_Nil)

lemma make_queue_ready:
  assumes "sizeof_Queue + QHDRSZ \<le> n" "n \<le> MaxAllocSize"
    "\<And>l. lck = Some l \<Longrightarrow> lock_free l \<and> full_ok l 0"
  obtains q where "make_queue lck n = Inr (Some q)" "queue_ready qs q []" "q_end q = n - sizeof_Queue"
proof -
  let ?l = "case lck of Some l \<Rightarrow> l | None \<Rightarrow> make_lock_sem (make_queue_eltest n)"
  have "size_t n = n" using assms(1,2) by (simp add: size_t_def queue_consts)
  then have q: "make_queue lck n = Inr (Some (init_queue ?l n))"
    using assms(1,2) by (simp add: make_queue_def queue_consts)
  have "queue_rep (init_queue ?l n) []"
    by (rule fresh_queue_rep) (use assms(1,2) in \<open>simp_all add: init_queue_def queue_consts\<close>)
  moreover have "0 \<le> make_queue_eltest n"
    by (simp add: make_queue_eltest_def Let_def queue_consts)
  then have "lock_free ?l \<and> full_ok ?l 0"
    using assms(3) by (cases lck) (simp_all add: full_ok_def)
  ultimately show thesis
    by (intro that [OF q]) (use assms(1) in \<open>simp_all add: queue_ready_def queue_holds_def init_queue_def\<close>)
qed

section \<open>The contract of a serializer\<close>

locale queue_serializer_laws =
  fixes qs :: "'a queue_serializer"
    and encodable :: "'a \<Rightarrow> bool"
  assumes size_law: "encodable x \<Longrightarrow> \<exists>n. determineSize qs x = Inr (int n)"
    and write_law: "encodable x \<Longrightarrow> determineSize qs x = Inr n \<Longrightarrow> \<exists>ok d. serialize qs x n = Inr (ok, d) \<and> int (length d) = n"
    and read_law: "encodable x \<Longrightarrow> determineSize qs x = Inr n \<Longrightarrow> serialize qs x n = Inr (ok, d) \<Longrightarrow>
      deserialize qs (d @ rest) = Inr x"
begin

lemma encodable_image: "encodable x \<Longrightarrow> \<exists>d. encodes qs d x"
  using size_law [of x] write_law [of x] read_law [of x] unfolding encodes_def by metis

end

sublocale queue_serializer_laws \<subseteq> elts: fifo_buffer "queue_holds qs" "enqueue_elt qs" "dequeue_elt qs" encodable
proof
  fix q es x assume "queue_holds qs q es" "encodable x"
  moreover obtain d where "encodes qs d x" using encodable_image [OF \<open>encodable x\<close>] by blast
  ultimately show "\<exists>r q'. enqueue_elt qs x q = (Inr r, q') \<and> queue_holds qs q' (if r then es @ [x] else es)"
    using enqueue_elt_holds [of qs q es d x] by blast
next
  fix q es assume "queue_holds qs q es"
  then show "\<exists>q'. dequeue_elt qs q = (Inr (case es of [] \<Rightarrow> None | x # _ \<Rightarrow> Some x), q') \<and> queue_holds qs q' (tl es)"
    using dequeue_elt_holds [of qs q es] by blast
qed

sublocale queue_serializer_laws \<subseteq> nonblocking: fifo_buffer "queue_ready qs" "\<lambda>x. enqueue qs x False" "dequeue qs False" encodable
proof
  fix q es x assume "queue_ready qs q es" "encodable x"
  moreover obtain d where "encodes qs d x" using encodable_image [OF \<open>encodable x\<close>] by blast
  ultimately show "\<exists>r q'. enqueue qs x False q = (Inr r, q') \<and> queue_ready qs q' (if r then es @ [x] else es)"
    using enqueue_ready [of qs q es d x False] by blast
next
  fix q es assume "queue_ready qs q es"
  then show "\<exists>q'. dequeue qs False q = (Inr (case es of [] \<Rightarrow> None | x # _ \<Rightarrow> Some x), q') \<and> queue_ready qs q' (tl es)"
    using dequeue_ready [of qs q es False] by blast
qed

end
