(* ===== verification/Bit_Array.thy ===== *)
theory Bit_Array
  imports TCQ_Prelude
begin

text \<open>
  The bit arrays of \<^verbatim>\<open>src/src/backend/lib/bit.c\<close>: query lineage in the eddy, destination sets
  of result tuples and the allocation map of the result queues are all held in them.
  A \<^verbatim>\<open>BitArray\<close> (\<^verbatim>\<open>bits8 *\<close>) is a list of bytes; a \<^verbatim>\<open>for\<close> loop over its bytes or bits is a
  \<open>fold\<close> over the loop's index range. The locale \<open>bit_set\<close> is what the users of
  bit arrays rely on; it is interpreted on the byte-level operations below.
\<close>

unbundle bit_operations_syntax

section \<open>The operations of bit.c\<close>

type_synonym BitArray = "byte list"

definition BASIZE :: "nat \<Rightarrow> nat" where
  "BASIZE n = n div 8 + (if n mod 8 \<noteq> 0 then 1 else 0)"

text \<open>\<^verbatim>\<open>palloc\<close> does not clear the memory it returns: \<open>junk\<close> is what it held before.\<close>

definition BitArrayCreate :: "(nat \<Rightarrow> byte) \<Rightarrow> nat \<Rightarrow> BitArray" where
  "BitArrayCreate junk num = map junk [0..<BASIZE num]"

definition BitArrayAnd :: "BitArray \<Rightarrow> BitArray \<Rightarrow> BitArray \<Rightarrow> nat \<Rightarrow> BitArray" where
  "BitArrayAnd left right res num =
     fold (\<lambda>idx res. res[idx := left ! idx AND right ! idx]) [0..<BASIZE num] res"

definition BitArrayAndSelf :: "BitArray \<Rightarrow> BitArray \<Rightarrow> nat \<Rightarrow> BitArray" where
  "BitArrayAndSelf left right num =
     fold (\<lambda>idx left. left[idx := left ! idx AND right ! idx]) [0..<BASIZE num] left"

definition BitArrayOr :: "BitArray \<Rightarrow> BitArray \<Rightarrow> BitArray \<Rightarrow> nat \<Rightarrow> BitArray" where
  "BitArrayOr left right res num =
     fold (\<lambda>idx res. res[idx := left ! idx OR right ! idx]) [0..<BASIZE num] res"

definition BitArrayOrSelf :: "BitArray \<Rightarrow> BitArray \<Rightarrow> nat \<Rightarrow> BitArray" where
  "BitArrayOrSelf left right num =
     fold (\<lambda>idx left. left[idx := left ! idx OR right ! idx]) [0..<BASIZE num] left"

definition BitArrayNot :: "BitArray \<Rightarrow> BitArray \<Rightarrow> nat \<Rightarrow> BitArray" where
  "BitArrayNot to from num =
     fold (\<lambda>idx to. to[idx := NOT (from ! idx)]) [0..<BASIZE num] to"

definition BitArrayNotSelf :: "BitArray \<Rightarrow> nat \<Rightarrow> BitArray" where
  "BitArrayNotSelf left num =
     fold (\<lambda>idx left. left[idx := NOT (left ! idx)]) [0..<BASIZE num] left"

definition BitArrayEqual :: "BitArray \<Rightarrow> BitArray \<Rightarrow> nat \<Rightarrow> bool" where
  "BitArrayEqual src dest num = list_all (\<lambda>idx. src ! idx = dest ! idx) [0..<BASIZE num]"

definition BitArrayContained :: "BitArray \<Rightarrow> BitArray \<Rightarrow> nat \<Rightarrow> bool" where
  "BitArrayContained big small num =
     list_all (\<lambda>idx. small ! idx AND big ! idx = small ! idx) [0..<BASIZE num]"

text \<open>The mask \<^verbatim>\<open>1 << (BITS_PER_BYTE - 1 - (bitIndex % BITS_PER_BYTE))\<close>.\<close>

definition bit_mask :: "nat \<Rightarrow> byte" where
  "bit_mask bitIndex = push_bit (7 - bitIndex mod 8) 1"

definition BitArraySetBit :: "BitArray \<Rightarrow> nat \<Rightarrow> BitArray" where
  "BitArraySetBit bitArray bitIndex =
     bitArray[bitIndex div 8 := bitArray ! (bitIndex div 8) OR bit_mask bitIndex]"

definition BitArrayClearBit :: "BitArray \<Rightarrow> nat \<Rightarrow> BitArray" where
  "BitArrayClearBit bitArray bitIndex =
     bitArray[bitIndex div 8 := bitArray ! (bitIndex div 8) AND NOT (bit_mask bitIndex)]"

definition BitArrayBitIsSet :: "BitArray \<Rightarrow> nat \<Rightarrow> bool" where
  "BitArrayBitIsSet bitArray bitIndex \<longleftrightarrow>
     bitArray ! (bitIndex div 8) AND bit_mask bitIndex \<noteq> 0"

definition BitArraySetAll :: "BitArray \<Rightarrow> nat \<Rightarrow> BitArray" where
  "BitArraySetAll bitArray numElements =
     fold (\<lambda>i ba. BitArraySetBit ba i) [0..<numElements] bitArray"

definition BitArrayClearAll :: "BitArray \<Rightarrow> nat \<Rightarrow> BitArray" where
  "BitArrayClearAll bitArray numElements =
     fold (\<lambda>i ba. BitArrayClearBit ba i) [0..<numElements] bitArray"

definition BitArrayRealClearAll :: "BitArray \<Rightarrow> nat \<Rightarrow> BitArray" where
  "BitArrayRealClearAll bitArray numElements =
     fold (\<lambda>idx ba. ba[idx := 0]) [0..<BASIZE numElements] bitArray"

definition BitArrayIsAnySet :: "BitArray \<Rightarrow> nat \<Rightarrow> bool" where
  "BitArrayIsAnySet bitArray numElements =
     list_ex (\<lambda>i. bitArray ! i \<noteq> 0) [0..<BASIZE numElements]"

definition BitArrayIsAnyCleared :: "BitArray \<Rightarrow> nat \<Rightarrow> bool" where
  "BitArrayIsAnyCleared bitArray numElements =
     list_ex (\<lambda>i. bitArray ! i \<noteq> 0xFF) [0..<BASIZE numElements]"

definition BitArrayNumSet :: "BitArray \<Rightarrow> nat \<Rightarrow> nat" where
  "BitArrayNumSet bitArray numElements =
     fold (\<lambda>i num. if BitArrayBitIsSet bitArray i then num + 1 else num) [0..<numElements] 0"

definition BitArrayClone :: "BitArray \<Rightarrow> BitArray \<Rightarrow> nat \<Rightarrow> BitArray" where
  "BitArrayClone tgt src num = mem_write 0 (mem_read 0 (BASIZE num) src) tgt"

text \<open>
  The two nested loops of \<^verbatim>\<open>BitArrayFirstBit\<close>: \<open>first_bit_in_byte\<close> is the inner one over
  \<^verbatim>\<open>j\<close>, \<open>first_bit_bytes\<close> the outer one over \<^verbatim>\<open>i\<close>; \<open>base\<close> is the C variable \<^verbatim>\<open>set\<close>, eight per byte.
\<close>

fun first_bit_in_byte :: "byte \<Rightarrow> nat list \<Rightarrow> nat option" where
  "first_bit_in_byte b [] = None"
| "first_bit_in_byte b (j # js) =
     (if b AND push_bit (8 - (j + 1)) 1 \<noteq> 0 then Some j else first_bit_in_byte b js)"

fun first_bit_bytes :: "BitArray \<Rightarrow> nat list \<Rightarrow> int \<Rightarrow> int" where
  "first_bit_bytes ba [] base = -1"
| "first_bit_bytes ba (i # is) base =
     (if ba ! i \<noteq> 0
      then (case first_bit_in_byte (ba ! i) [0..<8] of
              Some j \<Rightarrow> base + int j
            | None \<Rightarrow> first_bit_bytes ba is (base + 8))
      else first_bit_bytes ba is (base + 8))"

definition BitArrayFirstBit :: "BitArray \<Rightarrow> nat \<Rightarrow> int" where
  "BitArrayFirstBit ba num = first_bit_bytes ba [0..<BASIZE num] 0"

section \<open>What users of bit arrays rely on\<close>

locale bit_set =
  fixes valid :: "'b \<Rightarrow> nat \<Rightarrow> bool"
    and set_bit :: "'b \<Rightarrow> nat \<Rightarrow> 'b"
    and clear_bit :: "'b \<Rightarrow> nat \<Rightarrow> 'b"
    and is_set :: "'b \<Rightarrow> nat \<Rightarrow> bool"
  assumes valid_set_bit: "valid b n \<Longrightarrow> valid (set_bit b i) n"
    and valid_clear_bit: "valid b n \<Longrightarrow> valid (clear_bit b i) n"
    and is_set_set_bit: "valid b n \<Longrightarrow> i < n \<Longrightarrow> j < n \<Longrightarrow> is_set (set_bit b i) j = (i = j \<or> is_set b j)"
    and is_set_clear_bit: "valid b n \<Longrightarrow> i < n \<Longrightarrow> j < n \<Longrightarrow> is_set (clear_bit b i) j = (i \<noteq> j \<and> is_set b j)"
begin

definition members :: "'b \<Rightarrow> nat \<Rightarrow> nat set" where
  "members b n = {i. i < n \<and> is_set b i}"

lemma finite_members [simp]: "finite (members b n)"
  by (simp add: members_def)

lemma members_subset: "members b n \<subseteq> {..<n}"
  by (auto simp: members_def)

lemma members_set_bit: "valid b n \<Longrightarrow> i < n \<Longrightarrow> members (set_bit b i) n = insert i (members b n)"
  by (auto simp: members_def is_set_set_bit)

lemma members_clear_bit: "valid b n \<Longrightarrow> i < n \<Longrightarrow> members (clear_bit b i) n = members b n - {i}"
  by (auto simp: members_def is_set_clear_bit)

lemma fold_set_bit:
  assumes "valid b n" "m \<le> n"
  shows "valid (fold (\<lambda>i b. set_bit b i) [0..<m] b) n \<and>
         members (fold (\<lambda>i b. set_bit b i) [0..<m] b) n = members b n \<union> {..<m}"
  using assms(2)
proof (induction m)
  case (Suc m)
  then show ?case
    by (auto simp: valid_set_bit members_set_bit lessThan_Suc)
qed (simp add: assms(1))

lemma fold_clear_bit:
  assumes "valid b n" "m \<le> n"
  shows "valid (fold (\<lambda>i b. clear_bit b i) [0..<m] b) n \<and>
         members (fold (\<lambda>i b. clear_bit b i) [0..<m] b) n = members b n - {..<m}"
  using assms(2)
proof (induction m)
  case (Suc m)
  then show ?case
    by (auto simp: valid_clear_bit members_clear_bit lessThan_Suc)
qed (simp add: assms(1))

lemma fold_count:
  "fold (\<lambda>i k. if is_set b i then k + 1 else k) [0..<m] 0 = card (members b m)"
proof (induction m)
  case (Suc m)
  have "members b (Suc m) = (if is_set b m then insert m (members b m) else members b m)"
    by (auto simp: members_def less_Suc_eq)
  moreover have "m \<notin> members b m" by (simp add: members_def)
  ultimately show ?case using Suc by simp
qed (simp add: members_def)

lemma find_clear:
  "find (\<lambda>i. \<not> is_set b i) [0..<n] = Some i \<longleftrightarrow> i < n \<and> \<not> is_set b i \<and> (\<forall>k<i. is_set b k)"
  "find (\<lambda>i. \<not> is_set b i) [0..<n] = None \<longleftrightarrow> members b n = {..<n}"
  by (auto simp: find_Some_iff find_None_iff members_def)

lemma find_set:
  "find (\<lambda>i. is_set b i) [0..<n] = Some i \<longleftrightarrow> i < n \<and> is_set b i \<and> (\<forall>k<i. \<not> is_set b k)"
  "find (\<lambda>i. is_set b i) [0..<n] = None \<longleftrightarrow> members b n = {}"
  by (auto simp: find_Some_iff find_None_iff members_def)

end

section \<open>Bytes and bits\<close>

lemma BASIZE_8: "n \<le> 8 * BASIZE n" "8 * BASIZE n < n + 8"
proof -
  have "8 * (n div 8) + n mod 8 = n" "n mod 8 < 8" by simp_all
  then show "n \<le> 8 * BASIZE n" "8 * BASIZE n < n + 8"
    by (cases "n mod 8 = 0"; simp add: BASIZE_def; linarith)+
qed

lemma BASIZE_bound: "i < n \<Longrightarrow> i div 8 < BASIZE n"
  using BASIZE_8(1) [of n] by (intro less_mult_imp_div_less) (simp add: mult.commute)

lemma BASIZE_mult [simp]: "BASIZE (8 * k) = k"
  by (simp add: BASIZE_def)

lemma bit_byte_mask [simp]: "bit (bit_mask i) k \<longleftrightarrow> k = 7 - i mod 8"
  by (auto simp: bit_mask_def bit_exp_iff)

lemma and_pow_neq_0: "(b::byte) AND 2 ^ k \<noteq> 0 \<longleftrightarrow> bit b k"
proof (rule iffI, rule ccontr)
  assume "b AND 2 ^ k \<noteq> 0" and "\<not> bit b k"
  moreover from this(2) have "b AND 2 ^ k = 0"
    by (intro bit_word_eqI) (auto simp: bit_and_iff bit_exp_iff)
  ultimately show False by blast
next
  assume "bit b k"
  then have "bit (b AND 2 ^ k) k"
    by (auto simp: bit_and_iff bit_exp_iff dest: bit_imp_le_length)
  then show "b AND 2 ^ k \<noteq> 0" by auto
qed

lemma BitIsSet_bit: "BitArrayBitIsSet ba i \<longleftrightarrow> bit (ba ! (i div 8)) (7 - i mod 8)"
  by (simp add: BitArrayBitIsSet_def bit_mask_def and_pow_neq_0)

lemma bit_position_inj:
  assumes "i div 8 = j div (8::nat)"
  shows "7 - j mod 8 = 7 - i mod 8 \<longleftrightarrow> i = j"
proof
  assume "7 - j mod 8 = 7 - i mod 8"
  moreover have "i mod 8 < 8" "j mod 8 < 8" by simp_all
  ultimately have "i mod 8 = j mod 8" by linarith
  with assms show "i = j" by (metis div_mult_mod_eq)
qed simp

interpretation ba: bit_set "\<lambda>ba n. BASIZE n \<le> length ba"
  BitArraySetBit BitArrayClearBit BitArrayBitIsSet
proof (unfold_locales, goal_cases)
  case (3 b n i j)
  then have "i div 8 < length b" using BASIZE_bound [of i n] by simp
  then show ?case
    using bit_position_inj [of i j]
    by (auto simp: BitIsSet_bit BitArraySetBit_def nth_list_update bit_or_iff)
next
  case (4 b n i j)
  then have "i div 8 < length b" using BASIZE_bound [of i n] by simp
  then show ?case
    using bit_position_inj [of i j]
    by (auto simp: BitIsSet_bit BitArrayClearBit_def nth_list_update bit_and_iff bit_not_iff)
qed (simp_all add: BitArraySetBit_def BitArrayClearBit_def)

section \<open>Bit arrays as sets of indices\<close>

lemma nth_fold_update:
  assumes "n \<le> length xs"
  shows "fold (\<lambda>i l. l[i := g i (l ! i)]) [0..<n] xs ! j = (if j < n then g j (xs ! j) else xs ! j)
         \<and> length (fold (\<lambda>i l. l[i := g i (l ! i)]) [0..<n] xs) = length xs"
  using assms
proof (induction n arbitrary: j)
  case (Suc n)
  then have IH: "\<And>j. fold (\<lambda>i l. l[i := g i (l ! i)]) [0..<n] xs ! j = (if j < n then g j (xs ! j) else xs ! j)"
    and len: "length (fold (\<lambda>i l. l[i := g i (l ! i)]) [0..<n] xs) = length xs"
    by simp_all
  from Suc.prems show ?case by (auto simp: nth_list_update IH len less_Suc_eq)
qed simp

lemmas nth_loop = nth_fold_update [THEN conjunct1]
lemmas length_loop = nth_fold_update [THEN conjunct2]

lemma nth_bytewise:
  assumes "BASIZE n \<le> length xs" "i < n"
  shows "fold (\<lambda>i l. l[i := g i (l ! i)]) [0..<BASIZE n] xs ! (i div 8) = g (i div 8) (xs ! (i div 8))"
  using nth_loop [OF assms(1), of g "i div 8"] BASIZE_bound [OF assms(2)] by simp

abbreviation bits_of :: "BitArray \<Rightarrow> nat \<Rightarrow> nat set" where
  "bits_of \<equiv> ba.members"

lemma bits_of_def: "bits_of b n = {i. i < n \<and> bit (b ! (i div 8)) (7 - i mod 8)}"
  by (simp add: ba.members_def BitIsSet_bit)

lemma bits_bytewise:
  assumes "BASIZE n \<le> length xs"
  shows "bits_of (fold (\<lambda>i l. l[i := g i (l ! i)]) [0..<BASIZE n] xs) n =
         {i. i < n \<and> bit (g (i div 8) (xs ! (i div 8))) (7 - i mod 8)}"
  by (auto simp: bits_of_def nth_bytewise [OF assms])

lemma byte_eq_by_position:
  "(a::byte) = b \<longleftrightarrow> (\<forall>k<8. bit a (7 - k) = bit b (7 - k))"
proof
  assume eq: "\<forall>k<8. bit a (7 - k) = bit b (7 - k)"
  show "a = b"
  proof (rule bit_word_eqI)
    fix n assume "n < LENGTH(8)"
    with eq [rule_format, of "7 - n"] show "bit a n = bit b n" by simp
  qed
qed simp

lemma bytes_bits:
  "(\<forall>j<m. \<forall>k<8. P (8 * j + k)) \<longleftrightarrow> (\<forall>i<8 * m. P (i::nat))" (is "?L \<longleftrightarrow> ?R")
proof
  assume L: ?L
  show ?R
  proof (intro allI impI)
    fix i :: nat assume "i < 8 * m"
    then have "i div 8 < m" by (simp add: less_mult_imp_div_less mult.commute)
    with L [rule_format, of "i div 8" "i mod 8"] show "P i" by simp
  qed
next
  assume R: ?R
  show ?L
  proof (intro allI impI)
    fix j k :: nat assume "j < m" "k < 8"
    then have "8 * j + k < 8 * m" by linarith
    with R show "P (8 * j + k)" by blast
  qed
qed

lemmas bits_loop_res = bits_bytewise [where g = "\<lambda>i _. f i" for f]

lemma bits_of_And:
  assumes "BASIZE n \<le> length res"
  shows "bits_of (BitArrayAnd l r res n) n = bits_of l n \<inter> bits_of r n"
  unfolding BitArrayAnd_def bits_loop_res [OF assms] by (auto simp: bits_of_def bit_and_iff)

lemma bits_of_Or:
  assumes "BASIZE n \<le> length res"
  shows "bits_of (BitArrayOr l r res n) n = bits_of l n \<union> bits_of r n"
  unfolding BitArrayOr_def bits_loop_res [OF assms] by (auto simp: bits_of_def bit_or_iff)

lemma bits_of_Not:
  assumes "BASIZE n \<le> length res"
  shows "bits_of (BitArrayNot res l n) n = {..<n} - bits_of l n"
  unfolding BitArrayNot_def bits_loop_res [OF assms] by (auto simp: bits_of_def bit_not_iff)

lemma bits_of_AndSelf:
  assumes "BASIZE n \<le> length l"
  shows "bits_of (BitArrayAndSelf l r n) n = bits_of l n \<inter> bits_of r n"
  unfolding BitArrayAndSelf_def bits_bytewise [OF assms, where g = "\<lambda>i b. b AND r ! i"]
  by (auto simp: bits_of_def bit_and_iff)

lemma bits_of_OrSelf:
  assumes "BASIZE n \<le> length l"
  shows "bits_of (BitArrayOrSelf l r n) n = bits_of l n \<union> bits_of r n"
  unfolding BitArrayOrSelf_def bits_bytewise [OF assms, where g = "\<lambda>i b. b OR r ! i"]
  by (auto simp: bits_of_def bit_or_iff)

lemma bits_of_NotSelf:
  assumes "BASIZE n \<le> length l"
  shows "bits_of (BitArrayNotSelf l n) n = {..<n} - bits_of l n"
  unfolding BitArrayNotSelf_def bits_bytewise [OF assms, where g = "\<lambda>i b. NOT b"]
  by (auto simp: bits_of_def bit_not_iff)

lemmas bits_of_ops = bits_of_And bits_of_Or bits_of_Not bits_of_AndSelf bits_of_OrSelf bits_of_NotSelf

text \<open>
  C12. The bytewise set operations refine the set operations on indices: when every array has
  room for \<open>n\<close> bits, the first \<open>n\<close> bits of the result of \<^verbatim>\<open>BitArrayAnd\<close>, \<^verbatim>\<open>BitArrayOr\<close>,
  \<^verbatim>\<open>BitArrayNot\<close> and of their in-place variants are the intersection, the union and the
  complement of the operands' bits.
\<close>

theorem bitarray_refines_set:
  assumes "BASIZE n \<le> length l" "BASIZE n \<le> length r" "BASIZE n \<le> length res"
  shows "bits_of (BitArrayAnd l r res n) n = bits_of l n \<inter> bits_of r n \<and>
         bits_of (BitArrayOr l r res n) n = bits_of l n \<union> bits_of r n \<and>
         bits_of (BitArrayNot res l n) n = {..<n} - bits_of l n \<and>
         bits_of (BitArrayAndSelf l r n) n = bits_of l n \<inter> bits_of r n \<and>
         bits_of (BitArrayOrSelf l r n) n = bits_of l n \<union> bits_of r n \<and>
         bits_of (BitArrayNotSelf l n) n = {..<n} - bits_of l n"
  using assms by (simp add: bits_of_ops)

theorem bitarray_refines_set_witness:
  "BASIZE 9 \<le> length [0xF0, 0x80 :: byte] \<and>
   bits_of (BitArrayAnd [0xF0, 0x80] [0x30, 0xFF] [0, 0] 9) 9 =
   bits_of [0xF0, 0x80] 9 \<inter> bits_of [0x30, 0xFF] 9"
  using bitarray_refines_set [of 9 "[0xF0, 0x80]" "[0x30, 0xFF]" "[0, 0]"] by (simp add: BASIZE_def)

section \<open>Queries\<close>

lemma bits_of_full: "bits_of b (8 * m) = {i. i div 8 < m \<and> bit (b ! (i div 8)) (7 - i mod 8)}"
  by (auto simp: bits_of_def less_mult_imp_div_less mult.commute div_less_iff_less_mult)

lemma byte_zero_bits: "b ! j = 0 \<longleftrightarrow> (\<forall>k<8. \<not> BitArrayBitIsSet b (8 * j + k))"
  by (auto simp: byte_eq_by_position [of "b ! j" 0] BitIsSet_bit)

lemma byte_eq_bits:
  "a ! j = b ! j \<longleftrightarrow> (\<forall>k<8. BitArrayBitIsSet a (8 * j + k) = BitArrayBitIsSet b (8 * j + k))"
  by (auto simp: byte_eq_by_position [of "a ! j" "b ! j"] BitIsSet_bit)

lemma byte_sub_bits:
  "a ! j AND b ! j = a ! j \<longleftrightarrow> (\<forall>k<8. BitArrayBitIsSet a (8 * j + k) \<longrightarrow> BitArrayBitIsSet b (8 * j + k))"
  by (auto simp: byte_eq_by_position [of "a ! j AND b ! j" "a ! j"] BitIsSet_bit bit_and_iff)

lemma byte_ones_bits: "b ! j = 0xFF \<longleftrightarrow> (\<forall>k<8. BitArrayBitIsSet b (8 * j + k))"
proof -
  have "\<forall>k<8. bit (0xFF :: byte) (7 - k)"
    by (auto simp: bit_simps less_Suc_eq numeral_eq_Suc)
  then show ?thesis
    by (auto simp: byte_eq_by_position [of "b ! j" "0xFF"] BitIsSet_bit)
qed

text \<open>
  The four whole-array queries look at whole bytes: what they decide is a statement about the
  bits below the padded size \<open>8 * BASIZE n\<close>, not below \<open>n\<close>.
\<close>

lemma IsAnySet_bits: "BitArrayIsAnySet b n \<longleftrightarrow> bits_of b (8 * BASIZE n) \<noteq> {}"
  using bytes_bits [of "BASIZE n" "\<lambda>i. \<not> BitArrayBitIsSet b i"]
  by (auto simp: BitArrayIsAnySet_def list_ex_iff byte_zero_bits ba.members_def)

lemma IsAnyCleared_bits: "BitArrayIsAnyCleared b n \<longleftrightarrow> bits_of b (8 * BASIZE n) \<noteq> {..<8 * BASIZE n}"
  using bytes_bits [of "BASIZE n" "\<lambda>i. BitArrayBitIsSet b i"]
  by (auto simp: BitArrayIsAnyCleared_def list_ex_iff byte_ones_bits ba.members_def)

lemma Equal_bits: "BitArrayEqual a b n \<longleftrightarrow> bits_of a (8 * BASIZE n) = bits_of b (8 * BASIZE n)"
  using bytes_bits [of "BASIZE n" "\<lambda>i. BitArrayBitIsSet a i = BitArrayBitIsSet b i"]
  by (auto simp: BitArrayEqual_def list_all_iff byte_eq_bits ba.members_def set_eq_iff)

lemma Contained_bits: "BitArrayContained big small n \<longleftrightarrow> bits_of small (8 * BASIZE n) \<subseteq> bits_of big (8 * BASIZE n)"
  using bytes_bits [of "BASIZE n" "\<lambda>i. BitArrayBitIsSet small i \<longrightarrow> BitArrayBitIsSet big i"]
  by (auto simp: BitArrayContained_def list_all_iff byte_sub_bits ba.members_def subset_iff)

lemma bits_of_RealClearAll:
  assumes "BASIZE n \<le> length b"
  shows "bits_of (BitArrayRealClearAll b n) (8 * BASIZE n) = {}"
proof -
  have "\<forall>j<BASIZE n. BitArrayRealClearAll b n ! j = 0"
    unfolding BitArrayRealClearAll_def nth_loop [OF assms, where g = "\<lambda>i _. 0"] by simp
  then show ?thesis
    by (auto simp: bits_of_def less_mult_imp_div_less mult.commute)
qed

lemma length_RealClearAll [simp]:
  "BASIZE n \<le> length b \<Longrightarrow> length (BitArrayRealClearAll b n) = length b"
  unfolding BitArrayRealClearAll_def by (simp add: length_loop [where g = "\<lambda>i _. 0"])

lemma bits_of_SetAll:
  "BASIZE n \<le> length b \<Longrightarrow> bits_of (BitArraySetAll b n) n = {..<n}"
  using ba.members_subset [of b n] by (auto simp: BitArraySetAll_def ba.fold_set_bit)

lemma bits_of_ClearAll:
  "BASIZE n \<le> length b \<Longrightarrow> bits_of (BitArrayClearAll b n) n = {}"
  using ba.members_subset [of b n] by (auto simp: BitArrayClearAll_def ba.fold_clear_bit)

lemma NumSet_card: "BitArrayNumSet b n = card (bits_of b n)"
  by (simp add: BitArrayNumSet_def ba.fold_count)

lemma first_bit_in_byte_find: "first_bit_in_byte b js = find (\<lambda>j. bit b (7 - j)) js"
  by (induction js) (auto simp: and_pow_neq_0 numeral_eq_Suc)

lemma find_append: "find P (xs @ ys) = (case find P xs of None \<Rightarrow> find P ys | Some x \<Rightarrow> Some x)"
  by (induction xs) auto

lemma find_map: "find P (map f xs) = map_option f (find (P \<circ> f) xs)"
  by (induction xs) auto

lemma find_in_byte:
  "find (BitArrayBitIsSet b) [8 * k..<8 * k + 8] =
   map_option ((+) (8 * k)) (find (\<lambda>j. bit (b ! k) (7 - j)) [0..<8])"
proof -
  have "[8 * k..<8 * k + 8] = map ((+) (8 * k)) [0..<8]"
    by (rule nth_equalityI) (simp_all del: upt_conv_Cons_Cons)
  moreover have "find (BitArrayBitIsSet b \<circ> (+) (8 * k)) [0..<8] = find (\<lambda>j. bit (b ! k) (7 - j)) [0..<8]"
    by (rule find_cong) (auto simp: BitIsSet_bit)
  ultimately show ?thesis by (simp only: find_map)
qed

lemma first_bit_bytes_step:
  assumes "k < m"
  shows "first_bit_bytes b [k..<m] s =
    (case find (\<lambda>j. bit (b ! k) (7 - j)) [0..<8] of
       None \<Rightarrow> first_bit_bytes b [Suc k..<m] (s + 8) | Some j \<Rightarrow> s + int j)"
proof -
  have "b ! k = 0 \<Longrightarrow> find (\<lambda>j. bit (b ! k) (7 - j)) [0..<8] = None"
    by (simp add: find_None_iff)
  then show ?thesis
    unfolding upt_conv_Cons [OF assms] first_bit_bytes.simps first_bit_in_byte_find
    by (cases "b ! k = 0") (simp_all only: if_True if_False option.case simp_thms)
qed

lemma first_bit_bytes_find:
  "k \<le> m \<Longrightarrow> first_bit_bytes b [k..<m] (int (8 * k)) =
   (case find (BitArrayBitIsSet b) [8 * k..<8 * m] of None \<Rightarrow> -1 | Some i \<Rightarrow> int i)"
proof (induction "m - k" arbitrary: k)
  case (Suc d)
  then have k: "k < m" by simp
  have IH: "first_bit_bytes b [Suc k..<m] (int (8 * k) + 8) =
     (case find (BitArrayBitIsSet b) [8 * k + 8..<8 * m] of None \<Rightarrow> -1 | Some i \<Rightarrow> int i)"
    using Suc.hyps(1) [of "Suc k"] Suc.hyps(2) k by (simp add: algebra_simps)
  have split: "[8 * k..<8 * m] = [8 * k..<8 * k + 8] @ [8 * k + 8..<8 * m]"
    using k upt_add_eq_append [of "8 * k" "8 * k + 8" "8 * m - (8 * k + 8)"] by simp
  show ?case
    unfolding split find_append find_in_byte first_bit_bytes_step [OF k] IH
    by (cases "find (\<lambda>j. bit (b ! k) (7 - j)) [0..<8]") (simp_all only: option.map option.case of_nat_add)
qed simp

text \<open>
  C23. \<^verbatim>\<open>BitArrayFirstBit\<close> returns the smallest set index when the bits below the padded size are
  not all clear, and \<open>-1\<close> otherwise.
\<close>

theorem first_bit_least:
  "BitArrayFirstBit b n =
     (if bits_of b (8 * BASIZE n) = {} then -1 else int (Min (bits_of b (8 * BASIZE n))))"
proof -
  have eq: "BitArrayFirstBit b n =
      (case find (BitArrayBitIsSet b) [0..<8 * BASIZE n] of None \<Rightarrow> -1 | Some i \<Rightarrow> int i)"
    using first_bit_bytes_find [of 0 "BASIZE n" b] by (simp add: BitArrayFirstBit_def)
  show ?thesis
  proof (cases "find (BitArrayBitIsSet b) [0..<8 * BASIZE n]")
    case None
    with eq ba.find_set(2) show ?thesis by simp
  next
    case (Some i)
    then have i: "i < 8 * BASIZE n" "BitArrayBitIsSet b i" "\<forall>k<i. \<not> BitArrayBitIsSet b k"
      using ba.find_set(1) by blast+
    then have "Min (bits_of b (8 * BASIZE n)) = i"
      by (intro Min_eqI) (auto simp: ba.members_def not_less [symmetric])
    with eq Some i show ?thesis by (auto simp: ba.members_def)
  qed
qed

text \<open>
  C24. Filling and counting: after \<^verbatim>\<open>BitArraySetAll\<close> all \<open>n\<close> bits count as set, after
  \<^verbatim>\<open>BitArrayClearAll\<close> none does, and \<^verbatim>\<open>BitArrayIsAnyCleared\<close>, which compares whole bytes with
  \<^verbatim>\<open>0xFF\<close>, still reports a cleared bit after clearing the storage and setting all \<open>n\<close>
  bits, exactly when \<open>n\<close> is not a multiple of eight.
\<close>

theorem fill_and_count:
  assumes "BASIZE n \<le> length b"
  shows "BitArrayNumSet (BitArraySetAll b n) n = n \<and>
         BitArrayNumSet (BitArrayClearAll b n) n = 0 \<and>
         BitArrayIsAnyCleared (BitArraySetAll (BitArrayRealClearAll b n) n) n = (n mod 8 \<noteq> 0)"
proof -
  let ?m = "8 * BASIZE n" and ?z = "BitArrayRealClearAll b n"
  have "bits_of (BitArraySetAll ?z n) ?m = bits_of ?z ?m \<union> {..<n}"
    unfolding BitArraySetAll_def using assms BASIZE_8(1) [of n] by (simp add: ba.fold_set_bit)
  then have "BitArrayIsAnyCleared (BitArraySetAll ?z n) n \<longleftrightarrow> n \<noteq> ?m"
    by (simp add: IsAnyCleared_bits bits_of_RealClearAll [OF assms])
  moreover have "n = ?m \<longleftrightarrow> n mod 8 = 0"
    by (metis BASIZE_mult dvd_eq_mod_eq_0 dvd_mult_div_cancel dvd_triv_left)
  ultimately show ?thesis
    using assms by (simp add: NumSet_card bits_of_SetAll bits_of_ClearAll)
qed

theorem fill_and_count_witness:
  "BASIZE 12 \<le> length [0x5A, 0xC3 :: byte] \<and>
   BitArrayIsAnyCleared (BitArraySetAll (BitArrayRealClearAll [0x5A, 0xC3] 12) 12) 12"
  using fill_and_count [of 12 "[0x5A, 0xC3]"] by (simp add: BASIZE_def)

end
