(* ===== verification/Result_Dest.thy ===== *)
theory Result_Dest
  imports Queue_Interface Bit_Array
begin

text \<open>
  \<^verbatim>\<open>src/src/backend/rqueue/rqdest.c\<close>: the serializers of result entries, the pool of result queues
  and the delivery of a result tuple to the queues of the queries it belongs to.
  \<open>queue_serializer_laws\<close> is interpreted on the two serializers of the file, which gives the
  FIFO facts of \<open>Queue_Interface\<close> for the queues that carry results.
\<close>

unbundle bit_operations_syntax

section \<open>Result entries\<close>

text \<open>
  The part of a \<^verbatim>\<open>HeapTupleData\<close> that travels: its length and the bytes \<^verbatim>\<open>t_data\<close> points to. A
  \<^verbatim>\<open>text\<close> is the bytes of its \<^verbatim>\<open>varlena\<close>, header included. \<^verbatim>\<open>result\<close> is a tagged union;
  \<open>Result_other\<close> is an entry whose tag is none of the enumeration.
\<close>

record HeapTuple =
  t_len :: "32 word"
  t_data :: "byte list"

type_synonym varlena = "byte list"

datatype result =
    Result_done
  | Result_error varlena
  | Result_heaptuple HeapTuple
  | Result_fprodsync "32 word"
  | Result_fconssync
  | Result_fprodalive "32 word"
  | Result_pauseack
  | Result_other "32 word"

fun result_type :: "result \<Rightarrow> 32 word" where
  "result_type Result_done = 199"
| "result_type (Result_error v) = 200"
| "result_type (Result_heaptuple t) = 201"
| "result_type (Result_fprodsync i) = 202"
| "result_type Result_fconssync = 203"
| "result_type (Result_fprodalive i) = 204"
| "result_type Result_pauseack = 205"
| "result_type (Result_other w) = w"

definition HEAPTUPLESIZE :: int where "HEAPTUPLESIZE = 32"

section \<open>Serializers\<close>

definition varlena_determineSize :: "varlena \<Rightarrow> int" where
  "varlena_determineSize v = VARSIZE v"

definition varlena_serialize :: "varlena \<Rightarrow> int \<Rightarrow> bool \<times> byte list" where
  "varlena_serialize v bufsize =
     (let sz = varlena_determineSize v in
      if sz > bufsize then (False, []) else (True, mem_read 0 (nat sz) v))"

definition varlena_deserialize :: "byte list \<Rightarrow> varlena outcome" where
  "varlena_deserialize m =
     (let sz = varlena_determineSize m in
      if sz = 0 then Inl (Elog_error ''MemoryContextAlloc: invalid request size'')
      else Inr (mem_read 0 (nat sz) m))"

definition heaptuple_determineSize :: "HeapTuple \<Rightarrow> int" where
  "heaptuple_determineSize t = sint (t_len t + 4)"

definition heaptuple_serialize :: "HeapTuple \<Rightarrow> int \<Rightarrow> (bool \<times> byte list) outcome" where
  "heaptuple_serialize t bufsize =
     (if heaptuple_determineSize t > bufsize then Inl (Assert_failed ''false'')
      else Inr (True, le32_bytes (t_len t) @ (if t_len t > 0 then mem_read 0 (unat (t_len t)) (t_data t) else [])))"

definition heaptuple_deserialize :: "byte list \<Rightarrow> HeapTuple outcome" where
  "heaptuple_deserialize m =
     (let len = le32_of_bytes (mem_read 0 4 m) in
      if uint len + HEAPTUPLESIZE > MaxAllocSize
      then Inl (Elog_error ''MemoryContextAlloc: invalid request size'')
      else Inr \<lparr>t_len = len, t_data = (if len > 0 then mem_read 4 (unat len) m else [])\<rparr>)"

fun result_determineSize :: "result \<Rightarrow> int outcome" where
  "result_determineSize (Result_heaptuple t) = Inr (4 + heaptuple_determineSize t)"
| "result_determineSize (Result_error v) = Inr (4 + varlena_determineSize v)"
| "result_determineSize (Result_fprodsync i) = Inr (4 + 4)"
| "result_determineSize (Result_fprodalive i) = Inr (4 + 4)"
| "result_determineSize Result_pauseack = Inr 4"
| "result_determineSize Result_fconssync = Inr 4"
| "result_determineSize Result_done = Inr 4"
| "result_determineSize (Result_other w) = Inl (Elog_error ''invalid type for result serializer '')"

fun result_serialize :: "result \<Rightarrow> int \<Rightarrow> (bool \<times> byte list) outcome" where
  "result_serialize (Result_heaptuple t) bufsize =
     bind_outcome (heaptuple_serialize t (bufsize - 4))
       (\<lambda>(ok, bs). Inr (ok, le32_bytes (result_type (Result_heaptuple t)) @ bs))"
| "result_serialize (Result_error v) bufsize =
     (case varlena_serialize v (bufsize - 4) of
        (ok, bs) \<Rightarrow> Inr (ok, le32_bytes (result_type (Result_error v)) @ bs))"
| "result_serialize (Result_fprodsync i) bufsize =
     Inr (True, le32_bytes (result_type (Result_fprodsync i)) @ le32_bytes i)"
| "result_serialize (Result_fprodalive i) bufsize =
     Inr (True, le32_bytes (result_type (Result_fprodalive i)) @ le32_bytes i)"
| "result_serialize Result_pauseack bufsize = Inr (True, le32_bytes (result_type Result_pauseack))"
| "result_serialize Result_fconssync bufsize = Inr (True, le32_bytes (result_type Result_fconssync))"
| "result_serialize Result_done bufsize = Inr (True, le32_bytes (result_type Result_done))"
| "result_serialize (Result_other w) bufsize = Inl (Elog_error ''invalid type for result serializer '')"

definition result_deserialize :: "byte list \<Rightarrow> result outcome" where
  "result_deserialize m =
     (let ty = le32_of_bytes (mem_read 0 4 m); body = drop 4 m in
      if ty = 201 then bind_outcome (heaptuple_deserialize body) (\<lambda>t. Inr (Result_heaptuple t))
      else if ty = 200 then bind_outcome (varlena_deserialize body) (\<lambda>v. Inr (Result_error v))
      else if ty = 202 then Inr (Result_fprodsync (le32_of_bytes (mem_read 0 4 body)))
      else if ty = 204 then Inr (Result_fprodalive (le32_of_bytes (mem_read 0 4 body)))
      else if ty = 205 then Inr Result_pauseack
      else if ty = 203 then Inr Result_fconssync
      else if ty = 199 then Inr Result_done
      else Inl (Elog_error ''can't determine result type ''))"

definition result_serializer :: "result queue_serializer" where
  "result_serializer = \<lparr>determineSize = result_determineSize, serialize = result_serialize,
     deserialize = result_deserialize\<rparr>"

definition tuple_serializer :: "HeapTuple queue_serializer" where
  "tuple_serializer = \<lparr>determineSize = (\<lambda>t. Inr (heaptuple_determineSize t)), serialize = heaptuple_serialize,
     deserialize = heaptuple_deserialize\<rparr>"

section \<open>Round trips\<close>

text \<open>Entries that can travel: lengths agree with the data and fit the allocator.\<close>

definition tuple_ok :: "HeapTuple \<Rightarrow> bool" where
  "tuple_ok t \<longleftrightarrow> length (t_data t) = unat (t_len t) \<and> uint (t_len t) + HEAPTUPLESIZE \<le> MaxAllocSize"

definition varlena_ok :: "varlena \<Rightarrow> bool" where
  "varlena_ok v \<longleftrightarrow> 4 \<le> length v \<and> VARSIZE v = int (length v)"

fun result_ok :: "result \<Rightarrow> bool" where
  "result_ok (Result_heaptuple t) = tuple_ok t"
| "result_ok (Result_error v) = varlena_ok v"
| "result_ok (Result_other w) = False"
| "result_ok _ = True"

lemma read_le32 [simp]: "le32_of_bytes (mem_read 0 4 (le32_bytes w @ rest)) = w"
  by (rule le32_roundtrip_take) (simp add: mem_read_def)

lemma heaptuple_size:
  assumes "tuple_ok t"
  shows "heaptuple_determineSize t = int (length (t_data t)) + 4"
proof -
  have "uint (t_len t) < 2 ^ 30" using assms by (simp add: tuple_ok_def HEAPTUPLESIZE_def queue_consts)
  then have "sint (t_len t + 4) = uint (t_len t) + 4"
    using sint_word_of_int_32 [of "uint (t_len t) + 4"] by simp
  moreover have "uint (t_len t) = int (length (t_data t))" using assms by (simp add: tuple_ok_def)
  ultimately show ?thesis by (simp add: heaptuple_determineSize_def)
qed

lemma heaptuple_image:
  assumes "tuple_ok t"
  shows "heaptuple_serialize t (int (length (t_data t)) + 4) = Inr (True, le32_bytes (t_len t) @ t_data t)"
    and "heaptuple_deserialize (le32_bytes (t_len t) @ t_data t @ rest) = Inr t"
proof -
  have l: "length (t_data t) = unat (t_len t)" using assms by (simp add: tuple_ok_def)
  have z: "\<not> t_len t > 0 \<Longrightarrow> t_data t = []" using l by (auto simp: word_gt_0)
  show "heaptuple_serialize t (int (length (t_data t)) + 4) = Inr (True, le32_bytes (t_len t) @ t_data t)"
    using l z by (auto simp: heaptuple_serialize_def heaptuple_size [OF assms] mem_read_def)
  have "mem_read 4 (unat (t_len t)) (le32_bytes (t_len t) @ t_data t @ rest) = t_data t"
    using l by (simp add: mem_read_def)
  then show "heaptuple_deserialize (le32_bytes (t_len t) @ t_data t @ rest) = Inr t"
    using assms z by (auto simp: heaptuple_deserialize_def Let_def tuple_ok_def not_le)
qed

lemma varlena_image:
  assumes "varlena_ok v"
  shows "varlena_determineSize v = int (length v)" "varlena_serialize v (int (length v)) = (True, v)"
    and "varlena_deserialize (v @ rest) = Inr v"
proof -
  show s: "varlena_determineSize v = int (length v)"
    using assms by (simp add: varlena_ok_def varlena_determineSize_def)
  then show "varlena_serialize v (int (length v)) = (True, v)"
    by (simp add: varlena_serialize_def mem_read_def)
  have "varlena_determineSize (v @ rest) = int (length v)"
    using assms by (simp add: varlena_ok_def varlena_determineSize_def VARSIZE_def mem_read_def)
  then show "varlena_deserialize (v @ rest) = Inr v"
    using assms by (auto simp: varlena_deserialize_def mem_read_def varlena_ok_def)
qed

text \<open>The bytes an entry becomes.\<close>

fun result_image :: "result \<Rightarrow> byte list" where
  "result_image (Result_heaptuple t) = le32_bytes 201 @ le32_bytes (t_len t) @ t_data t"
| "result_image (Result_error v) = le32_bytes 200 @ v"
| "result_image (Result_fprodsync i) = le32_bytes 202 @ le32_bytes i"
| "result_image (Result_fprodalive i) = le32_bytes 204 @ le32_bytes i"
| "result_image r = le32_bytes (result_type r)"

lemma drop_le32 [simp]: "drop 4 (le32_bytes w @ rest) = rest"
  by simp

lemma result_size: "result_ok r \<Longrightarrow> result_determineSize r = Inr (int (length (result_image r)))"
  by (cases r) (simp_all add: heaptuple_size varlena_image)

lemma result_write: "result_ok r \<Longrightarrow> result_serialize r (int (length (result_image r))) = Inr (True, result_image r)"
proof (cases r)
  case (Result_heaptuple t)
  moreover assume "result_ok r"
  ultimately show ?thesis using heaptuple_image(1) [of t] by (simp add: add.commute)
qed (simp_all add: varlena_image)

lemma result_read: "result_ok r \<Longrightarrow> result_deserialize (result_image r @ rest) = Inr r"
  by (cases r) (simp_all add: result_deserialize_def heaptuple_image varlena_image read_le32 [of _ "[]", simplified])

interpretation ts: queue_serializer_laws tuple_serializer tuple_ok
proof
  fix x n assume "tuple_ok x" "determineSize tuple_serializer x = Inr n"
  then show "\<exists>ok d. serialize tuple_serializer x n = Inr (ok, d) \<and> int (length d) = n"
    using heaptuple_image(1) [of x] by (auto simp: tuple_serializer_def heaptuple_size)
next
  fix x n ok d rest
  assume "tuple_ok x" "determineSize tuple_serializer x = Inr n" "serialize tuple_serializer x n = Inr (ok, d)"
  then show "deserialize tuple_serializer (d @ rest) = Inr x"
    using heaptuple_image [of x] by (auto simp: tuple_serializer_def heaptuple_size)
next
  fix x assume "tuple_ok x"
  then show "\<exists>n. determineSize tuple_serializer x = Inr (int n)"
    by (auto simp: tuple_serializer_def heaptuple_size intro: exI [of _ "length (t_data x) + 4"])
qed

interpretation rs: queue_serializer_laws result_serializer result_ok
  by unfold_locales (auto simp: result_serializer_def result_size result_write result_read)

section \<open>The pool of result queues\<close>

text \<open>
  The shared-memory variables of the pool. A spin lock that is held blocks; \<open>None\<close> in
  \<^verbatim>\<open>shmResultQueues\<close> is \<^verbatim>\<open>NULL\<close>.
\<close>

record result_pool =
  numResultQueues :: nat
  bitmapLocked :: bool
  shmResultQueueBitmap :: BitArray
  shmResultQueues :: "Queue option list"
  shmResultQueuesInit :: "bool list"

definition bitmap_acquire :: "(result_pool, unit) prog" where
  "bitmap_acquire p = (if bitmapLocked p then (Inl Would_block, p) else (Inr (), p\<lparr>bitmapLocked := True\<rparr>))"

definition bitmap_release :: "(result_pool, unit) prog" where
  "bitmap_release = modify_prog (\<lambda>p. p\<lparr>bitmapLocked := False\<rparr>)"

fun alloc_scan :: "nat \<Rightarrow> nat list \<Rightarrow> BitArray \<Rightarrow> nat \<times> BitArray" where
  "alloc_scan n [] b = (n, b)"
| "alloc_scan n (qno # qnos) b =
     (if \<not> BitArrayBitIsSet b qno then (qno, BitArraySetBit b qno) else alloc_scan n qnos b)"

definition AllocQueue :: "(result_pool, nat) prog" where
  "AllocQueue =
     bind_prog bitmap_acquire (\<lambda>_.
     bind_prog (\<lambda>p. case alloc_scan (numResultQueues p) [0..<numResultQueues p] (shmResultQueueBitmap p) of
                      (qno, b) \<Rightarrow> (Inr qno, p\<lparr>shmResultQueueBitmap := b\<rparr>)) (\<lambda>qno.
     bind_prog bitmap_release (\<lambda>_ p.
       if qno \<ge> numResultQueues p then (Inl (Elog_error ''Out of result queues''), p) else (Inr qno, p))))"

definition FreeQueue :: "nat \<Rightarrow> (result_pool, unit) prog" where
  "FreeQueue qno p0 =
     (if \<not> qno < numResultQueues p0 then (Inl (Assert_failed ''qno < numResultQueues''), p0)
      else bind_prog bitmap_acquire (\<lambda>_.
           bind_prog (modify_prog (\<lambda>p. p\<lparr>shmResultQueueBitmap := BitArrayClearBit (shmResultQueueBitmap p) qno\<rparr>)) (\<lambda>_.
           bitmap_release)) p0)"

fun create_loop :: "int \<Rightarrow> nat list \<Rightarrow> (result_pool, unit) prog" where
  "create_loop sz [] = return_prog ()"
| "create_loop sz (i # is) =
     bind_prog (\<lambda>p. if \<not> shmResultQueuesInit p ! i
                    then (case make_queue None sz of
                            Inl e \<Rightarrow> (Inl e, p)
                          | Inr q \<Rightarrow> (Inr (), p\<lparr>shmResultQueues := (shmResultQueues p)[i := q],
                                              shmResultQueuesInit := (shmResultQueuesInit p)[i := True]\<rparr>))
                    else (Inr (), p)) (\<lambda>_. create_loop sz is)"

definition CreateResultQueues :: "int \<Rightarrow> (result_pool, unit) prog" where
  "CreateResultQueues tcqresultqsize p = create_loop tcqresultqsize [0..<numResultQueues p] p"

text \<open>\<^verbatim>\<open>free_queue\<close> (\<^verbatim>\<open>resultq.c\<close>) reads the queue's lock before it frees and clears the pointer.\<close>

definition free_queue :: "Queue option \<Rightarrow> Queue option outcome" where
  "free_queue q = (case q of None \<Rightarrow> Inl (Out_of_bounds ''free_queue of a NULL queue'') | Some _ \<Rightarrow> Inr None)"

fun deallocate_loop :: "nat list \<Rightarrow> (result_pool, unit) prog" where
  "deallocate_loop [] = return_prog ()"
| "deallocate_loop (i # is) =
     bind_prog (\<lambda>p. if shmResultQueuesInit p ! i
                    then (case free_queue (shmResultQueues p ! i) of
                            Inl e \<Rightarrow> (Inl e, p)
                          | Inr q \<Rightarrow> (Inr (), p\<lparr>shmResultQueues := (shmResultQueues p)[i := q],
                                              shmResultQueuesInit := (shmResultQueuesInit p)[i := False]\<rparr>))
                    else (Inr (), p)) (\<lambda>_. deallocate_loop is)"

definition DeallocateResultQueues :: "bool \<Rightarrow> (result_pool, unit) prog" where
  "DeallocateResultQueues init_plumbing p =
     (if \<not> init_plumbing then (Inr (), p) else deallocate_loop [0..<numResultQueues p] p)"

definition GetQueue :: "nat \<Rightarrow> result_pool \<Rightarrow> Queue option outcome" where
  "GetQueue qno p =
     (if qno < numResultQueues p \<and> shmResultQueuesInit p ! qno then Inr (shmResultQueues p ! qno)
      else Inl (Elog_error ''result queue is not allocated''))"

section \<open>Selecting queues\<close>

text \<open>
  The iterator is a pointer to a \<^verbatim>\<open>uint16\<close>; \<open>None\<close> is \<^verbatim>\<open>NULL\<close>. The scan and the loop around it
  need not end when there are more than 65535 queues.
\<close>

definition QueueSelectionIterIncr :: "nat \<Rightarrow> nat \<Rightarrow> nat option" where
  "QueueSelectionIterIncr num qno =
     (let qno' = (qno + 1) mod 2 ^ 16 in if qno' = num then None else Some qno')"

definition initQueueSelectionIter :: nat where
  "initQueueSelectionIter = 0"

partial_function (option) QueueSelectionIterFindNext :: "nat \<Rightarrow> BitArray \<Rightarrow> nat option \<Rightarrow> nat option option" where
  "QueueSelectionIterFindNext num b qnop =
     (case qnop of
        None \<Rightarrow> Some None
      | Some qno \<Rightarrow>
          if BitArrayBitIsSet b qno then Some (Some qno)
          else QueueSelectionIterFindNext num b (QueueSelectionIterIncr num qno))"

text \<open>The values of \<^verbatim>\<open>qno\<close> with which the body of the \<^verbatim>\<open>for\<close> loop of \<^verbatim>\<open>resultqdest\<close> runs.\<close>

partial_function (option) selected_queues :: "nat \<Rightarrow> BitArray \<Rightarrow> nat option \<Rightarrow> nat list option" where
  "selected_queues num b qnop =
     Option.bind (QueueSelectionIterFindNext num b qnop) (\<lambda>r.
       case r of
         None \<Rightarrow> Some []
       | Some qno \<Rightarrow> Option.bind (selected_queues num b (QueueSelectionIterIncr num qno)) (\<lambda>qnos. Some (qno # qnos)))"

section \<open>Delivering a tuple\<close>

text \<open>
  What \<^verbatim>\<open>resultqdest\<close> uses of the eddy: the recursive-query table, the scan modules among the
  sources (\<open>None\<close> is \<^verbatim>\<open>NULL\<close> or a node of another kind) with their recursion queues. The projection
  \<^verbatim>\<open>EddyExecProject\<close> is an argument.
\<close>

record IntermediateHeapTuple =
  isAggTuple :: bool
  t_base_tuples :: "HeapTuple list"

record ScanModule =
  sourceOid :: nat
  recurseResult :: Queue
  isRecursivelyFed :: bool

record Eddy =
  recursiveQueryFeedback :: "nat list"
  eddy_sources :: "ScanModule option list"

record dest_state =
  whereToSendOutput :: BitArray
  dest_eddy :: "Eddy option"
  dest_pool :: result_pool

datatype dest_input = Null_tuple | Heap_tuple HeapTuple | Iht IntermediateHeapTuple

definition InvalidOid :: nat where "InvalidOid = 0"

definition GetRecurseRelation :: "Eddy option \<Rightarrow> nat \<Rightarrow> nat outcome" where
  "GetRecurseRelation eddy queryid =
     (case eddy of None \<Rightarrow> Inl (Out_of_bounds ''eddy is NULL'') | Some e \<Rightarrow> Inr (recursiveQueryFeedback e ! queryid))"

definition IsOutputQuery :: "Eddy option \<Rightarrow> nat \<Rightarrow> bool outcome" where
  "IsOutputQuery eddy queryid =
     (case eddy of None \<Rightarrow> Inl (Out_of_bounds ''eddy is NULL'')
      | Some e \<Rightarrow> Inr (recursiveQueryFeedback e ! queryid = InvalidOid))"

definition InsertRecursiveResults :: "HeapTuple \<Rightarrow> (ScanModule, unit) prog" where
  "InsertRecursiveResults t sm =
     (case enqueue result_serializer (Result_heaptuple t) False (recurseResult sm) of
        (Inl e, q) \<Rightarrow> (Inl e, sm\<lparr>recurseResult := q\<rparr>)
      | (Inr _, q) \<Rightarrow> (Inr (), sm\<lparr>recurseResult := q\<rparr>))"

fun feed_sources :: "nat \<Rightarrow> HeapTuple \<Rightarrow> nat list \<Rightarrow> (Eddy, unit) prog" where
  "feed_sources recurseOid t [] = return_prog ()"
| "feed_sources recurseOid t (smid # smids) =
     bind_prog (\<lambda>e. case eddy_sources e ! smid of
          None \<Rightarrow> (Inr (), e)
        | Some sm \<Rightarrow>
            if sourceOid sm = recurseOid
            then (case InsertRecursiveResults t sm of
                    (Inl err, sm') \<Rightarrow> (Inl err, e\<lparr>eddy_sources := (eddy_sources e)[smid := Some sm']\<rparr>)
                  | (Inr _, sm') \<Rightarrow>
                      (Inr (), e\<lparr>eddy_sources := (eddy_sources e)[smid := Some (sm'\<lparr>isRecursivelyFed := True\<rparr>)]\<rparr>))
            else (Inr (), e)) (\<lambda>_.
     feed_sources recurseOid t smids)"

text \<open>The output tuple for one query, and the feedback of recursive queries into the scan modules.\<close>

definition output_tuple ::
  "(Eddy \<Rightarrow> IntermediateHeapTuple \<Rightarrow> nat \<Rightarrow> HeapTuple) \<Rightarrow> dest_input \<Rightarrow> nat \<Rightarrow> (dest_state, HeapTuple) prog" where
  "output_tuple EddyExecProject inputTuple qno s =
     (case inputTuple of
        Null_tuple \<Rightarrow> (Inr \<lparr>t_len = 0, t_data = []\<rparr>, s)
      | _ \<Rightarrow>
          (case dest_eddy s of
             None \<Rightarrow> (case inputTuple of Heap_tuple t \<Rightarrow> (Inr t, s) | _ \<Rightarrow> (Inl (Out_of_bounds ''not a HeapTuple''), s))
           | Some e \<Rightarrow>
               (case inputTuple of
                  Iht iht \<Rightarrow>
                    let t = (if isAggTuple iht then t_base_tuples iht ! 0 else EddyExecProject e iht qno);
                        recurseOid = recursiveQueryFeedback e ! qno
                    in if recurseOid \<noteq> InvalidOid
                       then (case feed_sources recurseOid t [0..<length (eddy_sources e)] e of
                               (Inl err, e') \<Rightarrow> (Inl err, s\<lparr>dest_eddy := Some e'\<rparr>)
                             | (Inr _, e') \<Rightarrow> (Inr t, s\<lparr>dest_eddy := Some e'\<rparr>))
                       else (Inr t, s)
                | _ \<Rightarrow> (Inl (Out_of_bounds ''not an IntermediateHeapTuple''), s))))"

text \<open>The non-blocking \<^verbatim>\<open>enqueue\<close>, repeated once after a \<^verbatim>\<open>sched_yield\<close>; then the tuple is dropped.\<close>

definition enqueue_retry :: "HeapTuple \<Rightarrow> (Queue, unit) prog" where
  "enqueue_retry t =
     bind_prog (enqueue result_serializer (Result_heaptuple t) False) (\<lambda>ok.
       if ok then return_prog ()
       else bind_prog (enqueue result_serializer (Result_heaptuple t) False) (\<lambda>_. return_prog ()))"

definition deliver_output :: "nat \<Rightarrow> HeapTuple \<Rightarrow> (result_pool, unit) prog" where
  "deliver_output qno t p =
     (case shmResultQueues p ! qno of
        None \<Rightarrow> (Inl (Out_of_bounds ''enqueue on a NULL queue''), p)
      | Some q \<Rightarrow> (case enqueue_retry t q of
                    (r, q') \<Rightarrow> (r, p\<lparr>shmResultQueues := (shmResultQueues p)[qno := Some q']\<rparr>)))"

definition deliver_one ::
  "(Eddy \<Rightarrow> IntermediateHeapTuple \<Rightarrow> nat \<Rightarrow> HeapTuple) \<Rightarrow> dest_input \<Rightarrow> nat \<Rightarrow> (dest_state, unit) prog" where
  "deliver_one EddyExecProject inputTuple qno =
     bind_prog (\<lambda>s. (GetQueue qno (dest_pool s), s)) (\<lambda>_.
     bind_prog (output_tuple EddyExecProject inputTuple qno) (\<lambda>t.
     bind_prog (\<lambda>s. (IsOutputQuery (dest_eddy s) qno, s)) (\<lambda>out s.
       if out then (case deliver_output qno t (dest_pool s) of (r, p) \<Rightarrow> (r, s\<lparr>dest_pool := p\<rparr>))
       else (Inr (), s))))"

fun deliver_loop ::
  "(Eddy \<Rightarrow> IntermediateHeapTuple \<Rightarrow> nat \<Rightarrow> HeapTuple) \<Rightarrow> dest_input \<Rightarrow> nat list \<Rightarrow> (dest_state, unit) prog" where
  "deliver_loop EddyExecProject inputTuple [] = return_prog ()"
| "deliver_loop EddyExecProject inputTuple (qno # qnos) =
     bind_prog (deliver_one EddyExecProject inputTuple qno) (\<lambda>_. deliver_loop EddyExecProject inputTuple qnos)"

definition resultqdest ::
  "bool \<Rightarrow> (Eddy \<Rightarrow> IntermediateHeapTuple \<Rightarrow> nat \<Rightarrow> HeapTuple) \<Rightarrow> dest_input \<Rightarrow> dest_state
   \<Rightarrow> (unit outcome \<times> dest_state) option" where
  "resultqdest UseCQEddy EddyExecProject inputTuple s0 =
     (let num = numResultQueues (dest_pool s0);
          s = (if \<not> UseCQEddy
               then s0\<lparr>whereToSendOutput := BitArraySetBit (BitArrayClearAll (whereToSendOutput s0) num) 0\<rparr>
               else s0)
      in map_option (\<lambda>qnos. deliver_loop EddyExecProject inputTuple qnos s)
           (selected_queues num (whereToSendOutput s) (Some initQueueSelectionIter)))"

text \<open>
  \<^verbatim>\<open>ReportErrorOnQueue\<close>: \<^verbatim>\<open>textin\<close> (\<^verbatim>\<open>src/src/backend/utils/adt/varlena.c\<close>) makes a \<^verbatim>\<open>text\<close> of the C
  string; the check of its encoding, which gives an error message, is an argument.
\<close>

definition text_image :: "byte list \<Rightarrow> varlena" where
  "text_image inputText = le32_bytes (word_of_int (int (length inputText) + 4)) @ inputText"

definition textin :: "(byte list \<Rightarrow> string option) \<Rightarrow> byte list \<Rightarrow> varlena outcome" where
  "textin pg_verifymbstr inputText =
     (case pg_verifymbstr inputText of Some ermsg \<Rightarrow> Inl (Elog_error ermsg) | None \<Rightarrow> Inr (text_image inputText))"

definition ReportErrorOnQueue :: "(byte list \<Rightarrow> string option) \<Rightarrow> byte list \<Rightarrow> (Queue, unit) prog" where
  "ReportErrorOnQueue pg_verifymbstr msg =
     bind_prog (lift_outcome (textin pg_verifymbstr msg)) (\<lambda>t.
     bind_prog (enqueue result_serializer (Result_error t) False) (\<lambda>_. return_prog ()))"

section \<open>Allocation\<close>

lemma alloc_scan_find:
  "alloc_scan n qnos b =
     (case find (\<lambda>i. \<not> BitArrayBitIsSet b i) qnos of None \<Rightarrow> (n, b) | Some i \<Rightarrow> (i, BitArraySetBit b i))"
  by (induction qnos) auto

definition pool_ok :: "result_pool \<Rightarrow> bool" where
  "pool_ok p \<longleftrightarrow> \<not> bitmapLocked p \<and> BASIZE (numResultQueues p) \<le> length (shmResultQueueBitmap p)"

abbreviation pool_used :: "result_pool \<Rightarrow> nat set" where
  "pool_used p \<equiv> bits_of (shmResultQueueBitmap p) (numResultQueues p)"

lemma AllocQueue_run:
  assumes "pool_ok p"
  shows "AllocQueue p =
    (case find (\<lambda>i. \<not> BitArrayBitIsSet (shmResultQueueBitmap p) i) [0..<numResultQueues p] of
       None \<Rightarrow> (Inl (Elog_error ''Out of result queues''), p)
     | Some i \<Rightarrow> (Inr i, p\<lparr>shmResultQueueBitmap := BitArraySetBit (shmResultQueueBitmap p) i\<rparr>))"
proof -
  have "\<not> bitmapLocked p" using assms by (simp add: pool_ok_def)
  then have unlock: "p\<lparr>bitmapLocked := True, bitmapLocked := False\<rparr> = p" by (cases p) simp
  show ?thesis
  proof (cases "find (\<lambda>i. \<not> BitArrayBitIsSet (shmResultQueueBitmap p) i) [0..<numResultQueues p]")
    case None
    then show ?thesis
      using \<open>\<not> bitmapLocked p\<close> by (cases p) (simp add: AllocQueue_def bind_prog_def bitmap_acquire_def
          bitmap_release_def alloc_scan_find)
  next
    case (Some i)
    then have "i < numResultQueues p" using ba.find_clear(1) by blast
    then show ?thesis
      using Some \<open>\<not> bitmapLocked p\<close> by (cases p) (simp add: AllocQueue_def bind_prog_def bitmap_acquire_def
          bitmap_release_def alloc_scan_find)
  qed
qed

lemma FreeQueue_run:
  assumes "pool_ok p" "qno < numResultQueues p"
  shows "FreeQueue qno p = (Inr (), p\<lparr>shmResultQueueBitmap := BitArrayClearBit (shmResultQueueBitmap p) qno\<rparr>)"
  using assms by (cases p) (simp add: FreeQueue_def pool_ok_def bind_prog_def bitmap_acquire_def bitmap_release_def)

section \<open>Selection\<close>

lemma find_Cons_upt: "i < n \<Longrightarrow> find P [i..<n] = (if P i then Some i else find P [Suc i..<n])"
  by (simp add: upt_conv_Cons)

lemma iter_incr:
  "qno < num \<Longrightarrow> num < 2 ^ 16 \<Longrightarrow>
   QueueSelectionIterIncr num qno = (if Suc qno = num then None else Some (Suc qno))"
  by (simp add: QueueSelectionIterIncr_def)

lemma find_next_run:
  assumes "qno < num" "num < 2 ^ 16"
  shows "QueueSelectionIterFindNext num b (Some qno) = Some (find (BitArrayBitIsSet b) [qno..<num])"
  using assms(1)
proof (induction "num - qno" arbitrary: qno)
  case (Suc k)
  note step = QueueSelectionIterFindNext.simps [of num b "Some qno"]
  show ?case
  proof (cases "BitArrayBitIsSet b qno \<or> Suc qno = num")
    case True
    then show ?thesis
      using Suc.prems assms(2) QueueSelectionIterFindNext.simps [of num b None]
      by (auto simp: step find_Cons_upt iter_incr)
  next
    case False
    then have "Suc qno < num" "k = num - Suc qno" using Suc by auto
    with Suc.hyps(1) False Suc.prems assms(2) show ?thesis by (simp add: step find_Cons_upt iter_incr)
  qed
qed simp

lemma find_next_None: "QueueSelectionIterFindNext num b None = Some None"
  by (simp add: QueueSelectionIterFindNext.simps)

lemma find_filter_upt:
  "filter P [qno..<num] = (case find P [qno..<num] of None \<Rightarrow> [] | Some i \<Rightarrow> i # filter P [Suc i..<num])"
proof (induction "num - qno" arbitrary: qno)
  case (Suc k)
  then have "qno < num" by simp
  with Suc.hyps(1) [of "Suc qno"] Suc.hyps(2) show ?case by (auto simp: upt_conv_Cons)
qed simp

lemma selected_run:
  assumes "qno < num" "num < 2 ^ 16"
  shows "selected_queues num b (Some qno) = Some (filter (BitArrayBitIsSet b) [qno..<num])"
  using assms(1)
proof (induction "num - qno" arbitrary: qno rule: less_induct)
  case less
  note step = selected_queues.simps [of num b "Some qno"]
  show ?case
  proof (cases "find (BitArrayBitIsSet b) [qno..<num]")
    case None
    then show ?thesis
      using find_next_run [OF less.prems assms(2)] find_filter_upt [of "BitArrayBitIsSet b" qno num]
      by (simp add: step)
  next
    case (Some i)
    then have i: "qno \<le> i" "i < num" by (auto simp: find_Some_iff)
    have rest: "selected_queues num b (QueueSelectionIterIncr num i) = Some (filter (BitArrayBitIsSet b) [Suc i..<num])"
    proof (cases "Suc i = num")
      case True
      then show ?thesis
        using i assms(2) by (simp add: iter_incr selected_queues.simps [of num b None] find_next_None)
    next
      case False
      then show ?thesis using i assms(2) less.hyps [of "Suc i"] by (simp add: iter_incr)
    qed
    show ?thesis
      using find_next_run [OF less.prems assms(2)] find_filter_upt [of "BitArrayBitIsSet b" qno num] Some rest
      by (simp add: step)
  qed
qed

section \<open>Delivery\<close>

abbreviation tuple_bytes :: "HeapTuple \<Rightarrow> int" where
  "tuple_bytes t \<equiv> elt_bytes result_serializer (Result_heaptuple t)"

abbreviation rq_ready :: "Queue \<Rightarrow> result list \<Rightarrow> bool" where
  "rq_ready \<equiv> queue_ready result_serializer"

text \<open>What delivering \<open>t\<close> does to the contents of a queue.\<close>

definition delivered :: "HeapTuple \<Rightarrow> Queue \<Rightarrow> result list \<Rightarrow> result list" where
  "delivered t q xs = (if queue_fits q (tuple_bytes t) then xs @ [Result_heaptuple t] else xs)"

lemma enqueue_retry_ready:
  assumes "rq_ready q xs" "tuple_ok t"
  obtains q' where "enqueue_retry t q = (Inr (), q')" "rq_ready q' (delivered t q xs)"
proof -
  obtain d where d: "encodes result_serializer d (Result_heaptuple t)"
    using rs.encodable_image [of "Result_heaptuple t"] assms(2) by auto
  obtain q1 where q1: "enqueue result_serializer (Result_heaptuple t) False q = (Inr (queue_fits q (tuple_bytes t)), q1)"
    "rq_ready q1 (delivered t q xs)" "\<not> queue_fits q (tuple_bytes t) \<Longrightarrow> \<not> queue_fits q1 (tuple_bytes t)"
    using enqueue_ready [OF assms(1) d, of False] unfolding delivered_def by blast
  show thesis
  proof (cases "queue_fits q (tuple_bytes t)")
    case True
    with q1 show thesis by (intro that [of q1]) (simp_all add: enqueue_retry_def bind_prog_def)
  next
    case False
    obtain q2 where "enqueue result_serializer (Result_heaptuple t) False q1 = (Inr (queue_fits q1 (tuple_bytes t)), q2)"
      "rq_ready q2 (if queue_fits q1 (tuple_bytes t) then delivered t q xs @ [Result_heaptuple t] else delivered t q xs)"
      using enqueue_ready [OF q1(2) d, of False] by blast
    with False q1 show thesis by (intro that [of q2]) (simp_all add: enqueue_retry_def bind_prog_def)
  qed
qed

text \<open>
  A pool in which queue \<open>i\<close> is initialised and holds \<open>cs i\<close>, for every \<open>i\<close> in use.
\<close>

definition pool_holds :: "result_pool \<Rightarrow> (nat \<Rightarrow> result list) \<Rightarrow> bool" where
  "pool_holds p cs \<longleftrightarrow> length (shmResultQueues p) = numResultQueues p \<and>
     (\<forall>i<numResultQueues p. shmResultQueuesInit p ! i \<and>
        (\<exists>q. shmResultQueues p ! i = Some q \<and> rq_ready q (cs i)))"

abbreviation pool_queue :: "result_pool \<Rightarrow> nat \<Rightarrow> Queue" where
  "pool_queue p i \<equiv> the (shmResultQueues p ! i)"

lemma deliver_output_holds:
  assumes "pool_holds p cs" "qno < numResultQueues p" "tuple_ok t"
  obtains p' where "deliver_output qno t p = (Inr (), p')" "numResultQueues p' = numResultQueues p"
    "pool_holds p' (cs(qno := delivered t (pool_queue p qno) (cs qno)))"
    "\<forall>i. i \<noteq> qno \<longrightarrow> pool_queue p' i = pool_queue p i"
proof -
  obtain q where q: "shmResultQueues p ! qno = Some q" "rq_ready q (cs qno)"
    using assms(1,2) by (auto simp: pool_holds_def)
  obtain q' where q': "enqueue_retry t q = (Inr (), q')" "rq_ready q' (delivered t q (cs qno))"
    using enqueue_retry_ready [OF q(2) assms(3)] by blast
  let ?p = "p\<lparr>shmResultQueues := (shmResultQueues p)[qno := Some q']\<rparr>"
  show thesis
  proof (rule that [of ?p])
    show "deliver_output qno t p = (Inr (), ?p)" using q q' by (simp add: deliver_output_def)
    show "pool_holds ?p (cs(qno := delivered t (pool_queue p qno) (cs qno)))"
      using assms(1,2) q q' by (auto simp: pool_holds_def nth_list_update)
  qed auto
qed

text \<open>The tuple query \<open>qno\<close> gets for an intermediate tuple.\<close>

definition query_output :: "(Eddy \<Rightarrow> IntermediateHeapTuple \<Rightarrow> nat \<Rightarrow> HeapTuple) \<Rightarrow> Eddy \<Rightarrow> IntermediateHeapTuple \<Rightarrow> nat \<Rightarrow> HeapTuple" where
  "query_output project e iht qno = (if isAggTuple iht then t_base_tuples iht ! 0 else project e iht qno)"

definition deliver_all :: "(nat \<Rightarrow> HeapTuple) \<Rightarrow> nat list \<Rightarrow> result_pool \<Rightarrow> (nat \<Rightarrow> result list) \<Rightarrow> nat \<Rightarrow> result list" where
  "deliver_all out qnos p cs i = (if i \<in> set qnos then delivered (out i) (pool_queue p i) (cs i) else cs i)"

text \<open>
  The recursion queue of the scan module in place \<open>i\<close> is ready and holds \<open>ds i\<close>, and the projection reads only the part of the
  eddy that feeding the modules does not change.
\<close>

definition sources_hold :: "Eddy \<Rightarrow> (nat \<Rightarrow> result list) \<Rightarrow> bool" where
  "sources_hold e ds \<longleftrightarrow> (\<forall>i<length (eddy_sources e). \<forall>sm. eddy_sources e ! i = Some sm \<longrightarrow> rq_ready (recurseResult sm) (ds i))"

definition project_stable :: "(Eddy \<Rightarrow> IntermediateHeapTuple \<Rightarrow> nat \<Rightarrow> HeapTuple) \<Rightarrow> bool" where
  "project_stable project \<longleftrightarrow> (\<forall>e e' iht qno. recursiveQueryFeedback e' = recursiveQueryFeedback e \<longrightarrow> project e' iht qno = project e iht qno)"

text \<open>
  Offering tuples to a recursion queue, one non-blocking \<^verbatim>\<open>enqueue\<close> each: the queue afterwards and what it holds, every tuple that
  fits when its turn comes appended. A module that is offered something is marked as recursively fed.
\<close>

primrec offer :: "HeapTuple list \<Rightarrow> Queue \<Rightarrow> Queue" where
  "offer [] q = q"
| "offer (t # ts) q = offer ts (snd (enqueue result_serializer (Result_heaptuple t) False q))"

primrec accepted :: "HeapTuple list \<Rightarrow> Queue \<Rightarrow> result list \<Rightarrow> result list" where
  "accepted [] q xs = xs"
| "accepted (t # ts) q xs = accepted ts (snd (enqueue result_serializer (Result_heaptuple t) False q)) (delivered t q xs)"

definition fed_module :: "HeapTuple list \<Rightarrow> ScanModule \<Rightarrow> ScanModule" where
  "fed_module ts sm = sm\<lparr>recurseResult := offer ts (recurseResult sm), isRecursivelyFed := isRecursivelyFed sm \<or> ts \<noteq> []\<rparr>"

text \<open>The tuples that the recursive queries among \<open>qnos\<close> feed to the source \<open>oid\<close>, and the eddy after feeding them.\<close>

definition fed_tuples :: "Eddy \<Rightarrow> (nat \<Rightarrow> HeapTuple) \<Rightarrow> nat list \<Rightarrow> nat \<Rightarrow> HeapTuple list" where
  "fed_tuples e out qnos oid = map out (filter (\<lambda>q. recursiveQueryFeedback e ! q \<noteq> InvalidOid \<and> recursiveQueryFeedback e ! q = oid) qnos)"

definition fed_eddy :: "(nat \<Rightarrow> HeapTuple) \<Rightarrow> nat list \<Rightarrow> Eddy \<Rightarrow> Eddy" where
  "fed_eddy out qnos e = e\<lparr>eddy_sources := map (map_option (\<lambda>sm. fed_module (fed_tuples e out qnos (sourceOid sm)) sm)) (eddy_sources e)\<rparr>"

definition fed_contents :: "(nat \<Rightarrow> HeapTuple) \<Rightarrow> nat list \<Rightarrow> Eddy \<Rightarrow> (nat \<Rightarrow> result list) \<Rightarrow> nat \<Rightarrow> result list" where
  "fed_contents out qnos e ds i = (case eddy_sources e ! i of None \<Rightarrow> ds i
     | Some sm \<Rightarrow> accepted (fed_tuples e out qnos (sourceOid sm)) (recurseResult sm) (ds i))"

lemma fed_module_simps [simp]: "sourceOid (fed_module ts sm) = sourceOid sm" "fed_module [] sm = sm" "fed_module us (fed_module [t] sm) = fed_module (t # us) sm"
  "recurseResult (fed_module ts sm) = offer ts (recurseResult sm)"
  by (simp_all add: fed_module_def)

lemma insert_recursive_ready:
  assumes "rq_ready (recurseResult sm) xs" "tuple_ok t"
  shows "InsertRecursiveResults t sm = (Inr (), sm\<lparr>recurseResult := offer [t] (recurseResult sm)\<rparr>)" "rq_ready (offer [t] (recurseResult sm)) (delivered t (recurseResult sm) xs)"
proof -
  obtain d where d: "encodes result_serializer d (Result_heaptuple t)" using rs.encodable_image [of "Result_heaptuple t"] assms(2) by auto
  obtain q where q: "enqueue result_serializer (Result_heaptuple t) False (recurseResult sm) = (Inr (queue_fits (recurseResult sm) (tuple_bytes t)), q)"
    "rq_ready q (delivered t (recurseResult sm) xs)"
    using enqueue_ready [OF assms(1) d, of False] unfolding delivered_def by blast
  then show "InsertRecursiveResults t sm = (Inr (), sm\<lparr>recurseResult := offer [t] (recurseResult sm)\<rparr>)" "rq_ready (offer [t] (recurseResult sm)) (delivered t (recurseResult sm) xs)"
    by (simp_all add: InsertRecursiveResults_def)
qed

definition feed_one :: "nat \<Rightarrow> HeapTuple \<Rightarrow> ScanModule \<Rightarrow> ScanModule" where
  "feed_one oid t sm = (if sourceOid sm = oid then fed_module [t] sm else sm)"

lemma feed_run:
  assumes "sources_hold e ds" "tuple_ok t" "k \<le> length (eddy_sources e)"
  shows "feed_sources oid t [k..<length (eddy_sources e)] e =
    (Inr (), e\<lparr>eddy_sources := take k (eddy_sources e) @ map (map_option (feed_one oid t)) (drop k (eddy_sources e))\<rparr>)"
  using assms
proof (induction "length (eddy_sources e) - k" arbitrary: e k ds)
  case 0
  then show ?case by (simp add: return_prog_def)
next
  case (Suc n)
  let ?S = "eddy_sources e"
  have k: "k < length ?S" "n = length ?S - Suc k" using Suc.hyps(2) by simp_all
  let ?e = "e\<lparr>eddy_sources := ?S[k := map_option (feed_one oid t) (?S ! k)]\<rparr>"
  have step: "feed_sources oid t (k # ks) e = feed_sources oid t ks ?e" for ks
  proof (cases "?S ! k")
    case None
    then have "?S[k := None] = ?S" by (metis list_update_id)
    then show ?thesis using None by (simp add: bind_prog_def)
  next
    case (Some sm)
    then have u: "?S[k := Some sm] = ?S" by (metis list_update_id)
    have r: "rq_ready (recurseResult sm) (ds k)" using Suc.prems(1) Some k(1) by (simp add: sources_hold_def)
    show ?thesis using Some u insert_recursive_ready(1) [OF r Suc.prems(2)] by (simp add: bind_prog_def feed_one_def fed_module_def)
  qed
  have "\<exists>ds'. sources_hold ?e ds'"
  proof (cases "\<exists>sm. ?S ! k = Some sm \<and> sourceOid sm = oid")
    case True
    then obtain sm where sm: "?S ! k = Some sm" "sourceOid sm = oid" by blast
    then have "rq_ready (recurseResult sm) (ds k)" using Suc.prems(1) k(1) by (simp add: sources_hold_def)
    from insert_recursive_ready(2) [OF this Suc.prems(2)] have "sources_hold ?e (ds(k := delivered t (recurseResult sm) (ds k)))" using Suc.prems(1) sm
      by (auto simp: sources_hold_def nth_list_update feed_one_def split: if_splits)
    then show ?thesis by blast
  next
    case False
    then have "map_option (feed_one oid t) (?S ! k) = ?S ! k" by (cases "?S ! k") (simp_all add: feed_one_def)
    then have "sources_hold ?e ds" using Suc.prems(1) by (simp add: sources_hold_def)
    then show ?thesis by blast
  qed
  then obtain ds' where h: "sources_hold ?e ds'" by blast
  have "feed_sources oid t [Suc k..<length (eddy_sources ?e)] ?e =
    (Inr (), ?e\<lparr>eddy_sources := take (Suc k) (eddy_sources ?e) @ map (map_option (feed_one oid t)) (drop (Suc k) (eddy_sources ?e))\<rparr>)"
    by (rule Suc.hyps(1) [OF _ h Suc.prems(2)]) (use k in simp_all)
  moreover have "take (Suc k) (eddy_sources ?e) @ map (map_option (feed_one oid t)) (drop (Suc k) (eddy_sources ?e)) =
      take k ?S @ map (map_option (feed_one oid t)) (drop k ?S)"
    using k(1) by (simp add: take_Suc_conv_app_nth Cons_nth_drop_Suc [symmetric])
  ultimately show ?case using step [of "[Suc k..<length ?S]"] k(1) by (simp add: upt_conv_Cons)
qed

text \<open>Feeding one tuple first and the others afterwards.\<close>

lemma fed_Cons:
  assumes "sources_hold e ds" "tuple_ok (out qno)" "recursiveQueryFeedback e ! qno \<noteq> InvalidOid"
  defines "e' \<equiv> e\<lparr>eddy_sources := map (map_option (feed_one (recursiveQueryFeedback e ! qno) (out qno))) (eddy_sources e)\<rparr>"
  obtains ds' where "sources_hold e' ds'" "fed_eddy out qnos e' = fed_eddy out (qno # qnos) e"
    "\<And>i. i < length (eddy_sources e) \<Longrightarrow> fed_contents out qnos e' ds' i = fed_contents out (qno # qnos) e ds i"
proof -
  let ?o = "recursiveQueryFeedback e ! qno"
  define ds' where "ds' i = (case eddy_sources e ! i of None \<Rightarrow> ds i | Some sm \<Rightarrow> if sourceOid sm = ?o then delivered (out qno) (recurseResult sm) (ds i) else ds i)" for i
  have t: "fed_tuples e' out qnos oid = fed_tuples e out qnos oid" for oid by (simp add: fed_tuples_def e'_def)
  have c: "fed_tuples e out (qno # qnos) oid = (if ?o = oid then [out qno] else []) @ fed_tuples e out qnos oid" for oid
    using assms(3) by (simp add: fed_tuples_def)
  have "rq_ready (recurseResult sm) (ds' i)" if i: "i < length (eddy_sources e)" and sm: "eddy_sources e' ! i = Some sm" for i sm
  proof -
    obtain sm0 where s: "eddy_sources e ! i = Some sm0" "sm = feed_one ?o (out qno) sm0" using sm i by (auto simp: e'_def)
    have "rq_ready (recurseResult sm0) (ds i)" using assms(1) i s(1) by (simp add: sources_hold_def)
    with insert_recursive_ready(2) [OF this assms(2)] show ?thesis using s by (simp add: feed_one_def ds'_def)
  qed
  then have h: "sources_hold e' ds'" by (simp add: sources_hold_def e'_def)
  have "fed_module (fed_tuples e out qnos (sourceOid (feed_one ?o (out qno) sm))) (feed_one ?o (out qno) sm) = fed_module (fed_tuples e out (qno # qnos) (sourceOid sm)) sm" for sm
    by (auto simp: c feed_one_def)
  then have f: "fed_eddy out qnos e' = fed_eddy out (qno # qnos) e"
    by (simp add: fed_eddy_def t) (simp add: e'_def option.map_comp o_def)
  have "fed_contents out qnos e' ds' i = fed_contents out (qno # qnos) e ds i" if "i < length (eddy_sources e)" for i
  proof -
    have n: "eddy_sources e' ! i = map_option (feed_one ?o (out qno)) (eddy_sources e ! i)" using that by (simp add: e'_def)
    show ?thesis by (cases "eddy_sources e ! i") (auto simp: fed_contents_def t c ds'_def n feed_one_def)
  qed
  with h f show thesis by (rule that)
qed

text \<open>The queries of \<open>qnos\<close> whose results go to a client.\<close>

abbreviation output_queries :: "Eddy \<Rightarrow> nat list \<Rightarrow> nat list" where
  "output_queries e qnos \<equiv> filter (\<lambda>i. recursiveQueryFeedback e ! i = InvalidOid) qnos"

lemma fed_skip:
  assumes "recursiveQueryFeedback e ! qno = InvalidOid"
  shows "fed_eddy out (qno # qnos) e = fed_eddy out qnos e" "fed_contents out (qno # qnos) e ds = fed_contents out qnos e ds"
proof -
  have "fed_tuples e out (qno # qnos) oid = fed_tuples e out qnos oid" for oid using assms by (simp add: fed_tuples_def)
  then show "fed_eddy out (qno # qnos) e = fed_eddy out qnos e" "fed_contents out (qno # qnos) e ds = fed_contents out qnos e ds"
    by (auto simp: fed_eddy_def fed_contents_def fun_eq_iff split: option.split)
qed

lemma deliver_loop_holds:
  assumes "dest_eddy s = Some e1" "recursiveQueryFeedback e1 = recursiveQueryFeedback e" "sources_hold e1 ds" "project_stable project"
    and "\<forall>i\<in>set qnos. i < numResultQueues (dest_pool s) \<and> tuple_ok (query_output project e iht i)"
    and "distinct qnos" "pool_holds (dest_pool s) cs"
  shows "\<exists>s'. deliver_loop project (Iht iht) qnos s = (Inr (), s') \<and>
     pool_holds (dest_pool s') (deliver_all (query_output project e iht) (output_queries e qnos) (dest_pool s) cs) \<and>
     dest_eddy s' = Some (fed_eddy (query_output project e iht) qnos e1) \<and>
     sources_hold (fed_eddy (query_output project e iht) qnos e1) (fed_contents (query_output project e iht) qnos e1 ds)"
  using assms
proof (induction qnos arbitrary: s cs e1 ds)
  case Nil
  have m: "map_option (\<lambda>sm. sm) = id" by (simp add: option.map_ident fun_eq_iff)
  have "fed_eddy (query_output project e iht) [] e1 = e1" by (simp add: fed_eddy_def fed_tuples_def m)
  moreover have "fed_contents (query_output project e iht) [] e1 ds = ds" by (auto simp: fed_contents_def fed_tuples_def split: option.split)
  ultimately show ?case using Nil by (auto simp: deliver_all_def return_prog_def cong: if_cong)
next
  case (Cons qno qnos)
  let ?out = "query_output project e iht"
  have q: "qno < numResultQueues (dest_pool s)" "tuple_ok (?out qno)" "\<forall>i\<in>set qnos. i < numResultQueues (dest_pool s) \<and> tuple_ok (?out i)" "distinct qnos" "qno \<notin> set qnos"
    using Cons.prems(5,6) by simp_all
  have "project e1 iht qno = project e iht qno" using Cons.prems(2,4) unfolding project_stable_def by blast
  then have out: "query_output project e1 iht qno = ?out qno" by (simp add: query_output_def)
  have g: "GetQueue qno (dest_pool s) = Inr (shmResultQueues (dest_pool s) ! qno)" using Cons.prems(7) q(1) by (simp add: GetQueue_def pool_holds_def)
  show ?case
  proof (cases "recursiveQueryFeedback e ! qno = InvalidOid")
    case True
    obtain p' where p': "deliver_output qno (?out qno) (dest_pool s) = (Inr (), p')" "numResultQueues p' = numResultQueues (dest_pool s)"
      "pool_holds p' (cs(qno := delivered (?out qno) (pool_queue (dest_pool s) qno) (cs qno)))" "\<forall>i. i \<noteq> qno \<longrightarrow> pool_queue p' i = pool_queue (dest_pool s) i"
      by (rule deliver_output_holds [OF Cons.prems(7) q(1,2)]) (rule that)
    define cs' where "cs' = cs(qno := delivered (?out qno) (pool_queue (dest_pool s) qno) (cs qno))"
    have one: "deliver_one project (Iht iht) qno s = (Inr (), s\<lparr>dest_pool := p'\<rparr>)"
      using Cons.prems(1,2) True g p'(1) out by (simp add: deliver_one_def bind_prog_def output_tuple_def IsOutputQuery_def query_output_def Let_def)
    have "deliver_all ?out (output_queries e qnos) p' cs' = deliver_all ?out (output_queries e (qno # qnos)) (dest_pool s) cs"
      using q(5) p'(4) True by (auto simp: deliver_all_def fun_eq_iff cs'_def)
    moreover have "pool_holds p' cs'" using p'(3) by (simp only: cs'_def)
    moreover note fed_skip [of e1 qno ?out qnos] 
    ultimately show ?thesis using Cons.IH [of "s\<lparr>dest_pool := p'\<rparr>" e1 ds cs'] Cons.prems(1-4) q p'(2) one True by (simp add: bind_prog_def)
  next
    case False
    let ?o = "recursiveQueryFeedback e ! qno"
    define e2 where "e2 = e1\<lparr>eddy_sources := map (map_option (feed_one ?o (?out qno))) (eddy_sources e1)\<rparr>"
    have fs: "feed_sources ?o (?out qno) [0..<length (eddy_sources e1)] e1 = (Inr (), e2)"
      using feed_run [OF Cons.prems(3) q(2), of 0 ?o] by (simp add: e2_def)
    have one: "deliver_one project (Iht iht) qno s = (Inr (), s\<lparr>dest_eddy := Some e2\<rparr>)"
      using Cons.prems(1,2) False g fs out by (simp add: deliver_one_def bind_prog_def output_tuple_def IsOutputQuery_def query_output_def Let_def e2_def)
    have f1: "recursiveQueryFeedback e1 ! qno \<noteq> InvalidOid" using False Cons.prems(2) by simp
    obtain ds' where d: "sources_hold e2 ds'" "fed_eddy ?out qnos e2 = fed_eddy ?out (qno # qnos) e1"
      "\<And>i. i < length (eddy_sources e1) \<Longrightarrow> fed_contents ?out qnos e2 ds' i = fed_contents ?out (qno # qnos) e1 ds i"
      using fed_Cons [where out = ?out and qno = qno and qnos = qnos, OF Cons.prems(3) q(2) f1, unfolded Cons.prems(2), folded e2_def] by blast
    have "length (eddy_sources (fed_eddy ?out (qno # qnos) e1)) = length (eddy_sources e1)" by (simp add: fed_eddy_def)
    then have "sources_hold (fed_eddy ?out (qno # qnos) e1) (fed_contents ?out qnos e2 ds') = sources_hold (fed_eddy ?out (qno # qnos) e1) (fed_contents ?out (qno # qnos) e1 ds)"
      unfolding sources_hold_def using d(3) by simp
    moreover have "recursiveQueryFeedback e2 = recursiveQueryFeedback e" using Cons.prems(2) by (simp add: e2_def)
    ultimately show ?thesis using Cons.IH [of "s\<lparr>dest_eddy := Some e2\<rparr>" e2 ds' cs] Cons.prems(4,7) q d(1,2) one False by (simp add: bind_prog_def)
  qed
qed

end
