(* ===== verification/Queue_Properties.thy ===== *)
theory Queue_Properties
  imports Result_Dest
begin

text \<open>
  The properties of the result queues, the serializers, the queue pool and the delivery of tuples,
  each with a concrete instance. The instances use a queue of 256 bytes and entries of the result
  serializer.
\<close>

section \<open>Instances\<close>

definition tup :: "byte list \<Rightarrow> HeapTuple" where
  "tup bs = \<lparr>t_len = word_of_nat (length bs), t_data = bs\<rparr>"

definition queue256 :: Queue where
  "queue256 = init_queue (make_lock_sem 5) 256"

lemma tup_ok: "length bs < 100 \<Longrightarrow> tuple_ok (tup bs)"
  by (simp add: tuple_ok_def tup_def HEAPTUPLESIZE_def queue_consts unat_of_nat uint_nat)

lemma queue256_rep: "queue_rep queue256 []"
  by (rule fresh_queue_rep) (simp_all add: queue256_def init_queue_def queue_consts)

lemma queue256_ready: "queue_ready qs queue256 []"
  using queue256_rep by (simp add: queue_ready_def queue_holds_def queue256_def init_queue_def queue_consts full_ok_def)

lemma result_encodes: "result_ok r \<Longrightarrow> encodes result_serializer (result_image r) r"
  by (auto simp: encodes_def result_serializer_def result_size result_write result_read)

lemma result_bytes: "result_ok r \<Longrightarrow> elt_bytes result_serializer r = int (length (result_image r)) + 13"
  using elt_bytes_encodes [OF result_encodes] .

lemma fits256: "queue_fits queue256 n \<longleftrightarrow> n \<le> 176"
  by (auto simp: queue_fits_def queue256_def init_queue_def QFULL_def QFREESPACE_def queue_consts)

section \<open>Elements\<close>

text \<open>
  C2. \<^verbatim>\<open>enqueue_elt\<close> refines appending to a list of byte strings: on a queue that represents \<open>ds\<close> it
  returns true exactly when \<open>queue_fits\<close> finds room for the element, header and padding, and then
  the queue represents \<open>ds @ [d]\<close>; otherwise it still represents \<open>ds\<close>, and the lock and the
  dimensions are untouched either way.
\<close>

theorem enqueue_elt_spec:
  assumes "queue_rep q ds" "encodes qs d x"
  shows "\<exists>q'. enqueue_elt qs x q = (Inr (queue_fits q (int (length d) + 13)), q') \<and> same_frame q q' \<and>
     queue_rep q' (if queue_fits q (int (length d) + 13) then ds @ [d] else ds)"
proof -
  obtain ok where "determineSize qs x = Inr (int (length d))" "serialize qs x (int (length d)) = Inr (ok, d)"
    using assms(2) by (auto simp: encodes_def)
  from enqueue_elt_rep [OF assms(1) this] show ?thesis by blast
qed

theorem enqueue_elt_spec_witness:
  "\<exists>q'. enqueue_elt result_serializer (Result_fprodsync 7) queue256 = (Inr True, q') \<and> same_frame queue256 q' \<and>
     queue_rep q' [result_image (Result_fprodsync 7)]"
  using enqueue_elt_spec [OF queue256_rep result_encodes [of "Result_fprodsync 7"]]
  by (simp add: fits256)

text \<open>
  C3. \<^verbatim>\<open>dequeue_elt\<close> refines taking the head of the list: it reports an empty queue exactly when no
  element is represented, and otherwise returns the object the oldest element encodes and leaves
  the others; it never raises one of its corruption errors on a represented queue.
\<close>

theorem dequeue_elt_spec:
  assumes "queue_rep q ds" "list_all2 (encodes qs) ds xs"
  shows "\<exists>q'. dequeue_elt qs q = (Inr (case xs of [] \<Rightarrow> None | x # _ \<Rightarrow> Some x), q') \<and> same_frame q q' \<and>
     queue_rep q' (tl ds)"
proof (cases ds)
  case Nil
  then show ?thesis using assms dequeue_elt_none [of q qs] by auto
next
  case (Cons d ds')
  then obtain x xs' where x: "xs = x # xs'" "encodes qs d x" using assms(2) by (auto simp: list_all2_Cons1)
  have "dequeue_elt qs q = (Inr (Some x), take_elt (int (length d) + 13) (reset_head q))"
    using assms(1) Cons x by (intro dequeue_elt_take) (auto simp: encodes_def)
  moreover have "queue_rep (take_elt (int (length d) + 13) (reset_head q)) ds'"
    using take_elt_rep assms(1) Cons by blast
  ultimately show ?thesis using x Cons by auto
qed

definition queue256_one :: Queue where
  "queue256_one = put_elt (result_image (Result_fprodsync 7)) queue256"

lemma queue256_one_rep: "queue_rep queue256_one [result_image (Result_fprodsync 7)]"
proof -
  have "rep_linear queue256 []"
    by (simp add: rep_linear_def laid_Nil queue256_def init_queue_def queue_consts)
  then have "queue_room queue256 [] (int (length (result_image (Result_fprodsync 7))) + 13)"
    using queue256_rep by (simp add: queue_room_def) (simp add: queue256_def init_queue_def queue_consts)
  from put_elt_rep [OF this] show ?thesis by (simp add: queue256_one_def)
qed

theorem dequeue_elt_spec_witness:
  "\<exists>q'. dequeue_elt result_serializer queue256_one = (Inr (Some (Result_fprodsync 7)), q') \<and>
     same_frame queue256_one q' \<and> queue_rep q' []"
proof -
  have "list_all2 (encodes result_serializer) [result_image (Result_fprodsync 7)] [Result_fprodsync 7]"
    using result_encodes [of "Result_fprodsync 7"] by simp
  from dequeue_elt_spec [OF queue256_one_rep this] show ?thesis by simp
qed

text \<open>
  C1. First in, first out: start from a queue made by \<^verbatim>\<open>make_queue\<close> with its own semaphore lock and
  run any sequence of non-blocking \<^verbatim>\<open>enqueue\<close> and \<^verbatim>\<open>dequeue\<close> calls with valid result entries. No
  call fails; the entries accepted, in order, are the entries delivered followed by the entries
  still in the queue; and afterwards the mutex is free and the semaphore of full slots equals the
  number of entries in the queue.
\<close>

theorem result_queue_fifo:
  assumes "sizeof_Queue + QHDRSZ \<le> n" "n \<le> MaxAllocSize" "list_all (op_storable result_ok) ops"
  shows "\<exists>q ins outs q' rest. make_queue None n = Inr (Some q) \<and>
     fifo_run (\<lambda>x. enqueue result_serializer x False) (dequeue result_serializer False) ops q = (Inr (ins, outs), q') \<and>
     ins = outs @ rest \<and> queue_holds result_serializer q' rest \<and>
     lock_free (ql q') \<and> full_ok (ql q') (int (length rest))"
proof -
  obtain q where q: "make_queue None n = Inr (Some q)" "rq_ready q []"
    using make_queue_ready [OF assms(1,2), of None] by blast
  from rs.nonblocking.run_conserves [OF q(2) assms(3)] obtain ins outs q' rest where
    "fifo_run (\<lambda>x. enqueue result_serializer x False) (dequeue result_serializer False) ops q = (Inr (ins, outs), q')"
    "rq_ready q' rest" "[] @ ins = outs @ rest" by blast
  with q(1) show ?thesis by (auto simp: queue_ready_def)
qed

theorem result_queue_fifo_witness:
  "\<exists>q ins outs q' rest. make_queue None 256 = Inr (Some q) \<and>
     fifo_run (\<lambda>x. enqueue result_serializer x False) (dequeue result_serializer False)
       [Put (Result_heaptuple (tup [1, 2, 3])), Get, Get, Put Result_done] q = (Inr (ins, outs), q') \<and>
     ins = outs @ rest \<and> queue_holds result_serializer q' rest \<and>
     lock_free (ql q') \<and> full_ok (ql q') (int (length rest))"
  by (rule result_queue_fifo) (simp_all add: queue_consts op_storable_def tup_ok)

section \<open>Blocking\<close>

text \<open>
  C14. A blocking \<^verbatim>\<open>dequeue\<close> on a semaphore queue waits exactly when the queue is empty, and leaves
  it untouched; otherwise it returns the oldest object at once.
\<close>

theorem dequeue_blocks_iff_empty:
  assumes "queue_ready qs q xs" "IsSemaphoreLock (ql q)"
  shows "(xs = [] \<longrightarrow> dequeue qs True q = (Inl Would_block, q)) \<and>
    (xs \<noteq> [] \<longrightarrow> (\<exists>q'. dequeue qs True q = (Inr (Some (hd xs)), q') \<and> queue_ready qs q' (tl xs)))"
proof (intro conjI impI)
  assume "xs = []"
  with assms show "dequeue qs True q = (Inl Would_block, q)" by (simp add: dequeue_blocks)
next
  assume "xs \<noteq> []"
  then show "\<exists>q'. dequeue qs True q = (Inr (Some (hd xs)), q') \<and> queue_ready qs q' (tl xs)"
    using dequeue_ready [OF assms(1), of True] by (cases xs) auto
qed

theorem dequeue_blocks_iff_empty_witness:
  "queue_ready result_serializer queue256 [] \<and> dequeue result_serializer True queue256 = (Inl Would_block, queue256)"
  using dequeue_blocks_iff_empty [OF queue256_ready [of result_serializer]] queue256_ready [of result_serializer]
  by (simp add: queue256_def init_queue_def)

text \<open>
  C13. What a blocking \<^verbatim>\<open>enqueue\<close> does that finds no room in a queue that holds something. The call makes
  \<^verbatim>\<open>(q->end - q->start) / QHDRSZ\<close> tries, and every try takes a token of the empty-slot semaphore, which holds \<open>k\<close> of them.
  If there are fewer tokens than tries, the call takes them all and then waits for the next \<^verbatim>\<open>dequeue\<close>. Otherwise it gives up,
  returns false and has used up one token for each try. Either way the mutex is free and the contents are unchanged.
  A new queue has more tokens than tries, so on a queue that is full with a few large elements the first such call returns false.
\<close>

theorem enqueue_waits_when_full:
  assumes "queue_ready qs q xs" "encodes qs d x" "xs \<noteq> []" "\<not> queue_fits q (elt_bytes qs x)"
    "empty_count (ql q) = Some (int k)"
  shows "\<exists>q'. enqueue qs x True q = (if int k < q_end q sdiv QHDRSZ then Inl Would_block else Inr False, q') \<and> queue_ready qs q' xs \<and>
    \<not> queue_fits q' (elt_bytes qs x) \<and> q_end q' = q_end q \<and> empty_count (ql q') = Some (max 0 (int k - q_end q sdiv QHDRSZ))"
proof -
  have "QHDRSZ \<le> q_end q" using assms(1) by (simp add: queue_ready_def)
  then have T: "0 < q_end q sdiv QHDRSZ" by (simp add: queue_consts signed_divide_int_def)
  let ?T = "nat (q_end q sdiv QHDRSZ)"
  have e: "k < ?T \<longleftrightarrow> int k < q_end q sdiv QHDRSZ" "int (k - ?T) = max 0 (int k - q_end q sdiv QHDRSZ)" using T by linarith+
  show ?thesis using enqueue_loop_full [OF assms, of ?T] T unfolding e by (simp add: enqueue_def)
qed

definition queue256_new :: Queue where
  "queue256_new = (case make_queue None 256 of Inr (Some q) \<Rightarrow> q | _ \<Rightarrow> queue256)"

definition big_result :: result where
  "big_result = Result_heaptuple (tup (replicate 90 0))"

definition queue256_big :: Queue where
  "queue256_big = snd (enqueue result_serializer big_result False queue256_new)"

lemma big_bytes: "elt_bytes result_serializer big_result = 111" "result_ok big_result"
  by (simp add: big_result_def result_bytes tup_ok, simp add: tup_def) (simp add: big_result_def tup_ok)

lemma queue256_new_simps: "queue256_new = init_queue (make_lock_sem 32) 256" "make_queue None 256 = Inr (Some queue256_new)"
  by (simp_all add: queue256_new_def make_queue_def make_queue_eltest_def size_t_def queue_consts signed_divide_int_def)

lemma queue256_big_ready:
  "fst (enqueue result_serializer big_result False queue256_new) = Inr True" "queue_ready result_serializer queue256_big [big_result]"
proof -
  have r: "queue_ready result_serializer queue256_new []"
    using make_queue_ready [of 256 None] by (simp add: queue256_new_simps(2) queue_consts)
  have f: "queue_fits queue256_new 111" by (simp add: queue256_new_simps(1) queue_fits_def QFULL_def QFREESPACE_def init_queue_def queue_consts)
  obtain q' where "enqueue result_serializer big_result False queue256_new = (Inr True, q')" "queue_ready result_serializer q' [big_result]"
    by (rule enqueue_ready [OF r result_encodes [OF big_bytes(2)], of False]) (use f in \<open>auto simp: big_bytes\<close>)
  then show "fst (enqueue result_serializer big_result False queue256_new) = Inr True" "queue_ready result_serializer queue256_big [big_result]"
    by (simp_all add: queue256_big_def)
qed

lemma fresh256_put: "enqueue_elt result_serializer big_result (init_queue l 256) = (Inr True, put_elt (result_image big_result) (init_queue l 256))"
proof -
  let ?q = "init_queue l 256" and ?d = "result_image big_result"
  have len: "length ?d = 98" by (simp add: big_result_def tup_def)
  have rep: "queue_rep ?q []" "rep_linear ?q []"
    by (rule fresh_queue_rep; simp add: init_queue_def queue_consts) (simp add: rep_linear_def laid_Nil init_queue_def queue_consts)
  then have room: "queue_room ?q [] (int (length ?d) + 13)" unfolding len by (simp add: queue_room_def) (simp add: init_queue_def queue_consts)
  obtain ok where e: "determineSize result_serializer big_result = Inr 98" "serialize result_serializer big_result (int (length ?d)) = Inr (ok, ?d)"
    using result_encodes [OF big_bytes(2)] len by (auto simp: encodes_def)
  have "enqueue_space 111 ?q = (Some 176, ?q)" by (simp add: enqueue_space_def init_queue_def QFULL_def QFREESPACE_def queue_consts Let_def)
  then show ?thesis using enqueue_write_put [OF room e(2)] len by (simp add: enqueue_elt_def e(1) queue_consts)
qed

lemma queue256_big_put: "queue256_big = (put_elt (result_image big_result) queue256_new)\<lparr>ql := Lock_sem [31, 1, 1]\<rparr>"
proof -
  have set: "(init_queue l 256)\<lparr>ql := l'\<rparr> = init_queue l' 256" "(put_elt d q)\<lparr>ql := l'\<rparr> = put_elt d (q\<lparr>ql := l'\<rparr>)" for l l' d q
    by (simp_all add: init_queue_def put_elt_def)
  have lk: "ql (init_queue l 256) = l" "ql (put_elt d q) = ql q" for l d q by (simp_all add: init_queue_def put_elt_def)
  have l: "make_lock_sem 32 = Lock_sem [32, 0, 1]" by (simp add: make_lock_sem_def TCQSemaphoreInitialize_def sem_index)
  let ?q = "init_queue (Lock_sem [32, 0, 1]) 256"
  have "q_end ?q sdiv QHDRSZ = 22" by (simp add: init_queue_def queue_consts signed_divide_int_def)
  moreover have "nat 22 = Suc 21" by simp
  ultimately have e: "enqueue result_serializer big_result False ?q = enqueue_loop (Suc 21) result_serializer big_result False ?q"
    unfolding enqueue_def Let_def by simp
  show ?thesis
    unfolding queue256_big_def queue256_new_simps(1) l e enqueue_loop.simps
    by (simp add: enqueue_round_def bind_prog_def sem_wait_def queue_lock_op_def lk set critical_def fresh256_put sem_signal_def sem_down_def sem_up_def
        TCQSemaphoreLock_def TCQSemaphoreTryLock_def TCQSemaphoreUnlock_def sem_index return_prog_def modify_prog_def)
qed

lemma queue256_big_simps:
  "\<not> queue_fits queue256_big 111" "empty_count (ql queue256_big) = Some 31" "q_end queue256_big = 176"
  "lock_free (ql queue256_big)" "IsSemaphoreLock (ql queue256_big)" "length (buf queue256_big) = 176"
proof -
  have len: "length (result_image big_result) = 98" by (simp add: big_result_def tup_def)
  note S = queue256_big_put queue256_new_simps put_elt_def init_queue_def queue_consts sem_index len
  show "empty_count (ql queue256_big) = Some 31" "q_end queue256_big = 176" "lock_free (ql queue256_big)" "IsSemaphoreLock (ql queue256_big)"
    by (simp_all add: S)
  show "\<not> queue_fits queue256_big 111" by (simp add: queue_fits_def QFULL_def QFREESPACE_def S)
  show "length (buf queue256_big) = 176" by (simp add: S length_mem_write)
qed

theorem enqueue_waits_when_full_witness:
  "\<exists>q1 q2. make_queue None 256 = Inr (Some queue256_new) \<and> enqueue result_serializer big_result False queue256_new = (Inr True, queue256_big) \<and>
     enqueue result_serializer big_result True queue256_big = (Inr False, q1) \<and> empty_count (ql q1) = Some 9 \<and>
     enqueue result_serializer big_result True q1 = (Inl Would_block, q2) \<and> empty_count (ql q2) = Some 0"
proof -
  note E = enqueue_waits_when_full [OF _ result_encodes [OF big_bytes(2)], unfolded big_bytes(1)]
  have T: "(176::int) sdiv QHDRSZ = 22" by (simp add: queue_consts signed_divide_int_def)
  obtain q1 where q1: "enqueue result_serializer big_result True queue256_big = (Inr False, q1)" "queue_ready result_serializer q1 [big_result]"
    "\<not> queue_fits q1 111" "q_end q1 = 176" "empty_count (ql q1) = Some 9"
    using E [OF queue256_big_ready(2), where k = 31] by (auto simp: queue256_big_simps T)
  obtain q2 where q2: "enqueue result_serializer big_result True q1 = (Inl Would_block, q2)" "empty_count (ql q2) = Some 0"
    using E [OF q1(2), where k = 9] q1 by (auto simp: T)
  have "enqueue result_serializer big_result False queue256_new = (Inr True, queue256_big)"
    by (rule prod_eqI) (simp_all only: queue256_big_ready queue256_big_def fst_conv snd_conv)
  then show ?thesis using q1 q2 queue256_new_simps(2) by blast
qed

section \<open>Capacity and reset\<close>

lemma fits_free_space:
  assumes rep: "queue_rep q ds" and fit: "queue_fits q n" and pos: "0 < n"
  shows "n \<le> QFREESPACE q" "QFREESPACE q \<le> MaxAllocSize"
proof -
  have len: "q_end q = int (length (buf q))" "q_end q \<le> MaxAllocSize" using rep by (auto simp: queue_rep_def)
  consider "rep_linear q ds" | "rep_wrapped q ds" using rep by (auto simp: queue_rep_def)
  then have "n \<le> QFREESPACE q \<and> QFREESPACE q \<le> MaxAllocSize"
  proof cases
    case 1
    with rep_linearD [OF 1] fit len show ?thesis
      by (auto simp: queue_fits_def QFREESPACE_def rep_linear_def split: if_splits)
  next
    case 2
    have "QFREESPACE q = head q - tail q" using 2 by (simp add: QFREESPACE_def rep_wrapped_def)
    with rep_wrappedD [OF 2] fit len QFULL_wrapped [OF 2] show ?thesis
      by (auto simp: queue_fits_def split: if_splits)
  qed
  then show "n \<le> QFREESPACE q" "QFREESPACE q \<le> MaxAllocSize" by auto
qed

lemma free_space_exact:
  assumes "queue_rep q ds"
  shows "QFREESPACE q = wall q - (\<Sum>d\<leftarrow>ds. int (length d) + 13)" "0 \<le> QFREESPACE q" "QFREESPACE q \<le> MaxAllocSize"
proof -
  have len: "q_end q = int (length (buf q))" "q_end q \<le> MaxAllocSize" using assms by (auto simp: queue_rep_def)
  consider "rep_linear q ds" | "rep_wrapped q ds" using assms by (auto simp: queue_rep_def)
  then have "QFREESPACE q = wall q - (\<Sum>d\<leftarrow>ds. int (length d) + 13) \<and> 0 \<le> QFREESPACE q \<and> QFREESPACE q \<le> MaxAllocSize"
  proof cases
    case 1
    then have "laid (buf q) (head q) ds (tail q)" by (simp add: rep_linear_def)
    from laid_size [OF this] laid_bounds [OF this] 1 len show ?thesis by (simp add: rep_linear_def QFREESPACE_def)
  next
    case 2
    then obtain ds1 ds2 where w: "ds = ds1 @ ds2" "laid (buf q) (head q) ds1 (wall q)" "laid (buf q) 0 ds2 (tail q)" by (auto simp: rep_wrapped_def)
    from laid_size [OF w(2)] laid_size [OF w(3)] laid_bounds [OF w(2)] laid_bounds [OF w(3)] 2 len show ?thesis
      by (simp add: rep_wrapped_def QFREESPACE_def w(1))
  qed
  then show "QFREESPACE q = wall q - (\<Sum>d\<leftarrow>ds. int (length d) + 13)" "0 \<le> QFREESPACE q" "QFREESPACE q \<le> MaxAllocSize" by auto
qed

text \<open>
  C19. What \<^verbatim>\<open>check_capacity\<close> answers, for every \<^verbatim>\<open>int\<close> argument \<open>n\<close>: true exactly when \<open>n\<close> bytes and an element header
  are no more than the space in front of the wall that the stored elements, each with its 13 bytes of header and padding, leave free;
  a negative size below the header's is false. The queue and its lock stay as they were. So it never turns away an
  element that \<^verbatim>\<open>enqueue_elt\<close> would take, but it may promise too much: it counts neither the padding nor the split of the free
  space.
\<close>

theorem check_capacity_exact:
  assumes "queue_rep q ds" "lock_free (ql q)" "- (2 ^ 31) \<le> n" "n < 2 ^ 31"
  shows "check_capacity n q = (Inr (0 \<le> n + QHDRSZ \<and> n + QHDRSZ \<le> wall q - (\<Sum>d\<leftarrow>ds. int (length d) + 13)), q) \<and>
    (0 \<le> n \<and> queue_fits q (n + QHDRSZ + PADSIZE) \<longrightarrow> check_capacity n q = (Inr True, q))"
proof -
  obtain l where l: "mutex_lock (ql q) = Inr l" "mutex_unlock l = ql q" using mutex_lock_free [OF assms(2)] by blast
  note F = free_space_exact [OF assms(1)]
  have f: "size_t (QFREESPACE q) = QFREESPACE q" using F(2,3) by (simp add: size_t_def queue_consts)
  have "(n + 8) mod 2 ^ 64 = n + 8 + 2 ^ 64" if "n + 8 < 0"
    using mod_pos_pos_trivial [of "n + 8 + 2 ^ 64" "2 ^ 64"] that assms(3) by (simp only: mod_add_self2) simp
  then have n: "size_t (n + QHDRSZ) = (if 0 \<le> n + QHDRSZ then n + QHDRSZ else n + QHDRSZ + 2 ^ 64)"
    using assms(4) by (simp add: size_t_def queue_consts)
  have "(size_t (n + QHDRSZ) \<le> size_t (QFREESPACE q)) = (0 \<le> n + QHDRSZ \<and> n + QHDRSZ \<le> QFREESPACE q)"
    unfolding f n using F(3) assms(3) by (auto simp: queue_consts)
  moreover have "QFREESPACE (q\<lparr>ql := l\<rparr>) = QFREESPACE q" by (simp add: QFREESPACE_def)
  ultimately have "check_capacity n q = (Inr (0 \<le> n + QHDRSZ \<and> n + QHDRSZ \<le> QFREESPACE q), q)"
    using l by (simp add: check_capacity_def critical_def bind_prog_def queue_lock_op_def)
  moreover have "n + QHDRSZ \<le> QFREESPACE q" if "0 \<le> n" "queue_fits q (n + QHDRSZ + PADSIZE)"
    using fits_free_space(1) [OF assms(1) that(2)] that(1) by (simp add: queue_consts)
  ultimately show ?thesis using F(1) by (auto simp: queue_consts)
qed

theorem check_capacity_exact_witness:
  "check_capacity 147 queue256_one = (Inr True, queue256_one) \<and> check_capacity 148 queue256_one = (Inr False, queue256_one) \<and>
   check_capacity (-9) queue256_one = (Inr False, queue256_one)"
proof -
  have s: "wall queue256_one = 176" "length (result_image (Result_fprodsync 7)) = 8"
    by code_simp+
  have l: "lock_free (ql queue256_one)" by (simp add: queue256_one_def put_elt_def queue256_def init_queue_def)
  show ?thesis using check_capacity_exact [OF queue256_one_rep l, of 147] check_capacity_exact [OF queue256_one_rep l, of 148]
      check_capacity_exact [OF queue256_one_rep l, of "-9"] by (simp add: s QHDRSZ_def)
qed

lemma clear_eltest_nonneg: "0 \<le> n \<Longrightarrow> 0 \<le> clear_queue_eltest n"
  by (cases "n = 0") (simp_all add: clear_queue_eltest_def Let_def queue_consts signed_divide_int_def sgn_if pos_imp_zdiv_nonneg_iff)

lemma clear_critical_lock:
  assumes "lock_free (ql q)" "mutex_lock (ql q) = Inr l" "0 \<le> q_end q"
  shows "lock_free (mutex_unlock (ql (clear_queue_critical (q\<lparr>ql := l\<rparr>))))"
    "full_ok (mutex_unlock (ql (clear_queue_critical (q\<lparr>ql := l\<rparr>)))) 0"
    "empty_count (mutex_unlock (ql (clear_queue_critical (q\<lparr>ql := l\<rparr>)))) = (if IsSemaphoreLock (ql q) then Some (clear_queue_eltest (q_end q)) else None)"
proof -
  let ?l = "mutex_unlock (ql (clear_queue_critical (q\<lparr>ql := l\<rparr>)))"
  have "lock_free ?l \<and> full_ok ?l 0 \<and> empty_count ?l = (if IsSemaphoreLock (ql q) then Some (clear_queue_eltest (q_end q)) else None)"
  proof (cases "ql q")
    case (Lock_sem semas)
    with assms(1,2) have "l = Lock_sem (semas[2 := 0])" "length semas = 3"
      by (auto simp: TCQSemaphoreLock_def sem_index)
    with Lock_sem clear_eltest_nonneg [OF assms(3)] show ?thesis
      by (simp add: clear_queue_critical_def TCQSemaphoreInitialize_def TCQSemaphoreUnlock_def sem_index full_ok_def)
  qed (use assms(1,2) in \<open>auto simp: clear_queue_critical_def full_ok_def\<close>)
  then show "lock_free ?l" "full_ok ?l 0" "empty_count ?l = (if IsSemaphoreLock (ql q) then Some (clear_queue_eltest (q_end q)) else None)" by auto
qed

lemma clear_eltest_value: "0 \<le> n \<Longrightarrow> clear_queue_eltest n = (if MAXELTEST < n div QHDRSZ then MAXELTEST - 1 else n div QHDRSZ)"
  by (cases "n = 0") (simp_all add: clear_queue_eltest_def Let_def queue_consts signed_divide_int_def sgn_if)



text \<open>
  C21. An element larger than the buffer wedges a new queue: \<^verbatim>\<open>enqueue_elt\<close> refuses it but moves the
  wall to the start of the buffer, after which the queue counts as full and empty at once. Every
  later element, however small, is refused, and there is nothing to dequeue that would repair it.
\<close>

theorem oversized_element_wedges:
  assumes "make_queue (Some l) n = Inr (Some q)" "sizeof_Queue < n" "n \<le> MaxAllocSize"
    and "encodes qs d x" "q_end q < int (length d) + 13" "encodes qs' d' y"
  shows "\<exists>q'. enqueue_elt qs x q = (Inr False, q') \<and> QEMPTY q' \<and>
     enqueue_elt qs' y q' = (Inr False, q') \<and> dequeue_elt qs' q' = (Inr None, q')"
proof -
  have "size_t n = n" using assms(2,3) by (simp add: size_t_def queue_consts)
  then have q: "q = init_queue l n" using assms(1-3) by (simp add: make_queue_def queue_consts split: if_splits)
  have rep: "queue_rep q []"
    unfolding q by (rule fresh_queue_rep) (use assms(2,3) in \<open>simp_all add: init_queue_def queue_consts\<close>)
  have lin: "rep_linear q []"
    using assms(2) by (simp add: q rep_linear_def laid_Nil init_queue_def)
  have f: "head q = 0" "tail q = 0" "bytesfree q = q_end q" "0 < q_end q"
    using assms(2) by (simp_all add: q init_queue_def)
  have nf: "\<not> QFULL q" using f lin by (simp add: QFULL_def QFREESPACE_def rep_linear_def)
  have w: "wall (wrap_tail q) = 0" "bytesfree (wrap_tail q) = q_end q" "q_end (wrap_tail q) = q_end q"
    using f by (simp_all add: wrap_tail_def)
  then have full: "QFULL (wrap_tail q)" "QEMPTY (wrap_tail q)" by (simp_all add: QFULL_def QFREESPACE_def QEMPTY_def)
  have "enqueue_elt qs x q = (Inr False, wrap_tail q)"
    using assms(4,5) space_wrap [OF lin nf, of "int (length d) + 13"] f
    by (simp add: enqueue_elt_def encodes_def queue_consts Let_def add.commute)
  moreover have "enqueue_elt qs' y (wrap_tail q) = (Inr False, wrap_tail q)"
    using assms(6) full by (auto simp: enqueue_elt_def encodes_def enqueue_space_def Let_def)
  moreover have "dequeue_elt qs' (wrap_tail q) = (Inr None, wrap_tail q)"
    using full(2) by (simp add: dequeue_elt_def QEMPTY_def)
  ultimately show ?thesis using full(2) by blast
qed

theorem oversized_element_wedges_witness:
  "\<exists>q'. enqueue_elt result_serializer (Result_heaptuple (tup (replicate 90 0))) (init_queue Lock_nolock 180) = (Inr False, q') \<and>
     QEMPTY q' \<and> enqueue_elt result_serializer Result_done q' = (Inr False, q') \<and>
     dequeue_elt result_serializer q' = (Inr None, q')"
proof (rule oversized_element_wedges [of Lock_nolock 180])
  show "encodes result_serializer (result_image (Result_heaptuple (tup (replicate 90 0)))) (Result_heaptuple (tup (replicate 90 0)))"
    by (rule result_encodes) (simp add: tup_ok)
  show "encodes result_serializer (result_image Result_done) Result_done" by (rule result_encodes) simp
qed (simp_all add: make_queue_def size_t_def init_queue_def queue_consts tup_def)

section \<open>Serializers\<close>

text \<open>
  C16. Serializing and reading back a result entry gives the entry: for every entry whose lengths
  agree with its data, \<^verbatim>\<open>result_serialize\<close> writes exactly the number of bytes
  \<^verbatim>\<open>result_determineSize\<close> announces, and \<^verbatim>\<open>result_deserialize\<close> recovers the entry from these bytes
  whatever follows them in memory.
\<close>

theorem result_roundtrip:
  assumes "result_ok r"
  shows "\<exists>bs. result_determineSize r = Inr (int (length bs)) \<and>
     result_serialize r (int (length bs)) = Inr (True, bs) \<and> result_deserialize (bs @ rest) = Inr r"
  using assms result_size result_write result_read by blast

theorem result_roundtrip_witness:
  "\<exists>bs. result_determineSize (Result_error (text_image [104, 105])) = Inr (int (length bs)) \<and>
     result_serialize (Result_error (text_image [104, 105])) (int (length bs)) = Inr (True, bs) \<and>
     result_deserialize (bs @ [255]) = Inr (Result_error (text_image [104, 105]))"
proof (rule result_roundtrip)
  have "VARSIZE (text_image [104, 105]) = 6"
    by (simp add: VARSIZE_def text_image_def)
  then show "result_ok (Result_error (text_image [104, 105]))" by (simp add: varlena_ok_def) (simp add: text_image_def)
qed

section \<open>The pool\<close>

text \<open>
  C15. \<^verbatim>\<open>AllocQueue\<close> hands out the lowest free result queue, marks exactly that one as used, and
  raises its error, changing nothing, exactly when all are in use; \<^verbatim>\<open>FreeQueue\<close> of the queue just
  allocated gives back the previous set of used queues. The bitmap's spin lock is free after
  each call, the failing one included.
\<close>

theorem alloc_free_queue:
  assumes "pool_ok p"
  shows "if pool_used p = {..<numResultQueues p}
    then AllocQueue p = (Inl (Elog_error ''Out of result queues''), p)
    else (\<exists>qno p' p''. AllocQueue p = (Inr qno, p') \<and> qno = Min ({..<numResultQueues p} - pool_used p) \<and>
       pool_used p' = insert qno (pool_used p) \<and> pool_ok p' \<and>
       FreeQueue qno p' = (Inr (), p'') \<and> pool_used p'' = pool_used p \<and> pool_ok p'')"
proof -
  let ?b = "shmResultQueueBitmap p" and ?n = "numResultQueues p"
  have room: "BASIZE ?n \<le> length ?b" and unl: "\<not> bitmapLocked p" using assms by (simp_all add: pool_ok_def)
  show ?thesis
  proof (cases "find (\<lambda>i. \<not> BitArrayBitIsSet ?b i) [0..<?n]")
    case None
    then have "AllocQueue p = (Inl (Elog_error ''Out of result queues''), p)"
      by (simp add: AllocQueue_run [OF assms])
    moreover from None have "pool_used p = {..<?n}" by (simp only: ba.find_clear(2))
    ultimately show ?thesis by simp
  next
    case (Some i)
    then have i: "i < ?n" "\<not> BitArrayBitIsSet ?b i" "\<forall>k<i. BitArrayBitIsSet ?b k"
      using ba.find_clear(1) by blast+
    then have notin: "i \<notin> pool_used p" by (simp add: ba.members_def)
    let ?p' = "p\<lparr>shmResultQueueBitmap := BitArraySetBit ?b i\<rparr>"
    let ?p'' = "?p'\<lparr>shmResultQueueBitmap := BitArrayClearBit (BitArraySetBit ?b i) i\<rparr>"
    have used: "pool_used ?p' = insert i (pool_used p)" using room i by (simp add: ba.members_set_bit)
    have ok: "pool_ok ?p'" using room unl by (simp add: pool_ok_def ba.valid_set_bit)
    have "Min ({..<?n} - pool_used p) = i"
      using i by (intro Min_eqI) (auto simp: ba.members_def not_less [symmetric])
    moreover have "AllocQueue p = (Inr i, ?p')" using AllocQueue_run [OF assms] Some by simp
    moreover have "FreeQueue i ?p' = (Inr (), ?p'')" using FreeQueue_run [OF ok, of i] i by simp
    moreover have "pool_used ?p'' = pool_used p"
      using room i used notin by (simp add: ba.members_clear_bit ba.valid_set_bit)
    moreover have "pool_ok ?p''" using room unl by (simp add: pool_ok_def ba.valid_set_bit ba.valid_clear_bit)
    moreover have "pool_used p \<noteq> {..<?n}" using i notin by auto
    ultimately show ?thesis using used ok by (simp only: if_False) blast
  qed
qed

definition pool3 :: result_pool where
  "pool3 = \<lparr>numResultQueues = 3, bitmapLocked = False, shmResultQueueBitmap = [0xA0],
     shmResultQueues = [None, None, None], shmResultQueuesInit = [False, False, False]\<rparr>"

theorem alloc_free_queue_witness:
  "pool_ok pool3 \<and>
   (if pool_used pool3 = {..<numResultQueues pool3}
    then AllocQueue pool3 = (Inl (Elog_error ''Out of result queues''), pool3)
    else (\<exists>qno p' p''. AllocQueue pool3 = (Inr qno, p') \<and> qno = Min ({..<numResultQueues pool3} - pool_used pool3) \<and>
       pool_used p' = insert qno (pool_used pool3) \<and> pool_ok p' \<and>
       FreeQueue qno p' = (Inr (), p'') \<and> pool_used p'' = pool_used pool3 \<and> pool_ok p''))"
proof
  show ok: "pool_ok pool3" by (simp add: pool_ok_def pool3_def BASIZE_def)
  show "if pool_used pool3 = {..<numResultQueues pool3}
    then AllocQueue pool3 = (Inl (Elog_error ''Out of result queues''), pool3)
    else (\<exists>qno p' p''. AllocQueue pool3 = (Inr qno, p') \<and> qno = Min ({..<numResultQueues pool3} - pool_used pool3) \<and>
       pool_used p' = insert qno (pool_used pool3) \<and> pool_ok p' \<and>
       FreeQueue qno p' = (Inr (), p'') \<and> pool_used p'' = pool_used pool3 \<and> pool_ok p'')"
    by (rule alloc_free_queue [OF ok])
qed

text \<open>Queues that are initialised hold \<open>cs\<close>; for the others \<open>cs\<close> is what they will hold.\<close>

definition pool_partial :: "result_pool \<Rightarrow> (nat \<Rightarrow> result list) \<Rightarrow> bool" where
  "pool_partial p cs \<longleftrightarrow> length (shmResultQueues p) = numResultQueues p \<and>
     length (shmResultQueuesInit p) = numResultQueues p \<and>
     (\<forall>i<numResultQueues p. if shmResultQueuesInit p ! i
        then \<exists>q. shmResultQueues p ! i = Some q \<and> rq_ready q (cs i) else cs i = [])"

lemma create_loop_partial:
  assumes "pool_partial p cs" "\<forall>i\<in>set is. i < numResultQueues p"
    and "sizeof_Queue + QHDRSZ \<le> sz" "sz \<le> MaxAllocSize"
  shows "\<exists>p'. create_loop sz is p = (Inr (), p') \<and> pool_partial p' cs \<and> numResultQueues p' = numResultQueues p \<and>
     (\<forall>i<numResultQueues p. i \<in> set is \<or> shmResultQueuesInit p ! i \<longrightarrow> shmResultQueuesInit p' ! i)"
  using assms(1,2)
proof (induction "is" arbitrary: p)
  case (Cons i "is")
  then have i: "i < numResultQueues p" "i < length (shmResultQueuesInit p)" by (simp_all add: pool_partial_def)
  show ?case
  proof (cases "shmResultQueuesInit p ! i")
    case True
    with Cons.IH [of p] Cons.prems show ?thesis by (auto simp: bind_prog_def)
  next
    case False
    obtain q where q: "make_queue None sz = Inr (Some q)" "rq_ready q []"
      using make_queue_ready [OF assms(3,4), of None] by blast
    let ?p = "p\<lparr>shmResultQueues := (shmResultQueues p)[i := Some q],
                shmResultQueuesInit := (shmResultQueuesInit p)[i := True]\<rparr>"
    have "cs i = []" using Cons.prems(1) i False by (auto simp: pool_partial_def)
    then have "pool_partial ?p cs"
      using Cons.prems(1) q(2) i by (auto simp: pool_partial_def nth_list_update)
    with Cons.IH [of ?p] Cons.prems(2) obtain p' where p': "create_loop sz is ?p = (Inr (), p')" "pool_partial p' cs"
      "numResultQueues p' = numResultQueues p"
      "\<forall>j<numResultQueues p. j \<in> set is \<or> (shmResultQueuesInit p)[i := True] ! j \<longrightarrow> shmResultQueuesInit p' ! j"
      by auto
    have "create_loop sz (i # is) p = (Inr (), p')"
      using p'(1) False q(1) by (simp add: bind_prog_def)
    moreover have "\<forall>j<numResultQueues p. j \<in> set (i # is) \<or> shmResultQueuesInit p ! j \<longrightarrow> shmResultQueuesInit p' ! j"
      using p'(4) i(2) by (auto simp: nth_list_update)
    ultimately show ?thesis using p'(2,3) by blast
  qed
qed auto

text \<open>
  C18. \<^verbatim>\<open>CreateResultQueues\<close> leaves every queue of the pool initialised and usable: those that were
  not initialised are empty, those that were keep their contents, so calling it again is harmless.
\<close>

theorem create_result_queues:
  assumes "pool_partial p cs" "sizeof_Queue + QHDRSZ \<le> sz" "sz \<le> MaxAllocSize"
  shows "\<exists>p'. CreateResultQueues sz p = (Inr (), p') \<and> pool_holds p' cs \<and> numResultQueues p' = numResultQueues p"
  using create_loop_partial [OF assms(1) _ assms(2,3), of "[0..<numResultQueues p]"]
  by (force simp: CreateResultQueues_def pool_holds_def pool_partial_def)

theorem create_result_queues_witness:
  "\<exists>p'. CreateResultQueues 256 pool3 = (Inr (), p') \<and> pool_holds p' (\<lambda>_. []) \<and>
     numResultQueues p' = numResultQueues pool3"
  by (rule create_result_queues) (simp_all add: pool_partial_def pool3_def queue_consts nth_Cons' )

section \<open>Delivery\<close>

text \<open>
  C17. The iterator over a destination set terminates and visits exactly the queues whose bit is
  set, in increasing order, provided their number fits the \<^verbatim>\<open>uint16\<close> counter.
\<close>

theorem selection_visits_set_bits:
  assumes "0 < num" "num < 2 ^ 16"
  shows "\<exists>qnos. selected_queues num b (Some initQueueSelectionIter) = Some qnos \<and>
    set qnos = bits_of b num \<and> sorted qnos \<and> distinct qnos"
  using selected_run [of 0 num b] assms
  by (auto simp: initQueueSelectionIter_def ba.members_def sorted_wrt_filter intro!: sorted_filter)

theorem selection_visits_set_bits_witness:
  "\<exists>qnos. selected_queues 3 [0xA0] (Some initQueueSelectionIter) = Some qnos \<and>
    set qnos = bits_of [0xA0] 3 \<and> sorted qnos \<and> distinct qnos"
  by (rule selection_visits_set_bits) simp_all

text \<open>
  C4. Delivery in eddy mode: \<^verbatim>\<open>resultqdest\<close> terminates without error and, for every query in the
  tuple's destination set that is not recursive, appends that query's projection of the tuple (the base
  tuple of an aggregate) to that query's queue if it fits and drops it otherwise; the queues of all other queries
  keep their contents. The result of a recursive query goes to no queue of the pool. It is offered instead to the recursion queue of
  every scan module on the relation the query feeds back to, in the order of the query numbers, and is appended there if it fits;
  these modules are marked as recursively fed, and the other ones do not change. The recursion queues are ready
  at the start, and the projection does not look at the scan modules.
\<close>

theorem resultqdest_delivers:
  assumes "dest_eddy s = Some e" "sources_hold e ds" "project_stable project" "pool_holds (dest_pool s) cs"
    and "0 < numResultQueues (dest_pool s)" "numResultQueues (dest_pool s) < 2 ^ 16"
    and "\<forall>i\<in>bits_of (whereToSendOutput s) (numResultQueues (dest_pool s)). tuple_ok (query_output project e iht i)"
  shows "\<exists>s' e'. resultqdest True project (Iht iht) s = Some (Inr (), s') \<and>
     pool_holds (dest_pool s') (\<lambda>i. if i \<in> bits_of (whereToSendOutput s) (numResultQueues (dest_pool s)) \<and> recursiveQueryFeedback e ! i = InvalidOid
       then delivered (query_output project e iht i) (pool_queue (dest_pool s) i) (cs i) else cs i) \<and>
     e' = fed_eddy (query_output project e iht) (sorted_list_of_set (bits_of (whereToSendOutput s) (numResultQueues (dest_pool s)))) e \<and> dest_eddy s' = Some e' \<and>
     sources_hold e' (fed_contents (query_output project e iht) (sorted_list_of_set (bits_of (whereToSendOutput s) (numResultQueues (dest_pool s)))) e ds)"
proof -
  let ?n = "numResultQueues (dest_pool s)" and ?b = "whereToSendOutput s"
  define qnos where "qnos = filter (BitArrayBitIsSet ?b) [0..<?n]"
  have sel: "selected_queues ?n ?b (Some initQueueSelectionIter) = Some qnos"
    using selected_run [OF assms(5,6)] by (simp add: initQueueSelectionIter_def qnos_def)
  have set: "set qnos = bits_of ?b ?n" by (auto simp: qnos_def ba.members_def)
  have sl: "sorted_list_of_set (set qnos) = qnos" by (rule sorted_list_of_set.idem_if_sorted_distinct) (simp_all add: qnos_def sorted_wrt_filter)
  have "\<forall>i\<in>set qnos. i < ?n \<and> tuple_ok (query_output project e iht i)" using assms(7) set by (auto simp: ba.members_def)
  from deliver_loop_holds [OF assms(1) refl assms(2,3) this _ assms(4)] obtain s' where
    "deliver_loop project (Iht iht) qnos s = (Inr (), s')"
    "pool_holds (dest_pool s') (deliver_all (query_output project e iht) (output_queries e qnos) (dest_pool s) cs)"
    "dest_eddy s' = Some (fed_eddy (query_output project e iht) qnos e)"
    "sources_hold (fed_eddy (query_output project e iht) qnos e) (fed_contents (query_output project e iht) qnos e ds)"
    by (auto simp: qnos_def)
  then show ?thesis
    unfolding set [symmetric] sl using sel by (simp add: resultqdest_def deliver_all_def [abs_def])
qed

definition scan17 :: ScanModule where
  "scan17 = \<lparr>sourceOid = 17, recurseResult = queue256, isRecursivelyFed = False\<rparr>"

definition eddy3 :: Eddy where
  "eddy3 = \<lparr>recursiveQueryFeedback = [0, 0, 17], eddy_sources = [None, Some scan17, Some (scan17\<lparr>sourceOid := 9\<rparr>)]\<rparr>"

definition dest3 :: dest_state where
  "dest3 = \<lparr>whereToSendOutput = [0xA0], dest_eddy = Some eddy3,
     dest_pool = pool3\<lparr>shmResultQueues := [Some queue256, Some queue256, Some queue256],
                       shmResultQueuesInit := [True, True, True]\<rparr>\<rparr>"

lemma dest3_holds: "pool_holds (dest_pool dest3) (\<lambda>_. [])" "sources_hold eddy3 (\<lambda>_. [])"
  using queue256_ready [of result_serializer] by (simp_all add: pool_holds_def dest3_def pool3_def sources_hold_def eddy3_def scan17_def nth_Cons')

theorem resultqdest_delivers_witness:
  "\<exists>s' e' sm. resultqdest True (\<lambda>_ _ qno. tup [of_nat qno]) (Iht \<lparr>isAggTuple = False, t_base_tuples = []\<rparr>) dest3 =
      Some (Inr (), s') \<and> pool_holds (dest_pool s') (\<lambda>i. if i = 0 then [Result_heaptuple (tup [0])] else []) \<and>
     dest_eddy s' = Some e' \<and> eddy_sources e' = [None, Some sm, Some (scan17\<lparr>sourceOid := 9\<rparr>)] \<and>
     isRecursivelyFed sm \<and> rq_ready (recurseResult sm) [Result_heaptuple (tup [2])]"
proof -
  let ?out = "query_output (\<lambda>_ _ qno. tup [of_nat qno]) eddy3 \<lparr>isAggTuple = False, t_base_tuples = []\<rparr>"
  let ?b = "bits_of (whereToSendOutput dest3) (numResultQueues (dest_pool dest3))"
  have "BitArrayBitIsSet [0xA0] 0" "\<not> BitArrayBitIsSet [0xA0] 1" "BitArrayBitIsSet [0xA0] 2" by code_simp+
  then have bits: "?b = {0, 2}" by (auto simp: ba.members_def dest3_def pool3_def less_Suc_eq numeral_3_eq_3)
  have out: "?out i = tup [of_nat i]" for i by (simp add: query_output_def)
  have n: "0 < numResultQueues (dest_pool dest3)" "numResultQueues (dest_pool dest3) < 2 ^ 16" by (simp_all add: dest3_def pool3_def)
  obtain s' where s': "resultqdest True (\<lambda>_ _ qno. tup [of_nat qno]) (Iht \<lparr>isAggTuple = False, t_base_tuples = []\<rparr>) dest3 = Some (Inr (), s')"
    "pool_holds (dest_pool s') (\<lambda>i. if i \<in> ?b \<and> recursiveQueryFeedback eddy3 ! i = InvalidOid then delivered (?out i) (pool_queue (dest_pool dest3) i) [] else [])"
    "dest_eddy s' = Some (fed_eddy ?out (sorted_list_of_set ?b) eddy3)"
    "sources_hold (fed_eddy ?out (sorted_list_of_set ?b) eddy3) (fed_contents ?out (sorted_list_of_set ?b) eddy3 (\<lambda>_. []))"
    using resultqdest_delivers [where iht = "\<lparr>isAggTuple = False, t_base_tuples = []\<rparr>", OF _ dest3_holds(2) _ dest3_holds(1) n, of "\<lambda>_ _ qno. tup [of_nat qno]"]
    by (auto simp: dest3_def project_stable_def query_output_def tup_ok)
  let ?sm = "fed_module [tup [2]] scan17"
  have fit: "queue_fits queue256 (tuple_bytes (tup [b]))" for b by (simp add: fits256 result_bytes tup_ok) (simp add: tup_def)
  have ts: "fed_tuples eddy3 ?out [0, 2] 17 = [tup [2]]" "fed_tuples eddy3 ?out [0, 2] 9 = []"
    by (simp_all add: fed_tuples_def out) (simp_all add: eddy3_def InvalidOid_def)
  have src: "eddy_sources eddy3 = [None, Some scan17, Some (scan17\<lparr>sourceOid := 9\<rparr>)]" "sourceOid scan17 = 17" "recurseResult scan17 = queue256"
    by (simp_all add: eddy3_def scan17_def)
  have e: "eddy_sources (fed_eddy ?out [0, 2] eddy3) = [None, Some ?sm, Some (scan17\<lparr>sourceOid := 9\<rparr>)]"
    by (simp add: fed_eddy_def src ts)
  have c: "fed_contents ?out [0, 2] eddy3 (\<lambda>_. []) 1 = [Result_heaptuple (tup [2])]"
    by (simp add: fed_contents_def src ts delivered_def fit)
  have "rq_ready (recurseResult ?sm) [Result_heaptuple (tup [2])]" using s'(4) e c by (auto simp: bits sources_hold_def)
  moreover have "(\<lambda>i. if i \<in> ?b \<and> recursiveQueryFeedback eddy3 ! i = InvalidOid then delivered (?out i) (pool_queue (dest_pool dest3) i) [] else []) =
      (\<lambda>i. if i = 0 then [Result_heaptuple (tup [0])] else [])"
    by (auto simp: bits out delivered_def fun_eq_iff) (auto simp: eddy3_def InvalidOid_def dest3_def pool3_def fit)
  moreover have "isRecursivelyFed ?sm" by (simp add: fed_module_def)
  ultimately show ?thesis using s' e by (auto simp: bits)
qed

text \<open>
  C22. Without an eddy nothing is delivered: the destination \<^verbatim>\<open>resultqdest_create_DR\<close> sets up has no
  eddy, and for the first selected queue \<^verbatim>\<open>resultqdest\<close> asks \<^verbatim>\<open>IsOutputQuery\<close>, which reads through the
  null pointer before anything is enqueued.
\<close>

theorem resultqdest_without_eddy:
  assumes "dest_eddy s = None" "pool_holds (dest_pool s) cs"
    and "0 < numResultQueues (dest_pool s)" "numResultQueues (dest_pool s) < 2 ^ 16"
    and "BASIZE (numResultQueues (dest_pool s)) \<le> length (whereToSendOutput s)"
  shows "\<exists>s'. resultqdest False project (Heap_tuple t) s = Some (Inl (Out_of_bounds ''eddy is NULL''), s') \<and>
     dest_pool s' = dest_pool s"
proof -
  let ?n = "numResultQueues (dest_pool s)"
  let ?b = "BitArraySetBit (BitArrayClearAll (whereToSendOutput s) ?n) 0"
  let ?s = "s\<lparr>whereToSendOutput := ?b\<rparr>"
  have valid: "BASIZE ?n \<le> length (BitArrayClearAll (whereToSendOutput s) ?n)"
    using ba.fold_clear_bit [OF assms(5) order_refl] by (simp add: BitArrayClearAll_def)
  have "bits_of ?b ?n = {0}"
    using assms(3) valid bits_of_ClearAll [OF assms(5)] by (simp add: ba.members_set_bit)
  then have bit: "i < ?n \<Longrightarrow> BitArrayBitIsSet ?b i \<longleftrightarrow> i = 0" for i
    unfolding ba.members_def by blast
  have "filter (BitArrayBitIsSet ?b) [0..<?n] = filter (\<lambda>i. i = 0) [0..<?n]"
    by (rule filter_cong) (use bit in auto)
  also have "\<dots> = [0]" using assms(3) by (simp add: upt_conv_Cons filter_empty_conv)
  finally have sel: "selected_queues ?n ?b (Some initQueueSelectionIter) = Some [0]"
    using selected_run [OF assms(3,4), of ?b] by (simp add: initQueueSelectionIter_def)
  have "deliver_one project (Heap_tuple t) 0 ?s = (Inl (Out_of_bounds ''eddy is NULL''), ?s)"
    using assms(1-3) by (simp add: deliver_one_def bind_prog_def GetQueue_def pool_holds_def output_tuple_def IsOutputQuery_def)
  then show ?thesis
    using sel by (simp add: resultqdest_def bind_prog_def)
qed

theorem resultqdest_without_eddy_witness:
  "\<exists>s'. resultqdest False (\<lambda>_ _ _. tup []) (Heap_tuple (tup [1])) (dest3\<lparr>dest_eddy := None\<rparr>) =
     Some (Inl (Out_of_bounds ''eddy is NULL''), s') \<and> dest_pool s' = dest_pool (dest3\<lparr>dest_eddy := None\<rparr>)"
  by (rule resultqdest_without_eddy [where cs = "\<lambda>_. []"])
    (use dest3_holds(1) in \<open>simp_all add: dest3_def pool3_def BASIZE_def\<close>)

end
