(* ===== verification/Queue_Layout.thy ===== *)
theory Queue_Layout
  imports Queue_Interface
begin

text \<open>
  A queue as the bytes it has in memory, which is what \<^verbatim>\<open>send_queue\<close> ships, and \<^verbatim>\<open>swizzle_queue_ptrs\<close>
  (\<^verbatim>\<open>src/src/backend/rqueue/resultq.c\<close>), which adapts the pointers of a received queue to its new address.
  The structure has the layout of a little-endian LP64 machine: \<^verbatim>\<open>int\<close> has 4 bytes, a pointer and a \<^verbatim>\<open>double\<close> have 8, and
  the buffer follows the 80 bytes of the structure. The address of the structure, the addresses of the locks, the
  representation of a \<^verbatim>\<open>double\<close> and the padding at the end of the structure are arbitrary: they are the fields of \<open>machine\<close>.
\<close>

section \<open>The structure in memory\<close>

record struct_queue =
  s_size :: "32 word"
  s_qid :: "32 word"
  s_start :: "64 word"
  s_end :: "64 word"
  s_head :: "64 word"
  s_tail :: "64 word"
  s_wall :: "64 word"
  s_ql :: "64 word"
  s_bytesfree :: "32 word"
  s_numelts :: "32 word"
  s_avgfree :: "64 word"
  s_numcalls :: "32 word"
  s_pad :: "32 word"

definition le64_bytes :: "64 word \<Rightarrow> byte list" where
  "le64_bytes w = le32_bytes (ucast w) @ le32_bytes (ucast (drop_bit 32 w))"

definition le64_of_bytes :: "byte list \<Rightarrow> 64 word" where
  "le64_of_bytes bs = ucast (le32_of_bytes (take 4 bs)) OR push_bit 32 (ucast (le32_of_bytes (drop 4 bs)))"

definition struct_bytes :: "struct_queue \<Rightarrow> byte list" where
  "struct_bytes r = le32_bytes (s_size r) @ le32_bytes (s_qid r) @ le64_bytes (s_start r) @ le64_bytes (s_end r) @
     le64_bytes (s_head r) @ le64_bytes (s_tail r) @ le64_bytes (s_wall r) @ le64_bytes (s_ql r) @
     le32_bytes (s_bytesfree r) @ le32_bytes (s_numelts r) @ le64_bytes (s_avgfree r) @ le32_bytes (s_numcalls r) @ le32_bytes (s_pad r)"

definition struct_of :: "byte list \<Rightarrow> struct_queue" where
  "struct_of m =
     \<lparr>s_size = le32_of_bytes (mem_read 0 4 m), s_qid = le32_of_bytes (mem_read 4 4 m),
      s_start = le64_of_bytes (mem_read 8 8 m), s_end = le64_of_bytes (mem_read 16 8 m), s_head = le64_of_bytes (mem_read 24 8 m),
      s_tail = le64_of_bytes (mem_read 32 8 m), s_wall = le64_of_bytes (mem_read 40 8 m), s_ql = le64_of_bytes (mem_read 48 8 m),
      s_bytesfree = le32_of_bytes (mem_read 56 4 m), s_numelts = le32_of_bytes (mem_read 60 4 m),
      s_avgfree = le64_of_bytes (mem_read 64 8 m), s_numcalls = le32_of_bytes (mem_read 72 4 m), s_pad = le32_of_bytes (mem_read 76 4 m)\<rparr>"

text \<open>
  The structure of a queue of the model, whose positions are offsets from \<^verbatim>\<open>start\<close>, on a machine, and the bytes of the whole queue.
\<close>

record machine =
  m_addr :: "64 word"
  m_lock :: "queue_lock \<Rightarrow> 64 word"
  m_double :: "rat \<Rightarrow> 64 word"
  m_pad :: "32 word"

definition buf_addr :: "machine \<Rightarrow> 64 word" where
  "buf_addr M = m_addr M + word_of_int sizeof_Queue"

definition struct_queue_of :: "machine \<Rightarrow> Queue \<Rightarrow> struct_queue" where
  "struct_queue_of M q =
     \<lparr>s_size = word_of_int (q_size q), s_qid = word_of_int (qid q), s_start = buf_addr M, s_end = buf_addr M + word_of_int (q_end q),
      s_head = buf_addr M + word_of_int (head q), s_tail = buf_addr M + word_of_int (tail q), s_wall = buf_addr M + word_of_int (wall q),
      s_ql = m_lock M (ql q), s_bytesfree = word_of_int (bytesfree q), s_numelts = word_of_int (numelts q),
      s_avgfree = m_double M (avgfree q), s_numcalls = word_of_int (numcalls q), s_pad = m_pad M\<rparr>"

definition queue_image :: "machine \<Rightarrow> Queue \<Rightarrow> byte list" where
  "queue_image M q = struct_bytes (struct_queue_of M q) @ buf q"

section \<open>Adapting the pointers\<close>

text \<open>
  \<open>a\<close> is the address of the queue and \<open>no_lock\<close> the pointer in \<^verbatim>\<open>*p_no_lock\<close>. The difference of two pointers is a signed
  number, pointers are compared as unsigned numbers, and \<^verbatim>\<open>my_free\<close> is an \<^verbatim>\<open>int\<close>.
\<close>

definition ptr_diff :: "64 word \<Rightarrow> 64 word \<Rightarrow> int" where
  "ptr_diff p p' = sint (p - p')"

definition swizzle_pointers :: "64 word \<Rightarrow> 64 word \<Rightarrow> struct_queue \<Rightarrow> struct_queue" where
  "swizzle_pointers no_lock a q0 =
     (let o_start = s_start q0;
          q = q0\<lparr>s_ql := no_lock, s_start := a + word_of_int sizeof_Queue\<rparr>
      in q\<lparr>s_end := (s_end q - o_start) + s_start q, s_head := (s_head q - o_start) + s_start q,
           s_tail := (s_tail q - o_start) + s_start q, s_wall := (s_wall q - o_start) + s_start q\<rparr>)"

definition swizzle_check :: "struct_queue \<Rightarrow> struct_queue outcome" where
  "swizzle_check q =
     (if s_tail q = s_head q then
        (if sint (s_bytesfree q) = ptr_diff (s_end q) (s_start q) \<or> sint (s_bytesfree q) - ptr_diff (s_end q) (s_wall q) = 0 then Inr q
         else Inl (Assert_failed ''false''))
      else
        let my_free = (if s_tail q < s_head q then ptr_diff (s_wall q) (s_head q) + ptr_diff (s_tail q) (s_start q)
                       else ptr_diff (s_wall q) (s_tail q) + ptr_diff (s_head q) (s_start q))
        in if s_bytesfree q = word_of_int my_free then Inr q else Inl (Assert_failed ''q->bytesfree == my_free''))"

definition swizzle_queue_ptrs :: "64 word \<Rightarrow> 64 word \<Rightarrow> struct_queue \<Rightarrow> struct_queue outcome" where
  "swizzle_queue_ptrs no_lock a q0 =
     (let q = swizzle_pointers no_lock a q0 in swizzle_check (if s_head q = s_wall q then q\<lparr>s_head := s_start q\<rparr> else q))"

text \<open>The call on the memory of a received queue.\<close>

definition swizzle_mem :: "machine \<Rightarrow> byte list \<Rightarrow> byte list outcome" where
  "swizzle_mem R m =
     (if length m < nat sizeof_Queue then Inl (Out_of_bounds ''queue structure'')
      else case swizzle_queue_ptrs (m_lock R Lock_nolock) (m_addr R) (struct_of m) of
             Inl e \<Rightarrow> Inl e
           | Inr r \<Rightarrow> Inr (mem_write 0 (struct_bytes r) m))"

section \<open>Reading the structure back\<close>

lemma length_le64_bytes [simp]: "length (le64_bytes w) = 8"
  by (simp add: le64_bytes_def)

lemma le64_roundtrip [simp]: "le64_of_bytes (le64_bytes w) = w"
proof -
  have "take 4 (le64_bytes w) = le32_bytes (ucast w)" "drop 4 (le64_bytes w) = le32_bytes (ucast (drop_bit 32 w))" by (simp_all add: le64_bytes_def)
  then have "le64_of_bytes (le64_bytes w) = ucast (ucast w :: 32 word) OR push_bit 32 (ucast (ucast (drop_bit 32 w) :: 32 word))"
    using le32_roundtrip [of _ "[]"] by (simp add: le64_of_bytes_def)
  also have "\<dots> = w"
  proof (rule bit_word_eqI)
    fix n assume "n < LENGTH(64)"
    then show "bit (ucast (ucast w :: 32 word) OR push_bit 32 (ucast (ucast (drop_bit 32 w) :: 32 word)) :: 64 word) n = bit w n"
      by (cases "n < 32") (auto simp: bit_simps)
  qed
  finally show ?thesis .
qed

lemma mem_read_app: "length xs = p \<Longrightarrow> length ys = n \<Longrightarrow> mem_read p n (xs @ ys @ zs) = ys"
  by (simp add: mem_read_def)

lemma struct_roundtrip: "struct_of (struct_bytes r @ rest) = r" "length (struct_bytes r) = 80"
proof -
  note r32 = le32_roundtrip [of _ "[]", simplified]
  show "struct_of (struct_bytes r @ rest) = r"
    by (simp add: struct_of_def struct_bytes_def mem_read_def r32)
  show "length (struct_bytes r) = 80" by (simp add: struct_bytes_def)
qed

lemma image_facts:
  "length (queue_image M q) = 80 + length (buf q)" "struct_of (queue_image M q) = struct_queue_of M q" "take 4 (queue_image M q) = le32_bytes (word_of_int (q_size q))"
proof -
  show "length (queue_image M q) = 80 + length (buf q)" "struct_of (queue_image M q) = struct_queue_of M q"
    by (simp_all add: queue_image_def struct_roundtrip)
  show "take 4 (queue_image M q) = le32_bytes (word_of_int (q_size q))"
    by (simp add: queue_image_def struct_bytes_def struct_queue_of_def)
qed

lemma struct_write: "mem_write 0 (struct_bytes r') (struct_bytes r @ b) = struct_bytes r' @ b"
proof -
  have "length (struct_bytes r') = length (struct_bytes r)" by (simp add: struct_roundtrip(2))
  then show ?thesis by (intro nth_equalityI) (simp_all add: nth_mem_write nth_append)
qed

section \<open>The same on offsets\<close>

text \<open>
  On a queue of the model, whose positions are offsets, adapting the pointers changes nothing, and what remains is the
  lock and the integrity check. \<open>received_on\<close> is the machine of the sender with the address and the locks of the receiver.
\<close>

definition relocated :: "Queue \<Rightarrow> Queue" where
  "relocated q = q\<lparr>ql := Lock_nolock, head := (if head q = wall q then 0 else head q)\<rparr>"

definition swizzled :: "Queue \<Rightarrow> Queue outcome" where
  "swizzled q0 = (let q = relocated q0 in
     if tail q = head q then (if QEMPTY q \<or> QFULL q then Inr q else Inl (Assert_failed ''false''))
     else if bytesfree q = (if tail q < head q then (wall q - head q) + tail q else (wall q - tail q) + head q) then Inr q
     else Inl (Assert_failed ''q->bytesfree == my_free''))"

definition received_on :: "machine \<Rightarrow> machine \<Rightarrow> machine" where
  "received_on S R = S\<lparr>m_addr := m_addr R, m_lock := m_lock R\<rparr>"

text \<open>The queue fits into the address space of the receiver and its positions into the buffer.\<close>

definition fits_memory :: "machine \<Rightarrow> Queue \<Rightarrow> bool" where
  "fits_memory R q \<longleftrightarrow> uint (m_addr R) + sizeof_Queue + q_end q < 2 ^ 64 \<and> q_end q \<le> MaxAllocSize \<and> 0 \<le> head q \<and> head q \<le> q_end q \<and>
     0 \<le> tail q \<and> tail q \<le> q_end q \<and> 0 \<le> wall q \<and> wall q \<le> q_end q \<and> 0 \<le> bytesfree q \<and> bytesfree q \<le> q_end q"

lemma offset_less:
  fixes b :: "64 word"
  assumes "uint b + n < 2 ^ 64" "0 \<le> k" "k \<le> n" "0 \<le> l" "l \<le> n"
  shows "b + word_of_int k < b + word_of_int l \<longleftrightarrow> k < l" "b + word_of_int k = b + word_of_int l \<longleftrightarrow> k = l"
proof -
  have u: "uint (b + word_of_int x) = uint b + x" if "0 \<le> x" "x \<le> n" for x
  proof -
    have r: "0 \<le> uint b + x" "uint b + x < 2 ^ 64" using that assms(1) uint_ge_0 [of b] by linarith+
    have "b + word_of_int x = word_of_int (uint b + x)" by simp
    then show ?thesis using r by (simp only: uint_word_of_int) (simp add: mod_pos_pos_trivial)
  qed
  show "b + word_of_int k < b + word_of_int l \<longleftrightarrow> k < l" using u [of k] u [of l] assms by (simp add: word_less_def)
  show "b + word_of_int k = b + word_of_int l \<longleftrightarrow> k = l" using u [of k] u [of l] assms by (simp add: word_uint_eq_iff)
qed

lemma offset_diff: "- (2 ^ 62) \<le> k - l \<Longrightarrow> k - l < 2 ^ 62 \<Longrightarrow> ptr_diff (b + word_of_int k) (b + word_of_int l) = k - l"
proof -
  assume r: "- (2 ^ 62) \<le> k - l" "k - l < 2 ^ 62"
  have "(b + word_of_int k) - (b + word_of_int l) = word_of_int (k - l)" by simp
  then have "ptr_diff (b + word_of_int k) (b + word_of_int l) = sint (word_of_int (k - l) :: 64 word)" by (simp only: ptr_diff_def)
  also have "sint (word_of_int d :: 64 word) = d" if "- (2 ^ 62) \<le> d" "d < 2 ^ 62" for d using that by (simp add: sint_sbintrunc' signed_take_bit_int_eq_self)
  from this [OF r] have "sint (word_of_int (k - l) :: 64 word) = k - l" .
  finally show ?thesis .
qed

lemma int32_eq:
  assumes "0 \<le> k" "k < 2 ^ 30" "- (2 ^ 31) \<le> l" "l < 2 ^ 31"
  shows "(word_of_int k :: 32 word) = word_of_int l \<longleftrightarrow> k = l"
proof
  assume "(word_of_int k :: 32 word) = word_of_int l"
  then have "sint (word_of_int k :: 32 word) = sint (word_of_int l :: 32 word)" by simp
  then show "k = l" using assms by (simp add: sint_sbintrunc' signed_take_bit_int_eq_self)
qed simp

text \<open>The code on the structure in memory does what \<open>swizzled\<close> does on offsets.\<close>

lemma swizzle_refines:
  assumes "fits_memory R q"
  shows "swizzle_queue_ptrs (m_lock R Lock_nolock) (m_addr R) (struct_queue_of S q) =
    (case swizzled q of Inl e \<Rightarrow> Inl e | Inr q' \<Rightarrow> Inr (struct_queue_of (received_on S R) q'))"
proof -
  let ?M = "received_on S R"
  define b where "b = buf_addr ?M"
  define r where "r = struct_queue_of ?M (relocated q)"
  have f: "uint (m_addr R) + 80 + q_end q < 2 ^ 64" "q_end q \<le> 0x3fffffff" "0 \<le> head q" "head q \<le> q_end q" "0 \<le> tail q" "tail q \<le> q_end q" "0 \<le> wall q" "wall q \<le> q_end q"
    "0 \<le> bytesfree q" "bytesfree q \<le> q_end q" using assms by (simp_all add: fits_memory_def queue_consts)
  have b: "b = m_addr R + word_of_int sizeof_Queue" by (simp add: b_def buf_addr_def received_on_def)
  have "uint b = uint (m_addr R) + 80"
  proof -
    have "b = word_of_int (uint (m_addr R) + 80)" by (simp add: b queue_consts)
    moreover have "uint (m_addr R) + 80 < 2 ^ 64" "0 \<le> uint (m_addr R) + 80" using f by (simp_all add: uint_ge_0)
    ultimately show ?thesis by (simp only: uint_word_of_int) (simp add: mod_pos_pos_trivial)
  qed
  then have ub: "uint b + q_end q < 2 ^ 64" using f by simp
  note less = offset_less [OF ub]
  have h: "(b + word_of_int (head q) = b + word_of_int (wall q)) = (head q = wall q)" by (rule less(2)) (use f in simp_all)
  have rel: "head (relocated q) = (if head q = wall q then 0 else head q)" "tail (relocated q) = tail q" "wall (relocated q) = wall q" "q_end (relocated q) = q_end q"
    "bytesfree (relocated q) = bytesfree q" by (simp_all add: relocated_def)
  have r: "s_start r = b" "s_end r = b + word_of_int (q_end q)" "s_head r = b + word_of_int (head (relocated q))" "s_tail r = b + word_of_int (tail q)"
    "s_wall r = b + word_of_int (wall q)" "s_bytesfree r = word_of_int (bytesfree q)"
    by (simp_all add: r_def struct_queue_of_def b_def rel)
  have "swizzle_pointers (m_lock R Lock_nolock) (m_addr R) (struct_queue_of S q) = struct_queue_of ?M (q\<lparr>ql := Lock_nolock\<rparr>)"
    by (simp add: swizzle_pointers_def struct_queue_of_def buf_addr_def received_on_def Let_def add.commute)
  moreover have "(if s_head (struct_queue_of ?M q') = s_wall (struct_queue_of ?M q') then (struct_queue_of ?M q')\<lparr>s_head := s_start (struct_queue_of ?M q')\<rparr> else struct_queue_of ?M q') = r"
    if "q' = q\<lparr>ql := Lock_nolock\<rparr>" for q'
    using h by (simp add: that r_def struct_queue_of_def b_def [symmetric] relocated_def)
  ultimately have main: "swizzle_queue_ptrs (m_lock R Lock_nolock) (m_addr R) (struct_queue_of S q) = swizzle_check r"
    by (simp add: swizzle_queue_ptrs_def Let_def)
  have hd: "0 \<le> head (relocated q)" "head (relocated q) \<le> q_end q" using f by (simp_all add: rel)
  have d0: "ptr_diff (b + word_of_int k) b = k" if "0 \<le> k" "k \<le> q_end q" for k using offset_diff [of k 0 b] that f by simp
  have d: "ptr_diff (b + word_of_int k) (b + word_of_int l) = k - l" if "0 \<le> k" "k \<le> q_end q" "0 \<le> l" "l \<le> q_end q" for k l
    by (rule offset_diff) (use that f in simp_all)
  have bf: "sint (s_bytesfree r) = bytesfree q" unfolding r by (rule sint_word_of_int_32) (use f in simp_all)
  have e: "(s_tail r = s_head r) = (tail (relocated q) = head (relocated q))" "(s_tail r < s_head r) = (tail (relocated q) < head (relocated q))"
    unfolding r rel(2) using less f hd by simp_all
  have fr: "(s_bytesfree r = word_of_int x) = (bytesfree q = x)" if "- (2 ^ 31) \<le> x" "x < 2 ^ 31" for x
    unfolding r by (rule int32_eq) (use f that in simp_all)
  have pd: "ptr_diff (s_end r) (s_start r) = q_end q" "ptr_diff (s_end r) (s_wall r) = q_end q - wall q" "ptr_diff (s_wall r) (s_head r) = wall q - head (relocated q)"
    "ptr_diff (s_tail r) (s_start r) = tail q" "ptr_diff (s_wall r) (s_tail r) = wall q - tail q" "ptr_diff (s_head r) (s_start r) = head (relocated q)"
    unfolding r using f hd by (simp_all add: d d0)
  let ?f = "if tail (relocated q) < head (relocated q) then wall q - head (relocated q) + tail q else wall q - tail q + head (relocated q)"
  have "- (2 ^ 31) \<le> ?f" "?f < 2 ^ 31" using f hd by simp_all
  then have F: "(s_bytesfree r = word_of_int ?f) = (bytesfree q = ?f)" by (rule fr)
  have "swizzle_check r = (if tail (relocated q) = head (relocated q) then (if bytesfree q = q_end q \<or> bytesfree q - (q_end q - wall q) = 0 then Inr r else Inl (Assert_failed ''false''))
      else if bytesfree q = ?f then Inr r else Inl (Assert_failed ''q->bytesfree == my_free''))"
    unfolding swizzle_check_def Let_def e bf pd F ..
  moreover have "swizzled q = (if tail (relocated q) = head (relocated q) then (if bytesfree q = q_end q \<or> bytesfree q - (q_end q - wall q) = 0 then Inr (relocated q) else Inl (Assert_failed ''false''))
      else if bytesfree q = ?f then Inr (relocated q) else Inl (Assert_failed ''q->bytesfree == my_free''))"
    unfolding swizzled_def Let_def QEMPTY_def QFULL_def QFREESPACE_def rel(2-5) ..
  ultimately show ?thesis unfolding main r_def by (simp split: if_split)
qed

lemma swizzle_mem_image:
  assumes "fits_memory R q"
  shows "swizzle_mem R (queue_image S q) = (case swizzled q of Inl e \<Rightarrow> Inl e | Inr q' \<Rightarrow> Inr (queue_image (received_on S R) q'))"
proof -
  have "swizzled q = Inr q' \<Longrightarrow> q' = relocated q" for q' by (auto simp: swizzled_def Let_def split: if_splits)
  then have "buf q' = buf q" if "swizzled q = Inr q'" for q' using that by (simp add: relocated_def)
  then show ?thesis
    unfolding swizzle_mem_def image_facts(2) swizzle_refines [OF assms] image_facts(1)
    by (simp add: queue_consts queue_image_def struct_write split: sum.split)
qed

section \<open>Which queues can be relocated\<close>

lemma rep_fits:
  assumes "queue_rep q ds" "uint (m_addr R) + sizeof_Queue + q_end q < 2 ^ 64"
  shows "fits_memory R q"
proof -
  have len: "q_end q = int (length (buf q))" "q_end q \<le> MaxAllocSize" using assms(1) by (auto simp: queue_rep_def)
  consider "rep_linear q ds" | "rep_wrapped q ds" using assms(1) by (auto simp: queue_rep_def)
  then show ?thesis
  proof cases
    case 1
    then have "laid (buf q) (head q) ds (tail q)" by (simp add: rep_linear_def)
    from laid_bounds [OF this] 1 len assms(2) show ?thesis by (simp add: rep_linear_def fits_memory_def)
  next
    case 2
    then obtain ds1 ds2 where w: "laid (buf q) (head q) ds1 (wall q)" "laid (buf q) 0 ds2 (tail q)" by (auto simp: rep_wrapped_def)
    from laid_bounds [OF w(1)] laid_bounds [OF w(2)] 2 len assms(2) show ?thesis by (simp add: rep_wrapped_def fits_memory_def)
  qed
qed

text \<open>
  The integrity check passes for a queue whose head is in front of the wall if it does not wrap around, if it is
  completely full, or if the bytes in use are exactly half of the buffer. If all elements in front of the wall
  are gone, it passes when nothing follows at the start of the buffer, or when the wall is at the end and something follows.
\<close>

definition relocatable :: "Queue \<Rightarrow> byte list list \<Rightarrow> bool" where
  "relocatable q ds \<longleftrightarrow> (if head q < wall q then tail q < head q \<longrightarrow> 2 * (\<Sum>d\<leftarrow>ds. int (length d) + 13) = q_end q
     else tail q = 0 \<or> wall q = q_end q \<and> ds \<noteq> [])"

lemma swizzled_cases:
  assumes "queue_rep q ds" "0 < q_end q"
  shows "swizzled q = (if relocatable q ds then Inr (relocated q) else Inl (Assert_failed ''q->bytesfree == my_free''))"
    "relocatable q ds \<Longrightarrow> queue_rep (relocated q) ds \<longleftrightarrow> head q < wall q \<or> wall q = q_end q \<or> wall q = 0"
proof -
  have rep: "q_end q = int (length (buf q))" "q_end q \<le> MaxAllocSize" "numelts q = int (length ds)" using assms(1) by (auto simp: queue_rep_def)
  note S = swizzled_def relocated_def relocatable_def Let_def QEMPTY_def QFULL_def QFREESPACE_def
  have keep: "queue_rep (relocated q) ds" if "head q \<noteq> wall q"
    using assms(1) that by (auto simp: relocated_def queue_rep_def rep_linear_def rep_wrapped_def)
  consider "rep_linear q ds" | "rep_wrapped q ds" using assms(1) by (auto simp: queue_rep_def)
  then have "swizzled q = (if relocatable q ds then Inr (relocated q) else Inl (Assert_failed ''q->bytesfree == my_free'')) \<and>
    (relocatable q ds \<longrightarrow> (queue_rep (relocated q) ds \<longleftrightarrow> head q < wall q \<or> wall q = q_end q \<or> wall q = 0))"
  proof cases
    case 1
    then have l: "laid (buf q) (head q) ds (tail q)" "wall q = q_end q" "bytesfree q = q_end q - (tail q - head q)" by (simp_all add: rep_linear_def)
    note B = laid_bounds [OF l(1)]
    show ?thesis
    proof (cases "head q = wall q")
      case True
      then have "tail q = head q" using B l(2) rep(1) by simp
      then have "ds = []" using laid_same l(1) by simp
      then show ?thesis using True \<open>tail q = head q\<close> l(2,3) assms(2) by (auto simp: S)
    next
      case False
      then show ?thesis using keep B l(2,3) rep(1) by (auto simp: S)
    qed
  next
    case 2
    then obtain ds1 ds2 where w: "ds = ds1 @ ds2" "laid (buf q) (head q) ds1 (wall q)" "laid (buf q) 0 ds2 (tail q)" and t: "tail q \<le> head q" "bytesfree q = q_end q - (wall q - head q) - tail q"
      by (auto simp: rep_wrapped_def)
    note B = laid_bounds [OF w(2)] laid_bounds [OF w(3)]
    have used: "(\<Sum>d\<leftarrow>ds. int (length d) + 13) = wall q - head q + tail q" using laid_size [OF w(2)] laid_size [OF w(3)] by (simp add: w(1))
    show ?thesis
    proof (cases "head q = wall q")
      case True
      then have ds1: "ds1 = []" using w(2) laid_same by simp
      have ds0: "tail q = 0 \<longleftrightarrow> ds = []" using w(1,3) ds1 laid_same [of "buf q" 0 ds2] by (auto simp: laid_Nil)
      have new: "queue_rep (relocated q) ds" if "wall q = q_end q"
        using that True t w(3) ds1 w(1) rep by (auto simp: relocated_def queue_rep_def rep_linear_def)
      have stale: "\<not> queue_rep (relocated q) ds" if "wall q \<noteq> q_end q" "wall q \<noteq> 0" "tail q = 0"
        using that True t B by (auto simp: relocated_def queue_rep_def rep_linear_def rep_wrapped_def)
      have wedged: "queue_rep (relocated q) ds" if "wall q = 0"
      proof -
        have "relocated q = q\<lparr>ql := Lock_nolock\<rparr>" using that True by (cases q) (simp add: relocated_def)
        then show ?thesis using assms(1) by simp
      qed
      have r: "queue_rep (relocated q) ds \<longleftrightarrow> wall q = q_end q \<or> wall q = 0" if "tail q = 0 \<or> wall q = q_end q"
        using new stale wedged that by blast
      have "swizzled q = (if relocatable q ds then Inr (relocated q) else Inl (Assert_failed ''q->bytesfree == my_free''))"
        using True ds0 t B rep(1) assms(2) by (auto simp: S)
      then show ?thesis using r True by (simp add: relocatable_def)
    next
      case False
      then have "head q < wall q" using B by simp
      then show ?thesis using keep t used B by (auto simp: S)
    qed
  qed
  then show "swizzled q = (if relocatable q ds then Inr (relocated q) else Inl (Assert_failed ''q->bytesfree == my_free''))"
    "relocatable q ds \<Longrightarrow> queue_rep (relocated q) ds \<longleftrightarrow> head q < wall q \<or> wall q = q_end q \<or> wall q = 0" by blast+
qed

text \<open>
  C27. What \<^verbatim>\<open>swizzle_queue_ptrs\<close> does to the memory of a received queue, for every queue that represents elements \<open>ds\<close>, whatever the two
  addresses. If the queue is \<open>relocatable\<close>, the memory becomes the image of the queue at the new address, with the lock of the
  receiver, every pointer moved by the difference of the buffer addresses, and a \<^verbatim>\<open>head\<close> that had reached \<^verbatim>\<open>wall\<close> put to the start;
  this queue still represents \<open>ds\<close> exactly if \<^verbatim>\<open>head\<close> was in front of \<^verbatim>\<open>wall\<close>, or \<^verbatim>\<open>wall\<close> at one end of the buffer. All other queues
  fail the integrity check: those that wrap around, are not completely full and do not fill exactly half of the buffer,
  those whose elements in front of a \<^verbatim>\<open>wall\<close> that is not at the end are all gone while others follow, and an empty queue with
  \<^verbatim>\<open>head\<close> and \<^verbatim>\<open>tail\<close> at the end of the buffer.
\<close>

theorem swizzle_relocates:
  assumes "queue_rep q ds" "0 < q_end q" "uint (m_addr R) + sizeof_Queue + q_end q < 2 ^ 64"
  shows "swizzle_mem R (queue_image S q) =
      (if relocatable q ds then Inr (queue_image (received_on S R) (relocated q)) else Inl (Assert_failed ''q->bytesfree == my_free'')) \<and>
    (relocatable q ds \<longrightarrow> (queue_rep (relocated q) ds \<longleftrightarrow> head q < wall q \<or> wall q = q_end q \<or> wall q = 0))"
  using swizzle_mem_image [OF rep_fits [OF assms(1,3)], of S] swizzled_cases [OF assms(1,2)] by simp

text \<open>
  Three queues of 64 bytes: one element of one byte at the front; one of two bytes at the end and one of one byte at the front; and
  no element, with both positions at the end.
\<close>

definition linear64 :: Queue where
  "linear64 = (init_queue Lock_nolock 144)\<lparr>tail := 14, bytesfree := 50, numelts := 1, buf := elt_image [7] @ replicate 50 0\<rparr>"

definition wrapped64 :: Queue where
  "wrapped64 = (init_queue Lock_nolock 144)\<lparr>head := 49, tail := 14, wall := 64, bytesfree := 35, numelts := 2,
     buf := elt_image [7] @ replicate 35 0 @ elt_image [8, 9]\<rparr>"

definition empty64 :: Queue where
  "empty64 = (init_queue Lock_nolock 144)\<lparr>head := 64, tail := 64\<rparr>"

lemma linear64_rep: "queue_rep linear64 [[7]]" "rep_linear linear64 [[7]]"
proof -
  have "laid (buf linear64) 0 [[7]] 14" by (simp add: laid_def linear64_def mem_read_def)
  then show rep: "rep_linear linear64 [[7]]" unfolding rep_linear_def by (simp add: linear64_def init_queue_def queue_consts)
  then show "queue_rep linear64 [[7]]" by (simp add: queue_rep_def) (simp add: linear64_def init_queue_def queue_consts)
qed

lemma wrapped64_rep: "queue_rep wrapped64 [[8, 9], [7]]" "rep_wrapped wrapped64 [[8, 9], [7]]"
proof -
  have "laid (buf wrapped64) 49 [[8, 9]] 64" "laid (buf wrapped64) 0 [[7]] 14"
    by (simp_all add: laid_def wrapped64_def mem_read_def)
  then show rep: "rep_wrapped wrapped64 [[8, 9], [7]]"
    unfolding rep_wrapped_def
    by (intro conjI exI [of _ "[[8, 9]]"] exI [of _ "[[7]]"]) (simp_all add: wrapped64_def init_queue_def queue_consts)
  then show "queue_rep wrapped64 [[8, 9], [7]]"
    by (simp add: queue_rep_def) (simp add: wrapped64_def init_queue_def queue_consts)
qed

lemma empty64_rep: "queue_rep empty64 []"
  by (simp add: queue_rep_def rep_linear_def laid_Nil empty64_def init_queue_def queue_consts)

definition machine_S :: machine where
  "machine_S = \<lparr>m_addr = 0x40001000, m_lock = (\<lambda>l. if l = Lock_nolock then 0x8000 else 0x9000), m_double = (\<lambda>_. 0), m_pad = 7\<rparr>"

definition machine_R :: machine where
  "machine_R = \<lparr>m_addr = 0x7fff2000, m_lock = (\<lambda>l. if l = Lock_nolock then 0x5000 else 0x6000), m_double = (\<lambda>_. 0), m_pad = 0\<rparr>"

theorem swizzle_relocates_witness:
  "swizzle_mem machine_R (queue_image machine_S linear64) = Inr (queue_image (received_on machine_S machine_R) linear64) \<and> queue_rep linear64 [[7]] \<and>
   s_tail (struct_of (queue_image machine_S linear64)) = 0x4000105E \<and> s_tail (struct_of (queue_image (received_on machine_S machine_R) linear64)) = 0x7fff205E \<and>
   swizzle_mem machine_R (queue_image machine_S wrapped64) = Inl (Assert_failed ''q->bytesfree == my_free'') \<and>
   swizzle_mem machine_R (queue_image machine_S empty64) = Inl (Assert_failed ''q->bytesfree == my_free'')"
proof -
  have a: "uint (m_addr machine_R) + sizeof_Queue + 64 < 2 ^ 64" by (simp add: machine_R_def queue_consts)
  have f: "q_end linear64 = 64" "q_end wrapped64 = 64" "q_end empty64 = 64" by (simp_all add: linear64_def wrapped64_def empty64_def init_queue_def queue_consts)
  have c: "relocatable linear64 [[7]]" "\<not> relocatable wrapped64 [[8, 9], [7]]" "\<not> relocatable empty64 []"
    by (simp_all add: relocatable_def linear64_def wrapped64_def empty64_def init_queue_def queue_consts)
  have r: "relocated linear64 = linear64" by (simp add: relocated_def linear64_def init_queue_def queue_consts)
  have t: "s_tail (struct_of (queue_image machine_S linear64)) = 0x4000105E" "s_tail (struct_of (queue_image (received_on machine_S machine_R) linear64)) = 0x7fff205E"
    by (simp_all add: image_facts(2) struct_queue_of_def buf_addr_def received_on_def machine_S_def machine_R_def linear64_def queue_consts)
  show ?thesis using swizzle_relocates [OF linear64_rep(1), of machine_R machine_S] swizzle_relocates [OF wrapped64_rep(1), of machine_R machine_S]
      swizzle_relocates [OF empty64_rep, of machine_R machine_S] linear64_rep(1) t c a by (simp add: f r)
qed

end
