(* ===== verification/Queue_Comm.thy ===== *)
theory Queue_Comm
  imports Queue_Layout
begin

text \<open>
  Shipping a whole queue to another process over a socket (\<^verbatim>\<open>send_queue\<close> and \<^verbatim>\<open>receive_queue\<close> in
  \<^verbatim>\<open>src/src/backend/rqueue/resultq.c\<close>). The sender writes the bytes of the queue structure and its buffer as they are
  in memory on its machine \<open>S\<close>; the receiver, on machine \<open>R\<close>, reads them into memory of its own and adapts the pointers.
  A \<^verbatim>\<open>read\<close> or \<^verbatim>\<open>write\<close> transfers as many bytes as its argument of type \<open>io\<close> allows, fails, or meets a peer that has closed the
  connection; the socket is the list of bytes in flight. The step relation at the end interleaves the two non-blocking ends.
\<close>

section \<open>Sockets\<close>

datatype errno = EAGAIN | EINTR | EOTHER

datatype io = IO_bytes nat | IO_error errno | IO_eof

text \<open>When the peer has closed the connection, a write fails, and a read returns what is left in flight, in the end no byte.\<close>

definition sock_write :: "io \<Rightarrow> byte list \<Rightarrow> byte list \<Rightarrow> (errno + nat) \<times> byte list" where
  "sock_write r bs wire =
     (case r of
        IO_error e \<Rightarrow> (Inl e, wire)
      | IO_eof \<Rightarrow> (Inl EOTHER, wire)
      | IO_bytes k \<Rightarrow> if k = 0 then (Inl EAGAIN, wire) else (Inr (min k (length bs)), wire @ take k bs))"

definition sock_read :: "io \<Rightarrow> nat \<Rightarrow> byte list \<Rightarrow> (errno + byte list) \<times> byte list" where
  "sock_read r req wire =
     (case r of
        IO_error e \<Rightarrow> (Inl e, wire)
      | IO_eof \<Rightarrow> (Inr (take req wire), drop req wire)
      | IO_bytes k \<Rightarrow>
          if k = 0 \<or> wire = [] then (Inl EAGAIN, wire)
          else (Inr (take (min k req) wire), drop (min k req) wire))"

section \<open>Sending\<close>

text \<open>The sender's \<^verbatim>\<open>QueueComm\<close> points to a queue, the receiver's to raw memory.\<close>

record 'm QueueComm =
  qc_queue :: "'m option"
  qc_pos :: int
  qc_size :: "32 word"
  qc_done :: bool

definition newQueueComm :: "Queue option \<Rightarrow> Queue QueueComm" where
  "newQueueComm q = \<lparr>qc_queue = q, qc_pos = 0,
     qc_size = (case q of Some q \<Rightarrow> word_of_int (q_size q) | None \<Rightarrow> 0), qc_done = (q \<noteq> None)\<rparr>"

type_synonym sender = "Queue QueueComm \<times> byte list"

definition comm_clear :: "Queue \<Rightarrow> Queue QueueComm \<Rightarrow> int outcome \<times> Queue QueueComm" where
  "comm_clear q qc =
     (case clear_queue q of
        (Inl e, q') \<Rightarrow> (Inl e, qc\<lparr>qc_done := True, qc_queue := Some q'\<rparr>)
      | (Inr _, q') \<Rightarrow> (Inr 1, qc\<lparr>qc_done := True, qc_queue := Some q'\<rparr>))"

definition send_queue_nb :: "machine \<Rightarrow> io \<Rightarrow> (sender, int) prog" where
  "send_queue_nb S r = (\<lambda>(qc0, wire).
     (case qc_queue qc0 of
        None \<Rightarrow> (Inl (Out_of_bounds ''no queue to send''), (qc0, wire))
      | Some q \<Rightarrow>
          let qc = qc0\<lparr>qc_size := word_of_int (q_size q)\<rparr>; sz = sint (qc_size qc) in
          if qc_pos qc < sz then
            (case sock_write r (mem_read (nat (qc_pos qc)) (nat (sz - qc_pos qc)) (queue_image S q)) wire of
               (Inl e, w) \<Rightarrow> (Inr (if e \<noteq> EAGAIN \<and> e \<noteq> EINTR then -1 else 1), (qc, w))
             | (Inr n, w) \<Rightarrow> (Inr (int n), (qc\<lparr>qc_pos := qc_pos qc + int n\<rparr>, w)))
          else
            (case sock_write r [59] wire of
               (Inl e, w) \<Rightarrow> (Inl Would_block, (qc, w))
             | (Inr n, w) \<Rightarrow> (case comm_clear q qc of (res, qc') \<Rightarrow> (res, (qc', w))))))"

fun send_b_loop :: "machine \<Rightarrow> Queue \<Rightarrow> int \<Rightarrow> io list \<Rightarrow> (sender, int) prog" where
  "send_b_loop S q sz rs (qc, wire) =
     (if qc_pos qc < sz then
        (case rs of
           [] \<Rightarrow> (Inl Would_block, (qc, wire))
         | r # rs' \<Rightarrow>
             (case sock_write r (mem_read (nat (qc_pos qc)) (nat (sz - qc_pos qc)) (queue_image S q)) wire of
                (Inl e, w) \<Rightarrow> (Inr (-1), (qc, w))
              | (Inr n, w) \<Rightarrow> send_b_loop S q sz rs' (qc\<lparr>qc_pos := qc_pos qc + int n\<rparr>, w)))
      else (case comm_clear q qc of (res, qc') \<Rightarrow> (res, (qc', wire))))"

definition send_queue_b :: "machine \<Rightarrow> io list \<Rightarrow> (sender, int) prog" where
  "send_queue_b S rs = (\<lambda>(qc0, wire).
     (case qc_queue qc0 of
        None \<Rightarrow> (Inl (Out_of_bounds ''no queue to send''), (qc0, wire))
      | Some q \<Rightarrow>
          let qc = qc0\<lparr>qc_size := word_of_int (q_size q)\<rparr>
          in send_b_loop S q (sint (qc_size qc)) rs (qc, wire)))"

section \<open>Receiving\<close>

text \<open>The receiver's state: its \<^verbatim>\<open>QueueComm\<close>, with the memory of the queue, and the bytes in flight.\<close>

record receiver =
  rx :: "byte list QueueComm"
  rx_wire :: "byte list"

text \<open>\<open>junk sz\<close> is what \<^verbatim>\<open>palloc\<close> returns for \<open>sz\<close> bytes.\<close>

definition rx_alloc :: "(int \<Rightarrow> byte list) \<Rightarrow> (receiver, unit) prog" where
  "rx_alloc junk s =
     (let qc = rx s; sz = sint (qc_size qc);
          fresh = (case qc_queue qc of None \<Rightarrow> True | Some m \<Rightarrow> le32_of_bytes (mem_read 0 4 m) \<noteq> qc_size qc)
      in if fresh \<and> (sz \<le> 0 \<or> sz > MaxAllocSize)
         then (Inl (Elog_error ''MemoryContextAlloc: invalid request size''), s)
         else
           let m = (if fresh then junk sz else the (qc_queue qc))
           in (Inr (), s\<lparr>rx := qc\<lparr>qc_queue := Some (mem_write 0 (le32_bytes (qc_size qc)) m)\<rparr>\<rparr>))"

text \<open>The two partial reads: the size into \<^verbatim>\<open>qc->size\<close>, then the queue. The value is \<^verbatim>\<open>bread\<close>.\<close>

definition rx_read_size :: "io \<Rightarrow> (receiver, errno + int) prog" where
  "rx_read_size r s =
     (let qc = rx s in
      if qc_pos qc < 4 then
        (case sock_read r (nat (4 - qc_pos qc)) (rx_wire s) of
           (Inl e, w) \<Rightarrow> (Inr (Inl e), s\<lparr>rx_wire := w\<rparr>)
         | (Inr bs, w) \<Rightarrow>
             (Inr (Inr (int (length bs))),
              s\<lparr>rx := qc\<lparr>qc_size := le32_of_bytes (mem_write (nat (qc_pos qc)) bs (le32_bytes (qc_size qc)))\<rparr>,
                rx_wire := w\<rparr>))
      else (Inr (Inr 0), s))"

definition rx_read_data :: "io \<Rightarrow> int \<Rightarrow> (receiver, errno + int) prog" where
  "rx_read_data r bread s =
     (let qc = rx s; sz = sint (qc_size qc) in
      if qc_pos qc < sz then
        (case sock_read r (nat (sz - qc_pos qc)) (rx_wire s) of
           (Inl e, w) \<Rightarrow> (Inr (Inl e), s\<lparr>rx_wire := w\<rparr>)
         | (Inr bs, w) \<Rightarrow>
             (Inr (Inr (int (length bs))),
              s\<lparr>rx := qc\<lparr>qc_queue := map_option (mem_write (nat (qc_pos qc)) bs) (qc_queue qc)\<rparr>, rx_wire := w\<rparr>))
      else (Inr (Inr bread), s))"

definition rx_advance :: "int \<Rightarrow> receiver \<Rightarrow> receiver" where
  "rx_advance bread s = s\<lparr>rx := (rx s)\<lparr>qc_pos := qc_pos (rx s) + bread\<rparr>\<rparr>"

text \<open>The trailing check byte and the integrity check.\<close>

definition rx_finish :: "machine \<Rightarrow> io \<Rightarrow> (receiver, int) prog" where
  "rx_finish R r s =
     (case sock_read r 1 (rx_wire s) of
        (Inl e, w) \<Rightarrow> (Inl Would_block, s\<lparr>rx_wire := w\<rparr>)
      | (Inr bs, w) \<Rightarrow>
          let s = s\<lparr>rx_wire := w\<rparr> in
          if bs = [] then (Inl Would_block, s)
          else if bs \<noteq> [59] then (Inl (Assert_failed ''dummy == 59''), s)
          else case swizzle_mem R (the (qc_queue (rx s))) of
                 Inl e \<Rightarrow> (Inl e, s)
               | Inr m \<Rightarrow> (Inr 1, s\<lparr>rx := (rx s)\<lparr>qc_queue := Some m, qc_done := True\<rparr>\<rparr>))"

definition rx_data_phase :: "machine \<Rightarrow> io \<Rightarrow> io \<Rightarrow> int \<Rightarrow> (receiver, int) prog" where
  "rx_data_phase R r2 r3 bread =
     bind_prog (rx_read_data r2 bread) (\<lambda>res.
       case res of
         Inl e \<Rightarrow> return_prog (if e \<noteq> EAGAIN \<and> e \<noteq> EINTR then -1 else 1)
       | Inr bread \<Rightarrow>
           bind_prog (modify_prog (rx_advance bread)) (\<lambda>_ s.
             if qc_pos (rx s) < sint (qc_size (rx s)) then (Inr bread, s) else rx_finish R r3 s))"

definition receive_queue_nb :: "(int \<Rightarrow> byte list) \<Rightarrow> machine \<Rightarrow> io \<Rightarrow> io \<Rightarrow> io \<Rightarrow> (receiver, int) prog" where
  "receive_queue_nb junk R r1 r2 r3 =
     bind_prog (rx_read_size r1) (\<lambda>res.
       case res of
         Inl e \<Rightarrow> return_prog (if e \<noteq> EAGAIN \<and> e \<noteq> EINTR then -1 else 1)
       | Inr bread \<Rightarrow>
           bind_prog (modify_prog (rx_advance bread)) (\<lambda>_ s.
             if qc_pos (rx s) < 4 then (Inr bread, s)
             else bind_prog (rx_alloc junk) (\<lambda>_. rx_data_phase R r2 r3 bread) s))"

text \<open>The blocking receiver: the same reads, each repeated until it is complete.\<close>

fun rx_b_loop :: "(io \<Rightarrow> (receiver, errno + int) prog) \<Rightarrow> (receiver \<Rightarrow> bool) \<Rightarrow> io list \<Rightarrow> (receiver, io list option) prog" where
  "rx_b_loop rd pending rs s =
     (if pending s then
        (case rs of
           [] \<Rightarrow> (Inl Would_block, s)
         | r # rs' \<Rightarrow>
             (case rd r s of
                (Inl e, s') \<Rightarrow> (Inl e, s')
              | (Inr (Inl e), s') \<Rightarrow> (Inr None, s')
              | (Inr (Inr bread), s') \<Rightarrow> rx_b_loop rd pending rs' (rx_advance bread s')))
      else (Inr (Some rs), s))"

definition receive_queue_b :: "(int \<Rightarrow> byte list) \<Rightarrow> machine \<Rightarrow> io list \<Rightarrow> (receiver, int) prog" where
  "receive_queue_b junk R rs =
     bind_prog (modify_prog (\<lambda>s. s\<lparr>rx := (rx s)\<lparr>qc_pos := 0\<rparr>\<rparr>)) (\<lambda>_.
     bind_prog (rx_b_loop rx_read_size (\<lambda>s. qc_pos (rx s) < 4) rs) (\<lambda>rest.
       case rest of
         None \<Rightarrow> return_prog (-1)
       | Some rs \<Rightarrow>
           bind_prog (rx_alloc junk) (\<lambda>_.
           bind_prog (rx_b_loop (\<lambda>r. rx_read_data r 0) (\<lambda>s. qc_pos (rx s) < sint (qc_size (rx s))) rs) (\<lambda>rest.
             case rest of
               None \<Rightarrow> return_prog (-1)
             | Some rs \<Rightarrow> (\<lambda>s. case swizzle_mem R (the (qc_queue (rx s))) of
                   Inl e \<Rightarrow> (Inl e, s)
                 | Inr m \<Rightarrow> (Inr 1, s\<lparr>rx := (rx s)\<lparr>qc_queue := Some m, qc_done := True\<rparr>\<rparr>))))))"

section \<open>The two ends together\<close>

text \<open>
  A step is one call of either end, with whatever the socket lets it transfer. A failed assertion
  stops the receiver.
\<close>

record comm =
  tx :: "Queue QueueComm"
  rcv :: receiver
  crashed :: bool

inductive comm_step ::
  "machine \<Rightarrow> (int \<Rightarrow> byte list) \<Rightarrow> machine \<Rightarrow> comm \<Rightarrow> comm \<Rightarrow> bool"
  for S junk R where
  send: "\<not> crashed c \<Longrightarrow> \<not> qc_done (tx c) \<Longrightarrow>
    send_queue_nb S r (tx c, rx_wire (rcv c)) = (res, (qc', w)) \<Longrightarrow>
    comm_step S junk R c (c\<lparr>tx := qc', rcv := (rcv c)\<lparr>rx_wire := w\<rparr>\<rparr>)"
| recv: "\<not> crashed c \<Longrightarrow> \<not> qc_done (rx (rcv c)) \<Longrightarrow>
    receive_queue_nb junk R r1 r2 r3 (rcv c) = (res, s') \<Longrightarrow>
    comm_step S junk R c (c\<lparr>rcv := s', crashed := (\<exists>m. res = Inl (Assert_failed m))\<rparr>)"

inductive comm_reach ::
  "machine \<Rightarrow> (int \<Rightarrow> byte list) \<Rightarrow> machine \<Rightarrow> comm \<Rightarrow> comm \<Rightarrow> bool"
  for S junk R c0 where
  start: "comm_reach S junk R c0 c0"
| step: "comm_reach S junk R c0 c \<Longrightarrow> comm_step S junk R c c' \<Longrightarrow>
    comm_reach S junk R c0 c'"

definition comm_init :: "Queue \<Rightarrow> comm" where
  "comm_init q = \<lparr>tx = (newQueueComm (Some q))\<lparr>qc_done := False\<rparr>,
     rcv = \<lparr>rx = \<lparr>qc_queue = None, qc_pos = 0, qc_size = 0, qc_done = False\<rparr>, rx_wire = []\<rparr>,
     crashed = False\<rparr>"

text \<open>What is assumed of the queue that is sent and of the memory of the receiver.\<close>

definition layout_ok :: "(int \<Rightarrow> byte list) \<Rightarrow> machine \<Rightarrow> Queue \<Rightarrow> bool" where
  "layout_ok junk R q \<longleftrightarrow> q_size q = sizeof_Queue + q_end q \<and> q_end q = int (length (buf q)) \<and> q_size q \<le> MaxAllocSize \<and>
     uint (m_addr R) + q_size q < 2 ^ 64 \<and> (\<forall>n. length (junk n) = nat n)"

lemma layout_size:
  assumes "layout_ok junk R q"
  shows "sint (word_of_int (q_size q) :: 32 word) = q_size q" "4 < length (queue_image S q)" "int (length (queue_image S q)) = q_size q"
    "take 4 (queue_image S q) = le32_bytes (word_of_int (q_size q))" "length (junk (q_size q)) = length (queue_image S q)" "0 < q_size q" "q_size q \<le> MaxAllocSize"
  using assms sint_word_of_int_32 [of "q_size q"] by (auto simp: layout_ok_def queue_consts image_facts)

text \<open>
  The bytes of the transfer are those of the queue and the check byte. \<open>tx_inv\<close> and \<open>rx_inv\<close> say
  how many of them an end has dealt with.
\<close>

definition stream :: "machine \<Rightarrow> Queue \<Rightarrow> byte list" where
  "stream S q = queue_image S q @ [59]"

definition tx_inv :: "machine \<Rightarrow> Queue \<Rightarrow> Queue QueueComm \<Rightarrow> nat \<Rightarrow> bool" where
  "tx_inv S q qc sent \<longleftrightarrow>
     (if qc_done qc then sent = length (stream S q)
      else qc_queue qc = Some q \<and> qc_pos qc = int sent \<and> sent \<le> length (queue_image S q))"

definition rx_inv :: "machine \<Rightarrow> Queue \<Rightarrow> byte list \<Rightarrow> receiver \<Rightarrow> nat \<Rightarrow> bool" where
  "rx_inv S q m' s got \<longleftrightarrow>
     (if qc_done (rx s) then got = length (stream S q) \<and> qc_queue (rx s) = Some m'
      else qc_pos (rx s) = int got \<and> got \<le> length (queue_image S q) \<and>
        (if got < 4 then qc_queue (rx s) = None \<and> take got (le32_bytes (qc_size (rx s))) = take got (queue_image S q)
         else qc_size (rx s) = word_of_int (q_size q) \<and>
           (\<exists>m. qc_queue (rx s) = Some m \<and> length m = length (queue_image S q) \<and> take got m = take got (queue_image S q))))"

definition comm_inv :: "machine \<Rightarrow> Queue \<Rightarrow> byte list \<Rightarrow> comm \<Rightarrow> bool" where
  "comm_inv S q m' c \<longleftrightarrow> \<not> crashed c \<and>
     (\<exists>sent got. tx_inv S q (tx c) sent \<and> rx_inv S q m' (rcv c) got \<and> got \<le> sent \<and>
        rx_wire (rcv c) = take (sent - got) (drop got (stream S q)))"

lemma take_mem_write:
  assumes "take p m = take p x" "p + length bs \<le> length m" "p + length bs \<le> length x"
    "bs = take (length bs) (drop p x)"
  shows "take (p + length bs) (mem_write p bs m) = take (p + length bs) x"
proof (rule nth_equalityI)
  fix i assume i: "i < length (take (p + length bs) (mem_write p bs m))"
  show "take (p + length bs) (mem_write p bs m) ! i = take (p + length bs) x ! i"
  proof (cases "i < p")
    case True
    then have "m ! i = x ! i" using assms(1) by (metis nth_take)
    with True i assms(2) show ?thesis by (simp add: nth_mem_write)
  next
    case False
    have "bs ! (i - p) = take (length bs) (drop p x) ! (i - p)" using assms(4) by simp
    with False i assms(2,3) show ?thesis by (simp add: nth_mem_write)
  qed
qed (use assms in simp)

lemma le32_bytes_of: "length bs = 4 \<Longrightarrow> le32_bytes (le32_of_bytes bs) = bs"
proof -
  assume "length bs = 4"
  then obtain a b c d where bs: "bs = [a, b, c, d]"
    by (auto simp: numeral_eq_Suc length_Suc_conv)
  have 1: "ucast (le32_of_bytes bs) = a" "ucast (drop_bit 8 (le32_of_bytes bs)) = b"
    "ucast (drop_bit 16 (le32_of_bytes bs)) = c" "ucast (drop_bit 24 (le32_of_bytes bs)) = d"
    by (rule bit_word_eqI; auto simp: bs le32_of_bytes_def bit_simps bit_or_iff bit_push_bit_iff bit_unsigned_iff dest: bit_imp_le_length)+
  show ?thesis using 1 by (simp add: le32_bytes_def bs)
qed

abbreviation window :: "byte list \<Rightarrow> nat \<Rightarrow> nat \<Rightarrow> byte list" where
  "window xs got sent \<equiv> take (sent - got) (drop got xs)"

lemma window_extend:
  assumes "got \<le> sent"
  shows "window xs got sent @ take n (drop sent xs) = window xs got (sent + n)"
proof -
  have "drop sent xs = drop (sent - got) (drop got xs)" using assms by simp
  then show ?thesis using assms take_add [of "sent - got" n "drop got xs"] by (simp add: add.commute)
qed

lemma window_drop: "drop n (window xs got sent) = window xs (got + n) sent"
  by (simp add: drop_take add.commute)

lemma sock_write_window:
  assumes "got \<le> sent" "wire = window xs got sent" "sock_write r (take k (drop sent xs)) wire = (res, w)"
  obtains (stuck) e where "w = wire" "res = Inl e"
  | (some) n where "w = window xs got (sent + n)" "n \<le> k" "res = Inr n" "0 < k \<Longrightarrow> sent < length xs \<Longrightarrow> 0 < n"
proof (cases r)
  case (IO_error e)
  with assms show thesis by (intro stuck) (auto simp: sock_write_def)
next
  case IO_eof
  with assms show thesis by (intro stuck) (auto simp: sock_write_def)
next
  case (IO_bytes m)
  show thesis
  proof (cases "m = 0")
    case True
    with IO_bytes assms show thesis by (intro stuck) (auto simp: sock_write_def)
  next
    case False
    let ?n = "min m (length (take k (drop sent xs)))"
    have "take m (take k (drop sent xs)) = take ?n (drop sent xs)"
      by (auto simp: min_def)
    with IO_bytes False assms(2,3) window_extend [OF assms(1), of xs ?n] show thesis
      by (intro some [of ?n]) (auto simp: sock_write_def)
  qed
qed

lemma send_step_inv:
  assumes lay: "layout_ok junk R q"
    and inv: "tx_inv S q qc sent" "\<not> qc_done qc" "got \<le> sent"
    and wire: "wire = window (stream S q) got sent"
    and run: "send_queue_nb S r (qc, wire) = (res, (qc', w))"
  obtains sent' where "tx_inv S q qc' sent'" "sent \<le> sent'" "w = window (stream S q) got sent'"
proof -
  let ?st = "stream S q" and ?len = "length (queue_image S q)"
  let ?qc = "qc\<lparr>qc_size := word_of_int (q_size q)\<rparr>"
  have q: "qc_queue qc = Some q" "qc_pos qc = int sent" "sent \<le> ?len"
    using inv by (simp_all add: tx_inv_def)
  have sz: "sint (word_of_int (q_size q) :: 32 word) = int ?len"
    using layout_size(1,3) [OF lay] by simp
  show thesis
  proof (cases "sent < ?len")
    case True
    have bytes: "mem_read sent (?len - sent) (queue_image S q) = take (?len - sent) (drop sent ?st)"
      by (simp add: mem_read_def stream_def)
    obtain res1 w1 where sw: "sock_write r (take (?len - sent) (drop sent ?st)) wire = (res1, w1)"
      by (cases "sock_write r (take (?len - sent) (drop sent ?st)) wire")
    have step: "send_queue_nb S r (qc, wire) =
        (case (res1, w1) of
           (Inl e, w) \<Rightarrow> (Inr (if e \<noteq> EAGAIN \<and> e \<noteq> EINTR then -1 else 1), (?qc, w))
         | (Inr n, w) \<Rightarrow> (Inr (int n), (?qc\<lparr>qc_pos := int sent + int n\<rparr>, w)))"
      using q sz True by (simp add: send_queue_nb_def Let_def bytes nat_diff_distrib sw split: sum.split)
    from inv(3) wire sw show thesis
    proof (cases rule: sock_write_window)
      case (stuck e)
      with run step q wire inv show thesis by (intro that [of sent]) (auto simp: tx_inv_def)
    next
      case (some n)
      with run step q True inv(2) show thesis by (intro that [of "sent + n"]) (auto simp: tx_inv_def)
    qed
  next
    case False
    then have sent: "sent = ?len" using q by simp
    have last: "[59] = take 1 (drop sent ?st)" by (simp add: sent stream_def)
    obtain res1 w1 where sw: "sock_write r [59] wire = (res1, w1)" by (cases "sock_write r [59] wire")
    have step: "send_queue_nb S r (qc, wire) =
        (case (res1, w1) of
           (Inl e, w) \<Rightarrow> (Inl Would_block, (?qc, w))
         | (Inr n, w) \<Rightarrow> (case comm_clear q ?qc of (res, qc') \<Rightarrow> (res, (qc', w))))"
      using q sz False by (simp add: send_queue_nb_def Let_def sw)
    from inv(3) wire sw [unfolded last] show thesis
    proof (cases rule: sock_write_window)
      case (stuck e)
      with run step q wire inv show thesis by (intro that [of sent]) (auto simp: tx_inv_def)
    next
      case (some n)
      have "0 < n" using some(4) \<open>sent = ?len\<close> by (simp add: stream_def)
      with some(2) have "n = 1" by simp
      obtain res2 qc2 where cc: "comm_clear q ?qc = (res2, qc2)" by (cases "comm_clear q ?qc")
      then have "qc_done qc2" by (auto simp: comm_clear_def split: prod.splits sum.splits)
      with run step some cc \<open>n = 1\<close> \<open>sent = ?len\<close> show thesis
        by (intro that [of "sent + 1"]) (auto simp: tx_inv_def stream_def)
    qed
  qed
qed

lemma drop_length_take: "drop (length (take n xs)) xs = drop n xs"
  by (cases "n \<le> length xs") (simp_all add: min_absorb1 min_absorb2)

lemma sock_read_cases:
  assumes "sock_read r req wire = (res, w)"
  obtains (stuck) e where "w = wire" "res = Inl e"
  | (some) n where "n \<le> req" "res = Inr (take n wire)" "w = drop n wire"
proof (cases r)
  case (IO_error e)
  with assms show thesis by (intro stuck [of e]) (simp_all add: sock_read_def)
next
  case IO_eof
  with assms show thesis by (intro some [of req]) (simp_all add: sock_read_def)
next
  case (IO_bytes k)
  show thesis
  proof (cases "k = 0 \<or> wire = []")
    case True
    with IO_bytes assms show thesis by (intro stuck [of EAGAIN]) (auto simp: sock_read_def)
  next
    case False
    with IO_bytes assms show thesis by (intro some [of "min k req"]) (auto simp: sock_read_def)
  qed
qed

lemma sock_read_window:
  assumes "wire = window xs got sent" "got \<le> sent" "sent \<le> length xs" "sock_read r req wire = (res, w)"
  obtains (stuck) e where "w = wire" "res = Inl e"
  | (some) bs where "res = Inr bs" "bs = take (length bs) (drop got xs)" "length bs \<le> req" "got + length bs \<le> sent"
      "w = window xs (got + length bs) sent"
  using assms(4)
proof (cases rule: sock_read_cases)
  case (stuck e)
  then show thesis by (rule that(1))
next
  case (some n)
  let ?bs = "take n wire"
  have len: "length ?bs = min n (sent - got)" using assms(1,3) by simp
  have 1: "?bs = take (length ?bs) (drop got xs)" unfolding len by (simp add: assms(1))
  have 2: "w = window xs (got + length ?bs) sent"
    unfolding window_drop [symmetric] assms(1) [symmetric] drop_length_take by (rule some(3))
  have 4: "length ?bs \<le> req" "got + length ?bs \<le> sent" unfolding len using some(1) assms(2) by linarith+
  show thesis by (rule that(2) [OF some(2) 1 4 2])
qed

text \<open>The receiver with the size read and the memory allocated.\<close>

definition rx_filling :: "machine \<Rightarrow> Queue \<Rightarrow> receiver \<Rightarrow> nat \<Rightarrow> bool" where
  "rx_filling S q s got \<longleftrightarrow> \<not> qc_done (rx s) \<and> qc_pos (rx s) = int got \<and> 4 \<le> got \<and>
     got \<le> length (queue_image S q) \<and> qc_size (rx s) = word_of_int (q_size q) \<and>
     (\<exists>m. qc_queue (rx s) = Some m \<and> length m = length (queue_image S q) \<and> take got m = take got (queue_image S q))"

lemma rx_filling_inv: "rx_filling S q s got \<Longrightarrow> rx_inv S q m' s got"
  by (auto simp: rx_filling_def rx_inv_def)

lemma rx_inv_filling: "rx_inv S q m' s got \<Longrightarrow> \<not> qc_done (rx s) \<Longrightarrow> 4 \<le> got \<Longrightarrow> rx_filling S q s got"
  by (auto simp: rx_filling_def rx_inv_def)

lemma rx_finish_inv:
  assumes lay: "layout_ok junk R q" and sw: "swizzle_mem R (queue_image S q) = Inr m'"
    and fill: "rx_filling S q s (length (queue_image S q))"
    and wire: "rx_wire s = window (stream S q) (length (queue_image S q)) sent"
      "length (queue_image S q) \<le> sent" "sent \<le> length (stream S q)"
    and run: "rx_finish R r s = (res, s')"
  shows "\<exists>got'. rx_inv S q m' s' got' \<and> length (queue_image S q) \<le> got' \<and> got' \<le> sent \<and>
     rx_wire s' = window (stream S q) got' sent \<and> (\<forall>m. res \<noteq> Inl (Assert_failed m))"
proof -
  let ?st = "stream S q" and ?len = "length (queue_image S q)"
  obtain m where m: "qc_queue (rx s) = Some m" "length m = ?len" "take ?len m = take ?len (queue_image S q)"
    using fill by (auto simp: rx_filling_def)
  then have m': "m = queue_image S q" by simp
  obtain res1 w1 where rd: "sock_read r 1 (rx_wire s) = (res1, w1)" by (cases "sock_read r 1 (rx_wire s)")
  from wire rd show ?thesis
  proof (cases rule: sock_read_window)
    case (stuck e)
    then have "res = Inl Would_block" "s' = s" using run rd by (auto simp: rx_finish_def)
    with rx_filling_inv [OF fill] wire show ?thesis by (intro exI [of _ ?len]) simp
  next
    case (some bs)
    show ?thesis
    proof (cases "bs = []")
      case True
      then have "res = Inl Would_block" "s' = s" using run rd some(1,5) wire(1) by (auto simp: rx_finish_def)
      with rx_filling_inv [OF fill] wire show ?thesis by (intro exI [of _ ?len]) simp
    next
      case False
      with some(3) have one: "length bs = 1" by (cases bs) auto
      with some(2) have bs: "bs = [59]" by (simp add: stream_def)
      have s': "res = Inr 1" "s' = s\<lparr>rx_wire := w1, rx := (rx s)\<lparr>qc_queue := Some m', qc_done := True\<rparr>\<rparr>"
        using run rd some(1) bs m(1) sw by (auto simp: rx_finish_def m')
      then have "rx_inv S q m' s' (?len + 1)" by (simp add: rx_inv_def stream_def)
      with s' some(4,5) one show ?thesis by (intro exI [of _ "?len + 1"]) simp
    qed
  qed
qed

lemma rx_data_inv:
  assumes lay: "layout_ok junk R q" and sw: "swizzle_mem R (queue_image S q) = Inr m'"
    and fill: "rx_filling S q s got" and bread: "got = length (queue_image S q) \<Longrightarrow> bread = 0"
    and wire: "rx_wire s = window (stream S q) got sent" "got \<le> sent" "sent \<le> length (stream S q)"
    and run: "rx_data_phase R r2 r3 bread s = (res, s')"
  shows "\<exists>got'. rx_inv S q m' s' got' \<and> got \<le> got' \<and> got' \<le> sent \<and>
     rx_wire s' = window (stream S q) got' sent \<and> (\<forall>m. res \<noteq> Inl (Assert_failed m))"
proof -
  let ?st = "stream S q" and ?len = "length (queue_image S q)"
  obtain m where m: "qc_queue (rx s) = Some m" "length m = ?len" "take got m = take got (queue_image S q)"
    and f: "\<not> qc_done (rx s)" "qc_pos (rx s) = int got" "4 \<le> got" "got \<le> ?len" "qc_size (rx s) = word_of_int (q_size q)"
    using fill by (auto simp: rx_filling_def)
  have sz: "sint (qc_size (rx s)) = int ?len" using f(5) layout_size(1,3) [OF lay] by simp
  show ?thesis
  proof (cases "got = ?len")
    case True
    then have "rx_data_phase R r2 r3 bread s = rx_finish R r3 s"
      using bread f sz by (simp add: rx_data_phase_def bind_prog_def rx_read_data_def Let_def rx_advance_def)
    with run True rx_finish_inv [OF lay sw, of s sent r3 res s'] fill wire show ?thesis by auto
  next
    case False
    with f have lt: "got < ?len" by simp
    obtain res1 w1 where rd: "sock_read r2 (?len - got) (rx_wire s) = (res1, w1)"
      by (cases "sock_read r2 (?len - got) (rx_wire s)")
    have step: "rx_read_data r2 bread s = (case (res1, w1) of
        (Inl e, w) \<Rightarrow> (Inr (Inl e), s\<lparr>rx_wire := w\<rparr>)
      | (Inr bs, w) \<Rightarrow> (Inr (Inr (int (length bs))), s\<lparr>rx := (rx s)\<lparr>qc_queue := Some (mem_write got bs m)\<rparr>, rx_wire := w\<rparr>))"
      using lt f(2) sz m(1) rd by (simp add: rx_read_data_def Let_def nat_diff_distrib split: sum.split)
    from wire rd show ?thesis
    proof (cases rule: sock_read_window)
      case (stuck e)
      then have "s' = s" "\<forall>m. res \<noteq> Inl (Assert_failed m)" using run step
        by (auto simp: rx_data_phase_def bind_prog_def)
      with rx_filling_inv [OF fill] wire show ?thesis by (intro exI [of _ got]) simp
    next
      case (some bs)
      let ?n = "length bs"
      let ?s = "s\<lparr>rx_wire := w1, rx := (rx s)\<lparr>qc_queue := Some (mem_write got bs m), qc_pos := int (got + ?n)\<rparr>\<rparr>"
      have n: "got + ?n \<le> ?len" using some(3) lt by simp
      have "bs = take ?n (drop got (queue_image S q))"
        using some(2) n by (simp add: stream_def)
      then have "take (got + ?n) (mem_write got bs m) = take (got + ?n) (queue_image S q)"
        using m n by (intro take_mem_write) auto
      then have fill': "rx_filling S q ?s (got + ?n)"
        using f m n by (simp add: rx_filling_def)
      have run': "(if got + ?n < ?len then (Inr (int ?n), ?s) else rx_finish R r3 ?s) = (res, s')"
        using run step some(1) f(2,5) sz
        by (auto simp: rx_data_phase_def bind_prog_def rx_advance_def split: if_splits)
      show ?thesis
      proof (cases "got + ?n < ?len")
        case True
        then have "s' = ?s" "res = Inr (int ?n)" using run' by simp_all
        with rx_filling_inv [OF fill'] some(4,5) show ?thesis by (intro exI [of _ "got + ?n"]) simp
      next
        case False
        with n have e: "got + ?n = ?len" by simp
        have "\<exists>got'. rx_inv S q m' s' got' \<and> ?len \<le> got' \<and> got' \<le> sent \<and>
            rx_wire s' = window ?st got' sent \<and> (\<forall>m. res \<noteq> Inl (Assert_failed m))"
        proof (rule rx_finish_inv [OF lay sw, of ?s sent r3])
          show "rx_filling S q ?s ?len" using fill' by (simp only: e)
          show "rx_wire ?s = window ?st ?len sent" using some(5) by (simp add: e)
          show "?len \<le> sent" using some(4) by (simp only: e)
          show "rx_finish R r3 ?s = (res, s')" using run' False by simp
        qed (rule wire(3))
        then obtain got' where g: "rx_inv S q m' s' got'" "?len \<le> got'" "got' \<le> sent"
          "rx_wire s' = window ?st got' sent" "\<forall>m. res \<noteq> Inl (Assert_failed m)" by blast
        from g(2) f(4) have "got \<le> got'" by linarith
        with g show ?thesis by blast
      qed
    qed
  qed
qed

lemma rx_alloc_fresh:
  assumes lay: "layout_ok junk R q"
    and s: "\<not> qc_done (rx s)" "qc_pos (rx s) = 4" "qc_size (rx s) = word_of_int (q_size q)" "qc_queue (rx s) = None"
  obtains s1 where "rx_alloc junk s = (Inr (), s1)" "rx_filling S q s1 4" "rx_wire s1 = rx_wire s"
proof -
  let ?m = "mem_write 0 (le32_bytes (qc_size (rx s))) (junk (q_size q))"
  have sz: "sint (qc_size (rx s)) = q_size q" using s(3) layout_size(1) [OF lay] by simp
  have len: "length (junk (q_size q)) = length (queue_image S q)" "4 < length (queue_image S q)"
    using layout_size(2,5) [OF lay] by auto
  have "take 4 ?m = take 4 (queue_image S q)"
    using take_mem_write [of 0 "junk (q_size q)" "queue_image S q" "le32_bytes (qc_size (rx s))"] len layout_size(4) [OF lay] s(3)
    by simp
  then have "rx_filling S q (s\<lparr>rx := (rx s)\<lparr>qc_queue := Some ?m\<rparr>\<rparr>) 4"
    using s len by (simp add: rx_filling_def)
  moreover have "rx_alloc junk s = (Inr (), s\<lparr>rx := (rx s)\<lparr>qc_queue := Some ?m\<rparr>\<rparr>)"
    using s(4) sz layout_size(6,7) [OF lay] by (simp add: rx_alloc_def Let_def)
  ultimately show thesis by (intro that [of "s\<lparr>rx := (rx s)\<lparr>qc_queue := Some ?m\<rparr>\<rparr>"]) simp_all
qed

lemma rx_alloc_filling:
  assumes lay: "layout_ok junk R q" and fill: "rx_filling S q s got"
  obtains s1 where "rx_alloc junk s = (Inr (), s1)" "rx_filling S q s1 got" "rx_wire s1 = rx_wire s"
proof -
  obtain m where m: "qc_queue (rx s) = Some m" "length m = length (queue_image S q)" "take got m = take got (queue_image S q)"
    and f: "4 \<le> got" "got \<le> length (queue_image S q)" "qc_size (rx s) = word_of_int (q_size q)"
    using fill by (auto simp: rx_filling_def)
  have t4: "take 4 m = le32_bytes (qc_size (rx s))"
  proof -
    have "take 4 m = take 4 (take got m)" using f(1) by (simp add: min_absorb1)
    also have "\<dots> = take 4 (queue_image S q)" unfolding m(3) using f(1) by (simp add: min_absorb1)
    finally show ?thesis using layout_size(4) [OF lay] f(3) by simp
  qed
  have "mem_write 0 (le32_bytes (qc_size (rx s))) m = m"
  proof (rule nth_equalityI)
    fix i assume "i < length (mem_write 0 (le32_bytes (qc_size (rx s))) m)"
    then show "mem_write 0 (le32_bytes (qc_size (rx s))) m ! i = m ! i"
      unfolding t4 [symmetric] using m(2) f(1,2) by (simp add: nth_mem_write)
  qed simp
  moreover have "le32_of_bytes (mem_read 0 4 m) = qc_size (rx s)"
    by (rule le32_roundtrip_take) (simp add: mem_read_def t4)
  ultimately have "rx_alloc junk s = (Inr (), s\<lparr>rx := (rx s)\<lparr>qc_queue := Some m\<rparr>\<rparr>)"
    using m(1) by (simp add: rx_alloc_def Let_def)
  then show thesis using fill m(1) by (intro that) (auto simp: rx_filling_def)
qed

lemma le32_bytes_inj: "le32_bytes v = le32_bytes w \<Longrightarrow> v = w"
  by (metis append_Nil2 le32_roundtrip)

lemma recv_step_inv:
  assumes lay: "layout_ok junk R q" and sw: "swizzle_mem R (queue_image S q) = Inr m'"
    and inv: "rx_inv S q m' s got" "\<not> qc_done (rx s)"
    and wire: "rx_wire s = window (stream S q) got sent" "got \<le> sent" "sent \<le> length (stream S q)"
    and run: "receive_queue_nb junk R r1 r2 r3 s = (res, s')"
  shows "\<exists>got'. rx_inv S q m' s' got' \<and> got \<le> got' \<and> got' \<le> sent \<and>
     rx_wire s' = window (stream S q) got' sent \<and> (\<forall>m. res \<noteq> Inl (Assert_failed m))"
proof (cases "4 \<le> got")
  case True
  let ?len = "length (queue_image S q)"
  have fill: "rx_filling S q s got" by (rule rx_inv_filling [OF inv True])
  then have "qc_pos (rx s) = int got" by (simp add: rx_filling_def)
  then have "receive_queue_nb junk R r1 r2 r3 s =
      bind_prog (rx_alloc junk) (\<lambda>_. rx_data_phase R r2 r3 0) s"
    using True by (simp add: receive_queue_nb_def bind_prog_def rx_read_size_def rx_advance_def Let_def)
  moreover obtain s1 where s1: "rx_alloc junk s = (Inr (), s1)" "rx_filling S q s1 got" "rx_wire s1 = rx_wire s"
    by (rule rx_alloc_filling [OF lay fill])
  ultimately have "rx_data_phase R r2 r3 0 s1 = (res, s')" using run by (simp add: bind_prog_def)
  from rx_data_inv [OF lay sw s1(2) _ _ wire(2,3) this] s1(3) wire(1) show ?thesis by simp
next
  case False
  let ?st = "stream S q" and ?img = "queue_image S q"
  have f: "qc_pos (rx s) = int got" "qc_queue (rx s) = None" "take got (le32_bytes (qc_size (rx s))) = take got ?img"
    using inv False by (simp_all add: rx_inv_def)
  note len = layout_size(2) [OF lay, of S]
  obtain res1 w1 where rd: "sock_read r1 (4 - got) (rx_wire s) = (res1, w1)" by (cases "sock_read r1 (4 - got) (rx_wire s)")
  have step: "rx_read_size r1 s = (case (res1, w1) of
      (Inl e, w) \<Rightarrow> (Inr (Inl e), s\<lparr>rx_wire := w\<rparr>)
    | (Inr bs, w) \<Rightarrow> (Inr (Inr (int (length bs))), s\<lparr>rx := (rx s)\<lparr>qc_size :=
        le32_of_bytes (mem_write got bs (le32_bytes (qc_size (rx s))))\<rparr>, rx_wire := w\<rparr>))"
    using False f(1) rd by (simp add: rx_read_size_def Let_def nat_diff_distrib split: sum.split)
  from wire rd show ?thesis
  proof (cases rule: sock_read_window)
    case (stuck e)
    then have "s' = s" "\<forall>m. res \<noteq> Inl (Assert_failed m)"
      using run step by (auto simp: receive_queue_nb_def bind_prog_def)
    with inv wire show ?thesis by (intro exI [of _ got]) simp
  next
    case (some bs)
    let ?n = "length bs" and ?b = "mem_write got bs (le32_bytes (qc_size (rx s)))"
    let ?s = "s\<lparr>rx_wire := w1, rx := (rx s)\<lparr>qc_size := le32_of_bytes ?b, qc_pos := int (got + ?n)\<rparr>\<rparr>"
    have n: "got + ?n \<le> 4" using some(3) False by auto
    have "bs = take ?n (drop got ?img)" using some(2) n len by (simp add: stream_def)
    then have pre: "take (got + ?n) ?b = take (got + ?n) ?img"
      using f(3) n len by (intro take_mem_write) auto
    have sz: "le32_bytes (qc_size (rx ?s)) = ?b" by (simp add: le32_bytes_of)
    have run': "(if got + ?n < 4 then (Inr (int ?n), ?s)
        else bind_prog (rx_alloc junk) (\<lambda>_. rx_data_phase R r2 r3 (int ?n)) ?s) = (res, s')"
      using run step some(1) f(1)
      by (auto simp: receive_queue_nb_def bind_prog_def rx_advance_def split: if_splits)
    show ?thesis
    proof (cases "got + ?n < 4")
      case True
      then have "s' = ?s" "res = Inr (int ?n)" using run' by simp_all
      moreover have "rx_inv S q m' ?s (got + ?n)"
        using True inv(2) f(2) pre sz len by (simp add: rx_inv_def)
      ultimately show ?thesis using some(4,5) by (intro exI [of _ "got + ?n"]) simp
    next
      case False
      then have four: "got + ?n = 4" using n by simp
      have "le32_bytes (qc_size (rx ?s)) = le32_bytes (word_of_int (q_size q))"
        unfolding sz using pre layout_size(4) [OF lay] by (simp add: four)
      then have "qc_size (rx ?s) = word_of_int (q_size q)" by (rule le32_bytes_inj)
      moreover have "\<not> qc_done (rx ?s)" "qc_pos (rx ?s) = 4" "qc_queue (rx ?s) = None" using inv(2) f(2) four by simp_all
      ultimately obtain s1 where s1: "rx_alloc junk ?s = (Inr (), s1)" "rx_filling S q s1 4" "rx_wire s1 = rx_wire ?s"
        using rx_alloc_fresh [OF lay, of ?s] by blast
      have big: "4 = length ?img \<Longrightarrow> int ?n = 0" using layout_size(2) [OF lay, of S] by simp
      have dp: "rx_data_phase R r2 r3 (int ?n) s1 = (res, s')" using run' False s1(1) by (simp add: bind_prog_def)
      have w4: "rx_wire s1 = window ?st 4 sent" "4 \<le> sent" using s1(3) some(4,5) four by simp_all
      have "got \<le> 4" using four by simp
      obtain got' where "rx_inv S q m' s' got'" "4 \<le> got'" "got' \<le> sent"
        "rx_wire s' = window ?st got' sent" "\<forall>m. res \<noteq> Inl (Assert_failed m)"
        by (rule exE [OF rx_data_inv [OF lay sw s1(2) _ w4 wire(3) dp]]) (erule big, elim conjE, rule that)
      with \<open>got \<le> 4\<close> show ?thesis by (intro exI [of _ got']) simp
    qed
  qed
qed

lemma comm_step_inv:
  assumes lay: "layout_ok junk R q" and sw: "swizzle_mem R (queue_image S q) = Inr m'"
    and step: "comm_step S junk R c c'" and inv: "comm_inv S q m' c"
  shows "comm_inv S q m' c'"
proof -
  let ?st = "stream S q"
  obtain sent got where i: "\<not> crashed c" "tx_inv S q (tx c) sent" "rx_inv S q m' (rcv c) got" "got \<le> sent"
    "rx_wire (rcv c) = window ?st got sent"
    using inv by (auto simp: comm_inv_def)
  have le: "sent \<le> length ?st" using i(2) by (auto simp: tx_inv_def stream_def split: if_splits)
  from step show ?thesis
  proof cases
    case (send r res qc1 w)
    obtain sent' where "tx_inv S q qc1 sent'" "sent \<le> sent'" "w = window ?st got sent'"
      by (rule send_step_inv [OF lay i(2) send(3) i(4,5) send(4)])
    moreover have "rx_inv S q m' ((rcv c)\<lparr>rx_wire := w\<rparr>) got" using i(3) by (simp add: rx_inv_def)
    ultimately show ?thesis using send i(1,4) by (auto simp: comm_inv_def intro: order_trans)
  next
    case (recv r1 r2 r3 res s1)
    obtain got' where "rx_inv S q m' s1 got'" "got' \<le> sent" "rx_wire s1 = window ?st got' sent"
      "\<forall>m. res \<noteq> Inl (Assert_failed m)"
      by (rule exE [OF recv_step_inv [OF lay sw i(3) recv(3) i(5,4) le recv(4)]]) (elim conjE, rule that)
    then show ?thesis using recv i(2) by (auto simp: comm_inv_def)
  qed
qed

lemma comm_init_inv: "comm_inv S q m' (comm_init q)"
proof -
  have "tx_inv S q (tx (comm_init q)) 0" "rx_inv S q m' (rcv (comm_init q)) 0"
    by (simp_all add: tx_inv_def rx_inv_def comm_init_def newQueueComm_def)
  then show ?thesis by (auto simp: comm_inv_def comm_init_def)
qed

lemma comm_reach_inv:
  assumes "comm_reach S junk R (comm_init q) c" "layout_ok junk R q" "swizzle_mem R (queue_image S q) = Inr m'"
  shows "comm_inv S q m' c"
  using assms(1) by induction (auto intro: comm_init_inv comm_step_inv [OF assms(2,3)])

section \<open>A transfer from end to end\<close>

lemma send_all:
  assumes lay: "layout_ok junk R q"
  shows "send_queue_nb S (IO_bytes (length (queue_image S q))) ((newQueueComm (Some q))\<lparr>qc_done := False\<rparr>, []) =
    (Inr (q_size q), ((newQueueComm (Some q))\<lparr>qc_done := False, qc_pos := q_size q\<rparr>, queue_image S q))"
proof -
  have "length (queue_image S q) = nat (q_size q)" "0 < q_size q"
    using layout_size(3) [OF lay, of S] layout_size(6) [OF lay] by simp_all
  then show ?thesis using layout_size(1) [OF lay]
    by (auto simp: send_queue_nb_def newQueueComm_def sock_write_def mem_read_def Let_def)
qed

lemma send_check_byte:
  assumes lay: "layout_ok junk R q"
  shows "\<exists>res qc'. send_queue_nb S (IO_bytes 1) ((newQueueComm (Some q))\<lparr>qc_done := False, qc_pos := q_size q\<rparr>, w) =
    (res, (qc', w @ [59]))"
  using layout_size(1) [OF lay]
  by (auto simp: send_queue_nb_def newQueueComm_def sock_write_def Let_def split: prod.split)

lemma mem_write_all: "length bs = length m \<Longrightarrow> mem_write 0 bs m = bs"
  using take_mem_write [of 0 m bs bs] by simp

lemma receive_all:
  assumes lay: "layout_ok junk R q" and sw: "swizzle_mem R (queue_image S q) = Inr m'"
    and s: "s = \<lparr>rx = \<lparr>qc_queue = None, qc_pos = 0, qc_size = 0, qc_done = False\<rparr>, rx_wire = stream S q\<rparr>"
  shows "\<exists>res s'. receive_queue_nb junk R (IO_bytes 4) (IO_bytes (length (queue_image S q))) (IO_bytes 1) s = (res, s') \<and>
     qc_done (rx s') \<and> qc_queue (rx s') = Some m' \<and> (\<forall>m. res \<noteq> Inl (Assert_failed m))"
proof -
  let ?img = "queue_image S q" and ?len = "length (queue_image S q)"
  note len = layout_size(2) [OF lay, of S]
  have t4: "take 4 (stream S q) = le32_bytes (word_of_int (q_size q))"
    using layout_size(4) [OF lay, of S] len by (simp add: stream_def)
  let ?s1 = "s\<lparr>rx_wire := drop 4 (stream S q), rx := \<lparr>qc_queue = None, qc_pos = 4, qc_size = word_of_int (q_size q), qc_done = False\<rparr>\<rparr>"
  have rd: "rx_read_size (IO_bytes 4) s = (Inr (Inr 4), ?s1\<lparr>rx := (rx ?s1)\<lparr>qc_pos := 0\<rparr>\<rparr>)"
    using len t4 by (simp add: rx_read_size_def s sock_read_def stream_def mem_write_all le32_roundtrip [of _ "[]", simplified])
  obtain s1 where s1: "rx_alloc junk ?s1 = (Inr (), s1)" "rx_filling S q s1 4" "rx_wire s1 = rx_wire ?s1"
    by (rule rx_alloc_fresh [OF lay, of ?s1]) (simp_all add: s)
  obtain m where m: "qc_queue (rx s1) = Some m" "length m = ?len" "take 4 m = take 4 ?img"
    and f: "qc_pos (rx s1) = 4" "qc_size (rx s1) = word_of_int (q_size q)"
    using s1(2) by (auto simp: rx_filling_def)
  have sz: "sint (word_of_int (q_size q) :: 32 word) = int ?len" using layout_size(1,3) [OF lay] by simp
  have ne: "?img \<noteq> []" using len by auto
  have img: "mem_write 4 (drop 4 ?img) m = ?img"
    using take_mem_write [OF m(3), of "drop 4 ?img"] m(2) len by simp
  let ?s2 = "s1\<lparr>rx := (rx s1)\<lparr>qc_queue := Some ?img\<rparr>, rx_wire := [59]\<rparr>"
  have rd2: "rx_read_data (IO_bytes ?len) 4 s1 = (Inr (Inr (int ?len - 4)), ?s2)"
    using len ne m(1) f sz s1(3) img by (simp add: rx_read_data_def sock_read_def stream_def Let_def nat_diff_distrib)
  let ?s3 = "rx_advance (int ?len - 4) ?s2"
  have fin: "rx_finish R (IO_bytes 1) ?s3 = (Inr 1, ?s3\<lparr>rx_wire := [], rx := (rx ?s3)\<lparr>qc_queue := Some m', qc_done := True\<rparr>\<rparr>)"
    using sw by (simp add: rx_finish_def sock_read_def rx_advance_def)
  have "rx_data_phase R (IO_bytes ?len) (IO_bytes 1) 4 s1 = rx_finish R (IO_bytes 1) ?s3"
    using f sz by (simp add: rx_data_phase_def bind_prog_def rd2 modify_prog_def rx_advance_def)
  moreover have "receive_queue_nb junk R (IO_bytes 4) (IO_bytes ?len) (IO_bytes 1) s =
      rx_data_phase R (IO_bytes ?len) (IO_bytes 1) 4 s1"
    using s1(1) by (simp add: receive_queue_nb_def bind_prog_def rd modify_prog_def rx_advance_def)
  ultimately show ?thesis using fin by simp
qed

lemma transfer_run:
  assumes lay: "layout_ok junk R q" and sw: "swizzle_mem R (queue_image S q) = Inr m'"
  obtains c where "comm_reach S junk R (comm_init q) c" "qc_done (rx (rcv c))"
proof -
  let ?R = "comm_reach S junk R (comm_init q)"
  let ?c1 = "(comm_init q)\<lparr>tx := (newQueueComm (Some q))\<lparr>qc_done := False, qc_pos := q_size q\<rparr>,
      rcv := (rcv (comm_init q))\<lparr>rx_wire := queue_image S q\<rparr>\<rparr>"
  have tx0: "tx (comm_init q) = (newQueueComm (Some q))\<lparr>qc_done := False\<rparr>" "rx_wire (rcv (comm_init q)) = []"
    "\<not> crashed (comm_init q)" by (simp_all add: comm_init_def)
  have "comm_step S junk R (comm_init q) ?c1"
    by (rule comm_step.send [where r = "IO_bytes (length (queue_image S q))" and res = "Inr (q_size q)"])
      (simp_all add: tx0 send_all [OF lay])
  then have r1: "?R ?c1" by (rule comm_reach.step [OF comm_reach.start])
  obtain res qc' where sd: "send_queue_nb S (IO_bytes 1)
      ((newQueueComm (Some q))\<lparr>qc_done := False, qc_pos := q_size q\<rparr>, queue_image S q) = (res, (qc', queue_image S q @ [59]))"
    using send_check_byte [OF lay] by blast
  let ?c2 = "?c1\<lparr>tx := qc', rcv := (rcv ?c1)\<lparr>rx_wire := stream S q\<rparr>\<rparr>"
  have "comm_step S junk R ?c1 ?c2"
    by (rule comm_step.send [where r = "IO_bytes 1" and res = res]) (simp_all add: tx0 sd [simplified] stream_def)
  then have r2: "?R ?c2" by (rule comm_reach.step [OF r1])
  have "rcv ?c2 = \<lparr>rx = \<lparr>qc_queue = None, qc_pos = 0, qc_size = 0, qc_done = False\<rparr>, rx_wire = stream S q\<rparr>"
    by (simp add: comm_init_def)
  from receive_all [OF lay sw this] obtain res' s' where rc: "receive_queue_nb junk R (IO_bytes 4)
      (IO_bytes (length (queue_image S q))) (IO_bytes 1) (rcv ?c2) = (res', s')" "qc_done (rx s')" by blast
  have "comm_step S junk R ?c2 (?c2\<lparr>rcv := s', crashed := (\<exists>m. res' = Inl (Assert_failed m))\<rparr>)"
    by (rule comm_step.recv [OF _ _ rc(1)]) (simp_all add: comm_init_def)
  from comm_reach.step [OF r2 this] show thesis by (rule that) (simp add: rc(2) comm_init_def)
qed

text \<open>A queue that can be relocated arrives as its image at the receiver's address.\<close>

lemma swizzle_received:
  assumes "layout_ok junk R q" "queue_rep q ds" "0 < q_end q" "relocatable q ds"
  shows "swizzle_mem R (queue_image S q) = Inr (queue_image (received_on S R) (relocated q))"
proof -
  have "fits_memory R q" by (rule rep_fits [OF assms(2)]) (use assms(1) in \<open>simp add: layout_ok_def\<close>)
  then show ?thesis using swizzle_mem_image [of R q S] swizzled_cases(1) [OF assms(2,3)] assms(4) by simp
qed

text \<open>
  C25. However the two non-blocking ends of a socket interleave, and however the socket splits the
  reads and writes, makes them fail for a while or reports the end of the stream, the receiver of a queue never fails an
  assertion, and when it is done its memory holds, at its own address, with its own lock and all pointers adapted, the image of a queue with
  exactly the elements that were sent. This is for the queues that pass the integrity check of \<^verbatim>\<open>swizzle_queue_ptrs\<close>, \<open>relocatable\<close>;
  among them are all whose elements do not wrap around, if \<^verbatim>\<open>head\<close> is not at the end of the buffer. The elements are kept if \<^verbatim>\<open>head\<close> is in
  front of \<^verbatim>\<open>wall\<close> or \<^verbatim>\<open>wall\<close> is at the end of the buffer.
\<close>

theorem transfer_safe:
  assumes "layout_ok junk R q" "queue_rep q ds" "0 < q_end q" "relocatable q ds" "comm_reach S junk R (comm_init q) c"
  shows "\<not> crashed c \<and> (qc_done (rx (rcv c)) \<longrightarrow> qc_queue (rx (rcv c)) = Some (queue_image (received_on S R) (relocated q)) \<and>
    (head q < wall q \<or> wall q = q_end q \<longrightarrow> queue_rep (relocated q) ds))"
proof -
  have "comm_inv S q (queue_image (received_on S R) (relocated q)) c" by (rule comm_reach_inv [OF assms(5,1) swizzle_received [OF assms(1-4)]])
  then show ?thesis using swizzled_cases(2) [OF assms(2-4)] by (auto simp: comm_inv_def rx_inv_def)
qed

definition junk0 :: "int \<Rightarrow> byte list" where
  "junk0 n = replicate (nat n) 0"

lemma linear64_layout: "layout_ok junk0 machine_R linear64" "relocatable linear64 [[7]]" "0 < q_end linear64" "head linear64 < wall linear64"
  by (simp_all add: layout_ok_def relocatable_def linear64_def init_queue_def junk0_def machine_R_def queue_consts)

theorem transfer_safe_witness:
  "\<exists>c. comm_reach machine_S junk0 machine_R (comm_init linear64) c \<and> qc_queue (rx (rcv c)) = Some (queue_image (received_on machine_S machine_R) (relocated linear64)) \<and>
     queue_rep (relocated linear64) [[7]]"
proof -
  note L = linear64_layout(1) linear64_rep(1) linear64_layout(3,2)
  obtain c where "comm_reach machine_S junk0 machine_R (comm_init linear64) c" "qc_done (rx (rcv c))"
    by (rule transfer_run [OF linear64_layout(1) swizzle_received [OF L]])
  with transfer_safe [OF L this(1)] show ?thesis using linear64_layout(4) by blast
qed

text \<open>
  C26. A transfer of a queue that passes the integrity check can always be completed: from the start some interleaving leads to a receiver that
  is done and whose memory is the image, at its own address, of a queue with the elements that were sent.
\<close>

theorem transfer_completes:
  assumes "layout_ok junk R q" "queue_rep q ds" "0 < q_end q" "relocatable q ds"
  shows "\<exists>c. comm_reach S junk R (comm_init q) c \<and> qc_done (rx (rcv c)) \<and> qc_queue (rx (rcv c)) = Some (queue_image (received_on S R) (relocated q)) \<and>
    (head q < wall q \<or> wall q = q_end q \<longrightarrow> queue_rep (relocated q) ds)"
proof -
  note sw = swizzle_received [OF assms, of S]
  obtain c where c: "comm_reach S junk R (comm_init q) c" "qc_done (rx (rcv c))" by (rule transfer_run [OF assms(1) sw])
  have "comm_inv S q (queue_image (received_on S R) (relocated q)) c" by (rule comm_reach_inv [OF c(1) assms(1) sw])
  then have "qc_queue (rx (rcv c)) = Some (queue_image (received_on S R) (relocated q))" using c(2) by (auto simp: comm_inv_def rx_inv_def)
  then show ?thesis using c swizzled_cases(2) [OF assms(2-4)] by blast
qed

theorem transfer_completes_witness:
  "\<exists>c. comm_reach machine_S junk0 machine_R (comm_init linear64) c \<and> qc_done (rx (rcv c)) \<and>
     qc_queue (rx (rcv c)) = Some (queue_image (received_on machine_S machine_R) (relocated linear64)) \<and> queue_rep (relocated linear64) [[7]]"
  using transfer_completes [OF linear64_layout(1) linear64_rep(1) linear64_layout(3,2), of machine_S] linear64_layout(4) by blast

end
