(* ===== verification/Ingress_Queues.thy ===== *)
theory Ingress_Queues
  imports Result_Dest
begin

text \<open>
  The table of ingress queues between wrappers and scans (\<^verbatim>\<open>src/src/backend/rqueue/ingresq.c\<close>) and
  the shared-memory plumbing that creates and frees it together with the result queues
  (\<^verbatim>\<open>InitializeTCQPlumbing\<close>, \<^verbatim>\<open>CleanupTCQPlumbing\<close> in \<^verbatim>\<open>src/src/backend/telegraphcq/telegraphcq.c\<close>).
  A slot of the table has a queue, a name, a tuple descriptor and a reference count. The lemmas
  read the table as a count of references per name.
\<close>

section \<open>The table\<close>

definition NUM_INGRES_QUEUES :: nat where "NUM_INGRES_QUEUES = 64"

definition DEF_INGRES_QSIZE :: int where "DEF_INGRES_QSIZE = 1024 * 100"

text \<open>\<open>None\<close> is a \<^verbatim>\<open>NULL\<close> pointer; \<open>qp_locked\<close> is \<^verbatim>\<open>p_qp_spinlock\<close>. A tuple descriptor is opaque.\<close>

record 'd ingres_table =
  qp_locked :: bool
  shmIngresQueues :: "Queue option list"
  shmIngresQueuesInit :: "string option list"
  shmIngresQueuesTDesc :: "'d option list"
  shmIngresQueuesRefCount :: "int list"

definition qp_acquire :: "('d ingres_table, unit) prog" where
  "qp_acquire t = (if qp_locked t then (Inl Would_block, t) else (Inr (), t\<lparr>qp_locked := True\<rparr>))"

definition qp_release :: "('d ingres_table, unit) prog" where
  "qp_release = modify_prog (\<lambda>t. t\<lparr>qp_locked := False\<rparr>)"

definition locked_read :: "(('d ingres_table) \<Rightarrow> 'a outcome) \<Rightarrow> ('d ingres_table, 'a) prog" where
  "locked_read f =
     bind_prog qp_acquire (\<lambda>_.
     bind_prog (\<lambda>t. (f t, t)) (\<lambda>res.
     bind_prog qp_release (\<lambda>_. return_prog res)))"

definition slot :: "'a list \<Rightarrow> int \<Rightarrow> 'a outcome" where
  "slot xs i = (if 0 \<le> i \<and> i < int (length xs) then Inr (xs ! nat i) else Inl (Out_of_bounds ''ingres queue index''))"

definition getIngresQ :: "int \<Rightarrow> ('d ingres_table, Queue option) prog" where
  "getIngresQ idx = locked_read (\<lambda>t. slot (shmIngresQueues t) idx)"

fun byName_loop :: "string \<Rightarrow> nat list \<Rightarrow> 'd ingres_table \<Rightarrow> Queue option outcome" where
  "byName_loop name [] t = Inr None"
| "byName_loop name (i # is) t =
     (case shmIngresQueuesInit t ! i of
        None \<Rightarrow> Inl (Out_of_bounds ''strcmp of a NULL name'')
      | Some n \<Rightarrow>
          if n = name \<and> shmIngresQueues t ! i \<noteq> None then Inr (shmIngresQueues t ! i)
          else byName_loop name is t)"

definition getIngresQ_byName :: "string \<Rightarrow> ('d ingres_table, Queue option) prog" where
  "getIngresQ_byName name = locked_read (byName_loop name [0..<NUM_INGRES_QUEUES])"

definition getTupleDesc :: "int \<Rightarrow> ('d ingres_table, 'd option) prog" where
  "getTupleDesc idx = locked_read (\<lambda>t. slot (shmIngresQueuesTDesc t) idx)"

definition setTupleDesc :: "int \<Rightarrow> 'd option \<Rightarrow> ('d ingres_table, unit) prog" where
  "setTupleDesc idx tdesc =
     bind_prog qp_acquire (\<lambda>_.
     bind_prog (\<lambda>t. case slot (shmIngresQueuesTDesc t) idx of
                      Inl e \<Rightarrow> (Inl e, t)
                    | Inr _ \<Rightarrow> (Inr (), t\<lparr>shmIngresQueuesTDesc := (shmIngresQueuesTDesc t)[nat idx := tdesc]\<rparr>)) (\<lambda>_.
     qp_release))"

definition getIngresQueueRefCount :: "int \<Rightarrow> ('d ingres_table, int) prog" where
  "getIngresQueueRefCount qidx = locked_read (\<lambda>t. slot (shmIngresQueuesRefCount t) qidx)"

text \<open>The count is far from the limits of an \<^verbatim>\<open>int\<close> and is kept as an unbounded integer.\<close>

definition adjustRefCount :: "nat \<Rightarrow> int \<Rightarrow> ('d ingres_table, int) prog" where
  "adjustRefCount qidx amt t =
     (let ret = shmIngresQueuesRefCount t ! qidx + amt
      in (Inr ret, t\<lparr>shmIngresQueuesRefCount := (shmIngresQueuesRefCount t)[qidx := ret]\<rparr>))"

section \<open>Allocation and release\<close>

fun alloc_ingres_loop :: "int \<Rightarrow> string \<Rightarrow> nat list \<Rightarrow> ('d ingres_table, int) prog" where
  "alloc_ingres_loop num name [] = return_prog (-1)"
| "alloc_ingres_loop num name (i # is) = (\<lambda>t.
     (case shmIngresQueuesInit t ! i of
        None \<Rightarrow>
          (case make_queue (Some make_lock_sl) num of
             Inl e \<Rightarrow> (Inl e, t)
           | Inr q \<Rightarrow>
               bind_prog (adjustRefCount i 1) (\<lambda>_ t.
                 if shmIngresQueuesRefCount t ! i = 1 then (Inr (int i), t)
                 else (Inl (Assert_failed ''(*shmIngresQueuesRefCount)[i] == 1''), t))
               (t\<lparr>shmIngresQueues := (shmIngresQueues t)[i := q],
                  shmIngresQueuesInit := (shmIngresQueuesInit t)[i := Some name]\<rparr>))
      | Some n \<Rightarrow>
          if n = name then bind_prog (adjustRefCount i 1) (\<lambda>_. return_prog (int i)) t
          else alloc_ingres_loop num name is t))"

definition allocIngresQ :: "int \<Rightarrow> string \<Rightarrow> ('d ingres_table, int) prog" where
  "allocIngresQ num0 name =
     (let num = (if num0 = 0 then DEF_INGRES_QSIZE else num0) in
      bind_prog qp_acquire (\<lambda>_.
      bind_prog (alloc_ingres_loop num name [0..<NUM_INGRES_QUEUES]) (\<lambda>res.
      bind_prog qp_release (\<lambda>_. return_prog res))))"

text \<open>The lock is released only when the slot was in use.\<close>

definition freeIngresQ :: "nat \<Rightarrow> ('d ingres_table, unit) prog" where
  "freeIngresQ idx =
     bind_prog qp_acquire (\<lambda>_ t.
       case slot (shmIngresQueuesInit t) (int idx) of
         Inl e \<Rightarrow> (Inl e, t)
       | Inr None \<Rightarrow> (Inr (), t)
       | Inr (Some _) \<Rightarrow>
           bind_prog (adjustRefCount idx (-1)) (\<lambda>n.
           bind_prog (\<lambda>t. if n = 0
                          then (case free_queue (shmIngresQueues t ! idx) of
                                  Inl e \<Rightarrow> (Inl e, t)
                                | Inr q \<Rightarrow> (Inr (), t\<lparr>shmIngresQueues := (shmIngresQueues t)[idx := q],
                                              shmIngresQueuesInit := (shmIngresQueuesInit t)[idx := None]\<rparr>))
                          else (Inr (), t)) (\<lambda>_.
           qp_release)) t)"

text \<open>\<^verbatim>\<open>heap_formtuple\<close> makes the tuple; the result of the \<^verbatim>\<open>enqueue\<close> is ignored.\<close>

definition IngresQInsertTuple :: "('desc \<Rightarrow> 'v \<Rightarrow> 'n \<Rightarrow> HeapTuple) \<Rightarrow> 'desc \<Rightarrow> 'v \<Rightarrow> 'n \<Rightarrow> (Queue, unit) prog" where
  "IngresQInsertTuple heap_formtuple tdesc values nulls =
     bind_prog (enqueue result_serializer (Result_heaptuple (heap_formtuple tdesc values nulls)) False) (\<lambda>_. return_prog ())"

section \<open>Counting references\<close>

definition table_ok :: "'d ingres_table \<Rightarrow> bool" where
  "table_ok t \<longleftrightarrow> length (shmIngresQueues t) = NUM_INGRES_QUEUES \<and> length (shmIngresQueuesInit t) = NUM_INGRES_QUEUES \<and>
     length (shmIngresQueuesRefCount t) = NUM_INGRES_QUEUES \<and> length (shmIngresQueuesTDesc t) = NUM_INGRES_QUEUES \<and>
     (\<forall>i < NUM_INGRES_QUEUES.
        (if shmIngresQueuesInit t ! i = None then shmIngresQueuesRefCount t ! i = 0 \<and> shmIngresQueues t ! i = None
         else 0 < shmIngresQueuesRefCount t ! i \<and> shmIngresQueues t ! i \<noteq> None))"

definition ref_total :: "'d ingres_table \<Rightarrow> string \<Rightarrow> int" where
  "ref_total t name = (\<Sum>i < NUM_INGRES_QUEUES. if shmIngresQueuesInit t ! i = Some name then shmIngresQueuesRefCount t ! i else 0)"

text \<open>A change of one slot changes the total by the change of that slot.\<close>

lemma ref_total_slot:
  assumes "i < NUM_INGRES_QUEUES"
    "\<And>j. j < NUM_INGRES_QUEUES \<Longrightarrow> j \<noteq> i \<Longrightarrow> shmIngresQueuesInit t' ! j = shmIngresQueuesInit t ! j \<and>
        shmIngresQueuesRefCount t' ! j = shmIngresQueuesRefCount t ! j"
  shows "ref_total t' name = ref_total t name
      + (if shmIngresQueuesInit t' ! i = Some name then shmIngresQueuesRefCount t' ! i else 0)
      - (if shmIngresQueuesInit t ! i = Some name then shmIngresQueuesRefCount t ! i else 0)"
proof -
  have "(\<Sum>j \<in> {..<NUM_INGRES_QUEUES} - {i}. if shmIngresQueuesInit t' ! j = Some name then shmIngresQueuesRefCount t' ! j else 0) =
      (\<Sum>j \<in> {..<NUM_INGRES_QUEUES} - {i}. if shmIngresQueuesInit t ! j = Some name then shmIngresQueuesRefCount t ! j else 0)"
    using assms(2) by (intro sum.cong) auto
  then show ?thesis
    using assms(1) by (simp add: ref_total_def sum.remove [where x = i])
qed

definition slot_for :: "'d ingres_table \<Rightarrow> string \<Rightarrow> nat list \<Rightarrow> nat option" where
  "slot_for t name is = find (\<lambda>i. shmIngresQueuesInit t ! i = None \<or> shmIngresQueuesInit t ! i = Some name) is"

lemma alloc_loop_run:
  assumes "make_queue (Some make_lock_sl) num = Inr (Some q)" "\<forall>i \<in> set is. i < NUM_INGRES_QUEUES" "table_ok t"
  shows "alloc_ingres_loop num name is t =
    (case slot_for t name is of
       None \<Rightarrow> (Inr (-1), t)
     | Some i \<Rightarrow> (Inr (int i),
         (if shmIngresQueuesInit t ! i = None
          then t\<lparr>shmIngresQueues := (shmIngresQueues t)[i := Some q],
                 shmIngresQueuesInit := (shmIngresQueuesInit t)[i := Some name]\<rparr> else t)
         \<lparr>shmIngresQueuesRefCount := (shmIngresQueuesRefCount t)[i := shmIngresQueuesRefCount t ! i + 1]\<rparr>))"
  using assms(2)
proof (induction "is")
  case (Cons i "is")
  have "shmIngresQueuesInit t ! i = None \<Longrightarrow> shmIngresQueuesRefCount t ! i = 0" "i < length (shmIngresQueuesRefCount t)"
    using assms(3) Cons.prems by (auto simp: table_ok_def)
  then show ?case
    using Cons by (auto simp: slot_for_def assms(1) adjustRefCount_def bind_prog_def Let_def split: option.split)
qed (simp add: slot_for_def)

definition queue_size_ok :: "int \<Rightarrow> bool" where
  "queue_size_ok n \<longleftrightarrow> n = 0 \<or> sizeof_Queue + QHDRSZ \<le> n \<and> n \<le> MaxAllocSize"

lemma ingres_make_queue:
  assumes "queue_size_ok n"
  obtains q where "make_queue (Some make_lock_sl) (if n = 0 then DEF_INGRES_QSIZE else n) = Inr (Some q)"
    "queue_ready result_serializer q []"
proof -
  let ?n = "if n = 0 then DEF_INGRES_QSIZE else n"
  have "sizeof_Queue + QHDRSZ \<le> ?n" "?n \<le> MaxAllocSize"
    using assms by (auto simp: queue_size_ok_def DEF_INGRES_QSIZE_def queue_consts)
  then show thesis
    by (rule make_queue_ready [where lck = "Some make_lock_sl" and qs = result_serializer])
      (auto simp: full_ok_def make_lock_sl_def intro: that)
qed

lemma slot_for_Some:
  assumes "slot_for t name [0..<NUM_INGRES_QUEUES] = Some i"
  shows "i < NUM_INGRES_QUEUES \<and> (shmIngresQueuesInit t ! i = None \<or> shmIngresQueuesInit t ! i = Some name)"
  using assms by (auto simp: slot_for_def find_Some_iff)

text \<open>
  C28. \<^verbatim>\<open>allocIngresQ\<close> on a free lock never fails. Either it returns -1, when every slot is taken by
  another name, and changes nothing; or it returns a slot that then has the given name, one more
  reference is counted for this name and none for any other, and a slot that was free has a new
  empty queue. The table stays consistent and the lock free.
\<close>

theorem allocIngresQ_counts:
  assumes "table_ok t" "\<not> qp_locked t" "queue_size_ok num"
  shows "\<exists>r t'. allocIngresQ num name t = (Inr r, t') \<and> table_ok t' \<and> \<not> qp_locked t' \<and>
     (if \<exists>i < NUM_INGRES_QUEUES. shmIngresQueuesInit t ! i = None \<or> shmIngresQueuesInit t ! i = Some name
      then 0 \<le> r \<and> r < int NUM_INGRES_QUEUES \<and> shmIngresQueuesInit t' ! nat r = Some name \<and>
        (\<forall>n. ref_total t' n = ref_total t n + (if n = name then 1 else 0)) \<and>
        (shmIngresQueuesInit t ! nat r = None \<longrightarrow>
           (\<exists>q. shmIngresQueues t' ! nat r = Some q \<and> queue_ready result_serializer q []))
      else r = -1 \<and> t' = t)"
proof -
  obtain q where q: "make_queue (Some make_lock_sl) (if num = 0 then DEF_INGRES_QSIZE else num) = Inr (Some q)"
    "queue_ready result_serializer q []" by (rule ingres_make_queue [OF assms(3)])
  let ?t = "t\<lparr>qp_locked := True\<rparr>"
  have ok: "table_ok ?t" using assms(1) by (simp add: table_ok_def)
  have same: "slot_for ?t name = slot_for t name" by (simp add: slot_for_def fun_eq_iff)
  note run = alloc_loop_run [OF q(1) _ ok, of "[0..<NUM_INGRES_QUEUES]" name, unfolded same]
  show ?thesis
  proof (cases "slot_for t name [0..<NUM_INGRES_QUEUES]")
    case None
    then have "\<not> (\<exists>i < NUM_INGRES_QUEUES. shmIngresQueuesInit t ! i = None \<or> shmIngresQueuesInit t ! i = Some name)"
      by (auto simp: slot_for_def find_None_iff)
    moreover have "allocIngresQ num name t = (Inr (-1), t)"
      using run None assms(2) by (simp add: allocIngresQ_def bind_prog_def qp_acquire_def qp_release_def)
    ultimately show ?thesis using assms(1,2) by simp
  next
    case (Some i)
    note i = slot_for_Some [OF this]
    let ?t' = "(if shmIngresQueuesInit t ! i = None
          then t\<lparr>shmIngresQueues := (shmIngresQueues t)[i := Some q],
                 shmIngresQueuesInit := (shmIngresQueuesInit t)[i := Some name]\<rparr> else t)
         \<lparr>shmIngresQueuesRefCount := (shmIngresQueuesRefCount t)[i := shmIngresQueuesRefCount t ! i + 1]\<rparr>"
    have "allocIngresQ num name t = (Inr (int i), ?t')"
      using run Some assms(2) by (auto simp: allocIngresQ_def bind_prog_def qp_acquire_def qp_release_def)
    moreover have "table_ok ?t'" using assms(1) i by (auto simp: table_ok_def nth_list_update)
    moreover have "shmIngresQueuesInit ?t' ! i = Some name" using i assms(1) by (auto simp: table_ok_def)
    moreover have "ref_total ?t' n = ref_total t n + (if n = name then 1 else 0)" for n
      using i assms(1) by (subst ref_total_slot [of i _ t]) (auto simp: table_ok_def)
    moreover have "shmIngresQueuesInit t ! i = None \<Longrightarrow> shmIngresQueues ?t' ! i = Some q"
      using i assms(1) by (simp add: table_ok_def)
    ultimately show ?thesis using i assms(2) q(2) by (intro exI [of _ "int i"] exI [of _ ?t']) auto
  qed
qed

definition empty_table :: "nat ingres_table" where
  "empty_table = \<lparr>qp_locked = False, shmIngresQueues = replicate NUM_INGRES_QUEUES None,
     shmIngresQueuesInit = replicate NUM_INGRES_QUEUES None, shmIngresQueuesTDesc = replicate NUM_INGRES_QUEUES None,
     shmIngresQueuesRefCount = replicate NUM_INGRES_QUEUES 0\<rparr>"

lemma empty_table_ok: "table_ok empty_table" "\<not> qp_locked empty_table" "ref_total empty_table n = 0"
  by (simp_all add: table_ok_def empty_table_def ref_total_def)

theorem allocIngresQ_counts_witness:
  "\<exists>r t'. allocIngresQ 0 ''traffic'' empty_table = (Inr r, t') \<and> 0 \<le> r \<and> ref_total t' ''traffic'' = 1"
proof -
  have "\<exists>i < NUM_INGRES_QUEUES. shmIngresQueuesInit empty_table ! i = None \<or> shmIngresQueuesInit empty_table ! i = Some ''traffic''"
    by (intro exI [of _ 0]) (simp add: empty_table_def NUM_INGRES_QUEUES_def)
  with allocIngresQ_counts [OF empty_table_ok(1,2), of 0 "''traffic''"] show ?thesis
    by (auto simp: queue_size_ok_def empty_table_ok(3))
qed

text \<open>
  C29. \<^verbatim>\<open>freeIngresQ\<close> of a slot in use counts one reference less for its name and none for any other;
  it frees the slot exactly when that was the last reference. The table stays consistent and the
  lock free.
\<close>

theorem freeIngresQ_counts:
  assumes "table_ok t" "\<not> qp_locked t" "idx < NUM_INGRES_QUEUES" "shmIngresQueuesInit t ! idx = Some name"
  shows "\<exists>t'. freeIngresQ idx t = (Inr (), t') \<and> table_ok t' \<and> \<not> qp_locked t' \<and>
     (\<forall>n. ref_total t' n = ref_total t n - (if n = name then 1 else 0)) \<and>
     (shmIngresQueuesInit t' ! idx = None \<longleftrightarrow> shmIngresQueuesRefCount t ! idx = 1) \<and>
     (\<forall>i < NUM_INGRES_QUEUES. i \<noteq> idx \<longrightarrow> shmIngresQueues t' ! i = shmIngresQueues t ! i \<and>
        shmIngresQueuesInit t' ! i = shmIngresQueuesInit t ! i)"
proof -
  let ?c = "shmIngresQueuesRefCount t ! idx - 1"
  let ?t' = "(if ?c = 0 then t\<lparr>shmIngresQueues := (shmIngresQueues t)[idx := None],
       shmIngresQueuesInit := (shmIngresQueuesInit t)[idx := None]\<rparr> else t)
       \<lparr>shmIngresQueuesRefCount := (shmIngresQueuesRefCount t)[idx := ?c]\<rparr>"
  have len: "length (shmIngresQueuesInit t) = NUM_INGRES_QUEUES" "length (shmIngresQueuesRefCount t) = NUM_INGRES_QUEUES"
    "length (shmIngresQueues t) = NUM_INGRES_QUEUES"
    using assms(1) by (simp_all add: table_ok_def)
  have pos: "0 < shmIngresQueuesRefCount t ! idx" "shmIngresQueues t ! idx \<noteq> None"
    using assms by (auto simp: table_ok_def)
  have "freeIngresQ idx t = (Inr (), ?t')"
    using assms(2-4) pos(2) len
    by (auto simp: freeIngresQ_def bind_prog_def qp_acquire_def qp_release_def slot_def adjustRefCount_def
        free_queue_def Let_def split: option.split)
  moreover have "table_ok ?t'" using assms pos(1) by (auto simp: table_ok_def nth_list_update)
  moreover have "ref_total ?t' n = ref_total t n - (if n = name then 1 else 0)" for n
    using assms(3,4) len by (subst ref_total_slot [of idx _ t]) auto
  ultimately show ?thesis using assms(2-4) len by (intro exI [of _ ?t']) auto
qed

definition one_queue :: "nat ingres_table" where
  "one_queue = snd (allocIngresQ 0 ''traffic'' empty_table)"

lemma one_queue_ok: "table_ok one_queue" "\<not> qp_locked one_queue" "shmIngresQueuesInit one_queue ! 0 = Some ''traffic''"
  "shmIngresQueuesRefCount one_queue ! 0 = 1" "ref_total one_queue ''traffic'' = 1"
proof -
  obtain q where q: "make_queue (Some make_lock_sl) DEF_INGRES_QSIZE = Inr (Some q)"
    by (rule ingres_make_queue [of 0]) (simp_all add: queue_size_ok_def)
  have "[0..<NUM_INGRES_QUEUES] = 0 # [1..<NUM_INGRES_QUEUES]" by (simp add: NUM_INGRES_QUEUES_def upt_conv_Cons)
  then have one: "one_queue = empty_table\<lparr>shmIngresQueues := (shmIngresQueues empty_table)[0 := Some q],
      shmIngresQueuesInit := (shmIngresQueuesInit empty_table)[0 := Some ''traffic''],
      shmIngresQueuesRefCount := (shmIngresQueuesRefCount empty_table)[0 := 1]\<rparr>"
    by (simp add: one_queue_def allocIngresQ_def bind_prog_def qp_acquire_def qp_release_def adjustRefCount_def q
        empty_table_def NUM_INGRES_QUEUES_def Let_def)
  show "\<not> qp_locked one_queue" "shmIngresQueuesInit one_queue ! 0 = Some ''traffic''" "shmIngresQueuesRefCount one_queue ! 0 = 1"
    by (simp_all add: one empty_table_def NUM_INGRES_QUEUES_def)
  show "table_ok one_queue" using empty_table_ok(1)
    by (auto simp: one table_ok_def nth_list_update)
  show "ref_total one_queue ''traffic'' = 1"
    by (subst ref_total_slot [of 0 _ empty_table])
      (simp_all add: one empty_table_ok(3), simp_all add: empty_table_def NUM_INGRES_QUEUES_def)
qed

theorem freeIngresQ_counts_witness:
  "\<exists>t'. freeIngresQ 0 one_queue = (Inr (), t') \<and> ref_total t' ''traffic'' = 0 \<and> shmIngresQueuesInit t' ! 0 = None"
proof -
  have "0 < NUM_INGRES_QUEUES" by (simp add: NUM_INGRES_QUEUES_def)
  from freeIngresQ_counts [OF one_queue_ok(1,2) this one_queue_ok(3)] show ?thesis
    by (auto simp: one_queue_ok(4,5))
qed

text \<open>Releasing a free slot returns with the lock held: every later operation on the table blocks.\<close>

lemma freeIngresQ_unused:
  assumes "table_ok t" "\<not> qp_locked t" "idx < NUM_INGRES_QUEUES" "shmIngresQueuesInit t ! idx = None"
  shows "freeIngresQ idx t = (Inr (), t\<lparr>qp_locked := True\<rparr>)"
    and "fst (allocIngresQ num name (snd (freeIngresQ idx t))) = Inl Would_block"
proof -
  show "freeIngresQ idx t = (Inr (), t\<lparr>qp_locked := True\<rparr>)"
    using assms by (simp add: freeIngresQ_def bind_prog_def qp_acquire_def slot_def table_ok_def)
  then show "fst (allocIngresQ num name (snd (freeIngresQ idx t))) = Inl Would_block"
    by (simp add: allocIngresQ_def bind_prog_def qp_acquire_def)
qed

text \<open>A free slot before the one of the name is taken, so that two slots have the name.\<close>

lemma allocIngresQ_shadows:
  assumes "table_ok t" "\<not> qp_locked t" "queue_size_ok num" "i < j" "j < NUM_INGRES_QUEUES"
    "\<forall>k < i. shmIngresQueuesInit t ! k \<noteq> None \<and> shmIngresQueuesInit t ! k \<noteq> Some name"
    "shmIngresQueuesInit t ! i = None" "shmIngresQueuesInit t ! j = Some name"
  shows "fst (allocIngresQ num name t) = Inr (int i)"
proof -
  obtain q where q: "make_queue (Some make_lock_sl) (if num = 0 then DEF_INGRES_QSIZE else num) = Inr (Some q)"
    by (rule ingres_make_queue [OF assms(3)])
  have "slot_for t name [0..<NUM_INGRES_QUEUES] = Some i"
    using assms(4-7) by (auto simp: slot_for_def find_Some_iff intro!: exI [of _ i])
  then have "slot_for (t\<lparr>qp_locked := True\<rparr>) name [0..<NUM_INGRES_QUEUES] = Some i" by (simp add: slot_for_def)
  moreover have "table_ok (t\<lparr>qp_locked := True\<rparr>)" using assms(1) by (simp add: table_ok_def)
  ultimately show ?thesis
    using alloc_loop_run [OF q, of "[0..<NUM_INGRES_QUEUES]" "t\<lparr>qp_locked := True\<rparr>" name] assms(2)
    by (simp add: allocIngresQ_def bind_prog_def qp_acquire_def qp_release_def)
qed

text \<open>A lookup by name passes a null pointer to \<^verbatim>\<open>strcmp\<close> when a free slot comes before the name.\<close>

lemma byName_free_slot:
  assumes "i < NUM_INGRES_QUEUES" "shmIngresQueuesInit t ! i = None" "\<not> qp_locked t"
    "\<forall>k < i. shmIngresQueuesInit t ! k \<noteq> Some name"
  shows "fst (getIngresQ_byName name t) = Inl (Out_of_bounds ''strcmp of a NULL name'')"
proof -
  have "byName_loop name [k..<NUM_INGRES_QUEUES] (t\<lparr>qp_locked := True\<rparr>) = Inl (Out_of_bounds ''strcmp of a NULL name'')"
    if "k \<le> i" for k
    using that
  proof (induction "i - k" arbitrary: k)
    case 0
    then show ?case using assms(1,2) by (simp add: upt_conv_Cons)
  next
    case (Suc d)
    then show ?case using assms(1,4) by (auto simp: upt_conv_Cons split: option.split)
  qed
  from this [of 0] show ?thesis
    using assms(3) by (simp add: getIngresQ_byName_def locked_read_def bind_prog_def qp_acquire_def)
qed

end
