(* ===== verification/Plumbing.thy ===== *)
theory Plumbing
  imports Queue_Properties Ingress_Queues
begin

text \<open>
  The shared-memory structures of TelegraphCQ as a whole and their life cycle
  (\<^verbatim>\<open>InitializeTCQPlumbing\<close>, \<^verbatim>\<open>CleanupTCQPlumbing\<close> in \<^verbatim>\<open>src/src/backend/telegraphcq/telegraphcq.c\<close>):
  the plan and control queues, the pool of result queues, the table of ingress queues and the flags
  of the processes.
\<close>

definition PLANQSIZE :: int where "PLANQSIZE = 1024 * 100"
definition CONTROLQSIZE :: int where "CONTROLQSIZE = 1024 * 30"
definition WRAPCONTROLQSIZE :: int where "WRAPCONTROLQSIZE = 1024 * 1024"

text \<open>
  \<open>have_ingres\<close> says that \<^verbatim>\<open>shmIngresQueues\<close> and its companions are not \<^verbatim>\<open>NULL\<close>; the lock of the
  table is \<^verbatim>\<open>p_qp_spinlock\<close>, which also guards the initialisation. Of the hash table of scan
  progress only its existence matters here.
\<close>

record 'd plumbing =
  init_plumbing :: bool
  tcqbackendinitialized :: bool
  tcqwrapchinitialized :: bool
  plan_queue :: "Queue option"
  control_queue :: "Queue option"
  wrap_control_queue :: "Queue option"
  no_lock :: "queue_lock option"
  pool :: result_pool
  have_ingres :: bool
  ingres :: "'d ingres_table"
  heapScanProgressTable :: bool

definition with_queue :: "queue_lock option \<Rightarrow> int \<Rightarrow> (Queue option \<Rightarrow> 's \<Rightarrow> 's) \<Rightarrow> ('s, unit) prog" where
  "with_queue lck num upd s = (case make_queue lck num of Inl e \<Rightarrow> (Inl e, s) | Inr q \<Rightarrow> (Inr (), upd q s))"

definition on_pool :: "(result_pool, 'a) prog \<Rightarrow> ('d plumbing, 'a) prog" where
  "on_pool m s = (case m (pool s) of (r, p) \<Rightarrow> (r, s\<lparr>pool := p\<rparr>))"

definition on_ingres :: "('d ingres_table, 'a) prog \<Rightarrow> ('d plumbing, 'a) prog" where
  "on_ingres m s = (case m (ingres s) of (r, t) \<Rightarrow> (r, s\<lparr>ingres := t\<rparr>))"

definition clear_pool_slots :: "result_pool \<Rightarrow> result_pool" where
  "clear_pool_slots p = p\<lparr>shmResultQueues := replicate (numResultQueues p) None,
     shmResultQueuesInit := replicate (numResultQueues p) False\<rparr>"

definition clear_ingres_slots :: "'d ingres_table \<Rightarrow> 'd ingres_table" where
  "clear_ingres_slots t = t\<lparr>shmIngresQueues := replicate NUM_INGRES_QUEUES None,
     shmIngresQueuesInit := replicate NUM_INGRES_QUEUES None,
     shmIngresQueuesTDesc := replicate NUM_INGRES_QUEUES None,
     shmIngresQueuesRefCount := replicate NUM_INGRES_QUEUES 0\<rparr>"

text \<open>\<open>hash_create\<close> says whether the hash table of the scan progress could be made.\<close>

definition InitializeTCQPlumbing :: "bool \<Rightarrow> bool \<Rightarrow> int \<Rightarrow> ('d plumbing, unit) prog" where
  "InitializeTCQPlumbing UseHashGroup hash_create tcqresultqsize s0 =
     (if init_plumbing s0 then (Inr (), s0)
      else
        bind_prog (on_ingres qp_acquire) (\<lambda>_.
        bind_prog (\<lambda>s.
          if init_plumbing s then (Inr (), s)
          else
            bind_prog (modify_prog (\<lambda>s. s\<lparr>tcqbackendinitialized := False, tcqwrapchinitialized := False\<rparr>)) (\<lambda>_.
            bind_prog (with_queue None PLANQSIZE (\<lambda>q s. s\<lparr>plan_queue := q\<rparr>)) (\<lambda>_.
            bind_prog (with_queue (if \<not> UseHashGroup then None else Some make_lock_sl) CONTROLQSIZE (\<lambda>q s. s\<lparr>control_queue := q\<rparr>)) (\<lambda>_.
            bind_prog (with_queue (Some make_lock_sl) WRAPCONTROLQSIZE (\<lambda>q s. s\<lparr>wrap_control_queue := q\<rparr>)) (\<lambda>_.
            bind_prog (modify_prog (\<lambda>s. s\<lparr>no_lock := Some make_lock_nolock, have_ingres := True, pool := clear_pool_slots (pool s)\<rparr>)) (\<lambda>_.
            bind_prog (on_pool (CreateResultQueues tcqresultqsize)) (\<lambda>_.
            bind_prog (modify_prog (\<lambda>s. s\<lparr>ingres := clear_ingres_slots (ingres s), heapScanProgressTable := hash_create\<rparr>)) (\<lambda>_ s.
              if \<not> heapScanProgressTable s
              then (Inl (Elog_error ''InitializeTCQPlumbing: Creation of heapScanProgressTable failed''), s)
              else (Inr (), s\<lparr>init_plumbing := True\<rparr>)))))))) s) (\<lambda>_.
        on_ingres qp_release)) s0)"

fun free_ingres_loop :: "nat list \<Rightarrow> ('d ingres_table, unit) prog" where
  "free_ingres_loop [] = return_prog ()"
| "free_ingres_loop (i # is) =
     bind_prog (\<lambda>t. if shmIngresQueuesInit t ! i \<noteq> None
                    then (case free_queue (shmIngresQueues t ! i) of
                            Inl e \<Rightarrow> (Inl e, t)
                          | Inr q \<Rightarrow> (Inr (), t\<lparr>shmIngresQueues := (shmIngresQueues t)[i := q]\<rparr>))
                    else (Inr (), t)) (\<lambda>_. free_ingres_loop is)"

definition CleanupTCQPlumbing :: "('d plumbing, unit) prog" where
  "CleanupTCQPlumbing =
     bind_prog (modify_prog (\<lambda>s. s\<lparr>plan_queue := None\<rparr>)) (\<lambda>_.
     bind_prog (modify_prog (\<lambda>s. s\<lparr>control_queue := None\<rparr>)) (\<lambda>_.
     bind_prog (\<lambda>s. on_pool (DeallocateResultQueues (init_plumbing s)) s) (\<lambda>_.
     bind_prog (\<lambda>s. if have_ingres s
                    then bind_prog (on_ingres (free_ingres_loop [0..<NUM_INGRES_QUEUES])) (\<lambda>_.
                         modify_prog (\<lambda>s. s\<lparr>have_ingres := False\<rparr>)) s
                    else (Inr (), s)) (\<lambda>_.
     modify_prog (\<lambda>s. s\<lparr>heapScanProgressTable := False\<rparr>)))))"

section \<open>Initialisation\<close>

lemma plumbing_queue:
  assumes "sizeof_Queue + QHDRSZ \<le> n" "n \<le> MaxAllocSize" "lck = None \<or> lck = Some make_lock_sl"
  obtains q where "make_queue lck n = Inr (Some q)" "queue_rep q []" "lock_free (ql q)"
proof -
  have "lock_free l \<and> full_ok l 0" if "lck = Some l" for l
    using assms(3) that by (auto simp: full_ok_def make_lock_sl_def)
  then obtain q where q: "make_queue lck n = Inr (Some q)" "queue_ready result_serializer q []"
    by (rule make_queue_ready [OF assms(1,2)])
  from q(2) have "queue_rep q []" "lock_free (ql q)"
    by (simp_all add: queue_ready_def queue_holds_def)
  with q(1) show thesis by (rule that)
qed

lemma plumbing_sizes:
  "sizeof_Queue + QHDRSZ \<le> PLANQSIZE" "PLANQSIZE \<le> MaxAllocSize"
  "sizeof_Queue + QHDRSZ \<le> CONTROLQSIZE" "CONTROLQSIZE \<le> MaxAllocSize"
  "sizeof_Queue + QHDRSZ \<le> WRAPCONTROLQSIZE" "WRAPCONTROLQSIZE \<le> MaxAllocSize"
  by (simp_all add: PLANQSIZE_def CONTROLQSIZE_def WRAPCONTROLQSIZE_def queue_consts)

lemma CreateResultQueues_fresh:
  assumes "sizeof_Queue + QHDRSZ \<le> sz" "sz \<le> MaxAllocSize"
  obtains p' where "CreateResultQueues sz (clear_pool_slots p) = (Inr (), p')" "pool_holds p' (\<lambda>_. [])"
    "numResultQueues p' = numResultQueues p"
proof -
  have part: "pool_partial (clear_pool_slots p) (\<lambda>_. [])" by (simp add: pool_partial_def clear_pool_slots_def)
  have "\<exists>p'. create_loop sz [0..<numResultQueues p] (clear_pool_slots p) = (Inr (), p') \<and> pool_partial p' (\<lambda>_. []) \<and>
     numResultQueues p' = numResultQueues (clear_pool_slots p) \<and>
     (\<forall>i<numResultQueues (clear_pool_slots p). i \<in> set [0..<numResultQueues p] \<or> shmResultQueuesInit (clear_pool_slots p) ! i \<longrightarrow>
        shmResultQueuesInit p' ! i)"
    by (rule create_loop_partial [OF part _ assms]) (simp add: clear_pool_slots_def)
  then obtain p' where "create_loop sz [0..<numResultQueues p] (clear_pool_slots p) = (Inr (), p')" "pool_partial p' (\<lambda>_. [])"
    "numResultQueues p' = numResultQueues p" "\<forall>i<numResultQueues p. shmResultQueuesInit p' ! i"
    by (auto simp: clear_pool_slots_def)
  then show thesis
    by (intro that [of p']) (auto simp: CreateResultQueues_def clear_pool_slots_def pool_partial_def pool_holds_def)
qed

lemma clear_ingres_slots_ok: "table_ok (clear_ingres_slots t)"
  by (simp add: table_ok_def clear_ingres_slots_def)

definition plumbing_ready :: "'d plumbing \<Rightarrow> bool" where
  "plumbing_ready s \<longleftrightarrow> init_plumbing s \<and> have_ingres s \<and> heapScanProgressTable s \<and> table_ok (ingres s) \<and> \<not> qp_locked (ingres s) \<and>
     pool_holds (pool s) (\<lambda>_. []) \<and> (\<forall>n. ref_total (ingres s) n = 0) \<and>
     (\<exists>q1 q2 q3. plan_queue s = Some q1 \<and> control_queue s = Some q2 \<and> wrap_control_queue s = Some q3 \<and>
        (\<forall>q \<in> {q1, q2, q3}. queue_rep q [] \<and> lock_free (ql q)))"

text \<open>
  C30. \<^verbatim>\<open>InitializeTCQPlumbing\<close> on memory that has not been initialised creates everything: the plan
  and control queues and every result queue exist, are empty and unlocked, the table of ingress
  queues is consistent and empty, and the lock is free. A second call, as every process makes one,
  changes nothing.
\<close>

theorem plumbing_initialised:
  assumes "\<not> init_plumbing s" "\<not> qp_locked (ingres s)" "sizeof_Queue + QHDRSZ \<le> sz" "sz \<le> MaxAllocSize"
  shows "\<exists>s'. InitializeTCQPlumbing UseHashGroup True sz s = (Inr (), s') \<and> plumbing_ready s' \<and>
     numResultQueues (pool s') = numResultQueues (pool s) \<and>
     InitializeTCQPlumbing UseHashGroup True sz s' = (Inr (), s')"
proof -
  let ?cl = "if \<not> UseHashGroup then None else Some make_lock_sl"
  obtain q1 where q1: "make_queue None PLANQSIZE = Inr (Some q1)" "queue_rep q1 []" "lock_free (ql q1)"
    by (rule plumbing_queue [OF plumbing_sizes(1,2), of None]) (simp, rule that)
  obtain q2 where q2: "make_queue ?cl CONTROLQSIZE = Inr (Some q2)" "queue_rep q2 []" "lock_free (ql q2)"
    by (rule plumbing_queue [OF plumbing_sizes(3,4), of ?cl]) (simp, rule that)
  obtain q3 where q3: "make_queue (Some make_lock_sl) WRAPCONTROLQSIZE = Inr (Some q3)" "queue_rep q3 []" "lock_free (ql q3)"
    by (rule plumbing_queue [OF plumbing_sizes(5,6), of "Some make_lock_sl"]) (simp, rule that)
  obtain p' where p': "CreateResultQueues sz (clear_pool_slots (pool s)) = (Inr (), p')" "pool_holds p' (\<lambda>_. [])"
    "numResultQueues p' = numResultQueues (pool s)"
    by (rule CreateResultQueues_fresh [OF assms(3,4)])
  let ?s = "s\<lparr>init_plumbing := True, tcqbackendinitialized := False, tcqwrapchinitialized := False, plan_queue := Some q1,
      control_queue := Some q2, wrap_control_queue := Some q3, no_lock := Some make_lock_nolock, pool := p', have_ingres := True,
      ingres := (clear_ingres_slots (ingres s))\<lparr>qp_locked := False\<rparr>, heapScanProgressTable := True\<rparr>"
  have "InitializeTCQPlumbing UseHashGroup True sz s = (Inr (), ?s)"
    using assms(1,2) q2(1)
    by (cases UseHashGroup) (simp_all add: InitializeTCQPlumbing_def bind_prog_def with_queue_def on_ingres_def qp_acquire_def qp_release_def q1(1) q3(1)
        on_pool_def p'(1) clear_ingres_slots_def)
  moreover have "plumbing_ready ?s"
    using q1(2,3) q2(2,3) q3(2,3) p'(2)
    by (auto simp: plumbing_ready_def table_ok_def clear_ingres_slots_def ref_total_def)
  moreover have "InitializeTCQPlumbing UseHashGroup True sz ?s = (Inr (), ?s)" by (simp add: InitializeTCQPlumbing_def)
  ultimately show ?thesis using p'(3) by (intro exI [of _ ?s]) simp
qed

definition raw_plumbing :: "nat plumbing" where
  "raw_plumbing = \<lparr>init_plumbing = False, tcqbackendinitialized = True, tcqwrapchinitialized = True, plan_queue = None,
     control_queue = None, wrap_control_queue = None, no_lock = None, pool = pool3, have_ingres = False, ingres = empty_table,
     heapScanProgressTable = False\<rparr>"

theorem plumbing_initialised_witness:
  "\<exists>s'. InitializeTCQPlumbing False True 16384 raw_plumbing = (Inr (), s') \<and> plumbing_ready s' \<and>
     numResultQueues (pool s') = numResultQueues (pool raw_plumbing) \<and>
     InitializeTCQPlumbing False True 16384 s' = (Inr (), s')"
  by (rule plumbing_initialised) (simp_all add: raw_plumbing_def empty_table_def queue_consts)

section \<open>Clean-up\<close>

lemma deallocate_loop_run:
  assumes "\<forall>i \<in> set is. i < numResultQueues p" "length (shmResultQueues p) = numResultQueues p"
    "length (shmResultQueuesInit p) = numResultQueues p"
    "\<forall>i < numResultQueues p. shmResultQueuesInit p ! i \<longrightarrow> shmResultQueues p ! i \<noteq> None"
  shows "\<exists>p'. deallocate_loop is p = (Inr (), p') \<and> numResultQueues p' = numResultQueues p \<and>
     (\<forall>i < numResultQueues p. shmResultQueuesInit p' ! i \<longleftrightarrow> shmResultQueuesInit p ! i \<and> i \<notin> set is)"
  using assms
proof (induction "is" arbitrary: p)
  case (Cons i "is")
  show ?case
  proof (cases "shmResultQueuesInit p ! i")
    case True
    then obtain q where q: "shmResultQueues p ! i = Some q" using Cons.prems by auto
    let ?p = "p\<lparr>shmResultQueues := (shmResultQueues p)[i := None], shmResultQueuesInit := (shmResultQueuesInit p)[i := False]\<rparr>"
    have "\<exists>p'. deallocate_loop is ?p = (Inr (), p') \<and> numResultQueues p' = numResultQueues ?p \<and>
       (\<forall>j < numResultQueues ?p. shmResultQueuesInit p' ! j \<longleftrightarrow> shmResultQueuesInit ?p ! j \<and> j \<notin> set is)"
      by (rule Cons.IH) (use Cons.prems in \<open>auto simp: nth_list_update\<close>)
    then show ?thesis using True q Cons.prems by (auto simp: bind_prog_def free_queue_def nth_list_update)
  next
    case False
    with Cons.IH [of p] Cons.prems show ?thesis by (auto simp: bind_prog_def)
  qed
qed simp

lemma free_ingres_loop_run:
  assumes "\<forall>i \<in> set is. i < NUM_INGRES_QUEUES" "length (shmIngresQueues t) = NUM_INGRES_QUEUES" "distinct is"
    "\<forall>i \<in> set is. shmIngresQueuesInit t ! i \<noteq> None \<longrightarrow> shmIngresQueues t ! i \<noteq> None"
  shows "\<exists>t'. free_ingres_loop is t = (Inr (), t') \<and>
     (\<forall>i < NUM_INGRES_QUEUES. shmIngresQueues t' ! i =
        (if i \<in> set is \<and> shmIngresQueuesInit t ! i \<noteq> None then None else shmIngresQueues t ! i))"
  using assms
proof (induction "is" arbitrary: t)
  case (Cons i "is")
  show ?case
  proof (cases "shmIngresQueuesInit t ! i = None")
    case False
    then obtain q where q: "shmIngresQueues t ! i = Some q" using Cons.prems by auto
    let ?t = "t\<lparr>shmIngresQueues := (shmIngresQueues t)[i := None]\<rparr>"
    have "\<exists>t'. free_ingres_loop is ?t = (Inr (), t') \<and>
       (\<forall>j < NUM_INGRES_QUEUES. shmIngresQueues t' ! j =
          (if j \<in> set is \<and> shmIngresQueuesInit ?t ! j \<noteq> None then None else shmIngresQueues ?t ! j))"
      by (rule Cons.IH) (use Cons.prems in \<open>auto simp: nth_list_update\<close>)
    then show ?thesis using False q Cons.prems by (auto simp: bind_prog_def free_queue_def nth_list_update)
  next
    case True
    with Cons.IH [of t] Cons.prems show ?thesis by (auto simp: bind_prog_def)
  qed
qed simp

lemma cleanup_frees:
  assumes "plumbing_ready s" "length (shmResultQueuesInit (pool s)) = numResultQueues (pool s)"
  shows "\<exists>s'. CleanupTCQPlumbing s = (Inr (), s') \<and> plan_queue s' = None \<and> control_queue s' = None \<and> \<not> have_ingres s' \<and>
     (\<forall>i < numResultQueues (pool s). \<not> shmResultQueuesInit (pool s') ! i) \<and> wrap_control_queue s' = wrap_control_queue s"
proof -
  have "\<exists>p'. deallocate_loop [0..<numResultQueues (pool s)] (pool s) = (Inr (), p') \<and> numResultQueues p' = numResultQueues (pool s) \<and>
     (\<forall>i < numResultQueues (pool s). shmResultQueuesInit p' ! i \<longleftrightarrow> shmResultQueuesInit (pool s) ! i \<and> i \<notin> set [0..<numResultQueues (pool s)])"
    by (rule deallocate_loop_run) (use assms in \<open>auto simp: plumbing_ready_def pool_holds_def\<close>)
  then obtain p' where p': "deallocate_loop [0..<numResultQueues (pool s)] (pool s) = (Inr (), p')"
    "\<forall>i < numResultQueues (pool s). \<not> shmResultQueuesInit p' ! i" by auto
  have "length (shmIngresQueues (ingres s)) = NUM_INGRES_QUEUES"
    "\<forall>i \<in> set [0..<NUM_INGRES_QUEUES]. shmIngresQueuesInit (ingres s) ! i \<noteq> None \<longrightarrow> shmIngresQueues (ingres s) ! i \<noteq> None"
    using assms(1) by (simp_all add: plumbing_ready_def table_ok_def)
  then obtain t' where "free_ingres_loop [0..<NUM_INGRES_QUEUES] (ingres s) = (Inr (), t')"
    using free_ingres_loop_run [of "[0..<NUM_INGRES_QUEUES]" "ingres s"] by auto
  then show ?thesis
    using p' assms(1)
    by (simp add: CleanupTCQPlumbing_def bind_prog_def on_pool_def on_ingres_def DeallocateResultQueues_def plumbing_ready_def)
qed

end
