(* ===== verification/Calendar.thy ===== *)
theory Calendar
  imports TCQ_Prelude
begin

text \<open>
  Dates and times of day: the conversions between Julian day numbers and calendar dates
  (\<^verbatim>\<open>date2j\<close>, \<^verbatim>\<open>j2date\<close> in \<^verbatim>\<open>src/src/backend/utils/adt/datetime.c\<close>) and between a timestamp and
  the fields of a \<^verbatim>\<open>struct tm\<close> (\<^verbatim>\<open>src/src/backend/utils/adt/timestamp.c\<close>), in the branch for integer
  timestamps (\<^verbatim>\<open>HAVE_INT64_TIMESTAMP\<close>): a timestamp counts microseconds from the start of 2000. The
  lemmas show that both conversions are inverse to each other and give valid dates. C integer
  division is \<open>sdiv\<close>, the remainder \<open>smod\<close>; the values stay far from the limits of their types
  and are unbounded integers here.
\<close>

section \<open>Days\<close>

definition day_tab :: "int list list" where
  "day_tab = [[31, 28, 31, 30, 31, 30, 31, 31, 30, 31, 30, 31, 0], [31, 29, 31, 30, 31, 30, 31, 31, 30, 31, 30, 31, 0]]"

definition isleap :: "int \<Rightarrow> bool" where
  "isleap y \<longleftrightarrow> y smod 4 = 0 \<and> (y smod 100 \<noteq> 0 \<or> y smod 400 = 0)"

definition month_days :: "int \<Rightarrow> int \<Rightarrow> int" where
  "month_days y m = day_tab ! (if isleap y then 1 else 0) ! nat (m - 1)"

definition date2j :: "int \<Rightarrow> int \<Rightarrow> int \<Rightarrow> int" where
  "date2j y m d =
     (let m12 = (m - 14) sdiv 12
      in (1461 * (y + 4800 + m12)) sdiv 4
         + (367 * (m - 2 - 12 * m12)) sdiv 12
         - (3 * ((y + 4900 + m12) sdiv 100)) sdiv 4
         + d - 32075)"

definition j2date :: "int \<Rightarrow> int \<times> int \<times> int" where
  "j2date jd =
     (let l = jd + 68569;
          n = (4 * l) sdiv 146097;
          l = l - (146097 * n + 3) sdiv 4;
          i = (4000 * (l + 1)) sdiv 1461001;
          l = l + 31 - (1461 * i) sdiv 4;
          j = (80 * l) sdiv 2447;
          d = l - (2447 * j) sdiv 80;
          l = j sdiv 11;
          m = (j + 2) - (12 * l);
          y = 100 * (n - 49) + i + l
      in (y, m, d))"

definition j2day :: "int \<Rightarrow> int" where
  "j2day date = (date + 1) smod 7"

definition JULIAN_MINYEAR :: int where "JULIAN_MINYEAR = -4713"
definition JULIAN_MINMONTH :: int where "JULIAN_MINMONTH = 11"
definition JULIAN_MINDAY :: int where "JULIAN_MINDAY = 23"

definition IS_VALID_JULIAN :: "int \<Rightarrow> int \<Rightarrow> int \<Rightarrow> bool" where
  "IS_VALID_JULIAN y m d \<longleftrightarrow> y > JULIAN_MINYEAR \<or>
     y = JULIAN_MINYEAR \<and> (m > JULIAN_MINMONTH \<or> m = JULIAN_MINMONTH \<and> d \<ge> JULIAN_MINDAY)"

section \<open>Timestamps and broken-down time\<close>

text \<open>The fields of \<^verbatim>\<open>struct tm\<close> the functions use; \<^verbatim>\<open>tm_year\<close> is the full year, \<^verbatim>\<open>tm_mon\<close> one-based.\<close>

record tm =
  tm_year :: int
  tm_mon :: int
  tm_mday :: int
  tm_hour :: int
  tm_min :: int
  tm_sec :: int

definition USECS_PER_DAY :: int where "USECS_PER_DAY = 86400000000"

definition dt2time :: "int \<Rightarrow> int \<times> int \<times> int \<times> int" where
  "dt2time jd =
     (let hour = jd sdiv 3600000000;
          time = jd - hour * 3600000000;
          minute = time sdiv 60000000;
          time = time - minute * 60000000;
          sec = time sdiv 1000000;
          fsec = time - sec * 1000000
      in (hour, minute, sec, fsec))"

definition time2t :: "int \<Rightarrow> int \<Rightarrow> int \<Rightarrow> int \<Rightarrow> int" where
  "time2t hour minute sec fsec = ((hour * 60 + minute) * 60 + sec) * 1000000 + fsec"

definition dt2local :: "int \<Rightarrow> int \<Rightarrow> int" where
  "dt2local dt tz = dt - tz * 1000000"

text \<open>\<open>TMODULO t u\<close> is the quotient and what remains of \<open>t\<close>.\<close>

definition TMODULO :: "int \<Rightarrow> int \<Rightarrow> int \<times> int" where
  "TMODULO t u = (let q = t sdiv u in (q, if q \<noteq> 0 then t - q * u else t))"

text \<open>\<^verbatim>\<open>timestamp2tm\<close> without a time zone (\<^verbatim>\<open>tzp\<close> is \<^verbatim>\<open>NULL\<close>); \<open>None\<close> is the result -1.\<close>

definition timestamp2tm :: "int \<Rightarrow> (tm \<times> int) option" where
  "timestamp2tm dt =
     (let date0 = date2j 2000 1 1;
          (date, time) = TMODULO dt USECS_PER_DAY;
          (date, time) = (if time < 0 then (date - 1, time + USECS_PER_DAY) else (date, time))
      in if date < - date0 then None
         else
           let (y, m, d) = j2date (date + date0);
               (hour, minute, sec, fsec) = dt2time time
           in Some (\<lparr>tm_year = y, tm_mon = m, tm_mday = d, tm_hour = hour, tm_min = minute, tm_sec = sec\<rparr>, fsec))"

text \<open>\<open>tzp\<close> is \<open>None\<close> for \<^verbatim>\<open>NULL\<close>.\<close>

definition tm2timestamp :: "tm \<Rightarrow> int \<Rightarrow> int option \<Rightarrow> int option" where
  "tm2timestamp t fsec tzp =
     (if \<not> IS_VALID_JULIAN (tm_year t) (tm_mon t) (tm_mday t) then None
      else
        let date = date2j (tm_year t) (tm_mon t) (tm_mday t) - date2j 2000 1 1;
            time = time2t (tm_hour t) (tm_min t) (tm_sec t) fsec;
            result = date * USECS_PER_DAY + time
        in Some (case tzp of None \<Rightarrow> result | Some tz \<Rightarrow> dt2local result (- tz)))"

section \<open>From a Julian day to a date and back\<close>

lemma sdiv_nonneg: "0 \<le> a \<Longrightarrow> 0 < b \<Longrightarrow> (a::int) sdiv b = a div b"
  by (cases "a = 0") (simp_all add: signed_divide_int_def)

lemma div_bounds: "0 < (c::int) \<Longrightarrow> c * (a div c) \<le> a \<and> a < c * (a div c) + c"
  using pos_mod_sign [of c a] pos_mod_bound [of c a] mult_div_mod_eq [of c a] by linarith

text \<open>The day of the century and the year of the century, counted from March.\<close>

lemma century:
  assumes "0 \<le> (l::int)" "n = (4 * l) div 146097" "l1 = l - (146097 * n + 3) div 4"
  shows "0 \<le> l1" "l1 \<le> 36523 + (if n mod 4 = 0 then 1 else 0)" "0 \<le> n"
proof -
  define p where "p = (146097 * n + 3) div 4"
  have n: "146097 * n \<le> 4 * l" "4 * l < 146097 * n + 146097" using div_bounds [of 146097 "4 * l"] assms(2) by simp_all
  have p: "4 * p \<le> 146097 * n + 3" "146097 * n + 3 < 4 * p + 4"
    using div_bounds [of 4 "146097 * n + 3"] unfolding p_def by simp_all
  have l1: "l1 = l - p" using assms(3) p_def by simp
  show "0 \<le> l1" using n p l1 by linarith
  show "l1 \<le> 36523 + (if n mod 4 = 0 then 1 else 0)"
  proof (cases "n mod 4 = 0")
    case True
    have "l1 \<le> 36524" using n p l1 by linarith
    then show ?thesis using True by simp
  next
    case False
    have "4 * p \<noteq> 146097 * n"
    proof
      assume "4 * p = 146097 * n"
      then have "n = 4 * (p - 36524 * n)" by (simp add: right_diff_distrib)
      then show False using False by (metis mod_mult_self1_is_0)
    qed
    then have "l1 \<le> 36523" using n p l1 by linarith
    then show ?thesis using False by simp
  qed
  show "0 \<le> n" using n assms(1) by linarith
qed

lemma century_year:
  assumes "0 \<le> (l1::int)" "l1 \<le> 36524" "i = (4000 * (l1 + 1)) div 1461001" "k = l1 - (1461 * i) div 4"
  shows "0 \<le> i" "i \<le> 99" "0 \<le> k" "k \<le> (1461 * (i + 1)) div 4 - (1461 * i) div 4 - 1"
proof -
  define p where "p = (1461 * i) div 4"
  define r where "r = (1461 * (i + 1)) div 4"
  have i: "1461001 * i \<le> 4000 * (l1 + 1)" "4000 * (l1 + 1) < 1461001 * i + 1461001"
    using div_bounds [of 1461001 "4000 * (l1 + 1)"] assms(3) by simp_all
  have p: "4 * p \<le> 1461 * i" "1461 * i < 4 * p + 4" using div_bounds [of 4 "1461 * i"] unfolding p_def by simp_all
  have r: "4 * r \<le> 1461 * (i + 1)" "1461 * (i + 1) < 4 * r + 4" using div_bounds [of 4 "1461 * (i + 1)"] unfolding r_def by simp_all
  show i0: "0 \<le> i" and i99: "i \<le> 99" using i assms(1,2) by simp_all
  have "1461 * i \<le> 4 * l1 + 3" using i i0 by (cases "i = 0") (use assms(1) in simp_all)
  then have "p \<le> l1" using p by simp
  then show "0 \<le> k" using assms(4) p_def by simp
  have "4 * (l1 + 1) \<le> 1461 * (i + 1)" using i i99 by simp
  then have "l1 + 1 \<le> r" using r by simp
  then show "k \<le> (1461 * (i + 1)) div 4 - (1461 * i) div 4 - 1" using assms(4) p_def r_def by simp
qed

text \<open>The month and its day: \<open>k\<close> counts the days of a year that starts in March from 31.\<close>

lemma twelve:
  assumes "1 \<le> (j::int)" "j \<le> 12"
  shows "j \<in> {1, 2, 3, 4, 5, 6, 7, 8, 9, 10, 11, 12}"
proof -
  have "j \<in> set [1..12]" using assms by simp
  moreover have "set [1..12] = {1, 2, 3, 4, 5, 6, 7, 8, 9, 10, 11, 12 :: int}" by code_simp
  ultimately show ?thesis by blast
qed

lemma month_step:
  assumes "31 \<le> (k::int)" "k \<le> 396" "j = (80 * k) div 2447" "d = k - (2447 * j) div 80"
  shows "1 \<le> j \<and> j \<le> 12 \<and> 1 \<le> d \<and> (2447 * j) div 80 = (367 * j) div 12 \<and>
    d \<le> (if j = 12 then (if k = 396 then 29 else 28) else if j \<in> {2, 4, 7, 9} then 30 else 31)"
proof -
  have j: "2447 * j \<le> 80 * k" "80 * k < 2447 * j + 2447" using div_bounds [of 2447 "80 * k"] assms(3) by simp_all
  then have "1 \<le> j" "j \<le> 12" using assms(1,2) by linarith+
  from twelve [OF this] show ?thesis using j assms(1,2,4) by auto
qed


definition valid_date :: "int \<Rightarrow> int \<Rightarrow> int \<Rightarrow> bool" where
  "valid_date y m d \<longleftrightarrow> 1 \<le> m \<and> m \<le> 12 \<and> 1 \<le> d \<and> d \<le> month_days y m"

lemma isleap_dvd: "isleap y \<longleftrightarrow> 4 dvd y \<and> (\<not> 100 dvd y \<or> 400 dvd y)"
proof -
  have "y smod k = 0 \<longleftrightarrow> k dvd y" if "0 < k" for k :: int
    using that by (auto simp: signed_modulo_int_def sgn_if mod_eq_0_iff_dvd)
  then show ?thesis by (simp add: isleap_def)
qed

lemma leap_day:
  assumes "0 \<le> (i::int)" "i \<le> 99" "365 \<le> (1461 * (i + 1)) div 4 - (1461 * i) div 4 - 1"
    "l1 = 365 + (1461 * i) div 4" "l1 \<le> 36523 + (if n mod 4 = 0 then 1 else 0)"
  shows "isleap (100 * (n - 49) + i + 1)"
proof -
  define a r where "a = i div 4" and "r = i mod 4"
  have i: "i = 4 * a + r" "0 \<le> r" "r < 4" by (simp_all add: a_def r_def)
  have "(1461 * i) div 4 = 1461 * a + (1461 * r) div 4" "(1461 * (i + 1)) div 4 = 1461 * a + (1461 * (r + 1)) div 4"
    by (simp_all add: i(1) algebra_simps)
  moreover have "r = 0 \<or> r = 1 \<or> r = 2 \<or> r = 3" using i(2,3) by presburger
  ultimately have r: "r = 3" using assms(3) by auto
  have "100 * (n - 49) + i + 1 = 4 * (25 * (n - 49) + a + 1)" using i(1) r by simp
  then have four: "4 dvd 100 * (n - 49) + i + 1" by (rule dvdI)
  show ?thesis
  proof (cases "i = 99")
    case True
    then have "n mod 4 = 0" using assms(4,5) by (auto split: if_splits)
    then obtain q where "n = 4 * q" by (auto simp: mod_eq_0_iff_dvd)
    then have "100 * (n - 49) + i + 1 = 400 * (q - 12)" using True by simp
    then have "400 dvd 100 * (n - 49) + i + 1" by (rule dvdI)
    then show ?thesis using four by (simp add: isleap_dvd)
  next
    case False
    have "\<not> 100 dvd 100 * (n - 49) + i + 1"
    proof
      assume "100 dvd 100 * (n - 49) + i + 1"
      then have "100 dvd 100 * (n - 49) + (i + 1)" by (simp add: add.assoc)
      then have "100 dvd i + 1" using dvd_add_right_iff [OF dvd_triv_left, of 100 "n - 49" "i + 1"] by blast
      then have "100 \<le> i + 1" using assms(1) by (intro zdvd_imp_le) simp_all
      then show False using False assms(2) by simp
    qed
    then show ?thesis using four by (simp add: isleap_dvd)
  qed
qed


lemma j2date_nonneg:
  assumes "0 \<le> jd"
  obtains n l1 i k j where "n = (4 * (jd + 68569)) div 146097" "l1 = jd + 68569 - (146097 * n + 3) div 4"
    "i = (4000 * (l1 + 1)) div 1461001" "k = l1 - (1461 * i) div 4" "j = (80 * (k + 31)) div 2447"
    "j2date jd = (100 * (n - 49) + i + j div 11, j + 2 - 12 * (j div 11), k + 31 - (2447 * j) div 80)"
    "1 \<le> n" "0 \<le> i" "i \<le> 99" "0 \<le> k" "k \<le> (1461 * (i + 1)) div 4 - (1461 * i) div 4 - 1" "k \<le> 365"
    "0 \<le> l1" "l1 \<le> 36523 + (if n mod 4 = 0 then 1 else 0)" "1 \<le> j" "j \<le> 12"
proof -
  define n where "n = (4 * (jd + 68569)) div 146097"
  define l1 where "l1 = jd + 68569 - (146097 * n + 3) div 4"
  define i where "i = (4000 * (l1 + 1)) div 1461001"
  define k where "k = l1 - (1461 * i) div 4"
  define j where "j = (80 * (k + 31)) div 2447"
  have l: "0 \<le> jd + 68569" using assms by simp
  note c = century [OF l n_def l1_def]
  have l1: "l1 \<le> 36524" using c(2) by (simp split: if_splits)
  note y = century_year [OF c(1) l1 i_def k_def]
  have "(274276 :: int) div 146097 \<le> n" unfolding n_def using assms by (intro zdiv_mono1) simp_all
  then have n: "1 \<le> n" by simp
  define p r where "p = (1461 * i) div 4" and "r = (1461 * (i + 1)) div 4"
  have "1461 * i < 4 * p + 4" "4 * r \<le> 1461 * (i + 1)"
    using div_bounds [of 4 "1461 * i"] div_bounds [of 4 "1461 * (i + 1)"] unfolding p_def r_def by simp_all
  then have k: "k \<le> 365" using y(4) unfolding p_def [symmetric] r_def [symmetric] by simp
  have k31: "31 \<le> k + 31" "k + 31 \<le> 396" using y(3) k by simp_all
  have j: "1 \<le> j" "j \<le> 12" using month_step [OF k31 j_def refl] by blast+
  have s1: "(4 * (jd + 68569)) sdiv 146097 = n" unfolding n_def by (rule sdiv_nonneg) (use l in simp_all)
  have s2: "(146097 * n + 3) sdiv 4 = (146097 * n + 3) div 4" by (rule sdiv_nonneg) (use c(3) in simp_all)
  have s3: "(4000 * (l1 + 1)) sdiv 1461001 = i" unfolding i_def by (rule sdiv_nonneg) (use c(1) in simp_all)
  have s4: "(1461 * i) sdiv 4 = (1461 * i) div 4" by (rule sdiv_nonneg) (use y(1) in simp_all)
  have s5: "l1 + 31 - (1461 * i) div 4 = k + 31" unfolding k_def by simp
  have s6: "(80 * (k + 31)) sdiv 2447 = j" unfolding j_def by (rule sdiv_nonneg) (use y(3) in simp_all)
  have s7: "(2447 * j) sdiv 80 = (2447 * j) div 80" by (rule sdiv_nonneg) (use j(1) in simp_all)
  have s8: "j sdiv 11 = j div 11" by (rule sdiv_nonneg) (use j(1) in simp_all)
  have "j2date jd = (100 * (n - 49) + i + j div 11, j + 2 - 12 * (j div 11), k + 31 - (2447 * j) div 80)"
    unfolding j2date_def Let_def s1 s2 l1_def [symmetric] s3 s4 s5 s6 s7 s8 ..
  then show thesis
    by (rule that [OF n_def l1_def i_def k_def j_def _ n y k c(1,2) j])
qed


lemma month_days_j:
  assumes "1 \<le> j" "j \<le> 12" "m = j + 2 - 12 * (j div 11)"
  shows "1 \<le> m" "m \<le> 12" "(m - 14) sdiv 12 = - (j div 11)" "m - 2 - 12 * (- (j div 11)) = j"
    "month_days y m = (if j = 12 then (if isleap y then 29 else 28) else if j \<in> {2, 4, 7, 9} then 30 else 31)"
  using twelve [OF assms(1,2)] assms(3) by (simp_all, auto simp: month_days_def day_tab_def)

lemma date2j_parts:
  assumes "1 \<le> n" "0 \<le> i" "i \<le> 99" "1 \<le> j" "j \<le> 12"
  shows "date2j (100 * (n - 49) + i + j div 11) (j + 2 - 12 * (j div 11)) d =
    36525 * (n - 1) + (1461 * i) div 4 + (367 * j) div 12 - (3 * n) div 4 + d - 32075"
proof -
  note m = month_days_j [OF assms(4,5) refl]
  have e: "100 * (n - 49) + i + j div 11 + 4800 + - (j div 11) = 100 * (n - 1) + i"
    "100 * (n - 49) + i + j div 11 + 4900 + - (j div 11) = i + n * 100" by simp_all
  have "(1461 * (100 * (n - 1) + i)) sdiv 4 = (1461 * i + 36525 * (n - 1) * 4) div 4"
    using assms(1,2) by (simp add: sdiv_nonneg algebra_simps)
  also have "\<dots> = 36525 * (n - 1) + (1461 * i) div 4" by (rule div_mult_self1) simp
  finally have t1: "(1461 * (100 * (n - 1) + i)) sdiv 4 = 36525 * (n - 1) + (1461 * i) div 4" .
  have "(i + n * 100) sdiv 100 = (i + n * 100) div 100" using assms by (intro sdiv_nonneg) simp_all
  also have "\<dots> = n + i div 100" by (rule div_mult_self1) simp
  finally have t2: "(i + n * 100) sdiv 100 = n" using assms(2,3) by simp
  have "date2j (100 * (n - 49) + i + j div 11) (j + 2 - 12 * (j div 11)) d =
      36525 * (n - 1) + (1461 * i) div 4 + (367 * j) sdiv 12 - (3 * n) sdiv 4 + d - 32075"
    unfolding date2j_def Let_def m(3,4) e t1 t2 ..
  then show ?thesis using assms by (simp add: sdiv_nonneg)
qed

lemma j2date_inverse:
  assumes "0 \<le> jd"
  shows "case j2date jd of (y, m, d) \<Rightarrow> valid_date y m d \<and> date2j y m d = jd"
proof -
  obtain n l1 i k j where g: "n = (4 * (jd + 68569)) div 146097" "l1 = jd + 68569 - (146097 * n + 3) div 4"
    "i = (4000 * (l1 + 1)) div 1461001" "k = l1 - (1461 * i) div 4" "j = (80 * (k + 31)) div 2447"
    and jd: "j2date jd = (100 * (n - 49) + i + j div 11, j + 2 - 12 * (j div 11), k + 31 - (2447 * j) div 80)"
    and b: "1 \<le> n" "0 \<le> i" "i \<le> 99" "0 \<le> k" "k \<le> (1461 * (i + 1)) div 4 - (1461 * i) div 4 - 1" "k \<le> 365"
    "0 \<le> l1" "l1 \<le> 36523 + (if n mod 4 = 0 then 1 else 0)" "1 \<le> j" "j \<le> 12"
    by (rule j2date_nonneg [OF assms])
  let ?y = "100 * (n - 49) + i + j div 11" and ?m = "j + 2 - 12 * (j div 11)" and ?d = "k + 31 - (2447 * j) div 80"
  have k31: "31 \<le> k + 31" "k + 31 \<le> 396" using b(4,6) by simp_all
  from month_step [OF k31 g(5) refl] have ms: "1 \<le> ?d" "(2447 * j) div 80 = (367 * j) div 12"
    "?d \<le> (if j = 12 then (if k + 31 = 396 then 29 else 28) else if j \<in> {2, 4, 7, 9} then 30 else 31)"
    by blast+
  note mj = month_days_j [OF b(9,10) refl]
  have "?d \<le> month_days ?y ?m"
  proof (cases "j = 12 \<and> k = 365")
    case True
    then have "isleap ?y" using leap_day [OF b(2,3) _ _ b(8)] b(5) g(4) by simp
    then show ?thesis using True ms(3) unfolding mj(5) by simp
  next
    case False
    then have "k + 31 \<noteq> 396 \<or> j \<noteq> 12" by auto
    then show ?thesis using ms(3) unfolding mj(5) by (cases "j = 12") simp_all
  qed
  then have "valid_date ?y ?m ?d" using mj(1,2) ms(1) unfolding valid_date_def by blast
  moreover have "date2j ?y ?m ?d = jd"
  proof -
    have n3: "(146097 * n + 3) div 4 = 36524 * n + (n + 3) div 4"
      using div_mult_self1 [of 4 "n + 3" "36524 * n"] by (simp add: algebra_simps)
    have "n = (n + 3) div 4 + (3 * n) div 4" by presburger
    then show ?thesis
      unfolding date2j_parts [OF b(1,2,3,9,10)] using ms(2) g(2,4) n3 by simp
  qed
  ultimately show ?thesis by (simp add: jd)
qed

section \<open>From a date to its Julian day and back\<close>

lemma div4_step: "(1461 * (w::int)) div 4 - (1461 * (w - 1)) div 4 = (if 4 dvd w then 366 else 365)"
proof -
  define a r where "a = w div 4" and "r = w mod 4"
  have w: "w = 4 * a + r" "0 \<le> r" "r < 4" by (simp_all add: a_def r_def)
  have e: "(1461 * w) div 4 = 1461 * a + (1461 * r) div 4" "(1461 * (w - 1)) div 4 = 1461 * a + (1461 * (r - 1)) div 4"
    by (simp_all add: w(1) algebra_simps)
  have "4 dvd w \<longleftrightarrow> r = 0" by (simp add: r_def dvd_eq_mod_eq_0)
  moreover have "r = 0 \<or> r = 1 \<or> r = 2 \<or> r = 3" using w(2,3) by presburger
  ultimately show ?thesis unfolding e by auto
qed

lemma century_step:
  "(3 * ((w + 100) div 100)) div 4 - (3 * ((w + 99) div 100)) div 4 = (if 100 dvd w \<and> \<not> 400 dvd (w::int) then 1 else 0)"
proof (cases "100 dvd w")
  case True
  then obtain c where c: "w = 100 * c" by blast
  have e: "(w + 100) div 100 = c + 1" "(w + 99) div 100 = c" by (simp_all add: c)
  define a r where "a = c div 4" and "r = c mod 4"
  have ar: "c = 4 * a + r" "0 \<le> r" "r < 4" by (simp_all add: a_def r_def)
  have d: "(3 * (c + 1)) div 4 = 3 * a + (3 * (r + 1)) div 4" "(3 * c) div 4 = 3 * a + (3 * r) div 4"
    by (simp_all add: ar(1) algebra_simps)
  have "400 dvd w \<longleftrightarrow> 4 dvd c" unfolding c using dvd_mult_cancel_left [of 100 4 c] by simp
  then have "400 dvd w \<longleftrightarrow> r = 0" by (simp add: r_def dvd_eq_mod_eq_0)
  moreover have "r = 0 \<or> r = 1 \<or> r = 2 \<or> r = 3" using ar(2,3) by presburger
  ultimately show ?thesis unfolding e d using True by auto
next
  case False
  then have "0 < w mod 100" using pos_mod_sign [of 100 w] by (simp add: dvd_eq_mod_eq_0 order_less_le)
  then have m: "1 \<le> w mod 100" "w mod 100 < 100" by simp_all
  have w: "w = 100 * (w div 100) + w mod 100" by simp
  have "(w + 100) div 100 = w div 100 + 1" by simp
  moreover have "(w + 99) div 100 = w div 100 + 1"
    by (rule int_div_pos_eq [of _ _ _ "w mod 100 - 1"]) (use m w in simp_all)
  ultimately show ?thesis using False by simp
qed

lemma february:
  assumes "- 4799 \<le> y"
  shows "date2j y 3 1 = date2j y 2 1 + (if isleap y then 29 else 28)"
proof -
  define w where "w = y + 4800"
  define a b c d where "a = (1461 * w) div 4" and "b = (1461 * (w - 1)) div 4"
    and "c = (3 * ((w + 100) div 100)) div 4" and "d = (3 * ((w + 99) div 100)) div 4"
  have w1: "1 \<le> w" using assms by (simp add: w_def)
  have e: "y + 4800 + 0 = w" "y + 4900 + 0 = w + 100" "y + 4800 + - 1 = w - 1" "y + 4900 + - 1 = w + 99" by (simp_all add: w_def)
  have m: "(3 - 14) sdiv 12 = (0 :: int)" "(2 - 14) sdiv 12 = (- 1 :: int)" "367 * (3 - 2 - 12 * 0) sdiv 12 = (30 :: int)"
    "367 * (2 - 2 - 12 * - 1) sdiv 12 = (367 :: int)" by simp_all
  have h: "0 \<le> (w + 100) div 100" "0 \<le> (w + 99) div 100" using w1 by simp_all
  have s: "1461 * w sdiv 4 = a" "1461 * (w - 1) sdiv 4 = b" "(w + 100) sdiv 100 = (w + 100) div 100" "(w + 99) sdiv 100 = (w + 99) div 100"
    "3 * ((w + 100) div 100) sdiv 4 = c" "3 * ((w + 99) div 100) sdiv 4 = d"
    unfolding a_def b_def c_def d_def by (rule sdiv_nonneg; use w1 h in simp)+
  have d3: "date2j y 3 1 = a + 30 - c + 1 - 32075" unfolding date2j_def Let_def m e s ..
  have d2: "date2j y 2 1 = b + 367 - d + 1 - 32075" unfolding date2j_def Let_def m e s ..
  have ab: "a - b = (if 4 dvd w then 366 else 365)" unfolding a_def b_def by (rule div4_step)
  have cd: "c - d = (if 100 dvd w \<and> \<not> 400 dvd w then 1 else 0)" unfolding c_def d_def by (rule century_step)
  have "k dvd y \<longleftrightarrow> k dvd w" if "k dvd 4800" for k using dvd_add_left_iff [OF that, of y] by (simp add: w_def)
  then have leap: "isleap y \<longleftrightarrow> 4 dvd w \<and> (\<not> 100 dvd w \<or> 400 dvd w)" unfolding isleap_dvd by simp
  have four: "4 dvd w" if "100 dvd w" by (rule dvd_trans [OF _ that]) simp
  have "a - b - (c - d) = (if isleap y then 366 else 365)" unfolding ab cd leap using four by (auto simp del: dvd_imp_le)
  then show ?thesis unfolding d2 d3 by (cases "isleap y") simp_all
qed

text \<open>The first days of the months, numbered through the years.\<close>

definition month_start :: "int \<Rightarrow> int" where
  "month_start n = date2j (n div 12) (n mod 12 + 1) 1"

lemma date2j_day: "date2j y m d = date2j y m 1 + d - 1"
  by (simp add: date2j_def Let_def)

lemma month_number:
  assumes "1 \<le> (m::int)" "m \<le> 12"
  shows "(12 * y + m - 1) div 12 = y" "(12 * y + m - 1) mod 12 = m - 1"
proof -
  have "12 * y + m - 1 = 12 * y + (m - 1)" "0 \<le> m - 1" "m - 1 < 12" using assms by simp_all
  then show "(12 * y + m - 1) div 12 = y" "(12 * y + m - 1) mod 12 = m - 1"
    by (auto intro: int_div_pos_eq int_mod_pos_eq)
qed

lemma month_step_start:
  assumes "1 \<le> m" "m \<le> 12" "- 4799 \<le> y"
  shows "month_start (12 * y + m) = date2j y m 1 + month_days y m"
proof (cases "m = 12")
  case True
  have "12 * y + 12 = 12 * (y + 1) + 1 - 1" by simp
  then have "month_start (12 * y + 12) = date2j (y + 1) 1 1"
    unfolding month_start_def using month_number [of 1 "y + 1"] by simp
  moreover have "date2j (y + 1) 1 1 = date2j y 12 1 + 31" by (simp add: date2j_def Let_def add.commute)
  ultimately show ?thesis using True by (simp add: month_days_def day_tab_def)
next
  case False
  then have m: "1 \<le> m + 1" "m + 1 \<le> 12" using assms by simp_all
  have "month_start (12 * y + m) = date2j y (m + 1) 1"
    unfolding month_start_def using month_number [OF m, of y] by (simp add: algebra_simps)
  moreover have "date2j y (m + 1) 1 = date2j y m 1 + month_days y m"
  proof (cases "m = 2")
    case True
    then show ?thesis using february [OF assms(3)] by (simp add: month_days_def day_tab_def)
  next
    case m2: False
    let ?c = "(m - 14) sdiv 12"
    have c: "(m + 1 - 14) sdiv 12 = ?c" using twelve [OF assms(1,2)] False m2 by auto
    have "date2j y (m + 1) 1 = date2j y m 1 + ((367 * (m + 1 - 2 - 12 * ?c)) sdiv 12 - (367 * (m - 2 - 12 * ?c)) sdiv 12)"
      unfolding date2j_def Let_def c by simp
    moreover have "(367 * (m + 1 - 2 - 12 * ?c)) sdiv 12 - (367 * (m - 2 - 12 * ?c)) sdiv 12 = month_days y m"
      using twelve [OF assms(1,2)] False m2 by (auto simp: month_days_def day_tab_def)
    ultimately show ?thesis by simp
  qed
  ultimately show ?thesis by simp
qed

lemma month_days_pos:
  assumes "1 \<le> m" "m \<le> 12"
  shows "28 \<le> month_days y m"
  using twelve [OF assms] by (auto simp: month_days_def day_tab_def)

lemma month_start_mono:
  assumes "- 57588 \<le> n" "n \<le> n'"
  shows "month_start n \<le> month_start n'"
  using assms(2)
proof (induction n' rule: int_ge_induct)
  case (step k)
  define y m where "y = k div 12" and "m = k mod 12 + 1"
  have k: "k = 12 * y + m - 1" "1 \<le> m" "m \<le> 12" by (simp_all add: y_def m_def)
  have "(- 57588) div 12 \<le> y" unfolding y_def by (rule zdiv_mono1) (use step.hyps assms(1) in simp_all)
  then have "month_start (12 * y + m) = date2j y m 1 + month_days y m" by (intro month_step_start [OF k(2,3)]) simp
  moreover have "12 * y + m = k + 1" using k(1) by simp
  moreover have "date2j y m 1 = month_start k" by (simp add: month_start_def y_def m_def)
  ultimately show ?case using step.IH month_days_pos [OF k(2,3), of y] by simp
qed simp

lemma date2j_in_month:
  assumes "valid_date y m d" "- 4799 \<le> y"
  shows "month_start (12 * y + m - 1) \<le> date2j y m d" "date2j y m d < month_start (12 * y + m - 1 + 1)"
proof -
  have m: "1 \<le> m" "m \<le> 12" "1 \<le> d" "d \<le> month_days y m" using assms(1) by (simp_all add: valid_date_def)
  have "month_start (12 * y + m - 1) = date2j y m 1" using month_number [OF m(1,2), of y] by (simp add: month_start_def)
  then show "month_start (12 * y + m - 1) \<le> date2j y m d" using date2j_day [of y m d] m(3) by simp
  show "date2j y m d < month_start (12 * y + m - 1 + 1)"
    using month_step_start [OF m(1,2) assms(2)] date2j_day [of y m d] m(4) by simp
qed

lemma date2j_inject:
  assumes "valid_date y m d" "valid_date y' m' d'" "- 4799 \<le> y" "- 4799 \<le> y'" "date2j y m d = date2j y' m' d'"
  shows "y = y'" "m = m'" "d = d'"
proof -
  let ?n = "12 * y + m - 1" and ?n' = "12 * y' + m' - 1"
  have b: "1 \<le> m" "m \<le> 12" "1 \<le> m'" "m' \<le> 12" using assms(1,2) by (simp_all add: valid_date_def)
  have n: "- 57588 \<le> ?n + 1" "- 57588 \<le> ?n' + 1" using assms(3,4) b by simp_all
  note p = date2j_in_month [OF assms(1,3)] and p' = date2j_in_month [OF assms(2,4)]
  have "\<not> ?n + 1 \<le> ?n'" using month_start_mono [OF n(1), of ?n'] p(2) p'(1) assms(5) by auto
  moreover have "\<not> ?n' + 1 \<le> ?n" using month_start_mono [OF n(2), of ?n] p'(2) p(1) assms(5) by auto
  ultimately have e: "?n = ?n'" by simp
  then have "?n div 12 = ?n' div 12" "?n mod 12 = ?n' mod 12" by simp_all
  then show "y = y'" "m = m'" using month_number [OF b(1,2), of y] month_number [OF b(3,4), of y'] by simp_all
  then show "d = d'" using assms(5) date2j_day [of y m d] date2j_day [of y m d'] by simp
qed

lemma j2date_valid_julian:
  assumes "0 \<le> jd" "j2date jd = (y, m, d)"
  shows "IS_VALID_JULIAN y m d"
proof -
  obtain n l1 i k j where g: "n = (4 * (jd + 68569)) div 146097" "l1 = jd + 68569 - (146097 * n + 3) div 4"
    "i = (4000 * (l1 + 1)) div 1461001" "k = l1 - (1461 * i) div 4" "j = (80 * (k + 31)) div 2447"
    and jd: "j2date jd = (100 * (n - 49) + i + j div 11, j + 2 - 12 * (j div 11), k + 31 - (2447 * j) div 80)"
    and b: "1 \<le> n" "0 \<le> i" "i \<le> 99" "0 \<le> k" "k \<le> (1461 * (i + 1)) div 4 - (1461 * i) div 4 - 1" "k \<le> 365"
    "0 \<le> l1" "l1 \<le> 36523 + (if n mod 4 = 0 then 1 else 0)" "1 \<le> j" "j \<le> 12"
    by (rule j2date_nonneg [OF assms(1)])
  have y: "y = 100 * (n - 49) + i + j div 11" "m = j + 2 - 12 * (j div 11)" "d = k + 31 - (2447 * j) div 80"
    using assms(2) jd by simp_all
  have c: "0 \<le> j div 11" using b(9) by simp
  have "y > -4713 \<or> y = -4713 \<and> (m > 11 \<or> m = 11 \<and> d \<ge> 23)"
  proof (cases "n = 1")
    case False
    then have "2 \<le> n" using b(1) by simp
    then have "-4713 < y" using y(1) b(2) c by simp
    then show ?thesis by simp
  next
    case True
    then have l1: "32044 \<le> l1" using g(2) assms(1) by simp
    have "(4000 * 32045) div 1461001 \<le> i" unfolding g(3) by (rule zdiv_mono1) (use l1 in simp_all)
    then have i: "87 \<le> i" by simp
    show ?thesis
    proof (cases "i = 87")
      case False
      then have "88 \<le> i" using i by simp
      then have "-4713 < y" using y(1) True c by simp
      then show ?thesis by simp
    next
      case i87: True
      then have k: "268 \<le> k" using l1 g(4) by simp
      have "(80 * 299) div 2447 \<le> j" unfolding g(5) by (rule zdiv_mono1) (use k in simp_all)
      then have j: "9 \<le> j" by simp
      then have "j = 9 \<or> j = 10 \<or> j = 11 \<or> j = 12" using b(10) by presburger
      then show ?thesis using y True i87 k by auto
    qed
  qed
  then show ?thesis by (simp add: IS_VALID_JULIAN_def JULIAN_MINYEAR_def JULIAN_MINMONTH_def JULIAN_MINDAY_def)
qed

lemma date2j_inverse:
  assumes "valid_date y m d" "IS_VALID_JULIAN y m d" "0 \<le> date2j y m d"
  shows "j2date (date2j y m d) = (y, m, d)"
proof -
  obtain y' m' d' where j: "j2date (date2j y m d) = (y', m', d')" by (cases "j2date (date2j y m d)") auto
  then have v: "valid_date y' m' d'" "date2j y' m' d' = date2j y m d" using j2date_inverse [OF assms(3)] by simp_all
  have "IS_VALID_JULIAN y' m' d'" by (rule j2date_valid_julian [OF assms(3) j])
  then have "- 4799 \<le> y" "- 4799 \<le> y'" using assms(2) by (auto simp: IS_VALID_JULIAN_def JULIAN_MINYEAR_def)
  with date2j_inject [OF v(1) assms(1)] v(2) show ?thesis by (simp add: j)
qed

text \<open>The earliest date that \<^verbatim>\<open>IS_VALID_JULIAN\<close> accepts is one day before Julian day 0.\<close>

lemma valid_julian_negative: "IS_VALID_JULIAN (-4713) 11 23" "date2j (-4713) 11 23 = -1"
  by (simp_all add: IS_VALID_JULIAN_def JULIAN_MINYEAR_def JULIAN_MINMONTH_def JULIAN_MINDAY_def date2j_def Let_def)



section \<open>From a timestamp to its fields and back\<close>

lemma tmodulo_floor:
  assumes "0 < u"
  shows "(case TMODULO t u of (q, r) \<Rightarrow> if r < 0 then (q - 1, r + u) else (q, r)) = (t div u, t mod u)"
proof (cases "0 \<le> t")
  case True
  then have "t sdiv u = t div u" using assms by (rule sdiv_nonneg)
  moreover have "t - t div u * u = t mod u" by (simp add: minus_div_mult_eq_mod)
  moreover have "t div u = 0 \<Longrightarrow> t = t mod u" using mult_div_mod_eq [of u t] by simp
  moreover have "0 \<le> t mod u" using assms by simp
  ultimately show ?thesis by (auto simp: TMODULO_def Let_def)
next
  case False
  define q r where "q = (- t) div u" and "r = (- t) mod u"
  have "u * q + r = - t" unfolding q_def r_def by (rule mult_div_mod_eq)
  then have t: "t = - q * u - r" by (simp add: algebra_simps)
  have sd: "t sdiv u = - q" using False assms by (simp add: signed_divide_int_def q_def)
  have r: "0 \<le> r" "r < u" using assms by (simp_all add: r_def)
  have tm: "TMODULO t u = (- q, - r)" using sd t by (auto simp: TMODULO_def Let_def)
  show ?thesis
  proof (cases "r = 0")
    case True
    then have "t = u * (- q)" using t by simp
    then have "t div u = - q" "t mod u = 0"
      using assms nonzero_mult_div_cancel_left [of u "- q"] by simp_all
    then show ?thesis using tm True by simp
  next
    case False
    have "t = u * (- q - 1) + (u - r)" using t by (simp add: algebra_simps)
    moreover have "0 \<le> u - r" "u - r < u" using r False by simp_all
    ultimately have "t div u = - q - 1" "t mod u = u - r" by (blast intro: int_div_pos_eq int_mod_pos_eq)+
    then show ?thesis using tm r(1) False by simp
  qed
qed

lemma dt2time_fields:
  assumes "0 \<le> t" "t < USECS_PER_DAY" "dt2time t = (hour, minute, sec, fsec)"
  shows "0 \<le> hour \<and> hour < 24 \<and> 0 \<le> minute \<and> minute < 60 \<and> 0 \<le> sec \<and> sec < 60 \<and> 0 \<le> fsec \<and> fsec < 1000000"
    "time2t hour minute sec fsec = t"
proof -
  define t1 where "t1 = t - hour * 3600000000"
  define t2 where "t2 = t1 - minute * 60000000"
  have raw: "hour = t sdiv 3600000000" "minute = t1 sdiv 60000000" "sec = t2 sdiv 1000000" "fsec = t2 - sec * 1000000"
    using assms(3) unfolding t2_def t1_def dt2time_def Let_def prod.inject by auto
  have "hour = t div 3600000000" unfolding raw(1) by (rule sdiv_nonneg) (use assms(1) in simp_all)
  then have hb: "3600000000 * hour \<le> t" "t < 3600000000 * hour + 3600000000" using div_bounds [of 3600000000 t] by simp_all
  then have t1: "0 \<le> t1" "t1 < 3600000000" by (simp_all add: t1_def)
  have "minute = t1 div 60000000" unfolding raw(2) by (rule sdiv_nonneg) (use t1(1) in simp_all)
  then have mb: "60000000 * minute \<le> t1" "t1 < 60000000 * minute + 60000000" using div_bounds [of 60000000 t1] by simp_all
  then have t2: "0 \<le> t2" "t2 < 60000000" by (simp_all add: t2_def)
  have "sec = t2 div 1000000" unfolding raw(3) by (rule sdiv_nonneg) (use t2(1) in simp_all)
  then have sb: "1000000 * sec \<le> t2" "t2 < 1000000 * sec + 1000000" using div_bounds [of 1000000 t2] by simp_all
  have "0 \<le> hour" "hour < 24" using hb assms(1,2) by (simp_all add: USECS_PER_DAY_def)
  moreover have "0 \<le> minute" "minute < 60" using mb t1 by simp_all
  moreover have "0 \<le> sec" "sec < 60" using sb t2 by simp_all
  moreover have "0 \<le> fsec" "fsec < 1000000" using sb raw(4) by simp_all
  ultimately show "0 \<le> hour \<and> hour < 24 \<and> 0 \<le> minute \<and> minute < 60 \<and> 0 \<le> sec \<and> sec < 60 \<and> 0 \<le> fsec \<and> fsec < 1000000"
    by simp
  show "time2t hour minute sec fsec = t"
    using raw(4) by (simp add: time2t_def t2_def t1_def algebra_simps)
qed


lemma date2j_epoch: "date2j 2000 1 1 = 2451545"
  by (simp add: date2j_def Let_def)

definition valid_tm :: "tm \<Rightarrow> int \<Rightarrow> bool" where
  "valid_tm t fsec \<longleftrightarrow> valid_date (tm_year t) (tm_mon t) (tm_mday t) \<and> 0 \<le> tm_hour t \<and> tm_hour t < 24 \<and>
     0 \<le> tm_min t \<and> tm_min t < 60 \<and> 0 \<le> tm_sec t \<and> tm_sec t < 60 \<and> 0 \<le> fsec \<and> fsec < 1000000"

lemma usecs_pos: "0 < USECS_PER_DAY"
  by (simp add: USECS_PER_DAY_def)

lemma timestamp2tm_floor:
  "timestamp2tm dt =
     (if dt div USECS_PER_DAY < - 2451545 then None
      else case j2date (dt div USECS_PER_DAY + 2451545) of (y, m, d) \<Rightarrow>
           case dt2time (dt mod USECS_PER_DAY) of (hour, minute, sec, fsec) \<Rightarrow>
             Some (\<lparr>tm_year = y, tm_mon = m, tm_mday = d, tm_hour = hour, tm_min = minute, tm_sec = sec\<rparr>, fsec))"
proof -
  obtain q r where qr: "TMODULO dt USECS_PER_DAY = (q, r)" by (cases "TMODULO dt USECS_PER_DAY")
  have "(if r < 0 then (q - 1, r + USECS_PER_DAY) else (q, r)) = (dt div USECS_PER_DAY, dt mod USECS_PER_DAY)"
    using tmodulo_floor [OF usecs_pos, of dt] unfolding qr prod.case .
  then show ?thesis
    unfolding timestamp2tm_def Let_def qr prod.case date2j_epoch by (simp only: prod.case)
qed

lemma timestamp_codec:
  "case timestamp2tm dt of
     None \<Rightarrow> dt < - 2451545 * USECS_PER_DAY
   | Some (t, fsec) \<Rightarrow> - 2451545 * USECS_PER_DAY \<le> dt \<and> valid_tm t fsec \<and> tm2timestamp t fsec None = Some dt"
proof -
  define q r where "q = dt div USECS_PER_DAY" and "r = dt mod USECS_PER_DAY"
  have r: "0 \<le> r" "r < USECS_PER_DAY" using usecs_pos by (simp_all add: r_def)
  have dt: "q * USECS_PER_DAY + r = dt" by (simp add: q_def r_def)
  show ?thesis
  proof (cases "q < - 2451545")
    case True
    then have "(q + 1) * USECS_PER_DAY \<le> - 2451545 * USECS_PER_DAY" using usecs_pos by (intro mult_right_mono) simp_all
    then have "dt < - 2451545 * USECS_PER_DAY" using dt r(2) by (simp add: distrib_right)
    then show ?thesis using True by (simp add: timestamp2tm_floor q_def)
  next
    case False
    obtain y m d where j: "j2date (q + 2451545) = (y, m, d)" by (cases "j2date (q + 2451545)") auto
    obtain hour minute sec fsec where t: "dt2time r = (hour, minute, sec, fsec)" by (cases "dt2time r") auto
    have jd: "valid_date y m d" "date2j y m d = q + 2451545"
      using j2date_inverse [of "q + 2451545"] False by (simp_all add: j)
    note tf = dt2time_fields [OF r t]
    have "- 2451545 * USECS_PER_DAY \<le> q * USECS_PER_DAY" using False usecs_pos by (intro mult_right_mono) simp_all
    then have "- 2451545 * USECS_PER_DAY \<le> dt" using dt r(1) by simp
    moreover have "IS_VALID_JULIAN y m d" using False by (intro j2date_valid_julian [OF _ j]) simp
    then have "tm2timestamp \<lparr>tm_year = y, tm_mon = m, tm_mday = d, tm_hour = hour, tm_min = minute, tm_sec = sec\<rparr> fsec None = Some dt"
      by (simp add: tm2timestamp_def Let_def jd(2) date2j_epoch tf(2) dt)
    ultimately show ?thesis
      using False jd(1) tf(1) by (simp add: timestamp2tm_floor q_def [symmetric] r_def [symmetric] j t valid_tm_def)
  qed
qed

lemma timestamp_decoded: "timestamp2tm dt = Some (t, fsec) \<Longrightarrow> valid_tm t fsec"
  using timestamp_codec [of dt] by simp

text \<open>
  C36. \<^verbatim>\<open>timestamp2tm\<close> succeeds exactly for the timestamps from Julian day 0 on; then all fields are
  in their ranges and \<^verbatim>\<open>tm2timestamp\<close> of them is the timestamp again, down to the microsecond.
\<close>

theorem timestamp_roundtrip:
  "case timestamp2tm dt of
     None \<Rightarrow> dt < - 2451545 * USECS_PER_DAY
   | Some (t, fsec) \<Rightarrow> - 2451545 * USECS_PER_DAY \<le> dt \<and> valid_tm t fsec \<and> tm2timestamp t fsec None = Some dt"
  by (rule timestamp_codec)

lemma dt2time_time2t:
  assumes "0 \<le> hour" "0 \<le> minute" "minute < 60" "0 \<le> sec" "sec < 60" "0 \<le> fsec" "fsec < 1000000"
  shows "dt2time (time2t hour minute sec fsec) = (hour, minute, sec, fsec)"
proof -
  define t2 where "t2 = sec * 1000000 + fsec"
  define t1 where "t1 = minute * 60000000 + t2"
  define t where "t = hour * 3600000000 + t1"
  have t2: "0 \<le> t2" "t2 < 60000000" using assms by (simp_all add: t2_def)
  have t1: "0 \<le> t1" "t1 < 3600000000" using t2 assms by (simp_all add: t1_def)
  have t: "time2t hour minute sec fsec = t" "0 \<le> t" using t1 assms by (simp_all add: time2t_def t_def t1_def t2_def)
  have "t sdiv 3600000000 = hour"
    by (subst sdiv_nonneg) (use t(2) t1 in \<open>simp_all add: int_div_pos_eq [of t 3600000000 hour t1] t_def\<close>)
  moreover have "t1 sdiv 60000000 = minute"
    by (subst sdiv_nonneg) (use t1(1) t2 in \<open>simp_all add: int_div_pos_eq [of t1 60000000 minute t2] t1_def\<close>)
  moreover have "t2 sdiv 1000000 = sec"
    by (subst sdiv_nonneg) (use t2(1) assms in \<open>simp_all add: int_div_pos_eq [of t2 1000000 sec fsec] t2_def\<close>)
  moreover have "t - hour * 3600000000 = t1" "t1 - minute * 60000000 = t2" "t2 - sec * 1000000 = fsec"
    by (simp_all add: t_def t1_def t2_def)
  ultimately show ?thesis unfolding t(1) dt2time_def Let_def by simp
qed

lemma tm_roundtrip:
  assumes "valid_tm t fsec" "IS_VALID_JULIAN (tm_year t) (tm_mon t) (tm_mday t)" "0 \<le> date2j (tm_year t) (tm_mon t) (tm_mday t)"
  obtains ts where "tm2timestamp t fsec None = Some ts" "timestamp2tm ts = Some (t, fsec)"
proof -
  define j r where "j = date2j (tm_year t) (tm_mon t) (tm_mday t)" and "r = time2t (tm_hour t) (tm_min t) (tm_sec t) fsec"
  have v: "valid_date (tm_year t) (tm_mon t) (tm_mday t)" "0 \<le> tm_hour t" "tm_hour t < 24" "0 \<le> tm_min t" "tm_min t < 60"
    "0 \<le> tm_sec t" "tm_sec t < 60" "0 \<le> fsec" "fsec < 1000000"
    using assms(1) by (simp_all add: valid_tm_def)
  have r: "0 \<le> r" "r < USECS_PER_DAY" using v by (simp_all add: r_def time2t_def USECS_PER_DAY_def)
  let ?ts = "(j - 2451545) * USECS_PER_DAY + r"
  have tm: "tm2timestamp t fsec None = Some ?ts"
    using assms(2) by (simp add: tm2timestamp_def Let_def date2j_epoch j_def r_def)
  have q: "?ts div USECS_PER_DAY = j - 2451545" "?ts mod USECS_PER_DAY = r"
    using r by (simp_all add: div_pos_pos_trivial mod_pos_pos_trivial)
  have "r mod USECS_PER_DAY = r" using r by (rule mod_pos_pos_trivial)
  then have "timestamp2tm ?ts = Some (t, fsec)"
    using assms(3) date2j_inverse [OF v(1) assms(2,3)] dt2time_time2t [OF v(2,4-9)]
    by (simp add: timestamp2tm_floor q j_def [symmetric] r_def [symmetric])
  with tm show thesis by (rule that)
qed

end
