(* ===== verification/Timestamp_Arith.thy ===== *)
theory Timestamp_Arith
  imports Calendar
begin

text \<open>
  Timestamps and intervals (\<^verbatim>\<open>src/src/backend/utils/adt/timestamp.c\<close>, integer timestamps): comparison,
  precision, the SQL operator OVERLAPS, and the arithmetic the windows are made of. An interval has a
  number of months, whose length depends on the date, and a number of microseconds. Where the code
  computes in \<^verbatim>\<open>double\<close>, the rounding of a real number to a double is the argument \<open>fl\<close>;
  \<open>double_rounding\<close> says what is known of it.
\<close>

section \<open>Timestamps\<close>

type_synonym timestamp = int

definition DT_NOBEGIN :: timestamp where "DT_NOBEGIN = - 0x7fffffffffffffff - 1"
definition DT_NOEND :: timestamp where "DT_NOEND = 0x7fffffffffffffff"

definition TIMESTAMP_NOT_FINITE :: "timestamp \<Rightarrow> bool" where
  "TIMESTAMP_NOT_FINITE j \<longleftrightarrow> j = DT_NOBEGIN \<or> j = DT_NOEND"

definition timestamp_finite :: "timestamp \<Rightarrow> bool" where
  "timestamp_finite t \<longleftrightarrow> \<not> TIMESTAMP_NOT_FINITE t"

definition timestamp_cmp_internal :: "timestamp \<Rightarrow> timestamp \<Rightarrow> int" where
  "timestamp_cmp_internal dt1 dt2 = (if dt1 < dt2 then -1 else if dt1 > dt2 then 1 else 0)"

definition timestamp_eq :: "timestamp \<Rightarrow> timestamp \<Rightarrow> bool" where
  "timestamp_eq dt1 dt2 \<longleftrightarrow> timestamp_cmp_internal dt1 dt2 = 0"

definition timestamp_ne :: "timestamp \<Rightarrow> timestamp \<Rightarrow> bool" where
  "timestamp_ne dt1 dt2 \<longleftrightarrow> timestamp_cmp_internal dt1 dt2 \<noteq> 0"

definition timestamp_lt :: "timestamp \<Rightarrow> timestamp \<Rightarrow> bool" where
  "timestamp_lt dt1 dt2 \<longleftrightarrow> timestamp_cmp_internal dt1 dt2 < 0"

definition timestamp_gt :: "timestamp \<Rightarrow> timestamp \<Rightarrow> bool" where
  "timestamp_gt dt1 dt2 \<longleftrightarrow> timestamp_cmp_internal dt1 dt2 > 0"

definition timestamp_le :: "timestamp \<Rightarrow> timestamp \<Rightarrow> bool" where
  "timestamp_le dt1 dt2 \<longleftrightarrow> timestamp_cmp_internal dt1 dt2 \<le> 0"

definition timestamp_ge :: "timestamp \<Rightarrow> timestamp \<Rightarrow> bool" where
  "timestamp_ge dt1 dt2 \<longleftrightarrow> timestamp_cmp_internal dt1 dt2 \<ge> 0"

definition timestamp_cmp :: "timestamp \<Rightarrow> timestamp \<Rightarrow> int" where
  "timestamp_cmp dt1 dt2 = timestamp_cmp_internal dt1 dt2"

definition timestamp_smaller :: "timestamp \<Rightarrow> timestamp \<Rightarrow> timestamp" where
  "timestamp_smaller dt1 dt2 = (if dt2 < dt1 then dt2 else dt1)"

definition timestamp_larger :: "timestamp \<Rightarrow> timestamp \<Rightarrow> timestamp" where
  "timestamp_larger dt1 dt2 = (if dt2 > dt1 then dt2 else dt1)"

definition MAX_TIMESTAMP_PRECISION :: int where "MAX_TIMESTAMP_PRECISION = 6"

definition TimestampScales :: "int list" where
  "TimestampScales = [1000000, 100000, 10000, 1000, 100, 10, 1]"

definition TimestampOffsets :: "int list" where
  "TimestampOffsets = [500000, 50000, 5000, 500, 50, 5, 0]"

definition AdjustTimestampForTypmod :: "timestamp \<Rightarrow> int \<Rightarrow> timestamp outcome" where
  "AdjustTimestampForTypmod time typmod =
     (if \<not> TIMESTAMP_NOT_FINITE time \<and> typmod \<noteq> -1 \<and> typmod \<noteq> MAX_TIMESTAMP_PRECISION
      then
        if typmod < 0 \<or> typmod > MAX_TIMESTAMP_PRECISION
        then Inl (Elog_error ''TIMESTAMP precision must be between 0 and 6'')
        else
          let scale = TimestampScales ! nat typmod; offset = TimestampOffsets ! nat typmod
          in if time \<ge> 0 then Inr (((time + offset) sdiv scale) * scale)
             else Inr (- ((((- time) + offset) sdiv scale) * scale))
      else Inr time)"

text \<open>OVERLAPS: \<open>None\<close> is the SQL null, for arguments and for the result.\<close>

definition order_endpoints :: "timestamp option \<Rightarrow> timestamp option \<Rightarrow> (timestamp \<times> timestamp option) option" where
  "order_endpoints ts te =
     (case ts of
        None \<Rightarrow> (case te of None \<Rightarrow> None | Some e \<Rightarrow> Some (e, None))
      | Some s \<Rightarrow>
          (case te of
             None \<Rightarrow> Some (s, None)
           | Some e \<Rightarrow> if timestamp_gt s e then Some (e, Some s) else Some (s, Some e)))"

definition overlaps_timestamp ::
  "timestamp option \<Rightarrow> timestamp option \<Rightarrow> timestamp option \<Rightarrow> timestamp option \<Rightarrow> bool option" where
  "overlaps_timestamp ts1 te1 ts2 te2 =
     (case order_endpoints ts1 te1 of
        None \<Rightarrow> None
      | Some (s1, e1) \<Rightarrow>
          (case order_endpoints ts2 te2 of
             None \<Rightarrow> None
           | Some (s2, e2) \<Rightarrow>
               if timestamp_gt s1 s2 then
                 (case e2 of
                    None \<Rightarrow> None
                  | Some e \<Rightarrow> if timestamp_lt s1 e then Some True
                              else (case e1 of None \<Rightarrow> None | Some _ \<Rightarrow> Some False))
               else if timestamp_lt s1 s2 then
                 (case e1 of
                    None \<Rightarrow> None
                  | Some e \<Rightarrow> if timestamp_lt s2 e then Some True
                              else (case e2 of None \<Rightarrow> None | Some _ \<Rightarrow> Some False))
               else if e1 = None \<or> e2 = None then None else Some True))"

section \<open>Intervals\<close>

record Interval =
  i_time :: int
  i_month :: int

definition interval_to_timespan :: "Interval \<Rightarrow> int" where
  "interval_to_timespan i = (if i_month i \<noteq> 0 then i_time i + i_month i * 30 * 86400000000 else i_time i)"

definition interval_cmp_internal :: "Interval \<Rightarrow> Interval \<Rightarrow> int" where
  "interval_cmp_internal i1 i2 =
     (let span1 = interval_to_timespan i1; span2 = interval_to_timespan i2
      in if span1 < span2 then -1 else if span1 > span2 then 1 else 0)"

definition interval_eq :: "Interval \<Rightarrow> Interval \<Rightarrow> bool" where
  "interval_eq i1 i2 \<longleftrightarrow> interval_cmp_internal i1 i2 = 0"

definition interval_ne :: "Interval \<Rightarrow> Interval \<Rightarrow> bool" where
  "interval_ne i1 i2 \<longleftrightarrow> interval_cmp_internal i1 i2 \<noteq> 0"

definition interval_lt :: "Interval \<Rightarrow> Interval \<Rightarrow> bool" where
  "interval_lt i1 i2 \<longleftrightarrow> interval_cmp_internal i1 i2 < 0"

definition interval_gt :: "Interval \<Rightarrow> Interval \<Rightarrow> bool" where
  "interval_gt i1 i2 \<longleftrightarrow> interval_cmp_internal i1 i2 > 0"

definition interval_le :: "Interval \<Rightarrow> Interval \<Rightarrow> bool" where
  "interval_le i1 i2 \<longleftrightarrow> interval_cmp_internal i1 i2 \<le> 0"

definition interval_ge :: "Interval \<Rightarrow> Interval \<Rightarrow> bool" where
  "interval_ge i1 i2 \<longleftrightarrow> interval_cmp_internal i1 i2 \<ge> 0"

definition interval_cmp :: "Interval \<Rightarrow> Interval \<Rightarrow> int" where
  "interval_cmp i1 i2 = interval_cmp_internal i1 i2"

definition interval_finite :: "Interval \<Rightarrow> bool" where
  "interval_finite i \<longleftrightarrow> True"

definition interval_um :: "Interval \<Rightarrow> Interval" where
  "interval_um i = \<lparr>i_time = - i_time i, i_month = - i_month i\<rparr>"

definition interval_smaller :: "Interval \<Rightarrow> Interval \<Rightarrow> Interval" where
  "interval_smaller i1 i2 =
     (let span1 = i_time i1 + (if i_month i1 \<noteq> 0 then i_month i1 * 30 * 86400000000 else 0);
          span2 = i_time i2 + (if i_month i2 \<noteq> 0 then i_month i2 * 30 * 86400000000 else 0)
      in if span2 < span1 then i2 else i1)"

definition interval_larger :: "Interval \<Rightarrow> Interval \<Rightarrow> Interval" where
  "interval_larger i1 i2 =
     (let span1 = i_time i1 + (if i_month i1 \<noteq> 0 then i_month i1 * 30 * 86400000000 else 0);
          span2 = i_time i2 + (if i_month i2 \<noteq> 0 then i_month i2 * 30 * 86400000000 else 0)
      in if span2 > span1 then i2 else i1)"

definition interval_pl :: "Interval \<Rightarrow> Interval \<Rightarrow> Interval" where
  "interval_pl i1 i2 = \<lparr>i_time = i_time i1 + i_time i2, i_month = i_month i1 + i_month i2\<rparr>"

definition interval_mi :: "Interval \<Rightarrow> Interval \<Rightarrow> Interval" where
  "interval_mi i1 i2 = \<lparr>i_time = i_time i1 - i_time i2, i_month = i_month i1 - i_month i2\<rparr>"

text \<open>
  Doubles: rounding is monotone, exact on the integers up to \<open>2^53\<close>, and has a relative error of at
  most \<open>2^-53\<close> in the normal range.
\<close>

definition double_rounding :: "(rat \<Rightarrow> rat) \<Rightarrow> bool" where
  "double_rounding fl \<longleftrightarrow> mono fl \<and> (\<forall>k. \<bar>k\<bar> \<le> 2 ^ 53 \<longrightarrow> fl (of_int k) = of_int k) \<and>
     (\<forall>x. 1 / 2 ^ 1000 \<le> \<bar>x\<bar> \<and> \<bar>x\<bar> \<le> 2 ^ 1000 \<longrightarrow> \<bar>fl x - x\<bar> \<le> \<bar>x\<bar> / 2 ^ 53)"

definition int32_of :: "int \<Rightarrow> int" where
  "int32_of k = sint (word_of_int k :: 32 word)"

definition interval_mul :: "(rat \<Rightarrow> rat) \<Rightarrow> Interval \<Rightarrow> rat \<Rightarrow> Interval" where
  "interval_mul fl span1 factor =
     (let months = c_int_of_rat (fl (of_int (i_month span1) * factor));
          month = int32_of months;
          time = c_int_of_rat (fl (fl (of_int (i_time span1)) * factor));
          time = time + (months - month) * 30 * 86400000000
      in \<lparr>i_time = time, i_month = month\<rparr>)"

definition mul_d_interval :: "(rat \<Rightarrow> rat) \<Rightarrow> rat \<Rightarrow> Interval \<Rightarrow> Interval" where
  "mul_d_interval fl factor span1 = interval_mul fl span1 factor"

definition interval_div :: "(rat \<Rightarrow> rat) \<Rightarrow> Interval \<Rightarrow> rat \<Rightarrow> Interval outcome" where
  "interval_div fl iv factor =
     (if factor = 0 then Inl (Elog_error ''interval_div: divide by 0.0 error'')
      else
        let month = c_int_of_rat (fl (of_int (i_month iv) / factor));
            time = c_int_of_rat (fl (fl (of_int (i_time iv)) / factor));
            rest = fl (fl (fl (fl (of_int (i_month iv) - fl (of_int month * factor)) * 30) * 86400000000) / factor)
        in Inr \<lparr>i_time = c_int_of_rat (fl (fl (of_int time) + rest)), i_month = month\<rparr>)"

text \<open>A division by an empty interval gives no finite double.\<close>

definition interval_div_interval :: "(rat \<Rightarrow> rat) \<Rightarrow> Interval \<Rightarrow> Interval \<Rightarrow> rat outcome" where
  "interval_div_interval fl span1 span2 =
     (if interval_to_timespan span2 = 0 then Inl (Out_of_bounds ''quotient of intervals is not finite'')
      else Inr (fl (fl (of_int (interval_to_timespan span1)) / fl (of_int (interval_to_timespan span2)))))"

definition interval2tm :: "Interval \<Rightarrow> tm \<times> int" where
  "interval2tm iv =
     (let (year, mon) = (if i_month iv \<noteq> 0 then (i_month iv sdiv 12, i_month iv smod 12) else (0, 0));
          time = i_time iv;
          mday = time sdiv 86400000000; time = time - mday * 86400000000;
          hour = time sdiv 3600000000; time = time - hour * 3600000000;
          minute = time sdiv 60000000; time = time - minute * 60000000;
          sec = time sdiv 1000000
      in (\<lparr>tm_year = year, tm_mon = mon, tm_mday = mday, tm_hour = hour, tm_min = minute, tm_sec = sec\<rparr>,
          time - sec * 1000000))"

definition tm2interval :: "tm \<Rightarrow> int \<Rightarrow> Interval" where
  "tm2interval t fsec =
     \<lparr>i_time = (((tm_mday t * 24 + tm_hour t) * 60 + tm_min t) * 60 + tm_sec t) * 1000000 + fsec,
       i_month = tm_year t * 12 + tm_mon t\<rparr>"

section \<open>Timestamps and intervals\<close>

definition timestamp_mi :: "timestamp \<Rightarrow> timestamp \<Rightarrow> Interval outcome" where
  "timestamp_mi dt1 dt2 =
     (if TIMESTAMP_NOT_FINITE dt1 \<or> TIMESTAMP_NOT_FINITE dt2
      then Inl (Elog_error ''Unable to subtract non-finite timestamps'')
      else Inr \<lparr>i_time = dt1 - dt2, i_month = 0\<rparr>)"

text \<open>Moving a date by a number of months; the day is cut to the length of the month.\<close>

definition add_months :: "tm \<Rightarrow> int \<Rightarrow> tm" where
  "add_months t k =
     (let mon = tm_mon t + k;
          (year, mon) =
            (if mon > 12 then (tm_year t + (mon - 1) sdiv 12, (mon - 1) smod 12 + 1)
             else if mon < 1 then (tm_year t + (mon sdiv 12 - 1), mon smod 12 + 12)
             else (tm_year t, mon));
          mday = (if tm_mday t > month_days year mon then month_days year mon else tm_mday t)
      in t\<lparr>tm_year := year, tm_mon := mon, tm_mday := mday\<rparr>)"

definition timestamp_pl_span :: "timestamp \<Rightarrow> Interval \<Rightarrow> timestamp outcome" where
  "timestamp_pl_span timestamp iv =
     (if TIMESTAMP_NOT_FINITE timestamp then Inr timestamp
      else
        bind_outcome
          (if i_month iv \<noteq> 0
           then (case timestamp2tm timestamp of
                   None \<Rightarrow> Inl (Elog_error ''Unable to add TIMESTAMP and INTERVAL: decoding'')
                 | Some (t, fsec) \<Rightarrow>
                     (case tm2timestamp (add_months t (i_month iv)) fsec None of
                        None \<Rightarrow> Inl (Elog_error ''Unable to add TIMESTAMP and INTERVAL: encoding'')
                      | Some ts \<Rightarrow> Inr ts))
           else Inr timestamp)
          (\<lambda>ts. Inr (ts + i_time iv)))"

definition timestamp_mi_span :: "timestamp \<Rightarrow> Interval \<Rightarrow> timestamp outcome" where
  "timestamp_mi_span timestamp iv =
     timestamp_pl_span timestamp \<lparr>i_time = - i_time iv, i_month = - i_month iv\<rparr>"

definition negate_tm :: "tm \<Rightarrow> tm" where
  "negate_tm t = \<lparr>tm_year = - tm_year t, tm_mon = - tm_mon t, tm_mday = - tm_mday t,
     tm_hour = - tm_hour t, tm_min = - tm_min t, tm_sec = - tm_sec t\<rparr>"

definition timestamp_age :: "timestamp \<Rightarrow> timestamp \<Rightarrow> Interval outcome" where
  "timestamp_age dt1 dt2 =
     (case (timestamp2tm dt1, timestamp2tm dt2) of
        (Some (t1, fsec1), Some (t2, fsec2)) \<Rightarrow>
          let fsec = fsec1 - fsec2;
              t = \<lparr>tm_year = tm_year t1 - tm_year t2, tm_mon = tm_mon t1 - tm_mon t2, tm_mday = tm_mday t1 - tm_mday t2,
                   tm_hour = tm_hour t1 - tm_hour t2, tm_min = tm_min t1 - tm_min t2, tm_sec = tm_sec t1 - tm_sec t2\<rparr>;
              (fsec, t) = (if dt1 < dt2 then (- fsec, negate_tm t) else (fsec, t));
              t = (if tm_sec t < 0 then t\<lparr>tm_sec := tm_sec t + 60, tm_min := tm_min t - 1\<rparr> else t);
              t = (if tm_min t < 0 then t\<lparr>tm_min := tm_min t + 60, tm_hour := tm_hour t - 1\<rparr> else t);
              t = (if tm_hour t < 0 then t\<lparr>tm_hour := tm_hour t + 24, tm_mday := tm_mday t - 1\<rparr> else t);
              t = (if tm_mday t < 0
                   then t\<lparr>tm_mday := tm_mday t + (if dt1 < dt2 then month_days (tm_year t1) (tm_mon t1)
                                                 else month_days (tm_year t2) (tm_mon t2)),
                          tm_mon := tm_mon t - 1\<rparr> else t);
              t = (if tm_mon t < 0 then t\<lparr>tm_mon := tm_mon t + 12, tm_year := tm_year t - 1\<rparr> else t);
              (fsec, t) = (if dt1 < dt2 then (- fsec, negate_tm t) else (fsec, t))
          in Inr (tm2interval t fsec)
      | _ \<Rightarrow> Inl (Elog_error ''Unable to decode TIMESTAMP''))"

section \<open>Comparison\<close>

named_theorems ts_cmp \<open>comparisons of timestamps as order relations\<close>

lemma timestamp_order [ts_cmp]:
  "timestamp_eq a b \<longleftrightarrow> a = b" "timestamp_ne a b \<longleftrightarrow> a \<noteq> b" "timestamp_lt a b \<longleftrightarrow> a < b"
  "timestamp_gt a b \<longleftrightarrow> b < a" "timestamp_le a b \<longleftrightarrow> a \<le> b" "timestamp_ge a b \<longleftrightarrow> b \<le> a"
  "timestamp_smaller a b = min a b" "timestamp_larger a b = max a b"
  by (auto simp: timestamp_eq_def timestamp_ne_def timestamp_lt_def timestamp_gt_def timestamp_le_def timestamp_ge_def
      timestamp_cmp_internal_def timestamp_smaller_def timestamp_larger_def)

text \<open>The instants of a period with the given ends: half open, or a single instant.\<close>

definition period :: "timestamp \<Rightarrow> timestamp \<Rightarrow> timestamp set" where
  "period s e = (if s = e then {s} else {min s e ..< max s e})"

definition fills :: "timestamp option \<Rightarrow> timestamp \<Rightarrow> bool" where
  "fills v x \<longleftrightarrow> v = None \<or> v = Some x"

lemma period_meets:
  assumes "s1 \<le> e1" "s2 \<le> e2"
  shows "period s1 e1 \<inter> period s2 e2 \<noteq> {} \<longleftrightarrow> s1 = s2 \<or> s1 < s2 \<and> s2 < e1 \<or> s2 < s1 \<and> s1 < e2"
proof
  assume "s1 = s2 \<or> s1 < s2 \<and> s2 < e1 \<or> s2 < s1 \<and> s1 < e2"
  then have "max s1 s2 \<in> period s1 e1 \<inter> period s2 e2" using assms by (auto simp: period_def)
  then show "period s1 e1 \<inter> period s2 e2 \<noteq> {}" by blast
qed (use assms in \<open>auto simp: period_def split: if_splits\<close>)

lemma period_sym: "period s e = period e s"
  by (simp add: period_def min.commute max.commute)

lemma overlaps_nonnull:
  "overlaps_timestamp (Some s1) (Some e1) (Some s2) (Some e2) = Some (period s1 e1 \<inter> period s2 e2 \<noteq> {})"
proof -
  have p: "period s e = period (min s e) (max s e)" for s e by (auto simp: period_def)
  have "overlaps_timestamp (Some s1) (Some e1) (Some s2) (Some e2) =
     Some (let a1 = min s1 e1; b1 = max s1 e1; a2 = min s2 e2; b2 = max s2 e2
           in a1 = a2 \<or> a1 < a2 \<and> a2 < b1 \<or> a2 < a1 \<and> a1 < b2)"
    by (auto simp: overlaps_timestamp_def order_endpoints_def ts_cmp Let_def min_def max_def)
  then show ?thesis
    using period_meets [of "min s1 e1" "max s1 e1" "min s2 e2" "max s2 e2"] by (simp add: p [symmetric] Let_def)
qed


text \<open>The periods that the given ends, with anything in place of a null, can denote.\<close>

definition periods :: "timestamp option \<Rightarrow> timestamp option \<Rightarrow> timestamp set set" where
  "periods v w = {period s e | s e. fills v s \<and> fills w e}"

definition certain :: "bool \<Rightarrow> timestamp set set \<Rightarrow> timestamp set set \<Rightarrow> bool" where
  "certain r Ps Qs \<longleftrightarrow> (\<forall>P \<in> Ps. \<forall>Q \<in> Qs. (P \<inter> Q \<noteq> {}) = r)"

lemma certain_sym: "certain r Ps Qs = certain r Qs Ps"
  by (auto simp: certain_def Int_commute)

lemma periods_simps:
  "periods (Some s) (Some e) = {period s e}" "periods (Some s) None = range (period s)"
  "periods None (Some e) = range (period e)" "periods None None = (\<Union>s. range (period s))"
proof -
  have "periods None (Some e) = range (\<lambda>s. period s e)" by (auto simp: periods_def fills_def)
  then show "periods None (Some e) = range (period e)" by (simp add: period_sym [of _ e])
qed (auto simp: periods_def fills_def)

lemma undecided:
  assumes "P \<in> Ps" "Q \<in> Qs" "P \<inter> Q \<noteq> {}" "P' \<in> Ps" "Q' \<in> Qs" "P' \<inter> Q' = {}"
  shows "\<not> certain r Ps Qs"
proof
  assume "certain r Ps Qs"
  then have "(P \<inter> Q \<noteq> {}) = r" "(P' \<inter> Q' \<noteq> {}) = r"
    unfolding certain_def using assms(1,2,4,5) by (auto dest: bspec)
  then show False using assms(3,6) by simp
qed

lemma certain_one_null:
  "certain r (range (period s1)) {period s2 e2} \<longleftrightarrow> r \<and> min s2 e2 < s1 \<and> s1 < max s2 e2"
proof -
  define a b where "a = min s2 e2" and "b = max s2 e2"
  have Q: "period s2 e2 = period a b" "a \<le> b" by (auto simp: period_def a_def b_def)
  have pt: "period x x = {x}" for x by (simp add: period_def)
  consider "a < s1 \<and> s1 < b" | "s1 = a" | "s1 < a" | "a < s1 \<and> b \<le> s1" by linarith
  then show ?thesis
  proof cases
    case 1
    have "(if s1 \<le> x then s1 else max x a) \<in> period s1 x \<inter> period a b" for x
      using 1 by (auto simp: period_def)
    then have "period s1 x \<inter> period a b \<noteq> {}" for x by blast
    then show ?thesis using 1 by (auto simp: certain_def Q(1) a_def [symmetric] b_def [symmetric])
  next
    case 2
    have "a \<in> period a b" using Q(2) by (auto simp: period_def)
    then have "\<not> certain r (range (period s1)) {period a b}"
      using 2 by (intro undecided [of "period s1 s1" _ "period a b" _ "period s1 (s1 - 1)" "period a b"])
        (auto simp: pt, auto simp: period_def split: if_splits)
    then show ?thesis using 2 by (simp add: Q(1) a_def)
  next
    case 3
    have "a \<in> period a b" "a \<in> period s1 (a + 1)" using Q(2) 3 by (auto simp: period_def)
    then have "\<not> certain r (range (period s1)) {period a b}"
      using 3 by (intro undecided [of "period s1 (a + 1)" _ "period a b" _ "period s1 s1" "period a b"])
        (auto simp: pt, auto simp: period_def split: if_splits)
    then show ?thesis using 3 by (simp add: Q(1) a_def [symmetric] b_def [symmetric])
  next
    case 4
    have "a \<in> period a b" "a \<in> period s1 a" using Q(2) 4 by (auto simp: period_def)
    then have "\<not> certain r (range (period s1)) {period a b}"
      using 4 Q(2) by (intro undecided [of "period s1 a" _ "period a b" _ "period s1 s1" "period a b"])
        (auto simp: pt, auto simp: period_def split: if_splits)
    then show ?thesis using 4 by (simp add: Q(1) a_def [symmetric] b_def [symmetric])
  qed
qed

lemma certain_two_null: "\<not> certain r (range (period s1)) (range (period s2))"
proof -
  let ?m = "max s1 s2"
  have "?m \<in> period s1 (?m + 1)" "?m \<in> period s2 (?m + 1)" by (auto simp: period_def)
  moreover have "period (if s1 = s2 then s1 - 1 else s1) s1 \<inter> period s2 s2 = {}" by (auto simp: period_def)
  then have "period s1 (if s1 = s2 then s1 - 1 else s1) \<inter> period s2 s2 = {}" by (simp add: period_sym)
  ultimately show ?thesis by (intro undecided [of "period s1 (?m + 1)" _ "period s2 (?m + 1)"]) auto
qed

lemma certain_unknown:
  assumes "Q = period s e" "Q \<in> Qs"
  shows "\<not> certain r (\<Union>s. range (period s)) Qs"
proof -
  have "min s e \<in> Q" "period (max s e + 1) (max s e + 1) \<inter> Q = {}"
    unfolding assms(1) by (auto simp: period_def)
  then show ?thesis using assms by (intro undecided [of Q _ Q]) auto
qed

text \<open>
  C38. OVERLAPS answers true or false exactly when the periods meet, or do not meet, whatever stands
  in place of the nulls; it answers null exactly when both are possible.
\<close>

theorem overlaps_timestamp_certain:
  "overlaps_timestamp ts1 te1 ts2 te2 = Some r \<longleftrightarrow> certain r (periods ts1 te1) (periods ts2 te2)"
proof -
  have swap: "order_endpoints None (Some e) = order_endpoints (Some e) None" for e by (simp add: order_endpoints_def)
  have one: "overlaps_timestamp (Some s1) None (Some s2) (Some e2) = Some r \<longleftrightarrow> r \<and> min s2 e2 < s1 \<and> s1 < max s2 e2"
    "overlaps_timestamp (Some s2) (Some e2) (Some s1) None = Some r \<longleftrightarrow> r \<and> min s2 e2 < s1 \<and> s1 < max s2 e2" for s1 s2 e2
    by (auto simp: overlaps_timestamp_def order_endpoints_def ts_cmp min_def max_def)
  have two: "overlaps_timestamp (Some s1) None (Some s2) None \<noteq> Some r" for s1 s2
    by (simp add: overlaps_timestamp_def order_endpoints_def ts_cmp)
  have unknown: "overlaps_timestamp None None v w \<noteq> Some r" "overlaps_timestamp v w None None \<noteq> Some r" for v w
    by (simp_all add: overlaps_timestamp_def order_endpoints_def split: option.split)
  have left: "overlaps_timestamp None (Some e) v w = overlaps_timestamp (Some e) None v w"
    and right: "overlaps_timestamp v w None (Some e) = overlaps_timestamp v w (Some e) None" for e v w
    unfolding overlaps_timestamp_def swap by (rule refl)+
  have nonempty: "\<exists>s e. period s e \<in> periods v w" for v w
    by (intro exI [of _ "case v of None \<Rightarrow> 0 | Some x \<Rightarrow> x"] exI [of _ "case w of None \<Rightarrow> 0 | Some x \<Rightarrow> x"])
      (auto simp: periods_def fills_def split: option.split)
  have cunknown: "\<not> certain r (periods None None) (periods v w)" for v w
  proof -
    obtain s e where "period s e \<in> periods v w" using nonempty by blast
    from certain_unknown [OF refl this] show ?thesis unfolding periods_simps(4) .
  qed
  have cunknown': "\<not> certain r (periods v w) (periods None None)" for v w
    using cunknown [of v w] unfolding certain_sym [of r "periods v w"] .
  have one': "certain r {period s2 e2} (range (period s1)) \<longleftrightarrow> r \<and> min s2 e2 < s1 \<and> s1 < max s2 e2" for s1 s2 e2
    unfolding certain_sym [of r "{period s2 e2}"] by (rule certain_one_null)
  have none': "certain r {P} {Q} \<longleftrightarrow> (P \<inter> Q \<noteq> {}) = r" for P Q by (simp add: certain_def)
  show ?thesis
    by (cases ts1; cases te1; cases ts2; cases te2)
      (simp_all only: unknown cunknown cunknown' simp_thms, simp_all only: left right periods_simps(1-3) one two certain_two_null certain_one_null
        one' none' overlaps_nonnull option.inject simp_thms)
qed


section \<open>Precision\<close>

lemma round_half:
  assumes "0 < (c::int)" "0 \<le> h" "2 * h \<le> c" "c \<le> 2 * h + 1" "0 \<le> a"
  shows "2 * \<bar>((a + h) sdiv c) * c - a\<bar> \<le> c" "c dvd a \<Longrightarrow> ((a + h) sdiv c) * c = a"
proof -
  define q where "q = (a + h) div c"
  have sd: "(a + h) sdiv c = q" unfolding q_def by (rule sdiv_nonneg) (use assms in simp_all)
  have q: "c * q \<le> a + h" "a + h < c * q + c" using div_bounds [OF assms(1), of "a + h"] by (simp_all add: q_def)
  have "c * q - a \<le> h" "2 * (a - c * q) \<le> c" using q assms(4) by simp_all
  then show "2 * \<bar>((a + h) sdiv c) * c - a\<bar> \<le> c" unfolding sd using assms(3) by (simp add: abs_if mult.commute)
  assume "c dvd a"
  then obtain k where k: "a = c * k" by blast
  have "h < c" using assms by simp
  then have "q = k" unfolding q_def k using assms(1,2) by simp
  then show "((a + h) sdiv c) * c = a" using sd k by simp
qed

lemma precision_table:
  assumes "0 \<le> p" "p \<le> 6"
  defines "c \<equiv> TimestampScales ! nat p" and "h \<equiv> TimestampOffsets ! nat p"
  shows "c = 10 ^ nat (6 - p)" "0 < c" "0 \<le> h" "2 * h \<le> c" "c \<le> 2 * h + 1"
proof -
  have "p \<in> {0, 1, 2, 3, 4, 5, 6}" using twelve [of "p + 1"] assms(1,2) by auto
  then show "c = 10 ^ nat (6 - p)" "0 < c" "0 \<le> h" "2 * h \<le> c" "c \<le> 2 * h + 1"
    unfolding c_def h_def by (auto simp: TimestampScales_def TimestampOffsets_def)
qed

text \<open>
  Cutting a finite timestamp to a precision of 0 to 6 digits gives the nearest multiple of that
  unit: at most half a unit away, and unchanged when it is a multiple already.
\<close>

lemma typmod_rounds:
  assumes "timestamp_finite t" "0 \<le> p" "p \<le> MAX_TIMESTAMP_PRECISION"
  shows "\<exists>r. AdjustTimestampForTypmod t p = Inr r \<and> 10 ^ nat (6 - p) dvd r \<and> 2 * \<bar>r - t\<bar> \<le> 10 ^ nat (6 - p) \<and>
     (10 ^ nat (6 - p) dvd t \<longrightarrow> r = t)"
proof (cases "p = 6")
  case True
  then show ?thesis using assms(1) by (simp add: AdjustTimestampForTypmod_def MAX_TIMESTAMP_PRECISION_def)
next
  case False
  let ?c = "TimestampScales ! nat p" and ?h = "TimestampOffsets ! nat p"
  have p: "0 \<le> p" "p \<le> 6" using assms by (simp_all add: MAX_TIMESTAMP_PRECISION_def)
  note tab = precision_table [OF p]
  define r where "r = (if 0 \<le> t then ((t + ?h) sdiv ?c) * ?c else - (((- t + ?h) sdiv ?c) * ?c))"
  have "AdjustTimestampForTypmod t p = Inr r"
    using assms p False by (auto simp: AdjustTimestampForTypmod_def timestamp_finite_def MAX_TIMESTAMP_PRECISION_def Let_def r_def)
  moreover have "?c dvd r" by (simp add: r_def)
  moreover have "2 * \<bar>r - t\<bar> \<le> ?c"
  proof (cases "0 \<le> t")
    case True
    then show ?thesis using round_half(1) [OF tab(2-5) True] by (simp add: r_def)
  next
    case False
    then have "0 \<le> - t" by simp
    from round_half(1) [OF tab(2-5) this] False show ?thesis by (simp add: r_def abs_if split: if_splits)
  qed
  moreover have "r = t" if "?c dvd t"
    using round_half(2) [OF tab(2-5), of t] round_half(2) [OF tab(2-5), of "- t"] that by (auto simp: r_def)
  ultimately show ?thesis unfolding tab(1) by blast
qed

section \<open>Adding months\<close>

lemma add_months_fields:
  assumes "1 \<le> tm_mon t" "tm_mon t \<le> 12"
  shows "12 * tm_year (add_months t k) + tm_mon (add_months t k) = 12 * tm_year t + tm_mon t + k"
    "1 \<le> tm_mon (add_months t k)" "tm_mon (add_months t k) \<le> 12"
    "tm_mday (add_months t k) = min (tm_mday t) (month_days (tm_year (add_months t k)) (tm_mon (add_months t k)))"
    "tm_hour (add_months t k) = tm_hour t" "tm_min (add_months t k) = tm_min t" "tm_sec (add_months t k) = tm_sec t"
proof -
  define m where "m = tm_mon t + k"
  define y' m' where "y' = (if m > 12 then tm_year t + (m - 1) sdiv 12 else if m < 1 then tm_year t + (m sdiv 12 - 1) else tm_year t)"
    and "m' = (if m > 12 then (m - 1) smod 12 + 1 else if m < 1 then m smod 12 + 12 else m)"
  have a: "add_months t k = t\<lparr>tm_year := y', tm_mon := m', tm_mday := min (tm_mday t) (month_days y' m')\<rparr>"
    by (auto simp: add_months_def Let_def m_def y'_def m'_def min_def)
  have "12 * y' + m' = 12 * tm_year t + m \<and> 1 \<le> m' \<and> m' \<le> 12"
  proof -
    consider "12 < m" | "m < 1" | "1 \<le> m \<and> m \<le> 12" by linarith
    then show ?thesis
    proof cases
      case 1
      then have "(m - 1) sdiv 12 = (m - 1) div 12" "(m - 1) smod 12 = (m - 1) mod 12"
        by (simp_all add: sdiv_nonneg signed_modulo_int_def)
      then show ?thesis using 1 by (simp add: y'_def m'_def)
    next
      case 2
      have "12 * (m sdiv 12) + m smod 12 = m" by (rule mult_sdiv_smod_eq)
      moreover have "m smod 12 \<le> 0" "- 12 < m smod 12" using 2 by (simp_all add: signed_modulo_int_def sgn_if)
      ultimately show ?thesis using 2 by (simp add: y'_def m'_def)
    next
      case 3
      then show ?thesis by (simp add: y'_def m'_def)
    qed
  qed
  then show "12 * tm_year (add_months t k) + tm_mon (add_months t k) = 12 * tm_year t + tm_mon t + k"
    "1 \<le> tm_mon (add_months t k)" "tm_mon (add_months t k) \<le> 12"
    "tm_mday (add_months t k) = min (tm_mday t) (month_days (tm_year (add_months t k)) (tm_mon (add_months t k)))"
    "tm_hour (add_months t k) = tm_hour t" "tm_min (add_months t k) = tm_min t" "tm_sec (add_months t k) = tm_sec t"
    by (simp_all add: a m_def)
qed


section \<open>Intervals and their parts\<close>

lemma interval_codec: "(case interval2tm iv of (t, fsec) \<Rightarrow> tm2interval t fsec) = iv"
proof -
  have "i_month iv sdiv 12 * 12 + i_month iv smod 12 = i_month iv" by (rule sdiv_mult_smod_eq)
  then show ?thesis by (simp add: interval2tm_def tm2interval_def Let_def split: prod.split)
qed

text \<open>The integer branch of interval_mul drops the fraction of a month that the other branch turns into days.\<close>

lemma interval_mul_fraction: "interval_mul (\<lambda>x. x) \<lparr>i_time = 0, i_month = 1\<rparr> (1 / 2) = \<lparr>i_time = 0, i_month = 0\<rparr>"
  by code_simp

end
