(* ===== verification/Window.thy ===== *)
theory Window
  imports Timestamp_Arith
begin

text \<open>
  Windows of continuous queries (\<^verbatim>\<open>src/src/backend/telegraphcq/window.c\<close>). A window clause START AT,
  RANGE BY, SLIDE BY describes windows 1, 2, and so on; the functions compute from a timestamp which
  windows contain it and when the set of live tuples changes. The lemmas relate them to the windows
  as sets of instants, with the rounding of doubles taken into account. A sliced window moves by a
  list of intervals in turn.
\<close>

section \<open>Window clauses\<close>

text \<open>\<open>None\<close> is a \<^verbatim>\<open>NULL\<close> string.\<close>

record WindowExpr =
  we_startat :: "string option"
  we_rangeby :: "string option"
  we_slideby :: "string option"
  we_slices :: "string list"
  we_tsvar :: "nat option"

text \<open>\<open>tsvar\<close> is the number of the attribute that holds the timestamp; the tuple descriptor is opaque.\<close>

record 'd WindowState =
  ws_desc :: "'d option"
  ws_tsvar :: nat
  startAt :: timestamp
  rangeBy :: Interval
  slideBy :: Interval
  ws_slices :: "Interval list"
  lastTSSeen :: timestamp

text \<open>The loop over the slices after the first: the intervals read, and their sum.\<close>

fun read_slices :: "(string \<Rightarrow> Interval outcome) \<Rightarrow> string list \<Rightarrow> Interval list \<Rightarrow> Interval \<Rightarrow> (Interval list \<times> Interval) outcome" where
  "read_slices interval_in [] slices sumslice = Inr (slices, sumslice)"
| "read_slices interval_in (v # vs) slices sumslice =
     bind_outcome (interval_in v) (\<lambda>slice. read_slices interval_in vs (slices @ [slice]) (interval_pl sumslice slice))"

definition strVal :: "string option \<Rightarrow> string outcome" where
  "strVal v = (case v of None \<Rightarrow> Inl (Out_of_bounds ''strVal of NULL'') | Some s \<Rightarrow> Inr s)"

definition createWindowState ::
  "(string \<Rightarrow> timestamp outcome) \<Rightarrow> (string \<Rightarrow> Interval outcome) \<Rightarrow> WindowExpr \<Rightarrow> 'd WindowState outcome" where
  "createWindowState timestamp_in interval_in we =
     (case we_tsvar we of
        None \<Rightarrow> Inl (Assert_failed ''we->tsvar != NULL'')
      | Some tsvar \<Rightarrow>
          (case we_startat we of
             None \<Rightarrow> Inl (Assert_failed ''NULL != we->startat'')
           | Some startat \<Rightarrow>
               bind_outcome (timestamp_in startat) (\<lambda>start.
               bind_outcome
                 (case we_slices we of
                    [] \<Rightarrow>
                      bind_outcome (bind_outcome (strVal (we_rangeby we)) interval_in) (\<lambda>range.
                      bind_outcome (bind_outcome (strVal (we_slideby we)) interval_in) (\<lambda>slide.
                        Inr (range, slide, [])))
                  | v # vs \<Rightarrow>
                      if we_rangeby we \<noteq> None then Inl (Assert_failed ''we->rangeby == NULL'')
                      else
                        bind_outcome (interval_in v) (\<lambda>first.
                        bind_outcome (read_slices interval_in vs [first] first) (\<lambda>(slices, total).
                          Inr (first, total, slices))))
                 (\<lambda>(range, slide, slices).
                    Inr \<lparr>ws_desc = None, ws_tsvar = tsvar, startAt = start, rangeBy = range, slideBy = slide,
                         ws_slices = slices, lastTSSeen = DT_NOBEGIN\<rparr>))))"

definition windowStateSetTupleDesc :: "'d option \<Rightarrow> ('d WindowState, unit) prog" where
  "windowStateSetTupleDesc td ws =
     (if td = None then (Inl (Assert_failed ''td != NULL''), ws)
      else if ws_desc ws \<noteq> None then (Inl (Assert_failed ''NULL == ws->desc''), ws)
      else (Inr (), ws\<lparr>ws_desc := td\<rparr>))"

text \<open>\<open>heap_getattr\<close> fetches an attribute of a tuple; \<open>None\<close> is the SQL null.\<close>

definition windowStateGetTS :: "('tup \<Rightarrow> nat \<Rightarrow> 'd option \<Rightarrow> timestamp option) \<Rightarrow> 'd WindowState \<Rightarrow> 'tup \<Rightarrow> timestamp outcome" where
  "windowStateGetTS heap_getattr ws tup =
     (case heap_getattr tup (ws_tsvar ws) (ws_desc ws) of
        None \<Rightarrow> Inl (Assert_failed ''!isNull'')
      | Some ts \<Rightarrow> Inr ts)"

definition windowStateUpdateMaxTS :: "('tup \<Rightarrow> nat \<Rightarrow> 'd option \<Rightarrow> timestamp option) \<Rightarrow> 'tup \<Rightarrow> ('d WindowState, unit) prog" where
  "windowStateUpdateMaxTS heap_getattr tup ws =
     (case windowStateGetTS heap_getattr ws tup of
        Inl e \<Rightarrow> (Inl e, ws)
      | Inr tuple_ts \<Rightarrow>
          if timestamp_gt tuple_ts (lastTSSeen ws) then (Inr (), ws\<lparr>lastTSSeen := tuple_ts\<rparr>) else (Inr (), ws))"

definition windowStateGetMaxTS :: "'d WindowState \<Rightarrow> timestamp" where
  "windowStateGetMaxTS ws = lastTSSeen ws"

section \<open>Wrappers\<close>

definition ts_plus_interval :: "timestamp \<Rightarrow> Interval \<Rightarrow> timestamp outcome" where
  "ts_plus_interval t i = timestamp_pl_span t i"

definition ts_greater_than :: "timestamp \<Rightarrow> timestamp \<Rightarrow> bool" where
  "ts_greater_than t1 t2 \<longleftrightarrow> t1 > t2"

definition ts_less_than :: "timestamp \<Rightarrow> timestamp \<Rightarrow> bool" where
  "ts_less_than t1 t2 \<longleftrightarrow> ts_greater_than t2 t1"

definition ts_geq :: "timestamp \<Rightarrow> timestamp \<Rightarrow> bool" where
  "ts_geq t1 t2 \<longleftrightarrow> t1 \<ge> t2"

definition ts_leq :: "timestamp \<Rightarrow> timestamp \<Rightarrow> bool" where
  "ts_leq t1 t2 \<longleftrightarrow> ts_geq t2 t1"

definition ts_equals :: "timestamp \<Rightarrow> timestamp \<Rightarrow> bool" where
  "ts_equals t1 t2 \<longleftrightarrow> timestamp_eq t1 t2"

definition ts_max :: "timestamp \<Rightarrow> timestamp \<Rightarrow> timestamp" where
  "ts_max t1 t2 = timestamp_larger t1 t2"

definition ts_min :: "timestamp \<Rightarrow> timestamp \<Rightarrow> timestamp" where
  "ts_min t1 t2 = timestamp_smaller t1 t2"

definition ts_mi :: "timestamp \<Rightarrow> timestamp \<Rightarrow> Interval outcome" where
  "ts_mi t1 t2 = timestamp_mi t1 t2"

definition ts_pl_i :: "timestamp \<Rightarrow> Interval \<Rightarrow> timestamp outcome" where
  "ts_pl_i t i = timestamp_pl_span t i"

definition ts_mi_i :: "timestamp \<Rightarrow> Interval \<Rightarrow> timestamp outcome" where
  "ts_mi_i t i = timestamp_mi_span t i"

definition i_pl_i :: "Interval \<Rightarrow> Interval \<Rightarrow> Interval" where
  "i_pl_i i1 i2 = interval_pl i1 i2"

definition i_mi_i :: "Interval \<Rightarrow> Interval \<Rightarrow> Interval" where
  "i_mi_i i1 i2 = interval_mi i1 i2"

definition i_div_i :: "(rat \<Rightarrow> rat) \<Rightarrow> Interval \<Rightarrow> Interval \<Rightarrow> rat outcome" where
  "i_div_i fl i1 i2 = interval_div_interval fl i1 i2"

definition i_mul :: "(rat \<Rightarrow> rat) \<Rightarrow> Interval \<Rightarrow> rat \<Rightarrow> Interval" where
  "i_mul fl i factor = interval_mul fl i factor"

definition interval_to_sec :: "(rat \<Rightarrow> rat) \<Rightarrow> Interval \<Rightarrow> rat outcome" where
  "interval_to_sec fl i = i_div_i fl i \<lparr>i_time = 1000000, i_month = 0\<rparr>"

section \<open>Timevals\<close>

record timeval =
  tv_sec :: int
  tv_usec :: int

definition ONE_MILLION :: int where "ONE_MILLION = 1000000"

definition tv_diff :: "timeval \<Rightarrow> timeval \<Rightarrow> int" where
  "tv_diff earlier later = tv_sec later * ONE_MILLION + tv_usec later - tv_sec earlier * ONE_MILLION - tv_usec earlier"

definition tv_plus_int :: "timeval \<Rightarrow> int \<Rightarrow> timeval outcome" where
  "tv_plus_int src offset =
     (let sec = tv_sec src + offset sdiv ONE_MILLION; usec = tv_usec src + offset smod ONE_MILLION
      in if usec > ONE_MILLION then
           (if usec < 2 * ONE_MILLION then Inr \<lparr>tv_sec = sec + 1, tv_usec = usec - ONE_MILLION\<rparr>
            else Inl (Assert_failed ''result->tv_usec < 2 * ONE_MILLION''))
         else if usec < 0 then
           (if usec \<ge> - ONE_MILLION then Inr \<lparr>tv_sec = sec - 1, tv_usec = usec + ONE_MILLION\<rparr>
            else Inl (Assert_failed ''result->tv_usec >= -ONE_MILLION''))
         else Inr \<lparr>tv_sec = sec, tv_usec = usec\<rparr>)"

section \<open>Rounding\<close>

text \<open>
  \<^verbatim>\<open>gmtime_r\<close> of 0 has \<^verbatim>\<open>tm_year\<close> 70 and \<^verbatim>\<open>tm_mon\<close> 0, which \<^verbatim>\<open>tm2timestamp\<close> takes for the year
  70 and the month 0. \<open>mktime\<close> is the function of the C library.
\<close>

definition epoch_tm :: tm where
  "epoch_tm = \<lparr>tm_year = 70, tm_mon = 0, tm_mday = 1, tm_hour = 0, tm_min = 0, tm_sec = 0\<rparr>"

definition round_timestamp :: "(rat \<Rightarrow> rat) \<Rightarrow> (tm \<Rightarrow> int) \<Rightarrow> timestamp \<Rightarrow> Interval \<Rightarrow> timestamp outcome" where
  "round_timestamp fl mktime ts win =
     (case tm2timestamp epoch_tm 0 None of
        None \<Rightarrow> Inl (Out_of_bounds ''start is not set'')
      | Some start \<Rightarrow>
          (case interval2tm win of (t, fsec) \<Rightarrow>
             if mktime t = 0 \<and> fsec = 0 then Inr ts
             else
               bind_outcome (timestamp_mi ts start) (\<lambda>since.
               bind_outcome (interval_div_interval fl since win) (\<lambda>f.
                 let quotient = c_int_of_rat f
                 in timestamp_pl_span start (interval_mul fl win (fl (of_int quotient)))))))"

section \<open>Window numbers\<close>

definition window_begin :: "(rat \<Rightarrow> rat) \<Rightarrow> timestamp \<Rightarrow> Interval \<Rightarrow> int \<Rightarrow> timestamp outcome" where
  "window_begin fl startat slideby windownum =
     timestamp_pl_span startat (interval_mul fl slideby (fl (of_int windownum - 1)))"

definition window_end :: "(rat \<Rightarrow> rat) \<Rightarrow> timestamp \<Rightarrow> Interval \<Rightarrow> Interval \<Rightarrow> int \<Rightarrow> timestamp outcome" where
  "window_end fl startat rangeby slideby windownum =
     bind_outcome (window_begin fl startat slideby windownum) (\<lambda>windowstart. timestamp_pl_span windowstart rangeby)"

definition timestamp_past_window ::
  "(rat \<Rightarrow> rat) \<Rightarrow> timestamp \<Rightarrow> timestamp \<Rightarrow> Interval \<Rightarrow> Interval \<Rightarrow> int \<Rightarrow> bool outcome" where
  "timestamp_past_window fl ts startat rangeby slideby windownum =
     bind_outcome (window_end fl startat rangeby slideby windownum) (\<lambda>e. Inr (\<not> timestamp_lt ts e))"

text \<open>
  The window numbers are of type \<^verbatim>\<open>int\<close>. A conversion or an increment past its range is undefined
  in C and fails here.
\<close>

definition c_int :: "int \<Rightarrow> int outcome" where
  "c_int k = (if - (2 ^ 31) \<le> k \<and> k < 2 ^ 31 then Inr k else Inl (Out_of_bounds ''int''))"

definition first_window_past :: "(rat \<Rightarrow> rat) \<Rightarrow> timestamp \<Rightarrow> Interval \<Rightarrow> Interval \<Rightarrow> timestamp \<Rightarrow> int outcome" where
  "first_window_past fl startat rangeby slideby ts =
     bind_outcome (timestamp_pl_span startat rangeby) (\<lambda>first_end.
     bind_outcome (timestamp_mi ts first_end) (\<lambda>past.
     bind_outcome (interval_div_interval fl past slideby) (\<lambda>f.
     bind_outcome (c_int (c_int_of_rat (fl (2 + f)))) (\<lambda>windownum.
     bind_outcome (window_end fl startat rangeby slideby windownum) (\<lambda>e.
       if ts_geq ts e then c_int (windownum + 1) else Inr windownum)))))"

definition first_window_no :: "(rat \<Rightarrow> rat) \<Rightarrow> timestamp \<Rightarrow> Interval \<Rightarrow> Interval \<Rightarrow> timestamp \<Rightarrow> int outcome" where
  "first_window_no fl startat rangeby slideby ts =
     bind_outcome (first_window_past fl startat rangeby slideby ts) (\<lambda>w.
       let windownum = (if w < 1 then 1 else w)
       in bind_outcome (window_begin fl startat slideby windownum) (\<lambda>b.
            Inr (if timestamp_ge ts b then windownum else -1)))"

definition last_window_no :: "(rat \<Rightarrow> rat) \<Rightarrow> timestamp \<Rightarrow> Interval \<Rightarrow> Interval \<Rightarrow> timestamp \<Rightarrow> int outcome" where
  "last_window_no fl startat rangeby slideby ts =
     bind_outcome (timestamp_mi ts startat) (\<lambda>since.
     bind_outcome (interval_div_interval fl since slideby) (\<lambda>slidenum.
     bind_outcome (c_int (c_int_of_rat (fl (slidenum + 1)))) (\<lambda>windownum.
     bind_outcome (timestamp_past_window fl ts startat rangeby slideby windownum) (\<lambda>past.
       Inr (if \<not> past then windownum else -1)))))"

section \<open>Changes of the live tuples\<close>

definition windowStateGetFirstChange :: "'d WindowState \<Rightarrow> timestamp outcome" where
  "windowStateGetFirstChange ws = ts_plus_interval (startAt ws) (rangeBy ws)"

text \<open>The result is \<^verbatim>\<open>birth_ts\<close> and \<^verbatim>\<open>death_ts\<close>; \<open>None\<close> stands for a variable that is left as it was.\<close>

definition windowStateGetLifetime ::
  "(rat \<Rightarrow> rat) \<Rightarrow> ('tup \<Rightarrow> nat \<Rightarrow> 'd option \<Rightarrow> timestamp option) \<Rightarrow> 'd WindowState \<Rightarrow> 'tup \<Rightarrow> (timestamp \<times> timestamp option) outcome" where
  "windowStateGetLifetime fl heap_getattr ws tup =
     bind_outcome (windowStateGetTS heap_getattr ws tup) (\<lambda>ts.
     bind_outcome (first_window_no fl (startAt ws) (rangeBy ws) (slideBy ws) ts) (\<lambda>first_winno.
     bind_outcome (last_window_no fl (startAt ws) (rangeBy ws) (slideBy ws) ts) (\<lambda>last_winno.
       if first_winno = -1 then Inr (DT_NOEND, None)
       else
         bind_outcome (window_end fl (startAt ws) (rangeBy ws) (slideBy ws) first_winno) (\<lambda>birth_ts.
         bind_outcome (c_int (last_winno + 1)) (\<lambda>next_winno.
         bind_outcome (window_end fl (startAt ws) (rangeBy ws) (slideBy ws) next_winno) (\<lambda>death_ts.
           Inr (birth_ts, Some death_ts)))))))"

definition windowStateGetNextSlide :: "(rat \<Rightarrow> rat) \<Rightarrow> 'd WindowState \<Rightarrow> timestamp \<Rightarrow> timestamp outcome" where
  "windowStateGetNextSlide fl ws ts =
     bind_outcome (first_window_past fl (startAt ws) (rangeBy ws) (slideBy ws) ts) (\<lambda>window_num.
       if window_num > 0 then window_end fl (startAt ws) (rangeBy ws) (slideBy ws) window_num
       else Inl (Assert_failed ''window_num > 0''))"

section \<open>Sliced windows\<close>

text \<open>\<^verbatim>\<open>cur_slice\<close> points into the list \<^verbatim>\<open>slices\<close>: it is the rest of the list from there on.\<close>

record SlicedWindowState =
  sws_slices :: "Interval list"
  cur_slice :: "Interval list"
  next_edge :: timestamp

definition lfirst :: "'a list \<Rightarrow> 'a outcome" where
  "lfirst l = (case l of [] \<Rightarrow> Inl (Out_of_bounds ''lfirst of NIL'') | x # xs \<Rightarrow> Inr x)"

definition createSlicedWindowState :: "'d WindowState \<Rightarrow> SlicedWindowState outcome" where
  "createSlicedWindowState ws =
     bind_outcome (lfirst (ws_slices ws)) (\<lambda>first.
     bind_outcome (ts_plus_interval (startAt ws) first) (\<lambda>e.
       Inr \<lparr>sws_slices = ws_slices ws, cur_slice = ws_slices ws, next_edge = e\<rparr>))"

definition SlicedWindowAdvance :: "SlicedWindowState \<Rightarrow> SlicedWindowState outcome" where
  "SlicedWindowAdvance sws =
     (let cur = (case cur_slice sws of [] \<Rightarrow> [] | _ # rest \<Rightarrow> rest);
          cur = (if cur = [] then sws_slices sws else cur)
      in bind_outcome (lfirst cur) (\<lambda>slice.
         bind_outcome (ts_plus_interval (next_edge sws) slice) (\<lambda>e.
           Inr (sws\<lparr>cur_slice := cur, next_edge := e\<rparr>))))"

section \<open>Rounding of doubles\<close>

lemma fl_int: "double_rounding fl \<Longrightarrow> \<bar>k\<bar> \<le> 2 ^ 53 \<Longrightarrow> fl (of_int k) = of_int k"
  by (simp add: double_rounding_def)

lemma fl_mono: "double_rounding fl \<Longrightarrow> x \<le> y \<Longrightarrow> fl x \<le> fl y"
  by (simp add: double_rounding_def monoD)

lemma fl_error: "double_rounding fl \<Longrightarrow> 1 / 2 ^ 1000 \<le> \<bar>x\<bar> \<Longrightarrow> \<bar>x\<bar> \<le> 2 ^ 1000 \<Longrightarrow> \<bar>fl x - x\<bar> \<le> \<bar>x\<bar> / 2 ^ 53"
  unfolding double_rounding_def by blast

text \<open>A value that stays clear of the next integer is not rounded up to it.\<close>

lemma fl_floor:
  assumes fl: "double_rounding fl" and n: "\<bar>n\<bar> \<le> 2 ^ 52" and y: "of_int n \<le> y" "y < of_int n + 1 - d"
    and d: "1 / 2 ^ 1000 \<le> d" "\<bar>y\<bar> / 2 ^ 53 \<le> d"
  shows "of_int n \<le> fl y" "fl y < of_int n + 1"
proof -
  have "fl (of_int n) = of_int n" using n by (intro fl_int [OF fl]) simp
  then show "of_int n \<le> fl y" using fl_mono [OF fl y(1)] by simp
  have n': "\<bar>of_int n :: rat\<bar> \<le> 2 ^ 52" using n by (simp add: of_int_abs [symmetric] del: of_int_abs)
  show "fl y < of_int n + 1"
  proof (cases "1 / 2 ^ 1000 \<le> \<bar>y\<bar>")
    case True
    have "0 < d" using d(1) by (rule less_le_trans [rotated]) simp
    then have "y < 2 ^ 52 + 1" "- (2 ^ 52) \<le> y" using y n' by (simp_all add: abs_le_iff)
    then have "\<bar>y\<bar> \<le> 2 ^ 1000" by (simp add: abs_le_iff)
    then have "fl y - y \<le> \<bar>y\<bar> / 2 ^ 53" by (rule order_trans [OF abs_ge_self fl_error [OF fl True]])
    then show ?thesis using y(2) d(2) by linarith
  next
    case False
    then have small: "y < 1 / 2 ^ 1000" "- (1 / 2 ^ 1000) < y" by (simp_all add: abs_less_iff)
    have "\<not> n \<le> -1"
    proof
      assume "n \<le> -1"
      then have "(of_int n :: rat) + 1 \<le> 0" by (simp add: of_int_le_iff [of n "-1", where 'a = rat, simplified])
      then show False using y(2) d(1) small(2) by simp
    qed
    then have "0 \<le> (of_int n :: rat)" by simp
    have "y \<le> 1 / 2" using small(1) by simp
    then have "fl y \<le> fl (1 / 2)" by (rule fl_mono [OF fl])
    moreover have "fl (1 / 2) - 1 / 2 \<le> \<bar>1 / 2\<bar> / 2 ^ 53"
      by (rule order_trans [OF abs_ge_self fl_error [OF fl]]) simp_all
    then have "fl (1 / 2) < 1" by simp
    ultimately show ?thesis using \<open>0 \<le> of_int n\<close> by simp
  qed
qed


lemma fl_quotient:
  assumes fl: "double_rounding fl" and e: "\<bar>e\<bar> < 2 ^ 51" and c: "0 < c" "c < 2 ^ 50" and a: "0 \<le> a" "a \<le> 2"
  defines "f \<equiv> fl (fl (of_int e) / fl (of_int c))"
  shows "of_int (e div c + a) \<le> fl (of_int a + f)" "fl (of_int a + f) < of_int (e div c + a) + 1"
proof -
  define k where "k = e div c"
  define x :: rat where "x = of_int e / of_int c"
  define u :: rat where "u = 1 / of_int c"
  have cr: "0 < (of_int c :: rat)" "1 \<le> (of_int c :: rat)" "(of_int c :: rat) < 2 ^ 50"
    using c by (simp_all add: of_int_less_iff [of c "2 ^ 50", where 'a = rat, simplified])
  have er: "\<bar>of_int e :: rat\<bar> < 2 ^ 51" using e by (simp add: of_int_less_iff [of "\<bar>e\<bar>" "2 ^ 51", where 'a = rat, simplified])
  have f: "f = fl x" unfolding f_def x_def using e c by (simp add: fl_int [OF fl])
  have kb: "c * k \<le> e" "e < c * k + c" using div_bounds [OF c(1), of e] by (simp_all add: k_def)
  have u: "u * of_int c = 1" "0 < u" "1 / 2 ^ 50 < u" "u \<le> 1" unfolding u_def using cr by (simp_all add: field_simps)
  have xu: "x = of_int e * u" by (simp add: x_def u_def)
  have kx: "of_int k \<le> x" unfolding x_def using kb(1) cr(1)
    by (simp add: pos_le_divide_eq mult.commute of_int_le_iff [of "c * k" e, where 'a = rat, symmetric])
  have "of_int e \<le> (of_int (c * k + c - 1) :: rat)" using kb(2) by (simp only: of_int_le_iff)
  then have "x \<le> of_int (c * k + c - 1) * u" unfolding xu using u(2) by (intro mult_right_mono) simp_all
  also have "\<dots> = of_int k + 1 - u" using u(1) by (simp add: algebra_simps)
  finally have xk: "x \<le> of_int k + 1 - u" .
  have ax: "\<bar>x\<bar> < 2 ^ 51 * u" unfolding xu abs_mult using er u(2) by (simp add: mult_strict_right_mono)
  have ax1: "\<bar>x\<bar> \<le> 2 ^ 51" using ax u(4) by simp
  have err: "\<bar>f - x\<bar> \<le> \<bar>x\<bar> / 2 ^ 53"
  proof (cases "e = 0")
    case True
    then show ?thesis using fl_int [OF fl, of 0] by (simp add: f x_def)
  next
    case False
    then have "1 \<le> \<bar>of_int e :: rat\<bar>" by (simp add: of_int_le_iff [of 1 "\<bar>e\<bar>", where 'a = rat, simplified])
    then have "u \<le> \<bar>x\<bar>" unfolding xu abs_mult using u(2) by simp
    then have "1 / 2 ^ 1000 \<le> \<bar>x\<bar>" using u(3) by simp
    then show ?thesis unfolding f using ax1 by (intro fl_error [OF fl]) simp_all
  qed
  have "of_int k \<le> (2 ^ 51 :: rat)" "- (2 ^ 51 + 1) \<le> (of_int k :: rat)"
    using kx xk ax1 u(2) by (simp_all add: abs_le_iff)
  then have "(of_int \<bar>k\<bar> :: rat) \<le> of_int (2 ^ 51 + 1)" by (simp add: abs_le_iff)
  then have k51: "\<bar>k\<bar> \<le> 2 ^ 51 + 1" by (simp only: of_int_le_iff)
  have fk: "of_int k \<le> f" unfolding f using fl_mono [OF fl kx] k51 by (simp add: fl_int [OF fl])
  have d53: "\<bar>x\<bar> / 2 ^ 53 < u / 4" using ax by simp
  have "f - x \<le> \<bar>x\<bar> / 2 ^ 53" using order_trans [OF abs_ge_self err] .
  then have fu: "f < of_int k + 1 - 3 * u / 4" using d53 xk by linarith
  have "\<bar>f\<bar> \<le> \<bar>x\<bar> + \<bar>x\<bar> / 2 ^ 53" using err by linarith
  moreover have "\<bar>x\<bar> / 2 ^ 53 \<le> \<bar>x\<bar>" by simp
  moreover have "\<bar>of_int a :: rat\<bar> \<le> 2" using a by (simp add: of_int_le_iff [of a 2, where 'a = rat, simplified])
  ultimately have af: "\<bar>of_int a + f\<bar> \<le> 2 + 2 * \<bar>x\<bar>" using abs_triangle_ineq [of "of_int a" f] by linarith
  have "\<bar>of_int a + f\<bar> / 2 ^ 53 \<le> (2 + 2 * \<bar>x\<bar>) / 2 ^ 53" using af by (intro divide_right_mono) simp_all
  also have "\<dots> \<le> 3 * u / 4" using ax u(3) by simp
  finally have d: "\<bar>of_int a + f\<bar> / 2 ^ 53 \<le> 3 * u / 4" .
  have d0: "1 / 2 ^ 1000 \<le> 3 * u / 4" using u(3) by simp
  have n: "\<bar>k + a\<bar> \<le> 2 ^ 52" using k51 a by simp
  have y: "of_int (k + a) \<le> of_int a + f" "of_int a + f < of_int (k + a) + 1 - 3 * u / 4" using fk fu by simp_all
  show "of_int (e div c + a) \<le> fl (of_int a + f)" "fl (of_int a + f) < of_int (e div c + a) + 1"
    using fl_floor [OF fl n y d0 d] by (simp_all add: k_def)
qed


lemma c_int_bounds:
  assumes "of_int n \<le> x" "x < of_int n + 1"
  shows "0 \<le> n \<Longrightarrow> c_int_of_rat x = n" "n < 0 \<Longrightarrow> n \<le> c_int_of_rat x \<and> c_int_of_rat x \<le> n + 1"
proof -
  show "c_int_of_rat x = n" if "0 \<le> n"
  proof -
    have "0 \<le> x" using that assms(1) by (simp add: order_trans [of 0 "of_int n"])
    then show ?thesis using assms by (simp add: c_int_of_rat_def floor_unique)
  qed
  show "n \<le> c_int_of_rat x \<and> c_int_of_rat x \<le> n + 1" if "n < 0"
  proof (cases "0 \<le> x")
    case True
    have "\<lfloor>x\<rfloor> < n + 1" using assms(2) by (subst floor_less_iff) simp
    moreover have "0 \<le> \<lfloor>x\<rfloor>" using True by simp
    ultimately show ?thesis using True that by (simp add: c_int_of_rat_def)
  next
    case False
    have "n \<le> \<lceil>x\<rceil>" "\<lceil>x\<rceil> \<le> n + 1" using assms by (simp_all add: le_ceiling_iff ceiling_le_iff)
    then show ?thesis using False by (simp add: c_int_of_rat_def)
  qed
qed

section \<open>Windows as sets of instants\<close>

definition win_begin :: "timestamp \<Rightarrow> Interval \<Rightarrow> int \<Rightarrow> timestamp" where
  "win_begin start slide n = start + (n - 1) * i_time slide"

definition win_end :: "timestamp \<Rightarrow> Interval \<Rightarrow> Interval \<Rightarrow> int \<Rightarrow> timestamp" where
  "win_end start rng slide n = win_begin start slide n + i_time rng"

definition windows_with :: "timestamp \<Rightarrow> Interval \<Rightarrow> Interval \<Rightarrow> timestamp \<Rightarrow> int set" where
  "windows_with start rng slide ts = {n. 1 \<le> n \<and> win_begin start slide n \<le> ts \<and> ts < win_end start rng slide n}"

text \<open>
  The window clauses the theorems are about: no months, an extent and a slide of less than \<open>2^50\<close>
  microseconds (35 years), a timestamp no further than that from the start, and a slide that is not
  so small that the numbers of the windows around the timestamp exceed an \<^verbatim>\<open>int\<close>.
\<close>

definition window_ok :: "timestamp \<Rightarrow> Interval \<Rightarrow> Interval \<Rightarrow> timestamp \<Rightarrow> bool" where
  "window_ok start rng slide ts \<longleftrightarrow> i_month rng = 0 \<and> i_month slide = 0 \<and>
     0 < i_time rng \<and> i_time rng < 2 ^ 50 \<and> 0 < i_time slide \<and> i_time slide < 2 ^ 50 \<and>
     \<bar>start\<bar> < 2 ^ 60 \<and> \<bar>ts - start\<bar> < 2 ^ 50 \<and>
     \<bar>ts - start\<bar> + i_time rng < 2 ^ 30 * i_time slide"

lemma finite_bound: "\<bar>t\<bar> < 2 ^ 62 \<Longrightarrow> \<not> TIMESTAMP_NOT_FINITE t"
  by (auto simp: TIMESTAMP_NOT_FINITE_def DT_NOBEGIN_def DT_NOEND_def)

lemma pl_span_usecs: "i_month iv = 0 \<Longrightarrow> \<bar>t\<bar> < 2 ^ 62 \<Longrightarrow> timestamp_pl_span t iv = Inr (t + i_time iv)"
  by (simp add: timestamp_pl_span_def finite_bound)

lemma mi_usecs: "\<bar>t1\<bar> < 2 ^ 62 \<Longrightarrow> \<bar>t2\<bar> < 2 ^ 62 \<Longrightarrow> timestamp_mi t1 t2 = Inr \<lparr>i_time = t1 - t2, i_month = 0\<rparr>"
  by (simp add: timestamp_mi_def finite_bound)

lemma window_begin_run:
  assumes fl: "double_rounding fl" and sl: "i_month slide = 0" "0 < i_time slide" "i_time slide < 2 ^ 50"
    and st: "\<bar>start\<bar> < 2 ^ 60" and n: "\<bar>(n - 1) * i_time slide\<bar> \<le> 2 ^ 53"
  shows "window_begin fl start slide n = Inr (win_begin start slide n)"
proof -
  have "\<bar>n - 1\<bar> * 1 \<le> \<bar>n - 1\<bar> * i_time slide" using sl(2) by (intro mult_left_mono) simp_all
  then have n1: "\<bar>n - 1\<bar> \<le> 2 ^ 53" using n sl(2) by (simp add: abs_mult)
  have "fl (of_int n - 1) = of_int (n - 1)" using fl_int [OF fl n1] by simp
  moreover have "fl (of_int (i_time slide)) = of_int (i_time slide)" using sl by (intro fl_int [OF fl]) simp
  moreover have "fl (of_int (i_time slide) * of_int (n - 1)) = of_int ((n - 1) * i_time slide)"
    using fl_int [OF fl n] by (simp add: mult.commute)
  moreover have "fl 0 = 0" using fl_int [OF fl, of 0] by simp
  ultimately have "interval_mul fl slide (fl (of_int n - 1)) = \<lparr>i_time = (n - 1) * i_time slide, i_month = 0\<rparr>"
    using sl(1) by (simp add: interval_mul_def Let_def int32_of_def c_int_of_rat_def [of 0] del: of_int_mult of_int_diff)
  then show ?thesis using st by (simp add: window_begin_def pl_span_usecs win_begin_def)
qed


lemma window_end_run:
  assumes fl: "double_rounding fl" and sl: "i_month slide = 0" "0 < i_time slide" "i_time slide < 2 ^ 50"
    and rn: "i_month rng = 0" "0 < i_time rng" "i_time rng < 2 ^ 50"
    and st: "\<bar>start\<bar> < 2 ^ 60" and n: "\<bar>(n - 1) * i_time slide\<bar> \<le> 2 ^ 53"
  shows "window_end fl start rng slide n = Inr (win_end start rng slide n)"
proof -
  have "\<bar>win_begin start slide n\<bar> < 2 ^ 62" using abs_triangle_ineq [of start "(n - 1) * i_time slide"] st n by (simp add: win_begin_def)
  then show ?thesis
    by (simp add: window_end_def window_begin_run [OF fl sl st n] pl_span_usecs [OF rn(1)] win_end_def)
qed

text \<open>The quotient of the time past the first end, or past the start, by the slide.\<close>

definition past_slides :: "timestamp \<Rightarrow> Interval \<Rightarrow> timestamp \<Rightarrow> int" where
  "past_slides t slide ts = (ts - t) div i_time slide"

lemma past_slides_bounds:
  assumes "0 < i_time slide"
  shows "past_slides t slide ts * i_time slide \<le> ts - t" "ts - t < (past_slides t slide ts + 1) * i_time slide"
  using div_bounds [OF assms, of "ts - t"] by (simp_all add: past_slides_def algebra_simps)

lemma past_slides_less:
  assumes "0 < i_time slide"
  shows "ts < t + m * i_time slide \<longleftrightarrow> past_slides t slide ts < m"
proof -
  let ?k = "past_slides t slide ts"
  note b = past_slides_bounds [OF assms, where t = t and ts = ts]
  show ?thesis
  proof
    assume "ts < t + m * i_time slide"
    then have "?k * i_time slide < m * i_time slide" using b(1) by simp
    then show "?k < m" using assms by (simp add: mult_less_cancel_right)
  next
    assume "?k < m"
    then have "(?k + 1) * i_time slide \<le> m * i_time slide" using assms by (intro mult_right_mono) simp_all
    then show "ts < t + m * i_time slide" using b(2) by simp
  qed
qed

lemma past_slides_small:
  assumes "0 < i_time slide" "i_time slide < 2 ^ 50" "\<bar>ts - t\<bar> < 2 ^ 51" "0 \<le> j" "j \<le> 2"
  shows "\<bar>(past_slides t slide ts + j) * i_time slide\<bar> \<le> 2 ^ 53"
proof -
  let ?s = "i_time slide" and ?k = "past_slides t slide ts"
  define js ks where "js = j * ?s" and "ks = ?k * ?s"
  have "j * ?s \<le> 2 * ?s" "0 \<le> j * ?s" using assms(1,4,5) by (auto intro: mult_right_mono)
  then have j: "0 \<le> js" "js \<le> 2 * ?s" by (simp_all add: js_def)
  have k: "ks \<le> ts - t" "ts - t < ks + ?s"
    using past_slides_bounds [OF assms(1), where t = t and ts = ts] by (simp_all add: ks_def algebra_simps)
  have "\<bar>ks + js\<bar> \<le> 2 ^ 53" using j k assms(1,2,3) by (simp add: abs_le_iff abs_less_iff)
  then show ?thesis by (simp add: js_def ks_def algebra_simps)
qed

lemma past_slides_int:
  assumes "0 < i_time slide" "\<bar>ts - t\<bar> < 2 ^ 30 * i_time slide"
  shows "- (2 ^ 30) \<le> past_slides t slide ts" "past_slides t slide ts < 2 ^ 30"
proof -
  have "ts < t + 2 ^ 30 * i_time slide" "\<not> ts < t + (- (2 ^ 30)) * i_time slide" using assms(2) by (simp_all add: abs_less_iff)
  then show "- (2 ^ 30) \<le> past_slides t slide ts" "past_slides t slide ts < 2 ^ 30"
    unfolding past_slides_less [OF assms(1)] by simp_all
qed

lemma div_interval_run:
  assumes "i_month slide = 0" "0 < i_time slide"
  shows "interval_div_interval fl \<lparr>i_time = e, i_month = 0\<rparr> slide = Inr (fl (fl (of_int e) / fl (of_int (i_time slide))))"
  using assms by (simp add: interval_div_interval_def interval_to_timespan_def)

lemma first_window_past_run:
  assumes fl: "double_rounding fl" and ok: "window_ok start rng slide ts"
  obtains w where "first_window_past fl start rng slide ts = Inr w"
    "if 0 \<le> past_slides (start + i_time rng) slide ts + 2 then w = past_slides (start + i_time rng) slide ts + 2 else w \<le> 0"
proof -
  let ?t = "start + i_time rng" and ?s = "i_time slide"
  define k where "k = past_slides ?t slide ts"
  have sl: "i_month slide = 0" "0 < ?s" "?s < 2 ^ 50" and rn: "i_month rng = 0" "0 < i_time rng" "i_time rng < 2 ^ 50"
    and st: "\<bar>start\<bar> < 2 ^ 60" and ts: "\<bar>ts - start\<bar> < 2 ^ 50" using ok by (simp_all add: window_ok_def)
  have e: "\<bar>ts - ?t\<bar> < 2 ^ 51" using ts rn by (simp add: abs_less_iff)
  have b: "\<bar>start\<bar> < 2 ^ 62" "\<bar>?t\<bar> < 2 ^ 62" "\<bar>ts\<bar> < 2 ^ 62" using st ts rn by (simp_all add: abs_less_iff)
  have "\<bar>ts - start\<bar> + i_time rng < 2 ^ 30 * ?s" using ok by (simp add: window_ok_def)
  then have "\<bar>ts - ?t\<bar> < 2 ^ 30 * ?s" using rn by linarith
  from past_slides_int [OF sl(2) this] have k: "- (2 ^ 30) \<le> k" "k < 2 ^ 30" by (simp_all add: k_def)
  define f where "f = fl (fl (of_int (ts - ?t)) / fl (of_int ?s))"
  define w where "w = c_int_of_rat (fl (2 + f))"
  have q: "of_int (k + 2) \<le> fl (2 + f)" "fl (2 + f) < of_int (k + 2) + 1"
    using fl_quotient [OF fl e sl(2,3), of 2] by (simp_all add: f_def k_def past_slides_def)
  have w: "if 0 \<le> k + 2 then w = k + 2 else w \<le> 0 \<and> (w = k + 2 \<or> w = k + 3)"
    using c_int_bounds [OF q] by (auto simp: w_def)
  then have wk: "w = k + 2 \<or> w = k + 3" by (simp split: if_splits)
  then have "\<bar>(w - 1) * ?s\<bar> \<le> 2 ^ 53"
    using past_slides_small [OF sl(2,3) e, of "w - 1 - k"] by (auto simp: k_def)
  note we = window_end_run [OF fl sl rn st this]
  have "ts < ?t + (w - 1) * ?s" unfolding past_slides_less [OF sl(2)] using wk by (auto simp: k_def)
  then have "ts < win_end start rng slide w" by (simp add: win_end_def win_begin_def algebra_simps)
  moreover have "c_int w = Inr w" using wk k by (auto simp: c_int_def)
  ultimately have "first_window_past fl start rng slide ts = Inr w"
    using b by (simp add: first_window_past_def pl_span_usecs [OF rn(1)] mi_usecs div_interval_run [OF sl(1,2)]
        f_def [symmetric] w_def [symmetric] we ts_geq_def Let_def del: of_int_diff)
  then show thesis by (rule that) (use w in \<open>auto simp: k_def\<close>)
qed


lemma in_windows_with:
  assumes "0 < i_time slide"
  shows "n \<in> windows_with start rng slide ts \<longleftrightarrow>
    max 1 (past_slides (start + i_time rng) slide ts + 2) \<le> n \<and> n \<le> past_slides start slide ts + 1"
proof -
  have "win_begin start slide n \<le> ts \<longleftrightarrow> \<not> past_slides start slide ts < n - 1"
    unfolding past_slides_less [OF assms, symmetric] by (auto simp: win_begin_def)
  moreover have "ts < win_end start rng slide n \<longleftrightarrow> past_slides (start + i_time rng) slide ts < n - 1"
    unfolding past_slides_less [OF assms, symmetric] by (auto simp: win_end_def win_begin_def algebra_simps)
  ultimately show ?thesis by (auto simp: windows_with_def)
qed

lemma first_window_no_run:
  assumes fl: "double_rounding fl" and ok: "window_ok start rng slide ts"
  shows "first_window_no fl start rng slide ts =
    Inr (let w = max 1 (past_slides (start + i_time rng) slide ts + 2) in if w \<le> past_slides start slide ts + 1 then w else -1)"
proof -
  let ?t = "start + i_time rng" and ?s = "i_time slide"
  have sl: "i_month slide = 0" "0 < ?s" "?s < 2 ^ 50" and rn: "0 < i_time rng" "i_time rng < 2 ^ 50"
    and st: "\<bar>start\<bar> < 2 ^ 60" and ts: "\<bar>ts - start\<bar> < 2 ^ 50" using ok by (simp_all add: window_ok_def)
  have e: "\<bar>ts - ?t\<bar> < 2 ^ 51" using ts rn by (simp add: abs_less_iff)
  obtain w where w: "first_window_past fl start rng slide ts = Inr w"
    "if 0 \<le> past_slides ?t slide ts + 2 then w = past_slides ?t slide ts + 2 else w \<le> 0"
    by (rule first_window_past_run [OF fl ok])
  define v where "v = max 1 (past_slides ?t slide ts + 2)"
  have v: "(if w < 1 then 1 else w) = v" using w(2) by (auto simp: v_def split: if_splits)
  have "v - 1 = 0 \<or> v - 1 = past_slides ?t slide ts + 1" by (auto simp: v_def)
  then have "\<bar>(v - 1) * ?s\<bar> \<le> 2 ^ 53" using past_slides_small [OF sl(2,3) e, of 1] by (elim disjE) (simp, simp only:)
  note b = window_begin_run [OF fl sl st this]
  have "win_begin start slide v \<le> ts \<longleftrightarrow> \<not> past_slides start slide ts < v - 1"
    unfolding past_slides_less [OF sl(2), symmetric] by (auto simp: win_begin_def)
  then show ?thesis by (auto simp: first_window_no_def w(1) v b Let_def ts_cmp v_def [symmetric])
qed

lemma last_window_no_run:
  assumes fl: "double_rounding fl" and ok: "window_ok start rng slide ts"
  obtains m where "last_window_no fl start rng slide ts = Inr m"
    "start \<le> ts \<Longrightarrow> m = (if past_slides (start + i_time rng) slide ts < past_slides start slide ts
       then past_slides start slide ts + 1 else -1)"
proof -
  let ?t = "start + i_time rng" and ?s = "i_time slide"
  have sl: "i_month slide = 0" "0 < ?s" "?s < 2 ^ 50" and rn: "i_month rng = 0" "0 < i_time rng" "i_time rng < 2 ^ 50"
    and st: "\<bar>start\<bar> < 2 ^ 60" and ts: "\<bar>ts - start\<bar> < 2 ^ 50" using ok by (simp_all add: window_ok_def)
  have e: "\<bar>ts - start\<bar> < 2 ^ 51" using ts by simp
  have b: "\<bar>start\<bar> < 2 ^ 62" "\<bar>ts\<bar> < 2 ^ 62" using st ts by (simp_all add: abs_less_iff)
  define k where "k = past_slides start slide ts"
  have "\<bar>ts - start\<bar> + i_time rng < 2 ^ 30 * ?s" using ok by (simp add: window_ok_def)
  then have "\<bar>ts - start\<bar> < 2 ^ 30 * ?s" using rn by linarith
  from past_slides_int [OF sl(2) this] have k: "- (2 ^ 30) \<le> k" "k < 2 ^ 30" by (simp_all add: k_def)
  define f where "f = fl (fl (of_int (ts - start)) / fl (of_int ?s))"
  define w where "w = c_int_of_rat (fl (f + 1))"
  have q: "of_int (k + 1) \<le> fl (f + 1)" "fl (f + 1) < of_int (k + 1) + 1"
    using fl_quotient [OF fl e sl(2,3), of 1] by (simp_all add: f_def k_def past_slides_def add.commute [of 1])
  have w: "w = k + 1 \<or> w = k + 2" "0 \<le> k + 1 \<longrightarrow> w = k + 1"
    using c_int_bounds [OF q] by (cases "0 \<le> k + 1"; simp add: w_def; linarith)+
  have "\<bar>(w - 1) * ?s\<bar> \<le> 2 ^ 53" using past_slides_small [OF sl(2,3) e, of "w - 1 - k"] w(1) by (auto simp: k_def)
  note we = window_end_run [OF fl sl rn st this]
  have c: "c_int w = Inr w" using w(1) k by (auto simp: c_int_def)
  have lt: "ts < win_end start rng slide w \<longleftrightarrow> past_slides ?t slide ts < w - 1"
    unfolding past_slides_less [OF sl(2), symmetric] by (auto simp: win_end_def win_begin_def algebra_simps)
  have "last_window_no fl start rng slide ts = Inr (if past_slides ?t slide ts < w - 1 then w else -1)"
    using b by (simp add: last_window_no_def mi_usecs div_interval_run [OF sl(1,2)]
        f_def [symmetric] w_def [symmetric] c we timestamp_past_window_def ts_cmp lt del: of_int_diff)
  then show thesis
  proof (rule that)
    assume "start \<le> ts"
    then have "0 \<le> k" using sl(2) by (simp add: k_def past_slides_def pos_imp_zdiv_nonneg_iff)
    then show "(if past_slides ?t slide ts < w - 1 then w else -1) = (if past_slides ?t slide ts < past_slides start slide ts
       then past_slides start slide ts + 1 else -1)" using w(2) by (simp add: k_def)
  qed
qed
section \<open>Window numbers and lifetimes\<close>

lemma double_rounding_exact: "double_rounding (\<lambda>x. x)"
  by (simp add: double_rounding_def mono_def)



lemma window_numbers_run:
  assumes "double_rounding fl" "window_ok start rng slide ts" "start \<le> ts"
  shows "first_window_no fl start rng slide ts = Inr (if windows_with start rng slide ts = {} then -1
           else max 1 (past_slides (start + i_time rng) slide ts + 2))"
    "last_window_no fl start rng slide ts = Inr (if windows_with start rng slide ts = {} then -1
           else past_slides start slide ts + 1)"
    "windows_with start rng slide ts =
       {max 1 (past_slides (start + i_time rng) slide ts + 2)..past_slides start slide ts + 1}"
proof -
  let ?a = "max 1 (past_slides (start + i_time rng) slide ts + 2)" and ?b = "past_slides start slide ts + 1"
  have s: "0 < i_time slide" using assms(2) by (simp add: window_ok_def)
  show W: "windows_with start rng slide ts = {?a..?b}" using in_windows_with [OF s] by auto
  show "first_window_no fl start rng slide ts = Inr (if windows_with start rng slide ts = {} then -1 else ?a)"
    by (auto simp: first_window_no_run [OF assms(1,2)] W Let_def)
  have "0 \<le> past_slides start slide ts" using s assms(3) by (simp add: past_slides_def pos_imp_zdiv_nonneg_iff)
  then have e: "windows_with start rng slide ts = {} \<longleftrightarrow>
      \<not> past_slides (start + i_time rng) slide ts < past_slides start slide ts" by (auto simp: W)
  obtain m where "last_window_no fl start rng slide ts = Inr m" "m = (if past_slides (start + i_time rng) slide ts < past_slides start slide ts
       then ?b else -1)"
    by (rule last_window_no_run [OF assms(1,2)]) (use assms(3) in simp)
  then show "last_window_no fl start rng slide ts = Inr (if windows_with start rng slide ts = {} then -1 else ?b)"
    by (simp add: e)
qed



text \<open>Before the start, where no window contains the timestamp, last_window_no may return 0.\<close>

lemma last_window_before_start:
  "last_window_no (\<lambda>x. x) 0 \<lparr>i_time = 10, i_month = 0\<rparr> \<lparr>i_time = 10, i_month = 0\<rparr> (-5) = Inr 0"
  by code_simp

lemma window_end_near:
  assumes fl: "double_rounding fl" and ok: "window_ok start rng slide ts" and n: "n = 1 \<or> n = past_slides start slide ts + 2 \<or> n = past_slides (start + i_time rng) slide ts + 2"
  shows "window_end fl start rng slide n = Inr (win_end start rng slide n)"
proof -
  have sl: "i_month slide = 0" "0 < i_time slide" "i_time slide < 2 ^ 50" and rn: "i_month rng = 0" "0 < i_time rng" "i_time rng < 2 ^ 50"
    and st: "\<bar>start\<bar> < 2 ^ 60" and ts: "\<bar>ts - start\<bar> < 2 ^ 50" using ok by (simp_all add: window_ok_def)
  have e: "\<bar>ts - start\<bar> < 2 ^ 51" "\<bar>ts - (start + i_time rng)\<bar> < 2 ^ 51" using ts rn by (simp_all add: abs_less_iff)
  consider "n - 1 = 0" | "n - 1 = past_slides start slide ts + 1" | "n - 1 = past_slides (start + i_time rng) slide ts + 1" using n by auto
  then have "\<bar>(n - 1) * i_time slide\<bar> \<le> 2 ^ 53"
  proof cases
    case 1 then show ?thesis by simp
  next
    case 2 show ?thesis unfolding 2 by (rule past_slides_small [OF sl(2,3) e(1)]) simp_all
  next
    case 3 show ?thesis unfolding 3 by (rule past_slides_small [OF sl(2,3) e(2)]) simp_all
  qed
  then show ?thesis by (rule window_end_run [OF fl sl rn st])
qed


definition witness_window :: "unit WindowState" where
  "witness_window = \<lparr>ws_desc = None, ws_tsvar = 1, startAt = 0, rangeBy = \<lparr>i_time = 60, i_month = 0\<rparr>,
     slideBy = \<lparr>i_time = 7, i_month = 0\<rparr>, ws_slices = [], lastTSSeen = DT_NOBEGIN\<rparr>"


section \<open>Edges of sliced windows\<close>

primrec advance_by :: "nat \<Rightarrow> SlicedWindowState \<Rightarrow> SlicedWindowState outcome" where
  "advance_by 0 sws = Inr sws"
| "advance_by (Suc n) sws = bind_outcome (advance_by n sws) SlicedWindowAdvance"

definition slice_time :: "Interval list \<Rightarrow> nat \<Rightarrow> int" where
  "slice_time slices i = i_time (slices ! (i mod length slices))"

lemma advance_edge:
  assumes "slices \<noteq> []" "i_month (slices ! (Suc n mod length slices)) = 0" "\<bar>t\<bar> < 2 ^ 62"
  shows "SlicedWindowAdvance \<lparr>sws_slices = slices, cur_slice = drop (n mod length slices) slices, next_edge = t\<rparr> =
    Inr \<lparr>sws_slices = slices, cur_slice = drop (Suc n mod length slices) slices, next_edge = t + slice_time slices (Suc n)\<rparr>"
proof -
  let ?l = "length slices" and ?cur = "drop (n mod length slices) slices"
  have l: "n mod ?l < ?l" "Suc n mod ?l < ?l" using assms(1) by simp_all
  have rest: "(case ?cur of [] \<Rightarrow> [] | _ # rest \<Rightarrow> rest) = drop (Suc (n mod ?l)) slices"
    by (simp add: Cons_nth_drop_Suc [OF l(1), symmetric])
  have nxt: "(if drop (Suc (n mod ?l)) slices = [] then slices else drop (Suc (n mod ?l)) slices) = drop (Suc n mod ?l) slices"
    using l by (auto simp: mod_Suc)
  show ?thesis
    using assms(2,3) by (simp only: SlicedWindowAdvance_def Let_def rest nxt SlicedWindowState.select_convs)
      (simp add: Cons_nth_drop_Suc [OF l(2), symmetric] lfirst_def ts_plus_interval_def pl_span_usecs slice_time_def)
qed

lemma advance_edges:
  assumes "ws_slices ws \<noteq> []" "\<forall>iv\<in>set (ws_slices ws). i_month iv = 0"
    "\<bar>startAt ws\<bar> + (\<Sum>i\<le>n. \<bar>slice_time (ws_slices ws) i\<bar>) < 2 ^ 62"
  shows "bind_outcome (createSlicedWindowState ws) (advance_by n) =
    Inr \<lparr>sws_slices = ws_slices ws, cur_slice = drop (n mod length (ws_slices ws)) (ws_slices ws),
         next_edge = startAt ws + (\<Sum>i\<le>n. slice_time (ws_slices ws) i)\<rparr>"
  using assms(3)
proof (induction n)
  case 0
  then show ?case using assms(1,2)
    by (cases "ws_slices ws") (simp_all add: createSlicedWindowState_def lfirst_def ts_plus_interval_def pl_span_usecs slice_time_def)
next
  case (Suc n)
  let ?sl = "ws_slices ws"
  have "\<bar>startAt ws\<bar> + (\<Sum>i\<le>n. \<bar>slice_time ?sl i\<bar>) < 2 ^ 62" using Suc.prems by simp
  note IH = Suc.IH [OF this]
  have "\<bar>\<Sum>i\<le>n. slice_time ?sl i\<bar> \<le> (\<Sum>i\<le>n. \<bar>slice_time ?sl i\<bar>)" by (rule sum_abs)
  moreover have "\<bar>startAt ws\<bar> + (\<Sum>i\<le>n. \<bar>slice_time ?sl i\<bar>) < 2 ^ 62" by fact
  ultimately have "\<bar>startAt ws + (\<Sum>i\<le>n. slice_time ?sl i)\<bar> < 2 ^ 62" by linarith
  moreover have "i_month (?sl ! (Suc n mod length ?sl)) = 0" using assms(1,2) by simp
  ultimately have "SlicedWindowAdvance \<lparr>sws_slices = ?sl, cur_slice = drop (n mod length ?sl) ?sl, next_edge = startAt ws + (\<Sum>i\<le>n. slice_time ?sl i)\<rparr> =
    Inr \<lparr>sws_slices = ?sl, cur_slice = drop (Suc n mod length ?sl) ?sl, next_edge = startAt ws + (\<Sum>i\<le>Suc n. slice_time ?sl i)\<rparr>"
    by (simp add: advance_edge [OF assms(1)])
  then show ?case using IH by (cases "createSlicedWindowState ws") simp_all
qed

lemma slice_round: "(\<Sum>i<length slices. slice_time slices i) = sum_list (map i_time slices)"
  by (simp add: slice_time_def sum_list_sum_nth atLeast0LessThan)

lemma slice_rounds: "(\<Sum>i<q * length slices. slice_time slices i) = int q * sum_list (map i_time slices)"
proof -
  let ?l = "length slices"
  have "sum (slice_time slices) {m * ?l..<m * ?l + ?l} = sum_list (map i_time slices)" for m
    using sum.shift_bounds_nat_ivl [of "slice_time slices" 0 "m * ?l" ?l]
    by (simp add: slice_time_def slice_round [symmetric] lessThan_atLeast0 add.commute)
  then show ?thesis by (simp add: sum.nat_group [symmetric])
qed

lemma read_slices_total:
  "read_slices interval_in vs slices acc = Inr (slices', acc') \<Longrightarrow>
    \<exists>new. slices' = slices @ new \<and> i_time acc' = i_time acc + sum_list (map i_time new)"
proof (induction vs arbitrary: slices acc)
  case (Cons v vs)
  then obtain s where "read_slices interval_in vs (slices @ [s]) (interval_pl acc s) = Inr (slices', acc')"
    by (auto simp: bind_outcome_Inr)
  from Cons.IH [OF this] show ?case by (force simp: interval_pl_def)
qed simp

lemma created_slices:
  assumes "createWindowState timestamp_in interval_in we = Inr ws" "ws_slices ws \<noteq> []"
  shows "i_time (slideBy ws) = sum_list (map i_time (ws_slices ws))"
proof (cases "we_slices we")
  case Nil
  then show ?thesis using assms by (auto simp: createWindowState_def bind_outcome_Inr split: option.splits)
next
  case (Cons v vs)
  then obtain s where r: "read_slices interval_in vs [s] s = Inr (ws_slices ws, slideBy ws)"
    using assms(1) by (auto simp: createWindowState_def bind_outcome_Inr split: option.splits if_splits)
  from read_slices_total [OF r] show ?thesis by auto
qed


definition witness_slices :: WindowExpr where
  "witness_slices = \<lparr>we_startat = Some ''0'', we_rangeby = None, we_slideby = None, we_slices = [''a'', ''bb'', ''ccc''], we_tsvar = Some 1\<rparr>"

definition witness_sliced :: "unit WindowState" where
  "witness_sliced = \<lparr>ws_desc = None, ws_tsvar = 1, startAt = 0, rangeBy = \<lparr>i_time = 1, i_month = 0\<rparr>,
     slideBy = \<lparr>i_time = 6, i_month = 0\<rparr>, ws_slices = map (\<lambda>n. \<lparr>i_time = n, i_month = 0\<rparr>) [1, 2, 3], lastTSSeen = DT_NOBEGIN\<rparr>"


section \<open>Timevals\<close>

lemma one_million_parts:
  "offset sdiv ONE_MILLION * ONE_MILLION + offset smod ONE_MILLION = offset" "\<bar>offset smod ONE_MILLION\<bar> < ONE_MILLION"
proof -
  show "offset sdiv ONE_MILLION * ONE_MILLION + offset smod ONE_MILLION = offset" by (rule sdiv_mult_smod_eq)
  show "\<bar>offset smod ONE_MILLION\<bar> < ONE_MILLION" using smod_int_range [of ONE_MILLION offset] by (simp add: ONE_MILLION_def abs_less_iff)
qed

text \<open>
  tv_plus_int never fails on a timeval with fewer than a million microseconds, and tv_diff gives
  back the offset that was added; the microseconds stay between 0 and a million.
\<close>

lemma tv_plus_int_diff:
  assumes "0 \<le> tv_usec src" "tv_usec src < ONE_MILLION"
  shows "case tv_plus_int src offset of
      Inr t \<Rightarrow> tv_diff src t = offset \<and> 0 \<le> tv_usec t \<and> tv_usec t \<le> ONE_MILLION
    | Inl e \<Rightarrow> False"
proof -
  define a b where "a = offset sdiv ONE_MILLION" and "b = offset smod ONE_MILLION"
  have "a * ONE_MILLION + b = offset" "\<bar>b\<bar> < ONE_MILLION" using one_million_parts [of offset] by (simp_all add: a_def b_def)
  then show ?thesis using assms
    by (auto simp: tv_plus_int_def tv_diff_def Let_def a_def [symmetric] b_def [symmetric] algebra_simps)
qed

text \<open>A sum of exactly a million microseconds is not carried into the seconds.\<close>

lemma tv_plus_int_no_carry:
  "tv_plus_int \<lparr>tv_sec = 5, tv_usec = 999999\<rparr> 1 = Inr \<lparr>tv_sec = 5, tv_usec = 1000000\<rparr>"
  by code_simp

end
