(* ===== verification/Punct.thy ===== *)
theory Punct
  imports Window
begin

text \<open>
  Punctuation tuples (\<^verbatim>\<open>src/src/backend/telegraphcq/punct.c\<close>) and the timestamp column of a stream
  (\<^verbatim>\<open>histogram.c\<close>, \<^verbatim>\<open>triageq.c\<close>). A punctuation tuple is an ordinary tuple whose only attribute that
  is not null is the timestamp and whose header has a flag. The layout of a tuple in memory is not
  modelled: forming a tuple and fetching an attribute are arguments, and \<open>heap_laws\<close> states what
  they promise. Freed tuples are recorded in a log, so that the theorems can say who frees what.
\<close>

section \<open>Tuples and their descriptors\<close>

datatype 'p Datum =
    Datum_zero
  | TimestampGetDatum timestamp
  | Float4GetDatum rat
  | Int32GetDatum int
  | PointerGetDatum 'p

fun DatumGetTimestamp :: "'p Datum \<Rightarrow> timestamp outcome" where
  "DatumGetTimestamp (TimestampGetDatum ts) = Inr ts"
| "DatumGetTimestamp _ = Inl (Out_of_bounds ''not a timestamp'')"

text \<open>\<open>ts_attrnum\<close> counts from 0 and is -1 when there is no timestamp; attribute numbers count from 1.\<close>

record TupleConstr =
  ts_attrnum :: int

record TupleDesc =
  natts :: nat
  attnames :: "string list"
  constr :: "TupleConstr option"

definition TCQTSATTRNOP :: int where "TCQTSATTRNOP = -1"

definition tc_has_timestamp :: "TupleConstr \<Rightarrow> bool" where
  "tc_has_timestamp tc \<longleftrightarrow> ts_attrnum tc \<noteq> TCQTSATTRNOP"

record 'b Tuple =
  t_infomask :: "16 word"
  t_body :: 'b

definition HEAP_ISPUNCT :: "16 word" where "HEAP_ISPUNCT = 0x0020"

definition HeapTupleIsPunct :: "'b Tuple \<Rightarrow> bool" where
  "HeapTupleIsPunct tuple \<longleftrightarrow> t_infomask tuple AND HEAP_ISPUNCT \<noteq> 0"

record ('b, 'p) heap_ops =
  heap_formtuple :: "TupleDesc \<Rightarrow> 'p Datum list \<Rightarrow> char list \<Rightarrow> 'b Tuple"
  heap_getattr :: "'b Tuple \<Rightarrow> int \<Rightarrow> TupleDesc \<Rightarrow> 'p Datum option"

text \<open>An attribute of a formed tuple is the value it was formed with, and the flag is no attribute.\<close>

definition heap_laws :: "('b, 'p) heap_ops \<Rightarrow> bool" where
  "heap_laws ho \<longleftrightarrow>
     (\<forall>desc vals nulls i. natts desc \<le> length vals \<and> natts desc \<le> length nulls \<and> i < natts desc \<longrightarrow>
        heap_getattr ho (heap_formtuple ho desc vals nulls) (int i + 1) desc =
          (if nulls ! i = CHR ''n'' then None else Some (vals ! i))) \<and>
     (\<forall>tup m n desc. heap_getattr ho (tup\<lparr>t_infomask := m\<rparr>) n desc = heap_getattr ho tup n desc)"

text \<open>What a process has freed, and how many random numbers it has drawn.\<close>

record 'b process =
  freed :: "'b Tuple list"
  rand_no :: nat

definition heap_freetuple :: "'b Tuple \<Rightarrow> ('b process, unit) prog" where
  "heap_freetuple tup = modify_prog (\<lambda>s. s\<lparr>freed := freed s @ [tup]\<rparr>)"

section \<open>The timestamp column\<close>

definition get_timestamp_col :: "TupleDesc \<Rightarrow> int" where
  "get_timestamp_col desc = (case constr desc of None \<Rightarrow> TCQTSATTRNOP | Some c \<Rightarrow> 1 + ts_attrnum c)"

definition get_num_non_timestamp_attrs :: "TupleDesc \<Rightarrow> int" where
  "get_num_non_timestamp_attrs desc =
     (if get_timestamp_col desc \<noteq> TCQTSATTRNOP then int (natts desc) - 1 else int (natts desc))"

definition get_attr_id_skipping_ts :: "int \<Rightarrow> TupleDesc \<Rightarrow> int outcome" where
  "get_attr_id_skipping_ts n desc =
     (if 1 \<le> n \<and> n \<le> get_num_non_timestamp_attrs desc then
        let ts_col = get_timestamp_col desc
        in Inr (if ts_col \<noteq> TCQTSATTRNOP \<and> n \<ge> ts_col then n + 1 else n)
      else Inl (Assert_failed ''id >= 1 && id <= get_num_non_timestamp_attrs(desc)''))"

definition get_timestamp_val :: "('b, 'p) heap_ops \<Rightarrow> TupleDesc \<Rightarrow> 'b Tuple \<Rightarrow> timestamp outcome" where
  "get_timestamp_val ho desc tup =
     (case constr desc of
        None \<Rightarrow> Inl (Out_of_bounds ''desc->constr is NULL'')
      | Some c \<Rightarrow>
          if tc_has_timestamp c then
            (case heap_getattr ho tup (get_timestamp_col desc) desc of
               None \<Rightarrow> Inl (Assert_failed ''false == is_null'')
             | Some d \<Rightarrow> DatumGetTimestamp d)
          else Inl (Assert_failed ''tc_has_timestamp(desc->constr)''))"

section \<open>Forming punctuation tuples\<close>

definition PUNCT_INIT_SZ :: nat where "PUNCT_INIT_SZ = 128"

definition form_punct_tup_no_leaks :: "('b, 'p) heap_ops \<Rightarrow> TupleDesc \<Rightarrow> timestamp \<Rightarrow> 'b Tuple outcome" where
  "form_punct_tup_no_leaks ho desc ts =
     (case constr desc of
        None \<Rightarrow> Inl (Out_of_bounds ''tupleDescriptor->constr is NULL'')
      | Some c \<Rightarrow>
          let n = natts desc; tsattr = ts_attrnum c
          in if \<not> n < PUNCT_INIT_SZ then Inl (Assert_failed ''numberOfAttributes < PUNCT_INIT_SZ'')
             else if \<not> (tsattr \<ge> 0 \<and> tsattr < int n) then Inl (Assert_failed ''tsattr >= 0 && tsattr < numberOfAttributes'')
             else
               let vals = (replicate n Datum_zero)[nat tsattr := TimestampGetDatum ts];
                   nulls = (replicate n CHR ''n'' @ [CHR 0x00])[nat tsattr := CHR '' ''];
                   ret = heap_formtuple ho desc vals nulls
               in Inr (ret\<lparr>t_infomask := t_infomask ret OR HEAP_ISPUNCT\<rparr>))"

definition form_punct_tup :: "('b, 'p) heap_ops \<Rightarrow> TupleDesc \<Rightarrow> timestamp \<Rightarrow> 'b Tuple outcome" where
  "form_punct_tup ho desc ts = form_punct_tup_no_leaks ho desc ts"

definition form_punct_tup_no_ts :: "('b, 'p) heap_ops \<Rightarrow> TupleDesc \<Rightarrow> 'b Tuple outcome" where
  "form_punct_tup_no_ts ho desc =
     (let n = natts desc
      in if \<not> n < PUNCT_INIT_SZ then Inl (Assert_failed ''numberOfAttributes < PUNCT_INIT_SZ'')
         else
           let ret = heap_formtuple ho desc (replicate n Datum_zero) (replicate n CHR ''n'' @ [CHR 0x00])
           in Inr (ret\<lparr>t_infomask := t_infomask ret OR HEAP_ISPUNCT\<rparr>))"

section \<open>Recognising punctuation tuples\<close>

text \<open>An intermediate tuple has one base tuple per source, or \<^verbatim>\<open>NULL\<close>.\<close>

record 'b IntermediateHeapTupleData =
  t_base_tuples :: "'b Tuple option list"
  t_base_tuple_descs :: "TupleDesc list"

fun any_punct :: "'b Tuple option list \<Rightarrow> bool" where
  "any_punct [] = False"
| "any_punct (ht # hts) = (if (case ht of None \<Rightarrow> False | Some t \<Rightarrow> HeapTupleIsPunct t) then True else any_punct hts)"

definition ihtIsPunct :: "'b IntermediateHeapTupleData option \<Rightarrow> bool outcome" where
  "ihtIsPunct iht =
     (case iht of None \<Rightarrow> Inl (Assert_failed ''iht != NULL'') | Some i \<Rightarrow> Inr (any_punct (t_base_tuples i)))"

definition base_tuple :: "'b IntermediateHeapTupleData option \<Rightarrow> nat \<Rightarrow> 'b Tuple outcome" where
  "base_tuple iht sourceid =
     (case iht of
        None \<Rightarrow> Inl (Assert_failed ''iht != NULL'')
      | Some i \<Rightarrow>
          if sourceid < length (t_base_tuples i) then
            (case t_base_tuples i ! sourceid of None \<Rightarrow> Inl (Assert_failed ''NULL != ht'') | Some ht \<Rightarrow> Inr ht)
          else Inl (Out_of_bounds ''t_base_tuples''))"

definition checkAndFreePunctIHT :: "'b IntermediateHeapTupleData option \<Rightarrow> nat \<Rightarrow> ('b process, unit) prog" where
  "checkAndFreePunctIHT iht sourceid =
     bind_prog (lift_outcome (base_tuple iht sourceid)) (\<lambda>ht.
       if HeapTupleIsPunct ht then heap_freetuple ht else return_prog ())"

definition get_timestamp_val_IHT :: "('b, 'p) heap_ops \<Rightarrow> 'b IntermediateHeapTupleData option \<Rightarrow> nat \<Rightarrow> timestamp outcome" where
  "get_timestamp_val_IHT ho iht sourceid =
     bind_outcome (base_tuple iht sourceid) (\<lambda>ht.
       case iht of
         None \<Rightarrow> Inl (Assert_failed ''iht != NULL'')
       | Some i \<Rightarrow>
           if sourceid < length (t_base_tuple_descs i) then get_timestamp_val ho (t_base_tuple_descs i ! sourceid) ht
           else Inl (Out_of_bounds ''t_base_tuple_descs''))"

text \<open>
  The pointer in a slot is a heap tuple or, by \<^verbatim>\<open>ttc_isIntermediateTuple\<close>, an intermediate tuple;
  reading it as the other one is undefined.
\<close>

datatype 'b slot_val = Slot_null | Slot_heap "'b Tuple" | Slot_iht "'b IntermediateHeapTupleData"

record 'b TupleTableSlot =
  slot_value :: "'b slot_val"
  ttc_isIntermediateTuple :: bool

definition slotContainsPunct :: "'b TupleTableSlot option \<Rightarrow> bool outcome" where
  "slotContainsPunct slot_p =
     (case slot_p of
        None \<Rightarrow> Inl (Assert_failed ''slot_p != NULL'')
      | Some slot \<Rightarrow>
          if ttc_isIntermediateTuple slot then
            (case slot_value slot of
               Slot_null \<Rightarrow> ihtIsPunct None
             | Slot_iht i \<Rightarrow> ihtIsPunct (Some i)
             | Slot_heap t \<Rightarrow> Inl (Out_of_bounds ''not an intermediate tuple''))
          else
            (case slot_value slot of
               Slot_heap t \<Rightarrow> Inr (HeapTupleIsPunct t)
             | _ \<Rightarrow> Inl (Out_of_bounds ''not a heap tuple'')))"

section \<open>Facts\<close>

lemma any_punct_iff: "any_punct hts \<longleftrightarrow> (\<exists>t. Some t \<in> set hts \<and> HeapTupleIsPunct t)"
  by (induction hts) (auto split: option.splits)

lemma is_punct_flag [simp]: "HeapTupleIsPunct (tup\<lparr>t_infomask := m OR HEAP_ISPUNCT\<rparr>)"
proof -
  have "(m OR HEAP_ISPUNCT) AND HEAP_ISPUNCT = HEAP_ISPUNCT" by (simp add: bit_eq_iff bit_simps)
  then show ?thesis by (simp add: HeapTupleIsPunct_def HEAP_ISPUNCT_def)
qed

text \<open>A descriptor for which form_punct_tup succeeds.\<close>

definition stream_desc :: "TupleDesc \<Rightarrow> bool" where
  "stream_desc desc \<longleftrightarrow> natts desc < PUNCT_INIT_SZ \<and>
     (case constr desc of None \<Rightarrow> False | Some c \<Rightarrow> 0 \<le> ts_attrnum c \<and> ts_attrnum c < int (natts desc))"

lemma heap_laws_form:
  "heap_laws ho \<Longrightarrow> natts desc \<le> length vals \<Longrightarrow> natts desc \<le> length nulls \<Longrightarrow> i < natts desc \<Longrightarrow>
    heap_getattr ho (heap_formtuple ho desc vals nulls) (int i + 1) desc = (if nulls ! i = CHR ''n'' then None else Some (vals ! i))"
  by (simp add: heap_laws_def)

lemma heap_laws_flag: "heap_laws ho \<Longrightarrow> heap_getattr ho (tup\<lparr>t_infomask := m\<rparr>) n desc = heap_getattr ho tup n desc"
  by (simp add: heap_laws_def)

lemma form_punct:
  assumes "heap_laws ho" "stream_desc desc"
  obtains tup where "form_punct_tup_no_leaks ho desc ts = Inr tup" "HeapTupleIsPunct tup" "get_timestamp_val ho desc tup = Inr ts"
proof -
  obtain c where c: "constr desc = Some c" "0 \<le> ts_attrnum c" "ts_attrnum c < int (natts desc)" "natts desc < PUNCT_INIT_SZ"
    using assms(2) by (auto simp: stream_desc_def split: option.splits)
  then obtain i where i: "ts_attrnum c = int i" "i < natts desc" using zero_le_imp_eq_int by force
  define vals :: "'b Datum list" where "vals = (replicate (natts desc) Datum_zero)[i := TimestampGetDatum ts]"
  define nulls where "nulls = (replicate (natts desc) CHR ''n'' @ [CHR 0x00])[i := CHR '' '']"
  define ret where "ret = heap_formtuple ho desc vals nulls"
  have "heap_getattr ho ret (int i + 1) desc = Some (TimestampGetDatum ts)"
    unfolding ret_def by (subst heap_laws_form [OF assms(1)]) (use i(2) in \<open>simp_all add: vals_def nulls_def\<close>)
  then have "get_timestamp_val ho desc (ret\<lparr>t_infomask := t_infomask ret OR HEAP_ISPUNCT\<rparr>) = Inr ts"
    by (simp add: get_timestamp_val_def c(1) i(1) tc_has_timestamp_def TCQTSATTRNOP_def get_timestamp_col_def
        heap_laws_flag [OF assms(1)] add.commute [of 1])
  moreover have "form_punct_tup_no_leaks ho desc ts = Inr (ret\<lparr>t_infomask := t_infomask ret OR HEAP_ISPUNCT\<rparr>)"
    using c i by (simp add: form_punct_tup_no_leaks_def ret_def vals_def nulls_def Let_def)
  ultimately show thesis by (intro that) simp_all
qed

text \<open>A descriptor with constraints but without a timestamp is taken to have one.\<close>

lemma num_non_timestamp_off_by_one:
  "get_num_non_timestamp_attrs \<lparr>natts = 3, attnames = [], constr = Some \<lparr>ts_attrnum = -1\<rparr>\<rparr> = 2"
  by code_simp

end
