(* ===== verification/Shedding.thy ===== *)
theory Shedding
  imports Punct "HOL-Library.Multiset"
begin

text \<open>
  Summaries of streams for load shedding (\<^verbatim>\<open>src/src/backend/telegraphcq/shedding.c\<close>): buffers of
  tuples, reservoir samples, prototuples, and the generic stream that feeds a histogram, a wavelet, a
  sample or a counter a buffer at a time. The functions of \<^verbatim>\<open>histogram.c\<close> and \<^verbatim>\<open>wavelet.c\<close> that build
  the histograms are arguments (\<open>synopsis_ops\<close>), as are the random numbers and the rounding of
  floating point values. The lemmas show which tuples a summary stands for and which are freed.
\<close>

section \<open>What the code calls\<close>

record ('m, 'w, 'b) synopsis_ops =
  create_mhist :: "nat \<Rightarrow> int \<Rightarrow> 'm"
  tdesc_to_mhist_diminfo :: "'m \<Rightarrow> TupleDesc \<Rightarrow> 'm"
  mhist_create_buckets :: "'m \<Rightarrow> 'b Tuple list \<Rightarrow> TupleDesc \<Rightarrow> 'm"
  create_reg_mhist :: "'b Tuple list \<Rightarrow> TupleDesc \<Rightarrow> int list \<Rightarrow> 'm"
  mhist_load_buckets :: "'b Tuple list \<Rightarrow> TupleDesc \<Rightarrow> 'm \<Rightarrow> 'm"
  remove_empty_mhist_buckets :: "'m \<Rightarrow> 'm"
  wcs_create_stream :: "'b Tuple list \<Rightarrow> TupleDesc \<Rightarrow> 'w \<Rightarrow> bool \<Rightarrow> 'w"
  real_wcs_union :: "'w \<Rightarrow> 'w \<Rightarrow> 'w"

text \<open>\<open>cfg_fl\<close> and \<open>cfg_fl4\<close> round to double and single precision; \<open>cfg_rand\<close> are the results of \<^verbatim>\<open>rand()\<close>.\<close>

record ('m, 'w, 'b, 'p) shed_cfg =
  cfg_fl :: "rat \<Rightarrow> rat"
  cfg_fl4 :: "rat \<Rightarrow> rat"
  cfg_rand :: "nat \<Rightarrow> int"
  cfg_heap :: "('b, 'p) heap_ops"
  cfg_syn :: "('m, 'w, 'b) synopsis_ops"

definition RAND_MAX :: int where "RAND_MAX = 2147483647"

definition rand :: "('m, 'w, 'b, 'p) shed_cfg \<Rightarrow> ('b process, int) prog" where
  "rand cfg s = (Inr (cfg_rand cfg (rand_no s)), s\<lparr>rand_no := Suc (rand_no s)\<rparr>)"

primrec free_all :: "'b Tuple list \<Rightarrow> ('b process, unit) prog" where
  "free_all [] = return_prog ()"
| "free_all (t # ts) = bind_prog (heap_freetuple t) (\<lambda>_. free_all ts)"

section \<open>Tuple buffers\<close>

text \<open>\<open>tb_buf\<close> is the first \<^verbatim>\<open>count\<close> entries of the array, or \<open>None\<close> when there is no array.\<close>

record 'b TupBuf =
  tb_buf :: "'b Tuple list option"
  tb_cap :: int
  own_tuples :: bool

definition tupbuf_init :: "'b TupBuf \<Rightarrow> 'b TupBuf outcome" where
  "tupbuf_init tbp =
     (if \<not> tb_cap tbp > 0 then Inl (Assert_failed ''tbp->cap > 0'')
      else if \<not> tb_cap tbp < 10 ^ 9 then Inl (Assert_failed ''tbp->cap < 1e9'')
      else Inr (tbp\<lparr>tb_buf := Some []\<rparr>))"

definition tupbuf_clear :: "'b TupBuf \<Rightarrow> ('b process, 'b TupBuf) prog" where
  "tupbuf_clear tbp =
     (case tb_buf tbp of
        None \<Rightarrow> fail_prog (Assert_failed ''tbp->buf != NULL'')
      | Some tups \<Rightarrow>
          bind_prog (if own_tuples tbp then free_all tups else return_prog ()) (\<lambda>_.
            return_prog (tbp\<lparr>tb_buf := Some []\<rparr>)))"

definition tupbuf_destroy :: "'b TupBuf \<Rightarrow> ('b process, 'b TupBuf) prog" where
  "tupbuf_destroy tbp = bind_prog (tupbuf_clear tbp) (\<lambda>tbp. return_prog (tbp\<lparr>tb_buf := None\<rparr>))"

definition tupbuf_insert :: "'b TupBuf \<Rightarrow> 'b Tuple \<Rightarrow> ('b process, 'b TupBuf \<times> bool) prog" where
  "tupbuf_insert tbp tup =
     (case tb_buf tbp of
        None \<Rightarrow> fail_prog (Out_of_bounds ''tbp->buf is NULL'')
      | Some tups \<Rightarrow>
          if \<not> int (length tups) < tb_cap tbp then fail_prog (Assert_failed ''tbp->count < tbp->cap'')
          else if HeapTupleIsPunct tup then
            bind_prog (heap_freetuple tup) (\<lambda>_. return_prog (tbp, False))
          else return_prog (tbp\<lparr>tb_buf := Some (tups @ [tup])\<rparr>, int (length tups) + 1 \<ge> tb_cap tbp))"

section \<open>Prototuples\<close>

text \<open>\<open>None\<close> is a field that has not been written.\<close>

record 'p Prototuple =
  pt_fields :: "'p Datum option list"
  pt_nulls :: "char option list"
  isPunct :: bool
  nfields_used :: nat
  nfields_alloc :: nat

definition createPrototuple :: "nat \<Rightarrow> nat \<Rightarrow> 'p Datum list \<Rightarrow> char list \<Rightarrow> bool \<Rightarrow> 'p Prototuple outcome" where
  "createPrototuple nfields nextra flds nulls punct =
     (if length flds < nfields \<or> length nulls < nfields then Inl (Out_of_bounds ''fields'')
      else Inr \<lparr>pt_fields = map Some (take nfields flds) @ replicate nextra None,
                pt_nulls = map Some (take nfields nulls) @ replicate nextra None @ [Some CHR 0x00],
                isPunct = punct, nfields_used = nfields, nfields_alloc = nfields + nextra\<rparr>)"

definition heaptupleToPrototuple :: "('b, 'p) heap_ops \<Rightarrow> 'b Tuple \<Rightarrow> TupleDesc \<Rightarrow> nat \<Rightarrow> 'p Prototuple" where
  "heaptupleToPrototuple ho tup desc nextra =
     (let nfields = natts desc; attrs = map (\<lambda>i. heap_getattr ho tup (int i + 1) desc) [0..<nfields]
      in \<lparr>pt_fields = map (\<lambda>a. Some (case a of None \<Rightarrow> Datum_zero | Some d \<Rightarrow> d)) attrs @ replicate nextra None,
          pt_nulls = map (\<lambda>a. Some (if a = None then CHR ''n'' else CHR '' '')) attrs @ [Some CHR 0x00],
          isPunct = HeapTupleIsPunct tup, nfields_used = nfields, nfields_alloc = nfields + nextra\<rparr>)"

definition written :: "'a option list \<Rightarrow> nat \<Rightarrow> 'a list outcome" where
  "written xs n =
     (if n \<le> length xs \<and> (\<forall>x\<in>set (take n xs). x \<noteq> None) then Inr (map the (take n xs))
      else Inl (Out_of_bounds ''field not written''))"

definition heaptupleFromPrototuple :: "('b, 'p) heap_ops \<Rightarrow> 'p Prototuple \<Rightarrow> TupleDesc \<Rightarrow> 'b Tuple outcome" where
  "heaptupleFromPrototuple ho pt desc =
     (if isPunct pt then
        (case constr desc of
           None \<Rightarrow> Inl (Out_of_bounds ''desc->constr is NULL'')
         | Some c \<Rightarrow>
             if \<not> (0 \<le> ts_attrnum c \<and> nat (ts_attrnum c) < length (pt_fields pt)) then Inl (Out_of_bounds ''pt->fields'')
             else
               (case pt_fields pt ! nat (ts_attrnum c) of
                  None \<Rightarrow> Inl (Out_of_bounds ''field not written'')
                | Some d \<Rightarrow> bind_outcome (DatumGetTimestamp d) (form_punct_tup ho desc)))
      else
        bind_outcome (written (pt_fields pt) (natts desc)) (\<lambda>flds.
        bind_outcome (written (pt_nulls pt) (natts desc)) (\<lambda>nulls.
          Inr (heap_formtuple ho desc flds nulls))))"

definition timestampFromPrototuple :: "'p Prototuple \<Rightarrow> TupleDesc \<Rightarrow> timestamp outcome" where
  "timestampFromPrototuple pt desc =
     (case constr desc of
        None \<Rightarrow> Inl (Out_of_bounds ''desc->constr is NULL'')
      | Some c \<Rightarrow>
          let col = get_timestamp_col desc
          in if \<not> tc_has_timestamp c then Inl (Assert_failed ''tc_has_timestamp(desc->constr)'')
             else if \<not> col < int (nfields_used pt) then Inl (Assert_failed ''get_timestamp_col(desc) < pt->nfields_used'')
             else if \<not> (0 \<le> col \<and> nat col < length (pt_fields pt)) then Inl (Out_of_bounds ''pt->fields'')
             else
               (case pt_fields pt ! nat col of
                  None \<Rightarrow> Inl (Out_of_bounds ''field not written'')
                | Some d \<Rightarrow> DatumGetTimestamp d))"

section \<open>Reservoir samples\<close>

record 'b reservoir_sample =
  max_sample_size :: int
  cur_sample_size :: int
  tot_size :: int
  reservoir :: "'b Tuple option list"
  cur_sample_itr :: int

definition sample_create :: "int \<Rightarrow> 'b reservoir_sample" where
  "sample_create max_size = \<lparr>max_sample_size = max_size, cur_sample_size = 0, tot_size = 0,
     reservoir = replicate (nat max_size) None, cur_sample_itr = -1\<rparr>"

text \<open>The tuple at an index of the reservoir; an index outside the array or an entry not written is an error.\<close>

definition reservoir_at :: "'b reservoir_sample \<Rightarrow> int \<Rightarrow> 'b Tuple outcome" where
  "reservoir_at samp i =
     (if 0 \<le> i \<and> i < int (length (reservoir samp)) then
        (case reservoir samp ! nat i of None \<Rightarrow> Inl (Out_of_bounds ''reservoir entry not written'') | Some t \<Rightarrow> Inr t)
      else Inl (Out_of_bounds ''reservoir''))"

definition reservoir_put :: "'b reservoir_sample \<Rightarrow> int \<Rightarrow> 'b Tuple \<Rightarrow> 'b reservoir_sample outcome" where
  "reservoir_put samp i tup =
     (if 0 \<le> i \<and> i < int (length (reservoir samp)) then Inr (samp\<lparr>reservoir := (reservoir samp)[nat i := Some tup]\<rparr>)
      else Inl (Out_of_bounds ''reservoir''))"

text \<open>The quotient by a sample size of 0 is infinite, and no random number exceeds it.\<close>

definition use_tup :: "(rat \<Rightarrow> rat) \<Rightarrow> 'b reservoir_sample \<Rightarrow> int \<Rightarrow> bool" where
  "use_tup fl samp r \<longleftrightarrow>
     cur_sample_size samp = 0 \<or>
     fl (of_int r / of_int RAND_MAX) \<le> fl (fl (of_int (tot_size samp) + 1) / of_int (cur_sample_size samp))"

definition victim_ix :: "(rat \<Rightarrow> rat) \<Rightarrow> 'b reservoir_sample \<Rightarrow> int \<Rightarrow> int" where
  "victim_ix fl samp r = c_int_of_rat (fl (fl (of_int (cur_sample_size samp) * of_int r) / of_int RAND_MAX))"

definition sample_one ::
  "('m, 'w, 'b, 'p) shed_cfg \<Rightarrow> 'b Tuple \<Rightarrow> 'b reservoir_sample \<Rightarrow> ('b process, 'b reservoir_sample) prog" where
  "sample_one cfg cur_tup samp =
     bind_prog (rand cfg) (\<lambda>r.
     bind_prog
       (if use_tup (cfg_fl cfg) samp r then
          if cur_sample_size samp < max_sample_size samp then
            bind_prog (lift_outcome (reservoir_put samp (cur_sample_size samp) cur_tup)) (\<lambda>samp.
              return_prog (samp\<lparr>cur_sample_size := cur_sample_size samp + 1\<rparr>))
          else
            bind_prog (rand cfg) (\<lambda>r.
            bind_prog (lift_outcome (reservoir_at samp (victim_ix (cfg_fl cfg) samp r))) (\<lambda>victim.
            bind_prog (heap_freetuple victim) (\<lambda>_.
              lift_outcome (reservoir_put samp (victim_ix (cfg_fl cfg) samp r) cur_tup))))
        else bind_prog (heap_freetuple cur_tup) (\<lambda>_. return_prog samp)) (\<lambda>samp.
     bind_prog (lift_outcome (c_int (tot_size samp + 1))) (\<lambda>tot.
       return_prog (samp\<lparr>tot_size := tot\<rparr>))))"

primrec sample_loop ::
  "('m, 'w, 'b, 'p) shed_cfg \<Rightarrow> 'b Tuple list \<Rightarrow> 'b reservoir_sample \<Rightarrow> ('b process, 'b reservoir_sample) prog" where
  "sample_loop cfg [] samp = return_prog samp"
| "sample_loop cfg (t # ts) samp = bind_prog (sample_one cfg t samp) (sample_loop cfg ts)"

definition sample_load ::
  "('m, 'w, 'b, 'p) shed_cfg \<Rightarrow> 'b Tuple list \<Rightarrow> 'b reservoir_sample \<Rightarrow> ('b process, 'b reservoir_sample) prog" where
  "sample_load cfg tups samp =
     (if cur_sample_itr samp = -1 then sample_loop cfg tups samp
      else fail_prog (Assert_failed ''-1 == samp->cur_sample_itr''))"

primrec sampmult_scan :: "string list \<Rightarrow> int \<Rightarrow> int" where
  "sampmult_scan [] attno = -1"
| "sampmult_scan (a # as) attno = (if a = ''__samplemult'' then attno else sampmult_scan as (attno + 1))"

definition sampmult_att :: "TupleDesc \<Rightarrow> int" where
  "sampmult_att desc = sampmult_scan (take (natts desc) (attnames desc)) 0"

definition sampmult :: "(rat \<Rightarrow> rat) \<Rightarrow> 'b reservoir_sample \<Rightarrow> rat" where
  "sampmult fl4 samp =
     (if cur_sample_size samp = 0 then 0
      else fl4 (fl4 (of_int (tot_size samp)) / fl4 (of_int (cur_sample_size samp))))"

text \<open>One round of the loop: the tuple is taken apart, gets the new column and is formed again.\<close>

definition with_sampmult ::
  "('b, 'p) heap_ops \<Rightarrow> TupleDesc \<Rightarrow> TupleDesc \<Rightarrow> int \<Rightarrow> rat \<Rightarrow> 'b Tuple \<Rightarrow> 'b Tuple outcome" where
  "with_sampmult ho input_desc output_desc attr smult tup =
     (let copy = heaptupleToPrototuple ho tup input_desc 1
      in heaptupleFromPrototuple ho
           (copy\<lparr>pt_fields := (pt_fields copy)[nat attr := Some (Float4GetDatum smult)],
                 pt_nulls := (pt_nulls copy)[nat attr := Some CHR '' '']\<rparr>) output_desc)"

primrec prepare_loop ::
  "('b, 'p) heap_ops \<Rightarrow> TupleDesc \<Rightarrow> TupleDesc \<Rightarrow> int \<Rightarrow> rat \<Rightarrow> nat \<Rightarrow> nat \<Rightarrow> 'b reservoir_sample \<Rightarrow>
   ('b process, 'b reservoir_sample) prog" where
  "prepare_loop ho input_desc output_desc attr smult 0 i samp = return_prog samp"
| "prepare_loop ho input_desc output_desc attr smult (Suc n) i samp =
     bind_prog (lift_outcome (reservoir_at samp (int i))) (\<lambda>tup.
     bind_prog (lift_outcome (with_sampmult ho input_desc output_desc attr smult tup)) (\<lambda>newtup.
     bind_prog (heap_freetuple tup) (\<lambda>_.
     bind_prog (lift_outcome (reservoir_put samp (int i) newtup)) (\<lambda>samp.
       prepare_loop ho input_desc output_desc attr smult n (Suc i) samp))))"

definition sample_prepare_for_output ::
  "('m, 'w, 'b, 'p) shed_cfg \<Rightarrow> 'b reservoir_sample \<Rightarrow> TupleDesc \<Rightarrow> TupleDesc \<Rightarrow> int \<Rightarrow>
   ('b process, 'b reservoir_sample) prog" where
  "sample_prepare_for_output cfg samp input_desc output_desc sampmult_attr =
     (if sampmult_attr \<noteq> int (natts input_desc) then fail_prog (Assert_failed ''sampmult_attr == input_desc->natts'')
      else
        bind_prog (prepare_loop (cfg_heap cfg) input_desc output_desc sampmult_attr (sampmult (cfg_fl4 cfg) samp)
                     (nat (cur_sample_size samp)) 0 samp) (\<lambda>samp.
          return_prog (samp\<lparr>cur_sample_itr := 0\<rparr>)))"

primrec destroy_loop :: "nat \<Rightarrow> int \<Rightarrow> 'b reservoir_sample \<Rightarrow> ('b process, unit) prog" where
  "destroy_loop 0 i samp = return_prog ()"
| "destroy_loop (Suc n) i samp =
     bind_prog (lift_outcome (reservoir_at samp i)) (\<lambda>tup.
     bind_prog (heap_freetuple tup) (\<lambda>_. destroy_loop n (i + 1) samp))"

definition sample_destroy :: "'b reservoir_sample \<Rightarrow> ('b process, unit) prog" where
  "sample_destroy samp =
     (let i = (if cur_sample_itr samp = -1 then 0 else cur_sample_itr samp)
      in destroy_loop (nat (cur_sample_size samp - i)) i samp)"

section \<open>Streams of tuples\<close>

datatype mhist_status = MH_INIT | MH_LOADING_BOUNDS | MH_LOADING_COUNTS | MH_COMPLETE

datatype summary_type = ST_MHIST | ST_SQUARE_MHIST | ST_WAVELET | ST_SAMPLE | ST_COUNT

text \<open>The union \<^verbatim>\<open>ds_state\<close> with its tag; \<open>None\<close> is a pointer that has not been set.\<close>

datatype ('m, 'w, 'b) ds_state =
    Mhs "'m option" nat
  | Shs "'m option" "int list"
  | Ws 'w
  | Ss "'b reservoir_sample option" int int
  | Cs int

fun stype :: "('m, 'w, 'b) ds_state \<Rightarrow> summary_type" where
  "stype (Mhs _ _) = ST_MHIST"
| "stype (Shs _ _) = ST_SQUARE_MHIST"
| "stype (Ws _) = ST_WAVELET"
| "stype (Ss _ _ _) = ST_SAMPLE"
| "stype (Cs _) = ST_COUNT"

record ('m, 'w, 'b) generic_stream_state =
  gs_state :: mhist_status
  gs_tb :: "'b TupBuf"
  gs_input_desc :: TupleDesc
  gs_output_desc :: TupleDesc
  gs_ds :: "('m, 'w, 'b) ds_state"

datatype ('m, 'w, 'b) generic_summary =
    Sum_mhist 'm
  | Sum_square 'm
  | Sum_wavelet 'w
  | Sum_sample "'b reservoir_sample"
  | Sum_count int

definition gs_tuples :: "('m, 'w, 'b) generic_stream_state \<Rightarrow> 'b Tuple list outcome" where
  "gs_tuples st = (case tb_buf (gs_tb st) of None \<Rightarrow> Inl (Out_of_bounds ''tb.buf is NULL'') | Some tups \<Rightarrow> Inr tups)"

definition load_ds ::
  "('m, 'w, 'b, 'p) shed_cfg \<Rightarrow> TupleDesc \<Rightarrow> 'b Tuple list \<Rightarrow> ('m, 'w, 'b) ds_state \<Rightarrow> ('b process, ('m, 'w, 'b) ds_state) prog" where
  "load_ds cfg desc tups ds =
     (case ds of
        Mhs None n \<Rightarrow> fail_prog (Out_of_bounds ''hist is not set'')
      | Mhs (Some h) n \<Rightarrow> return_prog (Mhs (Some (mhist_load_buckets (cfg_syn cfg) tups desc h)) n)
      | Shs None ws \<Rightarrow> fail_prog (Out_of_bounds ''hist is not set'')
      | Shs (Some h) ws \<Rightarrow> return_prog (Shs (Some (mhist_load_buckets (cfg_syn cfg) tups desc h)) ws)
      | Ws w \<Rightarrow> return_prog (Ws (real_wcs_union (cfg_syn cfg) (wcs_create_stream (cfg_syn cfg) tups desc w True) w))
      | Ss None m a \<Rightarrow> fail_prog (Out_of_bounds ''sample is not set'')
      | Ss (Some samp) m a \<Rightarrow> bind_prog (sample_load cfg tups samp) (\<lambda>samp. return_prog (Ss (Some samp) m a))
      | Cs c \<Rightarrow> bind_prog (lift_outcome (c_int (c + int (length tups)))) (\<lambda>c. return_prog (Cs c)))"

definition generic_load_ds ::
  "('m, 'w, 'b, 'p) shed_cfg \<Rightarrow> ('m, 'w, 'b) generic_stream_state \<Rightarrow> ('b process, ('m, 'w, 'b) generic_stream_state) prog" where
  "generic_load_ds cfg st =
     bind_prog (lift_outcome (gs_tuples st)) (\<lambda>tups.
     bind_prog (load_ds cfg (gs_input_desc st) tups (gs_ds st)) (\<lambda>ds.
     bind_prog (tupbuf_clear (gs_tb st)) (\<lambda>tb.
       return_prog (st\<lparr>gs_ds := ds, gs_tb := tb\<rparr>))))"

definition create_ds ::
  "('m, 'w, 'b, 'p) shed_cfg \<Rightarrow> TupleDesc \<Rightarrow> 'b Tuple list \<Rightarrow> ('m, 'w, 'b) ds_state \<Rightarrow> ('m, 'w, 'b) ds_state outcome" where
  "create_ds cfg desc tups ds =
     (let so = cfg_syn cfg
      in case ds of
           Mhs h n \<Rightarrow>
             Inr (Mhs (Some (mhist_create_buckets so
                    (tdesc_to_mhist_diminfo so (create_mhist so n (get_num_non_timestamp_attrs desc)) desc) tups desc)) n)
         | Shs h ws \<Rightarrow> Inr (Shs (Some (create_reg_mhist so tups desc ws)) ws)
         | Ws w \<Rightarrow> Inr (Ws (wcs_create_stream so tups desc w False))
         | Ss samp m a \<Rightarrow>
             if m > 0 then Inr (Ss (Some (sample_create m)) m a) else Inl (Assert_failed ''ss->max_sample_size > 0'')
         | Cs c \<Rightarrow> Inr (Cs 0))"

definition generic_create_ds ::
  "('m, 'w, 'b, 'p) shed_cfg \<Rightarrow> ('m, 'w, 'b) generic_stream_state \<Rightarrow> ('m, 'w, 'b) generic_stream_state outcome" where
  "generic_create_ds cfg st =
     bind_outcome (gs_tuples st) (\<lambda>tups.
     bind_outcome (create_ds cfg (gs_input_desc st) tups (gs_ds st)) (\<lambda>ds. Inr (st\<lparr>gs_ds := ds\<rparr>)))"

definition generic_stream_init ::
  "('m, 'w, 'b) generic_stream_state \<Rightarrow> TupleDesc \<Rightarrow> TupleDesc \<Rightarrow> ('m, 'w, 'b) generic_stream_state outcome" where
  "generic_stream_init proto input_desc output_desc =
     bind_outcome (tupbuf_init (gs_tb proto)) (\<lambda>tb.
       let st = proto\<lparr>gs_tb := tb, gs_state := MH_LOADING_BOUNDS, gs_input_desc := input_desc, gs_output_desc := output_desc\<rparr>
       in case gs_ds st of
            Ss samp m a \<Rightarrow>
              let sm_att = sampmult_att output_desc
              in if sm_att = -1 then Inl (Elog_error ''Couldn't find __samplemult attribute'')
                 else if sm_att \<noteq> int (natts output_desc) - 1
                 then Inl (Elog_error ''__samplemult attribute must be last attribute in tuple'')
                 else Inr (st\<lparr>gs_ds := Ss samp m sm_att\<rparr>)
          | _ \<Rightarrow> Inr st)"

definition generic_stream_next ::
  "('m, 'w, 'b, 'p) shed_cfg \<Rightarrow> 'b Tuple \<Rightarrow> ('m, 'w, 'b) generic_stream_state \<Rightarrow>
   ('b process, ('m, 'w, 'b) generic_stream_state) prog" where
  "generic_stream_next cfg tup st =
     (case gs_state st of
        MH_LOADING_BOUNDS \<Rightarrow>
          bind_prog (tupbuf_insert (gs_tb st) tup) (\<lambda>(tb, filled).
            if filled then
              bind_prog (lift_outcome (generic_create_ds cfg (st\<lparr>gs_tb := tb\<rparr>))) (\<lambda>st.
              bind_prog (generic_load_ds cfg st) (\<lambda>st. return_prog (st\<lparr>gs_state := MH_LOADING_COUNTS\<rparr>)))
            else return_prog (st\<lparr>gs_tb := tb\<rparr>))
      | MH_LOADING_COUNTS \<Rightarrow>
          bind_prog (tupbuf_insert (gs_tb st) tup) (\<lambda>(tb, filled).
            if filled then generic_load_ds cfg (st\<lparr>gs_tb := tb\<rparr>) else return_prog (st\<lparr>gs_tb := tb\<rparr>))
      | _ \<Rightarrow> fail_prog (Elog_error ''mhist_stream_next(): Invalid state.''))"

definition finish_ds ::
  "('m, 'w, 'b, 'p) shed_cfg \<Rightarrow> TupleDesc \<Rightarrow> TupleDesc \<Rightarrow> ('m, 'w, 'b) ds_state \<Rightarrow> ('b process, ('m, 'w, 'b) generic_summary) prog" where
  "finish_ds cfg input_desc output_desc ds =
     (case ds of
        Mhs None n \<Rightarrow> fail_prog (Out_of_bounds ''hist is not set'')
      | Mhs (Some h) n \<Rightarrow> return_prog (Sum_mhist (remove_empty_mhist_buckets (cfg_syn cfg) h))
      | Shs None ws \<Rightarrow> fail_prog (Out_of_bounds ''hist is not set'')
      | Shs (Some h) ws \<Rightarrow> return_prog (Sum_square h)
      | Ws w \<Rightarrow> return_prog (Sum_wavelet w)
      | Ss None m a \<Rightarrow> fail_prog (Out_of_bounds ''sample is not set'')
      | Ss (Some samp) m a \<Rightarrow>
          bind_prog (sample_prepare_for_output cfg samp input_desc output_desc a) (\<lambda>samp. return_prog (Sum_sample samp))
      | Cs c \<Rightarrow> return_prog (Sum_count c))"

definition generic_stream_done ::
  "('m, 'w, 'b, 'p) shed_cfg \<Rightarrow> ('m, 'w, 'b) generic_stream_state \<Rightarrow> ('b process, ('m, 'w, 'b) generic_summary) prog" where
  "generic_stream_done cfg st =
     bind_prog
       (case gs_state st of
          MH_LOADING_BOUNDS \<Rightarrow> bind_prog (lift_outcome (generic_create_ds cfg st)) (generic_load_ds cfg)
        | MH_LOADING_COUNTS \<Rightarrow> generic_load_ds cfg st
        | _ \<Rightarrow> fail_prog (Elog_error ''generic_stream_done(): Invalid state.'')) (\<lambda>st.
     bind_prog (tupbuf_destroy (gs_tb st)) (\<lambda>tb.
       finish_ds cfg (gs_input_desc st) (gs_output_desc st) (gs_ds st)))"
section \<open>Reservoir samples: lemmas\<close>

definition sample_ok :: "'b reservoir_sample \<Rightarrow> bool" where
  "sample_ok samp \<longleftrightarrow> 0 < max_sample_size samp \<and> length (reservoir samp) = nat (max_sample_size samp) \<and>
     0 \<le> cur_sample_size samp \<and> cur_sample_size samp \<le> max_sample_size samp \<and> cur_sample_size samp \<le> tot_size samp \<and>
     None \<notin> set (take (nat (cur_sample_size samp)) (reservoir samp))"

definition sample_tuples :: "'b reservoir_sample \<Rightarrow> 'b Tuple list" where
  "sample_tuples samp = map the (take (nat (cur_sample_size samp)) (reservoir samp))"

definition cfg_ok :: "('m, 'w, 'b, 'p) shed_cfg \<Rightarrow> bool" where
  "cfg_ok cfg \<longleftrightarrow> double_rounding (cfg_fl cfg) \<and> (\<forall>n. 0 \<le> cfg_rand cfg n \<and> cfg_rand cfg n < RAND_MAX)"

text \<open>The probability is at least 1, so that every tuple is taken, whatever the random number.\<close>

lemma use_tup_always:
  assumes fl: "double_rounding fl" and ok: "sample_ok samp" and tot: "tot_size samp < 2 ^ 31" and r: "0 \<le> r" "r \<le> RAND_MAX"
  shows "use_tup fl samp r"
proof (cases "cur_sample_size samp = 0")
  case False
  let ?c = "of_int (cur_sample_size samp) :: rat" and ?t = "of_int (tot_size samp) :: rat"
  have c: "0 < cur_sample_size samp" "cur_sample_size samp \<le> tot_size samp" using False ok by (simp_all add: sample_ok_def)
  have one: "fl 1 = 1" using fl_int [OF fl, of 1] by simp
  have "of_int r / of_int RAND_MAX \<le> (1 :: rat)" using r by (simp add: RAND_MAX_def)
  then have "fl (of_int r / of_int RAND_MAX) \<le> 1" using fl_mono [OF fl] one by metis
  moreover have "fl (?t + 1) = ?t + 1" using fl_int [OF fl, of "tot_size samp + 1"] tot c by simp
  moreover have "1 \<le> (?t + 1) / ?c" using c by (simp add: le_divide_eq)
  then have "1 \<le> fl ((?t + 1) / ?c)" using fl_mono [OF fl] one by metis
  ultimately show ?thesis by (simp add: use_tup_def)
qed (simp add: use_tup_def)

lemma victim_in_range:
  assumes fl: "double_rounding fl" and c: "0 < cur_sample_size samp" "cur_sample_size samp < 2 ^ 31"
    and r: "0 \<le> r" "r < RAND_MAX"
  shows "0 \<le> victim_ix fl samp r" "victim_ix fl samp r < cur_sample_size samp"
proof -
  let ?c = "of_int (cur_sample_size samp) :: rat"
  define y where "y = fl (?c * of_int r)"
  define z where "z = y / of_int RAND_MAX"
  have zero: "fl 0 = 0" using fl_int [OF fl, of 0] by simp
  have cpos: "0 < ?c" using c by simp
  have clt: "?c < 2 ^ 31" using c(2) of_int_less_iff [of "cur_sample_size samp" "2 ^ 31", where 'a = rat] by simp
  have "0 \<le> fl z \<and> fl z < ?c"
  proof (cases "r = 0")
    case True
    then show ?thesis using c(1) by (simp add: z_def y_def zero)
  next
    case False
    then have x1: "1 \<le> cur_sample_size samp * r" using c(1) r(1) by (simp add: int_one_le_iff_zero_less)
    have rle: "(of_int r :: rat) \<le> of_int RAND_MAX - 1" using r(2) of_int_le_iff [of r "RAND_MAX - 1", where 'a = rat] by simp
    have x: "1 \<le> ?c * of_int r" using x1 of_int_le_iff [of 1 "cur_sample_size samp * r", where 'a = rat] by simp
    have xle: "?c * of_int r \<le> ?c * (of_int RAND_MAX - 1)" using cpos rle by simp
    also have "\<dots> \<le> 2 ^ 31 * (of_int RAND_MAX - 1)" using clt by (intro mult_right_mono) (simp_all add: RAND_MAX_def)
    finally have xb: "?c * of_int r \<le> 2 ^ 62" by (simp add: RAND_MAX_def)
    have "1 / 2 ^ 1000 \<le> \<bar>?c * of_int r\<bar>" using x by (intro order_trans [OF _ order_trans [OF x abs_ge_self]]) simp
    moreover have "\<bar>?c * of_int r\<bar> \<le> 2 ^ 1000" using x xb by simp
    ultimately have "y - ?c * of_int r \<le> \<bar>?c * of_int r\<bar> / 2 ^ 53"
      unfolding y_def by (intro order_trans [OF abs_ge_self fl_error [OF fl]])
    then have yle: "y \<le> ?c * of_int r * (1 + 1 / 2 ^ 53)" using x by (simp add: field_simps)
    have y1: "1 \<le> y" using fl_mono [OF fl x] fl_int [OF fl, of 1] by (simp add: y_def)
    have "y \<le> ?c * (of_int RAND_MAX - 1) * (1 + 1 / 2 ^ 53)" by (rule order_trans [OF yle]) (intro mult_right_mono xle, simp)
    then have zle: "z \<le> ?c * ((of_int RAND_MAX - 1) * (1 + 1 / 2 ^ 53) / of_int RAND_MAX)" by (simp add: z_def RAND_MAX_def field_simps)
    have zpos: "1 / 2147483647 \<le> z" using y1 by (simp add: z_def RAND_MAX_def)
    have "z \<le> ?c * 1" by (rule order_trans [OF zle]) (use cpos in \<open>intro mult_left_mono; simp add: RAND_MAX_def\<close>)
    then have zb: "z \<le> 2 ^ 31" using clt by simp
    have "1 / 2 ^ 1000 \<le> \<bar>z\<bar>" by (rule order_trans [OF _ order_trans [OF zpos abs_ge_self]]) simp
    moreover have "\<bar>z\<bar> \<le> 2 ^ 1000" using zpos zb by simp
    ultimately have "fl z - z \<le> \<bar>z\<bar> / 2 ^ 53" by (intro order_trans [OF abs_ge_self fl_error [OF fl]])
    then have "fl z \<le> z * (1 + 1 / 2 ^ 53)" using zpos by (simp add: field_simps)
    also have "\<dots> \<le> ?c * ((of_int RAND_MAX - 1) * (1 + 1 / 2 ^ 53) / of_int RAND_MAX) * (1 + 1 / 2 ^ 53)"
      by (intro mult_right_mono zle) simp
    also have "\<dots> < ?c * 1" unfolding mult.assoc by (intro mult_strict_left_mono cpos) (simp add: RAND_MAX_def)
    finally have "fl z < ?c" by simp
    moreover have "0 \<le> z" by (rule order_trans [OF _ zpos]) simp
    then have "0 \<le> fl z" using fl_mono [OF fl, of 0 z] zero by simp
    ultimately show ?thesis by simp
  qed
  then show "0 \<le> victim_ix fl samp r" "victim_ix fl samp r < cur_sample_size samp"
    by (simp_all add: victim_ix_def y_def [symmetric] z_def [symmetric] c_int_of_rat_nonneg floor_less_iff)
qed

text \<open>With the largest random number the victim lies one past the sample.\<close>

lemma victim_out_of_range: "victim_ix (\<lambda>x. x) samp RAND_MAX = cur_sample_size samp"
  by (simp add: victim_ix_def RAND_MAX_def)

lemma reservoir_entry:
  assumes "sample_ok samp" "0 \<le> i" "i < cur_sample_size samp"
  shows "reservoir_at samp i = Inr (sample_tuples samp ! nat i)" "nat i < length (sample_tuples samp)"
    "reservoir samp ! nat i = Some (sample_tuples samp ! nat i)"
proof -
  let ?l = "take (nat (cur_sample_size samp)) (reservoir samp)"
  have i: "nat i < length ?l" using assms by (simp add: sample_ok_def)
  then have "?l ! nat i \<in> set ?l" by (rule nth_mem)
  moreover have "None \<notin> set ?l" using assms(1) by (simp add: sample_ok_def)
  ultimately have "?l ! nat i \<noteq> None" by metis
  then obtain t where "?l ! nat i = Some t" by blast
  then have t: "reservoir samp ! nat i = Some t" "sample_tuples samp ! nat i = t" using i by (simp_all add: sample_tuples_def)
  then show "reservoir samp ! nat i = Some (sample_tuples samp ! nat i)" by simp
  show "nat i < length (sample_tuples samp)" using i by (simp add: sample_tuples_def)
  have "i < int (length (reservoir samp))" using assms by (simp add: sample_ok_def)
  then show "reservoir_at samp i = Inr (sample_tuples samp ! nat i)" using t assms(2) by (simp add: reservoir_at_def)
qed

lemma reservoir_append:
  fixes samp :: "'b reservoir_sample" and t :: "'b Tuple"
  assumes "sample_ok samp" "cur_sample_size samp < max_sample_size samp"
  defines "samp' \<equiv> samp\<lparr>reservoir := (reservoir samp)[nat (cur_sample_size samp) := Some t],
    cur_sample_size := cur_sample_size samp + 1, tot_size := tot_size samp + 1\<rparr>"
  shows "sample_ok samp'" "sample_tuples samp' = sample_tuples samp @ [t]"
proof -
  have l: "nat (cur_sample_size samp) < length (reservoir samp)" "nat (cur_sample_size samp + 1) = Suc (nat (cur_sample_size samp))"
    using assms(1,2) by (simp_all add: sample_ok_def nat_add_distrib)
  have t: "take (nat (cur_sample_size samp')) (reservoir samp') = take (nat (cur_sample_size samp)) (reservoir samp) @ [Some t]"
    using l by (simp add: samp'_def take_Suc_conv_app_nth)
  then show "sample_tuples samp' = sample_tuples samp @ [t]" by (simp add: sample_tuples_def)
  show "sample_ok samp'" using assms(1,2) t by (simp add: sample_ok_def) (simp add: samp'_def)
qed

lemma reservoir_replace:
  fixes samp :: "'b reservoir_sample" and t :: "'b Tuple"
  assumes "sample_ok samp" "0 \<le> i" "i < cur_sample_size samp"
  defines "samp' \<equiv> samp\<lparr>reservoir := (reservoir samp)[nat i := Some t], tot_size := tot_size samp + 1\<rparr>"
  shows "sample_ok samp'" "sample_tuples samp' = (sample_tuples samp)[nat i := t]"
proof -
  have i: "nat i < nat (cur_sample_size samp)" using assms(2,3) by simp
  have t: "take (nat (cur_sample_size samp')) (reservoir samp') = (take (nat (cur_sample_size samp)) (reservoir samp))[nat i := Some t]"
    by (simp add: samp'_def take_update_swap)
  then show "sample_tuples samp' = (sample_tuples samp)[nat i := t]" by (simp add: sample_tuples_def map_update)
  have "None \<notin> set ((take (nat (cur_sample_size samp)) (reservoir samp))[nat i := Some t])"
    using assms(1) set_update_subset_insert [of "take (nat (cur_sample_size samp)) (reservoir samp)" "nat i" "Some t"]
    by (auto simp: sample_ok_def)
  then show "sample_ok samp'" using assms(1) t by (simp add: sample_ok_def) (simp add: samp'_def)
qed

lemma mset_list_update: "i < length xs \<Longrightarrow> mset (xs[i := t]) + {#xs ! i#} = mset xs + {#t#}"
  by (simp add: mset_update)

text \<open>A tuple joins the sample, and what it displaces is freed: no tuple is lost or freed twice.\<close>

lemma sample_one_run:
  assumes cfg: "cfg_ok cfg" and ok: "sample_ok samp" and tot: "tot_size samp + 1 < 2 ^ 31"
  obtains samp' s' where "sample_one cfg t samp s = (Inr samp', s')" "sample_ok samp'"
    "max_sample_size samp' = max_sample_size samp" "cur_sample_itr samp' = cur_sample_itr samp"
    "tot_size samp' = tot_size samp + 1" "cur_sample_size samp' = min (max_sample_size samp) (cur_sample_size samp + 1)"
    "mset (sample_tuples samp') + mset (freed s') = mset (sample_tuples samp) + mset (freed s) + {#t#}"
    "t \<in> set (sample_tuples samp')"
proof -
  let ?fl = "cfg_fl cfg" and ?r = "\<lambda>n. cfg_rand cfg n"
  have fl: "double_rounding ?fl" and r: "0 \<le> ?r n" "?r n < RAND_MAX" for n using cfg by (simp_all add: cfg_ok_def)
  have sz: "0 \<le> cur_sample_size samp" "cur_sample_size samp \<le> tot_size samp" "cur_sample_size samp \<le> max_sample_size samp" "0 < max_sample_size samp"
    "length (reservoir samp) = nat (max_sample_size samp)"
    using ok by (simp_all add: sample_ok_def)
  have use: "use_tup ?fl samp (?r n)" for n using use_tup_always [OF fl ok _ r(1) less_imp_le [OF r(2)]] tot by simp
  have cint: "c_int (tot_size samp + 1) = Inr (tot_size samp + 1)" using tot sz by (simp add: c_int_def)
  show thesis
  proof (cases "cur_sample_size samp < max_sample_size samp")
    case True
    note app = reservoir_append [OF ok True, of t]
    have "sample_one cfg t samp s = (Inr (samp\<lparr>reservoir := (reservoir samp)[nat (cur_sample_size samp) := Some t],
        cur_sample_size := cur_sample_size samp + 1, tot_size := tot_size samp + 1\<rparr>), s\<lparr>rand_no := Suc (rand_no s)\<rparr>)"
      using True sz by (simp add: sample_one_def bind_prog_def rand_def use reservoir_put_def cint)
    then show thesis by (rule that) (use True app in simp_all)
  next
    case False
    then have c: "cur_sample_size samp = max_sample_size samp" "0 < cur_sample_size samp" "cur_sample_size samp < 2 ^ 31" using sz tot by simp_all
    define i where "i = victim_ix ?fl samp (?r (Suc (rand_no s)))"
    have i: "0 \<le> i" "i < cur_sample_size samp" using victim_in_range [OF fl c(2,3) r] by (simp_all add: i_def)
    note at = reservoir_entry [OF ok i] and rep = reservoir_replace [OF ok i, of t]
    have il: "i < int (length (reservoir samp))" using i sz by simp
    have "sample_one cfg t samp s = (Inr (samp\<lparr>reservoir := (reservoir samp)[nat i := Some t], tot_size := tot_size samp + 1\<rparr>),
        s\<lparr>rand_no := Suc (Suc (rand_no s)), freed := freed s @ [sample_tuples samp ! nat i]\<rparr>)"
      using False i il by (simp add: sample_one_def bind_prog_def rand_def use cint i_def [symmetric] at(1) reservoir_put_def heap_freetuple_def modify_prog_def)
    then show thesis
      by (rule that) (use c rep at(2) mset_list_update [OF at(2), of t] in \<open>simp_all add: set_update_memI\<close>)
  qed
qed

lemma sample_loop_run:
  assumes "cfg_ok cfg" "sample_ok samp" "tot_size samp + int (length ts) < 2 ^ 31"
  shows "\<exists>samp' s'. sample_loop cfg ts samp s = (Inr samp', s') \<and> sample_ok samp' \<and>
    max_sample_size samp' = max_sample_size samp \<and> cur_sample_itr samp' = cur_sample_itr samp \<and>
    tot_size samp' = tot_size samp + int (length ts) \<and>
    cur_sample_size samp' = min (max_sample_size samp) (cur_sample_size samp + int (length ts)) \<and>
    mset (sample_tuples samp') + mset (freed s') = mset (sample_tuples samp) + mset (freed s) + mset ts"
  using assms
proof (induction ts arbitrary: samp s)
  case Nil
  then show ?case by (auto simp: sample_ok_def)
next
  case (Cons t ts)
  from Cons.prems have "tot_size samp + 1 < 2 ^ 31" by simp
  from sample_one_run [OF Cons.prems(1,2) this, of t s] obtain samp1 s1 where 1: "sample_one cfg t samp s = (Inr samp1, s1)" "sample_ok samp1"
    "max_sample_size samp1 = max_sample_size samp" "cur_sample_itr samp1 = cur_sample_itr samp"
    "tot_size samp1 = tot_size samp + 1" "cur_sample_size samp1 = min (max_sample_size samp) (cur_sample_size samp + 1)"
    "mset (sample_tuples samp1) + mset (freed s1) = mset (sample_tuples samp) + mset (freed s) + {#t#}" by metis
  have "tot_size samp1 + int (length ts) < 2 ^ 31" using Cons.prems(3) 1(5) by simp
  from Cons.IH [OF Cons.prems(1) 1(2) this, of s1] obtain samp' s' where 2: "sample_loop cfg ts samp1 s1 = (Inr samp', s')" "sample_ok samp'"
    "max_sample_size samp' = max_sample_size samp1" "cur_sample_itr samp' = cur_sample_itr samp1"
    "tot_size samp' = tot_size samp1 + int (length ts)"
    "cur_sample_size samp' = min (max_sample_size samp1) (cur_sample_size samp1 + int (length ts))"
    "mset (sample_tuples samp') + mset (freed s') = mset (sample_tuples samp1) + mset (freed s1) + mset ts" by blast
  have "cur_sample_size samp' = min (max_sample_size samp) (cur_sample_size samp + int (length (t # ts)))"
    using 2(6) 1(3,6) by (simp add: min_def)
  then show ?case using 1 2 by (intro exI [of _ samp'] exI [of _ s']) (simp add: bind_prog_def)
qed



definition witness_syn :: "(unit, unit, 'b) synopsis_ops" where
  "witness_syn = \<lparr>create_mhist = \<lambda>_ _. (), tdesc_to_mhist_diminfo = \<lambda>_ _. (), mhist_create_buckets = \<lambda>_ _ _. (),
     create_reg_mhist = \<lambda>_ _ _. (), mhist_load_buckets = \<lambda>_ _ _. (), remove_empty_mhist_buckets = \<lambda>_. (),
     wcs_create_stream = \<lambda>_ _ _ _. (), real_wcs_union = \<lambda>_ _. ()\<rparr>"

text \<open>Tuples whose body is the list of their attributes.\<close>

definition witness_heap :: "('p Datum option list, 'p) heap_ops" where
  "witness_heap = \<lparr>heap_formtuple = \<lambda>desc vals nulls. \<lparr>t_infomask = 0,
       t_body = map (\<lambda>i. if nulls ! i = CHR ''n'' then None else Some (vals ! i)) [0..<natts desc]\<rparr>,
     heap_getattr = \<lambda>tup n desc. if 1 \<le> n \<and> nat n \<le> length (t_body tup) then t_body tup ! (nat n - 1) else None\<rparr>"

lemma witness_heap_laws: "heap_laws witness_heap"
  by (auto simp: heap_laws_def witness_heap_def nat_add_distrib)

definition witness_cfg :: "(unit, unit, unit Datum option list, unit) shed_cfg" where
  "witness_cfg = \<lparr>cfg_fl = \<lambda>x. x, cfg_fl4 = \<lambda>x. x, cfg_rand = \<lambda>n. 1000000 * int n mod RAND_MAX,
     cfg_heap = witness_heap, cfg_syn = witness_syn\<rparr>"

lemma witness_cfg_ok: "cfg_ok witness_cfg"
  by (simp add: cfg_ok_def witness_cfg_def double_rounding_exact RAND_MAX_def)

definition witness_tuple :: "timestamp \<Rightarrow> unit Datum option list Tuple" where
  "witness_tuple ts = \<lparr>t_infomask = 0, t_body = [Some (TimestampGetDatum ts)]\<rparr>"


section \<open>Streams: lemmas\<close>

lemma free_all_run: "free_all ts s = (Inr (), s\<lparr>freed := freed s @ ts\<rparr>)"
  by (induction ts arbitrary: s) (simp_all add: bind_prog_def heap_freetuple_def)

text \<open>How many tuples a counter or a sample stands for, and the tuples it holds.\<close>

definition ds_size :: "('m, 'w, 'b) ds_state \<Rightarrow> int" where
  "ds_size ds = (case ds of Cs c \<Rightarrow> c | Ss (Some samp) m a \<Rightarrow> tot_size samp | _ \<Rightarrow> 0)"

definition ds_held :: "('m, 'w, 'b) ds_state \<Rightarrow> 'b Tuple multiset" where
  "ds_held ds = (case ds of Ss (Some samp) m a \<Rightarrow> mset (sample_tuples samp) | _ \<Rightarrow> {#})"

definition ds_ok :: "('m, 'w, 'b) ds_state \<Rightarrow> bool" where
  "ds_ok ds \<longleftrightarrow> (case ds of Mhs h n \<Rightarrow> h \<noteq> None | Shs h ws \<Rightarrow> h \<noteq> None | Ws w \<Rightarrow> True
     | Ss samp m a \<Rightarrow> (case samp of None \<Rightarrow> False | Some sm \<Rightarrow> sample_ok sm \<and> cur_sample_itr sm = -1)
     | Cs c \<Rightarrow> 0 \<le> c)"

definition ds_ready :: "('m, 'w, 'b) ds_state \<Rightarrow> bool" where
  "ds_ready ds \<longleftrightarrow> (case ds of Ss samp m a \<Rightarrow> 0 < m | _ \<Rightarrow> True)"

abbreviation counted :: "('m, 'w, 'b) ds_state \<Rightarrow> bool" where
  "counted ds \<equiv> stype ds = ST_COUNT \<or> stype ds = ST_SAMPLE"

lemma create_ds_run:
  assumes "ds_ready ds"
  obtains ds' where "create_ds cfg desc tups ds = Inr ds'" "ds_ok ds'" "ds_size ds' = 0" "ds_held ds' = {#}" "stype ds' = stype ds"
proof -
  have "case create_ds cfg desc tups ds of
      Inr ds' \<Rightarrow> ds_ok ds' \<and> ds_size ds' = 0 \<and> ds_held ds' = {#} \<and> stype ds' = stype ds | Inl e \<Rightarrow> False"
    using assms by (cases ds) (simp_all add: create_ds_def Let_def ds_ok_def ds_size_def ds_ready_def ds_held_def
        sample_ok_def sample_create_def sample_tuples_def)
  then show thesis by (cases "create_ds cfg desc tups ds") (auto intro: that)
qed

lemma load_ds_run:
  assumes "stype ds = ST_SAMPLE \<longrightarrow> cfg_ok cfg" "ds_ok ds" "counted ds \<longrightarrow> ds_size ds + int (length tups) < 2 ^ 31"
  obtains ds' s' where "load_ds cfg desc tups ds s = (Inr ds', s')" "ds_ok ds'" "stype ds' = stype ds"
    "counted ds \<longrightarrow> ds_size ds' = ds_size ds + int (length tups)"
    "if stype ds = ST_SAMPLE then ds_held ds' + mset (freed s') = ds_held ds + mset (freed s) + mset tups
     else s' = s \<and> ds_held ds' = {#} \<and> ds_held ds = {#}"
proof (cases ds)
  case (Ss samp m a)
  then obtain sm where sm: "samp = Some sm" "sample_ok sm" "cur_sample_itr sm = -1" using assms(2) by (auto simp: ds_ok_def split: option.splits)
  have "tot_size sm + int (length tups) < 2 ^ 31" using assms(3) Ss sm by (simp add: ds_size_def)
  from sample_loop_run [OF _ sm(2) this, of cfg s] assms(1) Ss obtain sm' s' where
    "sample_loop cfg tups sm s = (Inr sm', s')" "sample_ok sm'" "cur_sample_itr sm' = -1" "tot_size sm' = tot_size sm + int (length tups)"
    "mset (sample_tuples sm') + mset (freed s') = mset (sample_tuples sm) + mset (freed s) + mset tups"
    using sm(3) by auto
  then show thesis
    by (intro that [of "Ss (Some sm') m a" s'])
       (use Ss sm in \<open>simp_all add: load_ds_def sample_load_def bind_prog_def ds_ok_def ds_size_def ds_held_def\<close>)
next
  case (Cs c)
  then have "0 \<le> c" "c + int (length tups) < 2 ^ 31" using assms by (simp_all add: ds_ok_def ds_size_def)
  then show thesis
    by (intro that [of "Cs (c + int (length tups))" s])
       (use Cs in \<open>simp_all add: load_ds_def c_int_def bind_prog_def ds_ok_def ds_size_def ds_held_def\<close>)
qed (use assms(2) that in \<open>auto simp: load_ds_def ds_ok_def ds_size_def ds_held_def\<close>)

text \<open>
  A stream that takes tuples: its buffer has room, and its synopsis is allocated once it has been
  filled for the first time. Samples keep their tuples, the other synopses leave them to the buffer.
\<close>

definition stream_buf :: "('m, 'w, 'b) generic_stream_state \<Rightarrow> 'b Tuple list" where
  "stream_buf st = (case tb_buf (gs_tb st) of None \<Rightarrow> [] | Some tups \<Rightarrow> tups)"

definition stream_ok :: "('m, 'w, 'b) generic_stream_state \<Rightarrow> bool" where
  "stream_ok st \<longleftrightarrow> tb_buf (gs_tb st) \<noteq> None \<and> int (length (stream_buf st)) < tb_cap (gs_tb st) \<and>
     (own_tuples (gs_tb st) \<longleftrightarrow> stype (gs_ds st) \<noteq> ST_SAMPLE) \<and>
     (case gs_state st of MH_LOADING_BOUNDS \<Rightarrow> ds_ready (gs_ds st) | MH_LOADING_COUNTS \<Rightarrow> ds_ok (gs_ds st) | _ \<Rightarrow> False)"

definition stream_size :: "('m, 'w, 'b) generic_stream_state \<Rightarrow> int" where
  "stream_size st = int (length (stream_buf st)) + (if gs_state st = MH_LOADING_COUNTS then ds_size (gs_ds st) else 0)"

definition stream_held :: "('m, 'w, 'b) generic_stream_state \<Rightarrow> 'b Tuple multiset" where
  "stream_held st = mset (stream_buf st) + (if gs_state st = MH_LOADING_COUNTS then ds_held (gs_ds st) else {#})"

lemma stream_ok_status: "stream_ok st \<Longrightarrow> gs_state st = MH_LOADING_BOUNDS \<or> gs_state st = MH_LOADING_COUNTS"
  by (auto simp: stream_ok_def split: mhist_status.splits)

text \<open>Emptying a full buffer into the synopsis.\<close>

lemma generic_load_run:
  assumes "stype (gs_ds st) = ST_SAMPLE \<longrightarrow> cfg_ok cfg" "ds_ok (gs_ds st)" "tb_buf (gs_tb st) = Some tups"
    "counted (gs_ds st) \<longrightarrow> ds_size (gs_ds st) + int (length tups) < 2 ^ 31"
    "own_tuples (gs_tb st) \<longleftrightarrow> stype (gs_ds st) \<noteq> ST_SAMPLE"
  obtains ds' s' where "generic_load_ds cfg st s = (Inr (st\<lparr>gs_ds := ds', gs_tb := (gs_tb st)\<lparr>tb_buf := Some []\<rparr>\<rparr>), s')"
    "ds_ok ds'" "stype ds' = stype (gs_ds st)" "counted (gs_ds st) \<longrightarrow> ds_size ds' = ds_size (gs_ds st) + int (length tups)"
    "ds_held ds' + mset (freed s') = ds_held (gs_ds st) + mset (freed s) + mset tups"
proof -
  obtain ds' s' where l: "load_ds cfg (gs_input_desc st) tups (gs_ds st) s = (Inr ds', s')" "ds_ok ds'" "stype ds' = stype (gs_ds st)"
    "counted (gs_ds st) \<longrightarrow> ds_size ds' = ds_size (gs_ds st) + int (length tups)"
    "if stype (gs_ds st) = ST_SAMPLE then ds_held ds' + mset (freed s') = ds_held (gs_ds st) + mset (freed s) + mset tups
     else s' = s \<and> ds_held ds' = {#} \<and> ds_held (gs_ds st) = {#}"
    by (rule load_ds_run [OF assms(1,2,4)])
  have "tupbuf_clear (gs_tb st) s' = (Inr ((gs_tb st)\<lparr>tb_buf := Some []\<rparr>), if own_tuples (gs_tb st) then s'\<lparr>freed := freed s' @ tups\<rparr> else s')"
    by (simp add: tupbuf_clear_def assms(3) bind_prog_def free_all_run)
  then have "generic_load_ds cfg st s = (Inr (st\<lparr>gs_ds := ds', gs_tb := (gs_tb st)\<lparr>tb_buf := Some []\<rparr>\<rparr>),
      if own_tuples (gs_tb st) then s'\<lparr>freed := freed s' @ tups\<rparr> else s')"
    by (simp add: generic_load_ds_def gs_tuples_def assms(3) bind_prog_def l(1))
  then show thesis by (rule that) (use l assms(5) in \<open>simp_all split: if_splits\<close>)
qed

lemma generic_stream_next_run:
  assumes "stype (gs_ds st) = ST_SAMPLE \<longrightarrow> cfg_ok cfg" "stream_ok st" "counted (gs_ds st) \<longrightarrow> stream_size st + 1 < 2 ^ 31"
  obtains st' s' where "generic_stream_next cfg tup st s = (Inr st', s')" "stream_ok st'" "stype (gs_ds st') = stype (gs_ds st)"
    "counted (gs_ds st) \<longrightarrow> stream_size st' = stream_size st + (if HeapTupleIsPunct tup then 0 else 1)"
    "stream_held st' + mset (freed s') = stream_held st + mset (freed s) + {#tup#}"
proof -
  let ?tups = "stream_buf st" and ?tb = "gs_tb st"
  have b: "tb_buf ?tb = Some ?tups" and cap: "int (length ?tups) < tb_cap ?tb" and own: "own_tuples ?tb \<longleftrightarrow> stype (gs_ds st) \<noteq> ST_SAMPLE"
    using assms(2) by (auto simp: stream_ok_def stream_buf_def)
  note status = stream_ok_status [OF assms(2)]
  show thesis
  proof (cases "HeapTupleIsPunct tup")
    case True
    have "generic_stream_next cfg tup st s = (Inr st, s\<lparr>freed := freed s @ [tup]\<rparr>)"
      using status cap True by (auto simp: generic_stream_next_def tupbuf_insert_def b bind_prog_def heap_freetuple_def)
    then show thesis by (rule that) (use True assms(2) in simp_all)
  next
    case False
    define tb' where "tb' = ?tb\<lparr>tb_buf := Some (?tups @ [tup])\<rparr>"
    have ins: "tupbuf_insert ?tb tup s = (Inr (tb', int (length ?tups) + 1 \<ge> tb_cap ?tb), s)"
      using cap False by (simp add: tupbuf_insert_def b tb'_def)
    show thesis
    proof (cases "int (length ?tups) + 1 \<ge> tb_cap ?tb")
      case notfull: False
      have "generic_stream_next cfg tup st s = (Inr (st\<lparr>gs_tb := tb'\<rparr>), s)"
        using status notfull by (auto simp: generic_stream_next_def bind_prog_def ins)
      then show thesis
        by (rule that) (use False notfull assms(2) in \<open>auto simp: stream_ok_def stream_buf_def stream_size_def stream_held_def tb'_def split: mhist_status.splits\<close>)
    next
      case full: True
      let ?c = "gs_state st = MH_LOADING_COUNTS"
      obtain ds1 where ds1: "stype ds1 = stype (gs_ds st)" "ds_ok ds1" "ds_size ds1 = (if ?c then ds_size (gs_ds st) else 0)"
          "ds_held ds1 = (if ?c then ds_held (gs_ds st) else {#})"
        and run: "generic_stream_next cfg tup st s = bind_prog (generic_load_ds cfg (st\<lparr>gs_tb := tb', gs_ds := ds1\<rparr>))
          (\<lambda>st. return_prog (if ?c then st else st\<lparr>gs_state := MH_LOADING_COUNTS\<rparr>)) s"
      proof (cases ?c)
        case True
        then show thesis using assms(2) full
          by (intro that [of "gs_ds st"])
             (auto simp: stream_ok_def generic_stream_next_def bind_prog_def ins split: prod.split sum.split)
      next
        case False
        then have B: "gs_state st = MH_LOADING_BOUNDS" using status by simp
        then have "ds_ready (gs_ds st)" using assms(2) by (simp add: stream_ok_def)
        then obtain ds1 where "create_ds cfg (gs_input_desc st) (?tups @ [tup]) (gs_ds st) = Inr ds1" "ds_ok ds1" "ds_size ds1 = 0"
          "ds_held ds1 = {#}" "stype ds1 = stype (gs_ds st)" by (rule create_ds_run)
        then show thesis using B full
          by (intro that [of ds1])
             (simp_all add: generic_stream_next_def generic_create_ds_def gs_tuples_def tb'_def bind_prog_def ins [unfolded tb'_def])
      qed
      let ?st1 = "st\<lparr>gs_tb := tb', gs_ds := ds1\<rparr>"
      have "stype (gs_ds ?st1) = ST_SAMPLE \<longrightarrow> cfg_ok cfg" "ds_ok (gs_ds ?st1)" "tb_buf (gs_tb ?st1) = Some (?tups @ [tup])"
        "counted (gs_ds ?st1) \<longrightarrow> ds_size (gs_ds ?st1) + int (length (?tups @ [tup])) < 2 ^ 31"
        "own_tuples (gs_tb ?st1) \<longleftrightarrow> stype (gs_ds ?st1) \<noteq> ST_SAMPLE"
        using assms(1,3) ds1 own by (auto simp: tb'_def stream_size_def)
      then obtain ds2 s' where l: "generic_load_ds cfg ?st1 s = (Inr (?st1\<lparr>gs_ds := ds2, gs_tb := (gs_tb ?st1)\<lparr>tb_buf := Some []\<rparr>\<rparr>), s')"
        "ds_ok ds2" "stype ds2 = stype (gs_ds ?st1)" "counted (gs_ds ?st1) \<longrightarrow> ds_size ds2 = ds_size (gs_ds ?st1) + int (length (?tups @ [tup]))"
        "ds_held ds2 + mset (freed s') = ds_held (gs_ds ?st1) + mset (freed s) + mset (?tups @ [tup])"
        by (rule generic_load_run)
      let ?st2 = "st\<lparr>gs_tb := ?tb\<lparr>tb_buf := Some []\<rparr>, gs_ds := ds2, gs_state := MH_LOADING_COUNTS\<rparr>"
      have "generic_stream_next cfg tup st s = (Inr ?st2, s')"
        unfolding run bind_prog_def l(1) using status by (cases st) (auto simp: tb'_def)
      then show thesis
        by (rule that) (use False l ds1 own cap in \<open>auto simp: stream_ok_def stream_buf_def [of ?st2] stream_size_def stream_held_def\<close>)
    qed
  qed
qed


primrec feed_all :: "('m, 'w, 'b, 'p) shed_cfg \<Rightarrow> 'b Tuple list \<Rightarrow> ('m, 'w, 'b) generic_stream_state \<Rightarrow>
   ('b process, ('m, 'w, 'b) generic_stream_state) prog" where
  "feed_all cfg [] st = return_prog st"
| "feed_all cfg (t # ts) st = bind_prog (generic_stream_next cfg t st) (feed_all cfg ts)"

abbreviation data_tuples :: "'b Tuple list \<Rightarrow> 'b Tuple list" where
  "data_tuples ts \<equiv> filter (\<lambda>t. \<not> HeapTupleIsPunct t) ts"

lemma feed_all_run:
  assumes "stype (gs_ds st) = ST_SAMPLE \<longrightarrow> cfg_ok cfg" "stream_ok st" "counted (gs_ds st) \<longrightarrow> stream_size st + int (length ts) < 2 ^ 31"
  shows "\<exists>st' s'. feed_all cfg ts st s = (Inr st', s') \<and> stream_ok st' \<and> stype (gs_ds st') = stype (gs_ds st) \<and>
    (counted (gs_ds st) \<longrightarrow> stream_size st' = stream_size st + int (length (data_tuples ts))) \<and>
    stream_held st' + mset (freed s') = stream_held st + mset (freed s) + mset ts"
  using assms
proof (induction ts arbitrary: st s)
  case (Cons t ts)
  from Cons.prems(3) have "counted (gs_ds st) \<longrightarrow> stream_size st + 1 < 2 ^ 31" by auto
  then obtain st1 s1 where 1: "generic_stream_next cfg t st s = (Inr st1, s1)" "stream_ok st1" "stype (gs_ds st1) = stype (gs_ds st)"
    "counted (gs_ds st) \<longrightarrow> stream_size st1 = stream_size st + (if HeapTupleIsPunct t then 0 else 1)"
    "stream_held st1 + mset (freed s1) = stream_held st + mset (freed s) + {#t#}"
    by (rule generic_stream_next_run [OF Cons.prems(1,2)])
  have "stype (gs_ds st1) = ST_SAMPLE \<longrightarrow> cfg_ok cfg" "counted (gs_ds st1) \<longrightarrow> stream_size st1 + int (length ts) < 2 ^ 31"
    using Cons.prems(1,3) 1(3,4) by auto
  from Cons.IH [OF this(1) 1(2) this(2), of s1] obtain st' s' where 2: "feed_all cfg ts st1 s1 = (Inr st', s')" "stream_ok st'"
    "stype (gs_ds st') = stype (gs_ds st1)" "counted (gs_ds st1) \<longrightarrow> stream_size st' = stream_size st1 + int (length (data_tuples ts))"
    "stream_held st' + mset (freed s') = stream_held st1 + mset (freed s1) + mset ts" by blast
  show ?case
    by (rule exI [of _ st'], rule exI [of _ s']) (use 1 2 in \<open>auto simp: bind_prog_def\<close>)
qed simp

lemma feed_all_append: "feed_all cfg (ts @ us) st = bind_prog (feed_all cfg ts st) (feed_all cfg us)"
  by (induction ts arbitrary: st) (auto simp: bind_prog_def fun_eq_iff split: sum.split prod.split)

lemma feed_all_one: "feed_all cfg [t] st = generic_stream_next cfg t st"
  by (auto simp: bind_prog_def return_prog_def fun_eq_iff split: sum.split prod.split)

text \<open>A counting stream ends with the number of tuples it has taken, all of them freed.\<close>

lemma count_done:
  assumes "stream_ok st" "stype (gs_ds st) = ST_COUNT" "stream_size st < 2 ^ 31"
  obtains s' where "generic_stream_done cfg st s = (Inr (Sum_count (stream_size st)), s')"
    "mset (freed s') = stream_held st + mset (freed s)"
proof -
  let ?tups = "stream_buf st" and ?tb = "gs_tb st" and ?c = "gs_state st = MH_LOADING_COUNTS"
  have b: "tb_buf ?tb = Some ?tups" and own: "own_tuples ?tb"
    using assms(1,2) by (auto simp: stream_ok_def stream_buf_def)
  obtain c where c: "gs_ds st = Cs c" using assms(2) by (cases "gs_ds st") auto
  define ds1 :: "('a, 'b, 'c) ds_state" where "ds1 = Cs (if ?c then c else 0)"
  have pos: "?c \<longrightarrow> 0 \<le> c" using assms(1) c by (auto simp: stream_ok_def ds_ok_def)
  have sz: "stream_size st = int (length ?tups) + (if ?c then c else 0)" by (simp add: stream_size_def c ds_size_def)
  have held: "stream_held st = mset ?tups" by (simp add: stream_held_def c ds_held_def)
  let ?st1 = "st\<lparr>gs_ds := ds1\<rparr>"
  have same: "?st1 = st" if ?c using that c by (cases st) (simp add: ds1_def)
  have start: "(case gs_state st of
          MH_LOADING_BOUNDS \<Rightarrow> bind_prog (lift_outcome (generic_create_ds cfg st)) (generic_load_ds cfg)
        | MH_LOADING_COUNTS \<Rightarrow> generic_load_ds cfg st
        | _ \<Rightarrow> fail_prog (Elog_error ''generic_stream_done(): Invalid state.'')) = generic_load_ds cfg ?st1"
    proof (cases ?c)
    case True
    then show ?thesis using same by simp
  next
    case False
    then have "gs_state st = MH_LOADING_BOUNDS" using stream_ok_status [OF assms(1)] by simp
    then show ?thesis by (simp add: ds1_def c generic_create_ds_def gs_tuples_def b create_ds_def Let_def)
  qed
  have "c_int ((if ?c then c else 0) + int (length ?tups)) = Inr (stream_size st)" using assms(3) pos by (auto simp: c_int_def sz)
  then have "generic_load_ds cfg ?st1 s = (Inr (?st1\<lparr>gs_ds := Cs (stream_size st), gs_tb := ?tb\<lparr>tb_buf := Some []\<rparr>\<rparr>), s\<lparr>freed := freed s @ ?tups\<rparr>)"
    by (simp add: generic_load_ds_def gs_tuples_def b load_ds_def ds1_def bind_prog_def tupbuf_clear_def own free_all_run del: if_split)
  then have "generic_stream_done cfg st s = (Inr (Sum_count (stream_size st)), s\<lparr>freed := freed s @ ?tups\<rparr>)"
    by (simp add: generic_stream_done_def start bind_prog_def tupbuf_destroy_def tupbuf_clear_def own finish_ds_def)
  then show thesis by (rule that) (simp add: held)
qed

lemma stream_init_ok:
  assumes "generic_stream_init proto desc out_desc = Inr st" "own_tuples (gs_tb proto) \<longleftrightarrow> stype (gs_ds proto) \<noteq> ST_SAMPLE"
    "ds_ready (gs_ds proto)"
  shows "stream_ok st" "stype (gs_ds st) = stype (gs_ds proto)" "stream_size st = 0" "stream_held st = {#}"
  using assms
  by (cases "gs_ds proto"; simp add: generic_stream_init_def tupbuf_init_def Let_def stream_ok_def stream_buf_def ds_ready_def
      stream_size_def stream_held_def split: if_splits; auto)+

text \<open>
  C40. A counting summary is exact: a stream that is started, fed any tuples and finished returns the
  number of those that are not punctuation, however they fall into buffers, and every tuple it was
  given is freed exactly once.
\<close>

theorem count_summary_exact:
  assumes "generic_stream_init proto desc out_desc = Inr st" "stype (gs_ds proto) = ST_COUNT" "own_tuples (gs_tb proto)"
    "int (length ts) < 2 ^ 31"
  shows "case bind_prog (feed_all cfg ts st) (generic_stream_done cfg) s of
      (Inr summary, s') \<Rightarrow> summary = Sum_count (int (length (data_tuples ts))) \<and> mset (freed s') = mset (freed s) + mset ts
    | (Inl e, s') \<Rightarrow> False"
proof -
  have r: "ds_ready (gs_ds proto)" using assms(2) by (cases "gs_ds proto") (simp_all add: ds_ready_def)
  have o: "own_tuples (gs_tb proto) \<longleftrightarrow> stype (gs_ds proto) \<noteq> ST_SAMPLE" using assms(2,3) by simp
  note i = stream_init_ok [OF assms(1) o r]
  from feed_all_run [OF _ i(1), of cfg ts s] obtain st' s1 where
    f: "feed_all cfg ts st s = (Inr st', s1)" "stream_ok st'" "stype (gs_ds st') = ST_COUNT" "stream_size st' = int (length (data_tuples ts))"
       "stream_held st' + mset (freed s1) = mset (freed s) + mset ts"
    using i assms(2,4) by auto
  have "stream_size st' < 2 ^ 31" using f(4) assms(4) length_filter_le [of _ ts] by (metis le_less_trans of_nat_mono)
  from count_done [OF f(2,3) this, of cfg s1] obtain s' where
    "generic_stream_done cfg st' s1 = (Inr (Sum_count (stream_size st')), s')" "mset (freed s') = stream_held st' + mset (freed s1)" by blast
  then show ?thesis using f by (simp add: bind_prog_def)
qed


definition witness_desc :: TupleDesc where
  "witness_desc = \<lparr>natts = 1, attnames = [''ts''], constr = Some \<lparr>ts_attrnum = 0\<rparr>\<rparr>"

definition witness_count :: "(unit, unit, unit Datum option list) generic_stream_state" where
  "witness_count = \<lparr>gs_state = MH_INIT, gs_tb = \<lparr>tb_buf = None, tb_cap = 2, own_tuples = True\<rparr>,
     gs_input_desc = witness_desc, gs_output_desc = witness_desc, gs_ds = Cs 0\<rparr>"

definition witness_stream :: "(unit, unit, unit Datum option list) generic_stream_state" where
  "witness_stream = \<lparr>gs_state = MH_LOADING_BOUNDS, gs_tb = \<lparr>tb_buf = Some [], tb_cap = 2, own_tuples = True\<rparr>,
     gs_input_desc = witness_desc, gs_output_desc = witness_desc, gs_ds = Cs 0\<rparr>"

definition witness_process :: "unit Datum option list process" where
  "witness_process = \<lparr>freed = [], rand_no = 0\<rparr>"

theorem count_summary_exact_witness:
  "case bind_prog (feed_all witness_cfg (map witness_tuple [1, 2, 3]) witness_stream) (generic_stream_done witness_cfg) witness_process of
      (Inr summary, s') \<Rightarrow> summary = Sum_count (int (length (data_tuples (map witness_tuple [1, 2, 3])))) \<and>
        mset (freed s') = mset (freed witness_process) + mset (map witness_tuple [1, 2, 3])
    | (Inl e, s') \<Rightarrow> False"
proof (rule count_summary_exact)
  show "generic_stream_init witness_count witness_desc witness_desc = Inr witness_stream"
    by (simp add: generic_stream_init_def witness_count_def witness_stream_def tupbuf_init_def)
qed (simp_all add: witness_count_def)

text \<open>The reservoir takes every tuple it is given.\<close>

lemma every_tuple_sampled:
  assumes "cfg_ok cfg" "sample_ok samp" "tot_size samp + 1 < 2 ^ 31"
  shows "case sample_one cfg t samp s of (Inr samp', s') \<Rightarrow> t \<in> set (sample_tuples samp') | (Inl e, s') \<Rightarrow> False"
  by (rule sample_one_run [OF assms, of t s]) simp

text \<open>timestampFromPrototuple reads the field after the timestamp.\<close>

lemma timestampFromPrototuple_next_field:
  "timestampFromPrototuple \<lparr>pt_fields = [Some (TimestampGetDatum 5), Some (TimestampGetDatum 7)], pt_nulls = [],
     isPunct = False, nfields_used = 2, nfields_alloc = 2\<rparr>
     \<lparr>natts = 2, attnames = [], constr = Some \<lparr>ts_attrnum = 0\<rparr>\<rparr> = Inr 7"
  by code_simp

end
