(* ===== verification/Triage_Queue.thy ===== *)
theory Triage_Queue
  imports Shedding
begin

text \<open>
  The triage queue (\<^verbatim>\<open>src/src/backend/telegraphcq/triageq.c\<close>), a bounded queue of tuples between a
  stream and the query processor. When tuples come too fast the oldest ones are dropped and counted in
  a summary of dropped tuples; the tuples that are delivered go into a summary of kept tuples. Both
  are emitted and started anew at the end of every summary window (epoch). The window arithmetic is
  that of the theory of windows and the summaries are those of the theory of shedding.
\<close>

section \<open>Data structures\<close>

datatype TriageQueueState = TQS_NOT_INITIALIZED | TQS_NO_TS | TQS_HAVE_TS

definition TQ_NOT_AN_INDEX :: int where "TQ_NOT_AN_INDEX = -1"

text \<open>
  \<open>tq_buf\<close> is the array with \<open>None\<close> for \<^verbatim>\<open>NULL\<close>; \<open>epochstart\<close> and \<open>time_cstr\<close> are what
  \<^verbatim>\<open>epochstart_p\<close> and \<^verbatim>\<open>time_cstr_p\<close> point to; \<open>syn_gen\<close> is the prototype of the summaries.
\<close>

record ('m, 'w, 'b) TriageQueue =
  tq_state :: TriageQueueState
  tq_buf :: "'b Tuple option list option"
  tq_input_desc :: TupleDesc
  tq_summary_desc :: TupleDesc
  qlen :: int
  nelem :: int
  next_enqueue_ix :: int
  next_dequeue_ix :: int
  syn_gen :: "('m, 'w, 'b) generic_stream_state"
  drop_sum_state :: "('m, 'w, 'b) generic_stream_state"
  keep_sum_state :: "('m, 'w, 'b) generic_stream_state"
  epochstart :: timestamp
  epochlen :: Interval
  epochnum :: int
  next_epoch_ix :: int
  nsent_this_epoch :: int
  time_cstr :: Interval

type_synonym ('m, 'w, 'b) tq = "('m, 'w, 'b) TriageQueue \<times> 'b process"

record ('m, 'w, 'b) SummaryTuples =
  tuples_produced :: int
  st_epochnum :: int
  st_epochstart :: timestamp
  st_epochend :: timestamp
  summary_tdesc :: TupleDesc
  st_summary :: "('m, 'w, 'b) generic_summary"

text \<open>\<^verbatim>\<open>FULL_TIME_STR\<close>, \<^verbatim>\<open>SHADOW_TIME_STR\<close> and \<^verbatim>\<open>AGG_TIME_STR\<close> in microseconds, and \<^verbatim>\<open>EPSILON\<close>.\<close>

definition FULL_TIME_PER_TUP :: Interval where "FULL_TIME_PER_TUP = \<lparr>i_time = 1000, i_month = 0\<rparr>"
definition SHADOW_TIME :: Interval where "SHADOW_TIME = \<lparr>i_time = 10000, i_month = 0\<rparr>"
definition AGG_TIME_PER_TUP :: Interval where "AGG_TIME_PER_TUP = \<lparr>i_time = 200, i_month = 0\<rparr>"
definition EPSILON :: timestamp where "EPSILON = 1"

definition on_queue :: "(('m, 'w, 'b) TriageQueue \<Rightarrow> 'a outcome) \<Rightarrow> (('m, 'w, 'b) tq, 'a) prog" where
  "on_queue f = (\<lambda>(q, s). (f q, (q, s)))"

definition update_queue :: "(('m, 'w, 'b) TriageQueue \<Rightarrow> ('m, 'w, 'b) TriageQueue) \<Rightarrow> (('m, 'w, 'b) tq, unit) prog" where
  "update_queue f = (\<lambda>(q, s). (Inr (), (f q, s)))"

section \<open>Window arithmetic for adjacent windows\<close>

definition window_no :: "(rat \<Rightarrow> rat) \<Rightarrow> timestamp \<Rightarrow> Interval \<Rightarrow> timestamp \<Rightarrow> int outcome" where
  "window_no fl start len ts = last_window_no fl start len len ts"

definition simple_window_end :: "(rat \<Rightarrow> rat) \<Rightarrow> timestamp \<Rightarrow> Interval \<Rightarrow> int \<Rightarrow> timestamp outcome" where
  "simple_window_end fl start len n = window_end fl start len len n"

definition simple_ts_past_window :: "(rat \<Rightarrow> rat) \<Rightarrow> timestamp \<Rightarrow> timestamp \<Rightarrow> Interval \<Rightarrow> int \<Rightarrow> bool outcome" where
  "simple_ts_past_window fl ts start len n = timestamp_past_window fl ts start len len n"

section \<open>The circular buffer\<close>

definition is_initialized :: "('m, 'w, 'b) TriageQueue \<Rightarrow> bool" where
  "is_initialized q \<longleftrightarrow> tq_state q \<noteq> TQS_NOT_INITIALIZED \<and> tq_buf q \<noteq> None"

definition assert_initialized :: "(('m, 'w, 'b) tq, unit) prog" where
  "assert_initialized = on_queue (\<lambda>q. if is_initialized q then Inr () else Inl (Assert_failed ''is_initialized(q)''))"

definition is_full :: "('m, 'w, 'b) TriageQueue \<Rightarrow> bool" where
  "is_full q \<longleftrightarrow> nelem q = qlen q"

definition is_empty :: "('m, 'w, 'b) TriageQueue \<Rightarrow> bool" where
  "is_empty q \<longleftrightarrow> nelem q = 0"

definition next_index :: "('m, 'w, 'b) TriageQueue \<Rightarrow> int \<Rightarrow> int" where
  "next_index q prev = (prev + 1) smod qlen q"

definition prev_index :: "('m, 'w, 'b) TriageQueue \<Rightarrow> int \<Rightarrow> int" where
  "prev_index q nxt = (nxt - 1) smod qlen q"

definition index_diff :: "('m, 'w, 'b) TriageQueue \<Rightarrow> int \<Rightarrow> int \<Rightarrow> int" where
  "index_diff q first_ix last_ix = (if last_ix \<ge> first_ix then last_ix - first_ix else (qlen q - first_ix) + last_ix)"

definition num_tups_sent_from_cur_epoch :: "('m, 'w, 'b) TriageQueue \<Rightarrow> int" where
  "num_tups_sent_from_cur_epoch q = nsent_this_epoch q"

definition num_tups_from_cur_epoch :: "('m, 'w, 'b) TriageQueue \<Rightarrow> int" where
  "num_tups_from_cur_epoch q =
     (if next_epoch_ix q = TQ_NOT_AN_INDEX then nelem q else index_diff q (next_dequeue_ix q) (next_epoch_ix q))"

definition buf_at :: "('m, 'w, 'b) TriageQueue \<Rightarrow> int \<Rightarrow> 'b Tuple option outcome" where
  "buf_at q i =
     (case tq_buf q of
        None \<Rightarrow> Inl (Out_of_bounds ''q->buf is NULL'')
      | Some buf \<Rightarrow> if 0 \<le> i \<and> i < int (length buf) then Inr (buf ! nat i) else Inl (Out_of_bounds ''q->buf''))"

definition buf_put :: "int \<Rightarrow> 'b Tuple \<Rightarrow> ('m, 'w, 'b) TriageQueue \<Rightarrow> ('m, 'w, 'b) TriageQueue outcome" where
  "buf_put i tup q =
     (case tq_buf q of
        None \<Rightarrow> Inl (Out_of_bounds ''q->buf is NULL'')
      | Some buf \<Rightarrow>
          if 0 \<le> i \<and> i < int (length buf) then Inr (q\<lparr>tq_buf := Some (buf[nat i := Some tup])\<rparr>)
          else Inl (Out_of_bounds ''q->buf''))"

definition put_at :: "(('m, 'w, 'b) TriageQueue \<Rightarrow> int) \<Rightarrow> 'b Tuple \<Rightarrow> (('m, 'w, 'b) tq, unit) prog" where
  "put_at ix tup = (\<lambda>(q, s). case buf_put (ix q) tup q of Inl e \<Rightarrow> (Inl e, (q, s)) | Inr q' \<Rightarrow> (Inr (), (q', s)))"

text \<open>The timestamp of a tuple of the queue; a \<^verbatim>\<open>NULL\<close> tuple cannot be read.\<close>

definition tup_ts :: "('m, 'w, 'b, 'p) shed_cfg \<Rightarrow> ('m, 'w, 'b) TriageQueue \<Rightarrow> 'b Tuple option \<Rightarrow> timestamp outcome" where
  "tup_ts cfg q tup =
     (case tup of None \<Rightarrow> Inl (Out_of_bounds ''tuple is NULL'') | Some t \<Rightarrow> get_timestamp_val (cfg_heap cfg) (tq_input_desc q) t)"

definition tup_window_no :: "('m, 'w, 'b, 'p) shed_cfg \<Rightarrow> ('m, 'w, 'b) TriageQueue \<Rightarrow> 'b Tuple option \<Rightarrow> int outcome" where
  "tup_window_no cfg q tup = bind_outcome (tup_ts cfg q tup) (window_no (cfg_fl cfg) (epochstart q) (epochlen q))"

section \<open>Creation\<close>

definition getSummarizer ::
  "('m, 'w, 'b) generic_stream_state \<Rightarrow> TupleDesc \<Rightarrow> TupleDesc \<Rightarrow> ('m, 'w, 'b) generic_stream_state outcome" where
  "getSummarizer gen input_desc output_desc = generic_stream_init gen input_desc output_desc"

definition getSummaryType :: "('m, 'w, 'b) generic_stream_state \<Rightarrow> summary_type" where
  "getSummaryType gen = stype (gs_ds gen)"

definition triage_create ::
  "int \<Rightarrow> ('m, 'w, 'b) generic_stream_state \<Rightarrow> TupleDesc \<Rightarrow> TupleDesc \<Rightarrow> timestamp \<Rightarrow> Interval \<Rightarrow> Interval \<Rightarrow>
   ('m, 'w, 'b) TriageQueue outcome" where
  "triage_create len gen input_desc summary_desc start windowsize time_constr =
     (if \<not> len > 0 then Inl (Assert_failed ''qlen > 0'')
      else
        bind_outcome (getSummarizer gen input_desc summary_desc) (\<lambda>drop_state.
        bind_outcome (getSummarizer gen input_desc summary_desc) (\<lambda>keep_state.
          Inr \<lparr>tq_state = TQS_NO_TS, tq_buf = Some (replicate (nat len) None), tq_input_desc = input_desc,
               tq_summary_desc = summary_desc, qlen = len, nelem = 0, next_enqueue_ix = 0, next_dequeue_ix = 0,
               syn_gen = gen, drop_sum_state = drop_state, keep_sum_state = keep_state, epochstart = start,
               epochlen = windowsize, epochnum = 1, next_epoch_ix = TQ_NOT_AN_INDEX, nsent_this_epoch = 0,
               time_cstr = time_constr\<rparr>)))"

definition triage_size :: "(('m, 'w, 'b) tq, int) prog" where
  "triage_size = bind_prog assert_initialized (\<lambda>_. on_queue (\<lambda>q. Inr (nelem q)))"

definition triage_get_tup_desc :: "(('m, 'w, 'b) tq, TupleDesc) prog" where
  "triage_get_tup_desc = bind_prog assert_initialized (\<lambda>_. on_queue (\<lambda>q. Inr (tq_input_desc q)))"

definition triage_get_sum_type :: "(('m, 'w, 'b) tq, summary_type) prog" where
  "triage_get_sum_type = bind_prog assert_initialized (\<lambda>_. on_queue (\<lambda>q. Inr (getSummaryType (syn_gen q))))"

section \<open>Taking tuples from the queue\<close>

definition triage_peek :: "(('m, 'w, 'b) tq, 'b Tuple option) prog" where
  "triage_peek =
     bind_prog assert_initialized (\<lambda>_.
       on_queue (\<lambda>q. if is_empty q then Inr None else buf_at q (next_dequeue_ix q)))"

definition drop_stream_next :: "('m, 'w, 'b, 'p) shed_cfg \<Rightarrow> 'b Tuple \<Rightarrow> (('m, 'w, 'b) tq, unit) prog" where
  "drop_stream_next cfg tup = (\<lambda>(q, s).
     case generic_stream_next cfg tup (drop_sum_state q) s of
       (Inl e, s') \<Rightarrow> (Inl e, (q, s'))
     | (Inr st, s') \<Rightarrow> (Inr (), (q\<lparr>drop_sum_state := st\<rparr>, s')))"

definition keep_stream_next :: "('m, 'w, 'b, 'p) shed_cfg \<Rightarrow> 'b Tuple \<Rightarrow> (('m, 'w, 'b) tq, unit) prog" where
  "keep_stream_next cfg tup = (\<lambda>(q, s).
     case generic_stream_next cfg tup (keep_sum_state q) s of
       (Inl e, s') \<Rightarrow> (Inl e, (q, s'))
     | (Inr st, s') \<Rightarrow> (Inr (), (q\<lparr>keep_sum_state := st\<rparr>, s')))"

definition check_window :: "('m, 'w, 'b, 'p) shed_cfg \<Rightarrow> string \<Rightarrow> 'b Tuple option \<Rightarrow> (('m, 'w, 'b) tq, unit) prog" where
  "check_window cfg msg tup =
     on_queue (\<lambda>q. bind_outcome (tup_window_no cfg q tup) (\<lambda>w. if w \<noteq> epochnum q then Inl (Elog_error msg) else Inr ()))"

definition drop_oldest :: "('m, 'w, 'b, 'p) shed_cfg \<Rightarrow> (('m, 'w, 'b) tq, unit) prog" where
  "drop_oldest cfg =
     bind_prog assert_initialized (\<lambda>_.
     bind_prog triage_peek (\<lambda>peeked.
       case peeked of
         None \<Rightarrow> fail_prog (Assert_failed ''NULL != oldest'')
       | Some oldest \<Rightarrow>
           bind_prog (check_window cfg ''Tried to drop a tuple from the wrong summary window'' (Some oldest)) (\<lambda>_.
           bind_prog (drop_stream_next cfg oldest) (\<lambda>_.
             update_queue (\<lambda>q. q\<lparr>next_dequeue_ix := next_index q (next_dequeue_ix q), nelem := nelem q - 1\<rparr>)))))"

text \<open>\<open>no_kept\<close> is the setting \<^verbatim>\<open>load_shedding_disable_kept_summaries\<close>; the copy that is summarized equals the tuple.\<close>

definition triage_dequeue :: "('m, 'w, 'b, 'p) shed_cfg \<Rightarrow> bool \<Rightarrow> (('m, 'w, 'b) tq, 'b Tuple option) prog" where
  "triage_dequeue cfg no_kept =
     bind_prog assert_initialized (\<lambda>_.
     bind_prog (on_queue (\<lambda>q. Inr (is_empty q))) (\<lambda>emp.
       if emp then return_prog None
       else
         bind_prog (on_queue (\<lambda>q. buf_at q (next_dequeue_ix q))) (\<lambda>ret.
         bind_prog (check_window cfg ''Tried to dequeue a tuple from the wrong summary window'' ret) (\<lambda>_.
         bind_prog (update_queue (\<lambda>q. q\<lparr>next_dequeue_ix := next_index q (next_dequeue_ix q), nelem := nelem q - 1\<rparr>)) (\<lambda>_.
         bind_prog
           (if \<not> no_kept then (case ret of None \<Rightarrow> fail_prog (Out_of_bounds ''tuple is NULL'') | Some t \<Rightarrow> keep_stream_next cfg t)
            else return_prog ()) (\<lambda>_.
         bind_prog (update_queue (\<lambda>q. q\<lparr>nsent_this_epoch := nsent_this_epoch q + 1\<rparr>)) (\<lambda>_.
           return_prog ret)))))))"

section \<open>Dropping tuples that cannot be processed in time\<close>

definition tuple_cap :: "('m, 'w, 'b, 'p) shed_cfg \<Rightarrow> ('m, 'w, 'b) TriageQueue \<Rightarrow> timestamp \<Rightarrow> timestamp \<Rightarrow> int outcome" where
  "tuple_cap cfg q we now =
     (let fl = cfg_fl cfg; agg_time = i_mul fl AGG_TIME_PER_TUP (of_int (num_tups_sent_from_cur_epoch q))
      in bind_outcome (ts_mi we now) (\<lambda>left.
         bind_outcome (i_div_i fl (i_mi_i (i_pl_i (i_mi_i (time_cstr q) SHADOW_TIME) left) agg_time) FULL_TIME_PER_TUP) (\<lambda>f.
         bind_outcome (c_int (c_int_of_rat f)) (\<lambda>n. c_int (n - 1)))))"

text \<open>The number of tuples to drop: twice the excess, but none of a later window.\<close>

definition overflow_count :: "('m, 'w, 'b, 'p) shed_cfg \<Rightarrow> ('m, 'w, 'b) TriageQueue \<Rightarrow> timestamp \<Rightarrow> timestamp \<Rightarrow> int outcome" where
  "overflow_count cfg q we now =
     bind_outcome (tuple_cap cfg q we now) (\<lambda>tup_cap.
     bind_outcome (c_int (num_tups_from_cur_epoch q - tup_cap)) (\<lambda>overflow.
     bind_outcome (c_int (overflow * 2)) (\<lambda>overflow.
       Inr (if overflow > num_tups_from_cur_epoch q then num_tups_from_cur_epoch q else overflow))))"

primrec drop_loop :: "('m, 'w, 'b, 'p) shed_cfg \<Rightarrow> nat \<Rightarrow> (('m, 'w, 'b) tq, unit) prog" where
  "drop_loop cfg 0 = return_prog ()"
| "drop_loop cfg (Suc n) =
     bind_prog triage_peek (\<lambda>peeked.
       case peeked of
         None \<Rightarrow> fail_prog (Out_of_bounds ''tuple is NULL'')
       | Some t \<Rightarrow>
           if HeapTupleIsPunct t then return_prog ()
           else bind_prog (drop_oldest cfg) (\<lambda>_. drop_loop cfg n))"

definition push_front_punct :: "('m, 'w, 'b, 'p) shed_cfg \<Rightarrow> timestamp \<Rightarrow> (('m, 'w, 'b) tq, unit) prog" where
  "push_front_punct cfg we =
     bind_prog (update_queue (\<lambda>q. q\<lparr>next_dequeue_ix := prev_index q (next_dequeue_ix q)\<rparr>)) (\<lambda>_.
     bind_prog (on_queue (\<lambda>q. form_punct_tup_no_leaks (cfg_heap cfg) (tq_input_desc q) (we - EPSILON))) (\<lambda>punct.
     bind_prog (put_at next_dequeue_ix punct) (\<lambda>_.
       update_queue (\<lambda>q. q\<lparr>nelem := nelem q + 1\<rparr>))))"

definition triage_cleanup_expired_tuples :: "('m, 'w, 'b, 'p) shed_cfg \<Rightarrow> timestamp \<Rightarrow> (('m, 'w, 'b) tq, unit) prog" where
  "triage_cleanup_expired_tuples cfg now =
     bind_prog assert_initialized (\<lambda>_.
     bind_prog (on_queue (\<lambda>q. Inr (tq_state q = TQS_NO_TS))) (\<lambda>no_ts.
     bind_prog (if no_ts then return_prog None else triage_peek) (\<lambda>peeked.
       if peeked = None then return_prog ()
       else
         bind_prog (on_queue (\<lambda>q. simple_window_end (cfg_fl cfg) (epochstart q) (epochlen q) (epochnum q))) (\<lambda>we.
         bind_prog (on_queue (\<lambda>q. overflow_count cfg q we now)) (\<lambda>overflow.
           if overflow > 0 then
             bind_prog (drop_loop cfg (nat overflow)) (\<lambda>_.
             bind_prog (on_queue (\<lambda>q. Inr (num_tups_from_cur_epoch q = 0 \<and> nelem q > 0))) (\<lambda>blown.
               if blown then push_front_punct cfg we else return_prog ()))
           else return_prog ())))))"

section \<open>Adding tuples to the queue\<close>

text \<open>Whether the tuple is the first one of a later window.\<close>

definition mark_epoch :: "('m, 'w, 'b, 'p) shed_cfg \<Rightarrow> 'b Tuple \<Rightarrow> ('m, 'w, 'b) TriageQueue \<Rightarrow> ('m, 'w, 'b) TriageQueue outcome" where
  "mark_epoch cfg tup q =
     (if next_epoch_ix q = TQ_NOT_AN_INDEX then
        bind_outcome (tup_ts cfg q (Some tup)) (\<lambda>ts.
        bind_outcome (simple_ts_past_window (cfg_fl cfg) ts (epochstart q) (epochlen q) (epochnum q)) (\<lambda>past.
          if past then Inr (q\<lparr>next_epoch_ix := next_enqueue_ix q\<rparr>)
          else
            bind_outcome (tup_window_no cfg q (Some tup)) (\<lambda>w.
              if w \<noteq> epochnum q then Inl (Elog_error ''Got tuple for window during window'') else Inr q)))
      else Inr q)"

definition change_queue :: "(('m, 'w, 'b) TriageQueue \<Rightarrow> ('m, 'w, 'b) TriageQueue outcome) \<Rightarrow> (('m, 'w, 'b) tq, unit) prog" where
  "change_queue f = (\<lambda>(q, s). case f q of Inl e \<Rightarrow> (Inl e, (q, s)) | Inr q' \<Rightarrow> (Inr (), (q', s)))"

text \<open>The first tuple decides the number of the current window.\<close>

definition first_tuple :: "('m, 'w, 'b, 'p) shed_cfg \<Rightarrow> 'b Tuple \<Rightarrow> ('m, 'w, 'b) TriageQueue \<Rightarrow> ('m, 'w, 'b) TriageQueue outcome" where
  "first_tuple cfg tup q =
     (if tq_state q = TQS_NO_TS then
        bind_outcome (tup_window_no cfg q (Some tup)) (\<lambda>w. Inr (q\<lparr>epochnum := w, tq_state := TQS_HAVE_TS\<rparr>))
      else Inr q)"

definition enqueue_start :: "('m, 'w, 'b, 'p) shed_cfg \<Rightarrow> 'b Tuple \<Rightarrow> (('m, 'w, 'b) tq, unit) prog" where
  "enqueue_start cfg tup =
     bind_prog assert_initialized (\<lambda>_.
     bind_prog (on_queue (\<lambda>q. if epochstart q = DT_NOBEGIN then Inl (Assert_failed ''DT_NOBEGIN != *(q->epochstart_p)'') else Inr ())) (\<lambda>_.
       change_queue (first_tuple cfg tup)))"

definition enqueue_end :: "('m, 'w, 'b, 'p) shed_cfg \<Rightarrow> 'b Tuple \<Rightarrow> (('m, 'w, 'b) tq, unit) prog" where
  "enqueue_end cfg tup =
     bind_prog (change_queue (mark_epoch cfg tup)) (\<lambda>_.
     bind_prog (put_at next_enqueue_ix tup) (\<lambda>_.
     bind_prog (update_queue (\<lambda>q. q\<lparr>next_enqueue_ix := next_index q (next_enqueue_ix q), nelem := nelem q + 1\<rparr>)) (\<lambda>_.
     bind_prog (on_queue (\<lambda>q. tup_ts cfg q (Some tup))) (\<lambda>ts.
       triage_cleanup_expired_tuples cfg ts))))"

lemma enqueue_start_size:
  "enqueue_start cfg tup qs = (Inr u, qs') \<Longrightarrow> nelem (fst qs') = nelem (fst qs) \<and> qlen (fst qs') = qlen (fst qs)"
  by (cases qs) (auto simp: enqueue_start_def assert_initialized_def on_queue_def change_queue_def first_tuple_def bind_prog_def
      bind_outcome_Inr split: sum.splits if_splits)

lemma drop_oldest_size:
  "drop_oldest cfg qs = (Inr u, qs') \<Longrightarrow> nelem (fst qs') = nelem (fst qs) - 1 \<and> qlen (fst qs') = qlen (fst qs)"
  by (cases qs) (auto simp: drop_oldest_def assert_initialized_def on_queue_def triage_peek_def check_window_def drop_stream_next_def
      update_queue_def bind_prog_def split: sum.splits prod.splits option.splits if_splits)

function triage_enqueue :: "('m, 'w, 'b, 'p) shed_cfg \<Rightarrow> 'b Tuple \<Rightarrow> (('m, 'w, 'b) tq, unit) prog" where
  "triage_enqueue cfg tup qs =
     (case enqueue_start cfg tup qs of
        (Inl e, qs1) \<Rightarrow> (Inl e, qs1)
      | (Inr _, qs1) \<Rightarrow>
          if is_full (fst qs1) then
            (case drop_oldest cfg qs1 of
               (Inl e, qs2) \<Rightarrow> (Inl e, qs2)
             | (Inr _, qs2) \<Rightarrow> triage_enqueue cfg tup qs2)
          else enqueue_end cfg tup qs1)"
  by pat_completeness auto
termination
  by (relation "measure (\<lambda>(cfg, tup, qs). if is_full (fst qs) then 1 else 0)")
     (auto simp: is_full_def dest!: enqueue_start_size drop_oldest_size [OF sym] sym [THEN enqueue_start_size] sym [THEN drop_oldest_size])

declare triage_enqueue.simps [simp del]

section \<open>Summaries\<close>

definition triage_summaries_ready :: "('m, 'w, 'b, 'p) shed_cfg \<Rightarrow> timestamp \<Rightarrow> (('m, 'w, 'b) tq, bool) prog" where
  "triage_summaries_ready cfg now =
     bind_prog assert_initialized (\<lambda>_.
       on_queue (\<lambda>q.
         if epochstart q = DT_NOBEGIN then Inr False
         else if next_dequeue_ix q = next_epoch_ix q then Inr True
         else if nelem q = 0 then bind_outcome (window_no (cfg_fl cfg) (epochstart q) (epochlen q) now) (\<lambda>w. Inr (w > epochnum q))
         else Inr False))"

definition get_synopsis ::
  "('m, 'w, 'b, 'p) shed_cfg \<Rightarrow> (('m, 'w, 'b) TriageQueue \<Rightarrow> ('m, 'w, 'b) generic_stream_state) \<Rightarrow>
   (('m, 'w, 'b) generic_stream_state \<Rightarrow> ('m, 'w, 'b) TriageQueue \<Rightarrow> ('m, 'w, 'b) TriageQueue) \<Rightarrow>
   (('m, 'w, 'b) tq, ('m, 'w, 'b) SummaryTuples) prog" where
  "get_synopsis cfg get_state set_state =
     bind_prog (on_queue (\<lambda>q. simple_window_end (cfg_fl cfg) (epochstart q) (epochlen q) (epochnum q - 1))) (\<lambda>start.
     bind_prog (on_queue (\<lambda>q. simple_window_end (cfg_fl cfg) (epochstart q) (epochlen q) (epochnum q))) (\<lambda>end_ts.
     bind_prog (\<lambda>(q, s). case generic_stream_done cfg (get_state q) s of (r, s') \<Rightarrow> (r, (q, s'))) (\<lambda>summary.
     bind_prog (on_queue (\<lambda>q. getSummarizer (syn_gen q) (tq_input_desc q) (tq_summary_desc q))) (\<lambda>st.
     bind_prog (on_queue (\<lambda>q. Inr (epochnum q, gs_output_desc (get_state q)))) (\<lambda>(n, desc).
     bind_prog (update_queue (set_state st)) (\<lambda>_.
       return_prog \<lparr>tuples_produced = 0, st_epochnum = n, st_epochstart = start, st_epochend = end_ts,
                    summary_tdesc = desc, st_summary = summary\<rparr>))))))"

text \<open>The loop that looks for the first tuple of a later window; \<open>Would_block\<close> stands for a loop that goes on.\<close>

primrec advance_epoch_ix :: "nat \<Rightarrow> ('m, 'w, 'b, 'p) shed_cfg \<Rightarrow> ('m, 'w, 'b) TriageQueue \<Rightarrow> int \<Rightarrow> int outcome" where
  "advance_epoch_ix 0 cfg q ix = Inl Would_block"
| "advance_epoch_ix (Suc n) cfg q ix =
     (if ix = next_enqueue_ix q then Inr ix
      else
        bind_outcome (buf_at q ix) (\<lambda>tup.
        bind_outcome (tup_ts cfg q tup) (\<lambda>ts.
        bind_outcome (simple_ts_past_window (cfg_fl cfg) ts (epochstart q) (epochlen q) (epochnum q)) (\<lambda>past.
          if past then Inr ix else advance_epoch_ix n cfg q (next_index q ix)))))"

definition next_epoch :: "('m, 'w, 'b, 'p) shed_cfg \<Rightarrow> ('m, 'w, 'b) TriageQueue \<Rightarrow> ('m, 'w, 'b) TriageQueue outcome" where
  "next_epoch cfg q =
     (if nelem q = 0 then Inr (q\<lparr>next_epoch_ix := TQ_NOT_AN_INDEX\<rparr>)
      else if next_epoch_ix q \<noteq> next_dequeue_ix q then Inl (Assert_failed ''q->next_epoch_ix == q->next_dequeue_ix'')
      else
        bind_outcome (advance_epoch_ix (Suc (nat (qlen q))) cfg q (next_epoch_ix q)) (\<lambda>ix.
          Inr (q\<lparr>next_epoch_ix := (if ix = next_enqueue_ix q then TQ_NOT_AN_INDEX else ix)\<rparr>)))"

definition triage_get_summaries ::
  "('m, 'w, 'b, 'p) shed_cfg \<Rightarrow> (('m, 'w, 'b) tq, ('m, 'w, 'b) SummaryTuples \<times> ('m, 'w, 'b) SummaryTuples) prog" where
  "triage_get_summaries cfg =
     bind_prog assert_initialized (\<lambda>_.
     bind_prog (on_queue (\<lambda>q. if next_dequeue_ix q = next_epoch_ix q \<or> nelem q = 0 then Inr ()
        else Inl (Assert_failed ''q->next_dequeue_ix == q->next_epoch_ix || q->nelem == 0''))) (\<lambda>_.
     bind_prog (get_synopsis cfg keep_sum_state (\<lambda>st q. q\<lparr>keep_sum_state := st\<rparr>)) (\<lambda>kept.
     bind_prog (get_synopsis cfg drop_sum_state (\<lambda>st q. q\<lparr>drop_sum_state := st\<rparr>)) (\<lambda>dropped.
     bind_prog (update_queue (\<lambda>q. q\<lparr>epochnum := epochnum q + 1\<rparr>)) (\<lambda>_.
     bind_prog (change_queue (next_epoch cfg)) (\<lambda>_.
     bind_prog (update_queue (\<lambda>q. q\<lparr>nsent_this_epoch := 0\<rparr>)) (\<lambda>_.
       return_prog (kept, dropped))))))))"

section \<open>The rest of a window, and the tuples of a summary\<close>

text \<open>The loop returns the number of tuples dropped; every round shortens the queue or fails.\<close>

primrec drop_rest_loop :: "nat \<Rightarrow> ('m, 'w, 'b, 'p) shed_cfg \<Rightarrow> int \<Rightarrow> (('m, 'w, 'b) tq, int) prog" where
  "drop_rest_loop 0 cfg ntriaged = fail_prog Would_block"
| "drop_rest_loop (Suc n) cfg ntriaged =
     bind_prog (on_queue (\<lambda>q. Inr (next_dequeue_ix q \<noteq> next_enqueue_ix q \<and> next_dequeue_ix q \<noteq> next_epoch_ix q))) (\<lambda>more.
       if more then bind_prog (drop_oldest cfg) (\<lambda>_. drop_rest_loop n cfg (ntriaged + 1))
       else return_prog ntriaged)"

definition drop_rest_of_summary_window :: "('m, 'w, 'b, 'p) shed_cfg \<Rightarrow> (('m, 'w, 'b) tq, int) prog" where
  "drop_rest_of_summary_window cfg =
     bind_prog (on_queue (\<lambda>q. Inr (nat (qlen q)))) (\<lambda>n. drop_rest_loop (Suc n) cfg 0)"

text \<open>\<open>box\<close> is the pointer to a histogram or wavelet.\<close>

definition summary_row ::
  "('m, 'w, 'b, 'p) shed_cfg \<Rightarrow> ('m, 'w, 'b) SummaryTuples \<Rightarrow> 'p Datum \<Rightarrow> 'b Tuple" where
  "summary_row cfg st d =
     heap_formtuple (cfg_heap cfg) (summary_tdesc st)
       [d, Int32GetDatum (st_epochnum st), TimestampGetDatum (st_epochstart st), TimestampGetDatum (st_epochend st)] ''    ''"

definition summaryTuplesGetNext ::
  "('m, 'w, 'b, 'p) shed_cfg \<Rightarrow> (('m, 'w, 'b) generic_summary \<Rightarrow> 'p) \<Rightarrow> ('m, 'w, 'b) SummaryTuples \<Rightarrow>
   ('b Tuple option \<times> ('m, 'w, 'b) SummaryTuples) outcome" where
  "summaryTuplesGetNext cfg box st =
     (let produced = st\<lparr>tuples_produced := tuples_produced st + 1\<rparr>
      in case st_summary st of
           Sum_count c \<Rightarrow>
             if tuples_produced st \<ge> 1 then Inr (None, st) else Inr (Some (summary_row cfg st (Int32GetDatum c)), produced)
         | Sum_sample samp \<Rightarrow>
             if \<not> cur_sample_itr samp \<ge> 0 then Inl (Assert_failed ''samp->cur_sample_itr >= 0'')
             else if cur_sample_itr samp \<ge> cur_sample_size samp then
               (if tuples_produced st = cur_sample_size samp then
                  bind_outcome (form_punct_tup (cfg_heap cfg) (summary_tdesc st) (st_epochend st)) (\<lambda>t. Inr (Some t, produced))
                else Inr (None, st))
             else
               bind_outcome (reservoir_at samp (cur_sample_itr samp)) (\<lambda>t.
                 Inr (Some t, produced\<lparr>st_summary := Sum_sample (samp\<lparr>cur_sample_itr := cur_sample_itr samp + 1\<rparr>)\<rparr>))
         | summ \<Rightarrow>
             if tuples_produced st \<ge> 1 then Inr (None, st)
             else Inr (Some (summary_row cfg st (PointerGetDatum (box summ))), produced))"

definition summaryTuplesDestroy :: "('m, 'w, 'b) SummaryTuples \<Rightarrow> ('b process, unit) prog" where
  "summaryTuplesDestroy st = (case st_summary st of Sum_sample samp \<Rightarrow> sample_destroy samp | _ \<Rightarrow> return_prog ())"

end
