(* ===== verification/Triage_Properties.thy ===== *)
theory Triage_Properties
  imports Triage_Queue
begin

text \<open>
  Properties of the triage queue. The circular buffer is a list of tuples in the order of their
  timestamps that falls into the tuples of the current epoch and those of later ones; the operations
  are described by what they do to this list and to the two summaries. Every tuple that is enqueued
  is delivered, still in the queue, or counted in the summary of dropped tuples of its own epoch.
\<close>

section \<open>Epochs\<close>

text \<open>Epochs are adjacent windows; the bounds keep the window arithmetic within range.\<close>

definition epoch_params :: "timestamp \<Rightarrow> Interval \<Rightarrow> int \<Rightarrow> bool" where
  "epoch_params start len n \<longleftrightarrow> i_month len = 0 \<and> 0 < i_time len \<and> i_time len < 2 ^ 37 \<and> \<bar>start\<bar> < 2 ^ 60 \<and>
     1 \<le> n \<and> n < 2 ^ 29 \<and> n * i_time len < 2 ^ 49"

definition epoch_of :: "timestamp \<Rightarrow> Interval \<Rightarrow> timestamp \<Rightarrow> int" where
  "epoch_of start len ts = past_slides start len ts + 1"

definition ts_ok :: "timestamp \<Rightarrow> Interval \<Rightarrow> timestamp \<Rightarrow> bool" where
  "ts_ok start len ts \<longleftrightarrow> window_ok start len len ts \<and> start \<le> ts"

lemma past_slides_next: "0 < i_time len \<Longrightarrow> past_slides (start + i_time len) len ts = past_slides start len ts - 1"
  using div_mult_self1 [of "i_time len" "ts - start" "-1"] by (simp add: past_slides_def algebra_simps)

lemma epoch_of_le: "0 < i_time len \<Longrightarrow> ts < start + n * i_time len \<longleftrightarrow> epoch_of start len ts \<le> n"
  by (simp add: past_slides_less epoch_of_def add1_zle_eq)

lemma epoch_of_mono: "0 < i_time len \<Longrightarrow> ts \<le> ts' \<Longrightarrow> epoch_of start len ts \<le> epoch_of start len ts'"
  by (simp add: epoch_of_def past_slides_def zdiv_mono1)

lemma window_no_run:
  assumes "double_rounding fl" "ts_ok start len ts"
  shows "window_no fl start len ts = Inr (epoch_of start len ts)" "1 \<le> epoch_of start len ts"
proof -
  have w: "window_ok start len len ts" "start \<le> ts" using assms(2) unfolding ts_ok_def by blast+
  then have l: "0 < i_time len" by (simp add: window_ok_def)
  have "0 \<le> past_slides start len ts" using l w(2) by (simp add: past_slides_def pos_imp_zdiv_nonneg_iff)
  then show "1 \<le> epoch_of start len ts" by (simp add: epoch_of_def)
  have "windows_with start len len ts = {past_slides start len ts + 1..past_slides start len ts + 1}"
    using window_numbers_run(3) [OF assms(1) w] \<open>0 \<le> past_slides start len ts\<close> by (simp add: past_slides_next [OF l])
  then show "window_no fl start len ts = Inr (epoch_of start len ts)"
    unfolding window_no_def window_numbers_run(2) [OF assms(1) w] by (simp add: epoch_of_def)
qed

lemma simple_window_end_run:
  assumes "double_rounding fl" "epoch_params start len n"
  shows "simple_window_end fl start len n = Inr (start + n * i_time len)"
    "simple_window_end fl start len (n - 1) = Inr (start + (n - 1) * i_time len)"
proof -
  have l: "i_month len = 0" "0 < i_time len" "i_time len < 2 ^ 50" and st: "\<bar>start\<bar> < 2 ^ 60" and n: "1 \<le> n" "n * i_time len < 2 ^ 49"
    and s: "i_time len < 2 ^ 37" using assms(2) by (simp_all add: epoch_params_def)
  define m where "m = n * i_time len"
  have m: "0 \<le> m" "m < 2 ^ 49" "(n - 1) * i_time len = m - i_time len" "(n - 1 - 1) * i_time len = m - 2 * i_time len"
    using n l(2) by (simp_all add: m_def algebra_simps)
  have b: "\<bar>(n - 1) * i_time len\<bar> \<le> 2 ^ 53" "\<bar>(n - 1 - 1) * i_time len\<bar> \<le> 2 ^ 53"
    unfolding m(3,4) using m(1,2) s l(2) by (simp_all add: abs_le_iff)
  show "simple_window_end fl start len n = Inr (start + n * i_time len)"
    unfolding simple_window_end_def window_end_run [OF assms(1) l l st b(1)] by (simp add: win_end_def win_begin_def algebra_simps)
  show "simple_window_end fl start len (n - 1) = Inr (start + (n - 1) * i_time len)"
    unfolding simple_window_end_def window_end_run [OF assms(1) l l st b(2)] by (simp add: win_end_def win_begin_def algebra_simps)
qed

lemma past_window_run:
  assumes "double_rounding fl" "epoch_params start len n"
  shows "simple_ts_past_window fl ts start len n = Inr (n < epoch_of start len ts)"
proof -
  have "window_end fl start len len n = Inr (start + n * i_time len)"
    using simple_window_end_run(1) [OF assms] by (simp add: simple_window_end_def)
  moreover have "0 < i_time len" using assms(2) by (simp add: epoch_params_def)
  ultimately show ?thesis
    by (simp add: simple_ts_past_window_def timestamp_past_window_def ts_cmp epoch_of_le not_le)
qed

section \<open>The queue as a list\<close>

definition tq_ix :: "('m, 'w, 'b) TriageQueue \<Rightarrow> int \<Rightarrow> int" where
  "tq_ix q i = (next_dequeue_ix q + i) mod qlen q"

definition tq_wf :: "('m, 'w, 'b) TriageQueue \<Rightarrow> bool" where
  "tq_wf q \<longleftrightarrow> tq_state q \<noteq> TQS_NOT_INITIALIZED \<and> 0 < qlen q \<and> 0 \<le> nelem q \<and> nelem q \<le> qlen q \<and>
     0 \<le> next_dequeue_ix q \<and> next_dequeue_ix q < qlen q \<and> next_enqueue_ix q = tq_ix q (nelem q) \<and>
     (case tq_buf q of None \<Rightarrow> False
      | Some buf \<Rightarrow> int (length buf) = qlen q \<and> (\<forall>i. 0 \<le> i \<and> i < nelem q \<longrightarrow> buf ! nat (tq_ix q i) \<noteq> None))"

definition tq_list :: "('m, 'w, 'b) TriageQueue \<Rightarrow> 'b Tuple list" where
  "tq_list q = map (\<lambda>i. the (the (tq_buf q) ! nat (tq_ix q (int i)))) [0..<nat (nelem q)]"

lemma tq_ix_bounds: "0 < qlen q \<Longrightarrow> 0 \<le> tq_ix q i \<and> tq_ix q i < qlen q"
  by (simp add: tq_ix_def)

lemma tq_ix_0: "tq_wf q \<Longrightarrow> tq_ix q 0 = next_dequeue_ix q"
  by (simp add: tq_wf_def tq_ix_def)

lemma tq_ix_inj:
  assumes "0 < qlen q" "0 \<le> i" "i < qlen q" "0 \<le> j" "j < qlen q" "tq_ix q i = tq_ix q j"
  shows "i = j"
proof -
  have "((next_dequeue_ix q + i) - (next_dequeue_ix q + j)) mod qlen q = 0"
    using assms(6) by (simp add: tq_ix_def mod_eq_dvd_iff mod_eq_0_iff_dvd)
  then have "qlen q dvd i - j" by (simp add: mod_eq_0_iff_dvd)
  then show ?thesis using assms(2-5) zdvd_not_zless [of "i - j" "qlen q"] zdvd_not_zless [of "j - i" "qlen q"]
    by (cases i j rule: linorder_cases) (auto simp: dvd_diff_commute)
qed

lemma next_index_mod: "tq_wf q \<Longrightarrow> 0 \<le> i \<Longrightarrow> next_index q i = (i + 1) mod qlen q"
  by (simp add: tq_wf_def next_index_def signed_modulo_int_def signed_divide_int_def sgn_if minus_div_mult_eq_mod [symmetric])

lemma length_tq_list [simp]: "length (tq_list q) = nat (nelem q)"
  by (simp add: tq_list_def)

lemma tq_list_nth: "i < nat (nelem q) \<Longrightarrow> tq_list q ! i = the (the (tq_buf q) ! nat (tq_ix q (int i)))"
  by (simp add: tq_list_def)

lemma buf_at_list:
  assumes "tq_wf q" "0 \<le> i" "i < nelem q"
  shows "buf_at q (tq_ix q i) = Inr (Some (tq_list q ! nat i))"
proof -
  obtain buf where b: "tq_buf q = Some buf" "int (length buf) = qlen q" "\<And>i. 0 \<le> i \<Longrightarrow> i < nelem q \<Longrightarrow> buf ! nat (tq_ix q i) \<noteq> None"
    using assms(1) by (auto simp: tq_wf_def split: option.splits)
  have "0 < qlen q" using assms(1) by (simp add: tq_wf_def)
  then show ?thesis
    using b(1,2) b(3) [OF assms(2,3)] tq_ix_bounds [of q i] assms(2,3) by (simp add: buf_at_def tq_list_nth nat_less_eq_zless)
qed

lemma peek_run:
  assumes "tq_wf q"
  shows "triage_peek (q, s) = (Inr (case tq_list q of [] \<Rightarrow> None | t # ts \<Rightarrow> Some t), (q, s))"
proof -
  have init: "is_initialized q" using assms by (auto simp: tq_wf_def is_initialized_def split: option.splits)
  show ?thesis
  proof (cases "nelem q = 0")
    case True
    then have "tq_list q = []" by (simp add: tq_list_def)
    then show ?thesis using True init by (simp add: triage_peek_def assert_initialized_def on_queue_def bind_prog_def is_empty_def)
  next
    case False
    then have n: "0 < nelem q" using assms by (simp add: tq_wf_def)
    then obtain t ts where l: "tq_list q = t # ts" by (cases "tq_list q") (auto dest: arg_cong [of _ _ length])
    have "buf_at q (next_dequeue_ix q) = Inr (Some t)" using buf_at_list [OF assms, of 0] n l tq_ix_0 [OF assms] by simp
    then show ?thesis using False init l by (simp add: triage_peek_def assert_initialized_def on_queue_def bind_prog_def is_empty_def)
  qed
qed

text \<open>The three changes of the list.\<close>

lemma tq_pop:
  assumes "tq_wf q" "0 < nelem q"
  defines "q' \<equiv> q\<lparr>next_dequeue_ix := next_index q (next_dequeue_ix q), nelem := nelem q - 1\<rparr>"
  shows "tq_wf q'" "tq_list q' = tl (tq_list q)" "tq_ix q' i = tq_ix q (i + 1)"
proof -
  have ix: "tq_ix q' i = tq_ix q (i + 1)" for i
    using assms(1) by (simp add: tq_ix_def q'_def next_index_mod tq_wf_def mod_add_left_eq mod_add_right_eq algebra_simps)
  then show "tq_ix q' i = tq_ix q (i + 1)" .
  show "tq_list q' = tl (tq_list q)"
  proof (rule nth_equalityI)
    show "length (tq_list q') = length (tl (tq_list q))" using assms(2) by (simp add: q'_def)
    fix i assume "i < length (tq_list q')"
    then have i: "Suc i < nat (nelem q)" "i < nat (nelem q')" using assms(2) by (simp_all add: q'_def)
    then show "tq_list q' ! i = tl (tq_list q) ! i"
      by (simp add: nth_tl tq_list_nth ix) (simp add: q'_def add.commute)
  qed
  have "0 \<le> next_index q (next_dequeue_ix q) \<and> next_index q (next_dequeue_ix q) < qlen q"
    using assms(1) by (simp add: next_index_mod tq_wf_def)
  then show "tq_wf q'" using assms ix unfolding tq_wf_def by (auto simp: q'_def split: option.splits)
qed

lemma tq_append:
  fixes q :: "('m, 'w, 'b) TriageQueue" and tup :: "'b Tuple"
  assumes "tq_wf q" "nelem q < qlen q" "tq_buf q = Some buf"
  defines "q' \<equiv> q\<lparr>tq_buf := Some (buf[nat (next_enqueue_ix q) := Some tup]), next_enqueue_ix := next_index q (next_enqueue_ix q), nelem := nelem q + 1\<rparr>"
  shows "tq_wf q'" "tq_list q' = tq_list q @ [tup]" "tq_ix q' i = tq_ix q i"
proof -
  have q: "0 < qlen q" "0 \<le> nelem q" "int (length buf) = qlen q" "next_enqueue_ix q = tq_ix q (nelem q)"
    "\<And>i. 0 \<le> i \<Longrightarrow> i < nelem q \<Longrightarrow> buf ! nat (tq_ix q i) \<noteq> None"
    using assms(1,3) by (simp_all add: tq_wf_def)
  have ix: "tq_ix q' i = tq_ix q i" for i by (simp add: tq_ix_def q'_def)
  then show "tq_ix q' i = tq_ix q i" .
  have e: "0 \<le> next_enqueue_ix q" "next_enqueue_ix q < qlen q" using q tq_ix_bounds [of q "nelem q"] by simp_all
  have len: "nat (next_enqueue_ix q) < length buf" using e q(3) by simp
  have other: "nat (tq_ix q i) \<noteq> nat (next_enqueue_ix q)" if "0 \<le> i" "i < nelem q" for i
    using tq_ix_inj [OF q(1) that(1) _ q(2) assms(2)] that assms(2) q(4) e tq_ix_bounds [OF q(1), of i] by (auto simp: eq_nat_nat_iff)
  have at: "buf[nat (next_enqueue_ix q) := Some tup] ! nat (tq_ix q i) = (if i = nelem q then Some tup else buf ! nat (tq_ix q i))"
    if "0 \<le> i" "i \<le> nelem q" for i
    using that other [of i] len q(4) by (cases "i = nelem q") (auto simp: nth_list_update)
  show "tq_list q' = tq_list q @ [tup]"
  proof (rule nth_equalityI)
    show "length (tq_list q') = length (tq_list q @ [tup])" using q(2) by (simp add: q'_def nat_add_distrib)
    fix i assume "i < length (tq_list q')"
    then have i: "i < nat (nelem q')" "int i \<le> nelem q" using q(2) by (simp_all add: q'_def)
    then show "tq_list q' ! i = (tq_list q @ [tup]) ! i"
      using at [of "int i"] q(2)
      by (simp add: tq_list_nth ix nth_append) (auto simp: q'_def assms(3) tq_list_nth)
  qed
  have "next_index q (next_enqueue_ix q) = (next_enqueue_ix q + 1) mod qlen q" by (rule next_index_mod [OF assms(1) e(1)])
  also have "\<dots> = tq_ix q (nelem q + 1)" by (simp add: q(4) tq_ix_def mod_add_left_eq mod_add_right_eq algebra_simps)
  finally have "next_index q (next_enqueue_ix q) = tq_ix q (nelem q + 1)" .
  then show "tq_wf q'" using assms(1,2) q at ix unfolding tq_wf_def by (auto simp: q'_def)
qed
lemma tq_push_front:
  fixes q :: "('m, 'w, 'b) TriageQueue" and tup :: "'b Tuple"
  assumes "tq_wf q" "nelem q < qlen q" "tq_buf q = Some buf" "0 < next_dequeue_ix q"
  defines "q' \<equiv> q\<lparr>next_dequeue_ix := next_dequeue_ix q - 1, tq_buf := Some (buf[nat (next_dequeue_ix q - 1) := Some tup]), nelem := nelem q + 1\<rparr>"
  shows "tq_wf q'" "tq_list q' = tup # tq_list q" "tq_ix q' (i + 1) = tq_ix q i"
proof -
  have q: "0 < qlen q" "0 \<le> nelem q" "int (length buf) = qlen q" "next_enqueue_ix q = tq_ix q (nelem q)" "next_dequeue_ix q < qlen q"
    "\<And>i. 0 \<le> i \<Longrightarrow> i < nelem q \<Longrightarrow> buf ! nat (tq_ix q i) \<noteq> None"
    using assms(1,3) by (simp_all add: tq_wf_def)
  have ix: "tq_ix q' (i + 1) = tq_ix q i" for i by (simp add: tq_ix_def q'_def)
  then show "tq_ix q' (i + 1) = tq_ix q i" .
  have front: "next_dequeue_ix q - 1 = tq_ix q (qlen q - 1)"
    using mod_add_self2 [of "next_dequeue_ix q - 1" "qlen q"] assms(4) q(5) by (simp add: tq_ix_def algebra_simps)
  have len: "nat (next_dequeue_ix q - 1) < length buf" using q(3,5) assms(4) by simp
  have other: "nat (tq_ix q i) \<noteq> nat (next_dequeue_ix q - 1)" if "0 \<le> i" "i < nelem q" for i
    using tq_ix_inj [OF q(1) that(1), of "qlen q - 1"] that assms(2) q(1) front tq_ix_bounds [OF q(1), of i] assms(4)
    by (auto simp: eq_nat_nat_iff)
  have at: "buf[nat (next_dequeue_ix q - 1) := Some tup] ! nat (tq_ix q' i) = (if i = 0 then Some tup else buf ! nat (tq_ix q (i - 1)))"
    if "0 \<le> i" "i \<le> nelem q" for i
  proof (cases "i = 0")
    case True
    then show ?thesis using len assms(4) q(5) by (simp add: tq_ix_def q'_def)
  next
    case False
    then show ?thesis using that other [of "i - 1"] len ix [of "i - 1"] by (auto simp: nth_list_update)
  qed
  show "tq_list q' = tup # tq_list q"
  proof (rule nth_equalityI)
    show "length (tq_list q') = length (tup # tq_list q)" using q(2) by (simp add: q'_def nat_add_distrib)
    fix i assume "i < length (tq_list q')"
    then have i: "i < nat (nelem q')" "int i \<le> nelem q" using q(2) by (simp_all add: q'_def)
    have "tq_list q' ! i = the (buf[nat (next_dequeue_ix q - 1) := Some tup] ! nat (tq_ix q' (int i)))"
      using i by (simp add: tq_list_nth) (simp add: q'_def)
    also have "\<dots> = (tup # tq_list q) ! i" using at [of "int i"] i by (cases i) (auto simp: tq_list_nth assms(3))
    finally show "tq_list q' ! i = (tup # tq_list q) ! i" .
  qed
  have "next_enqueue_ix q' = tq_ix q' (nelem q')" using q(4) ix [of "nelem q"] by (simp add: q'_def)
  moreover have "buf[nat (next_dequeue_ix q - 1) := Some tup] ! nat (tq_ix q' i) \<noteq> None" if "0 \<le> i" "i < nelem q + 1" for i
    using at [of i] that q(6) [of "i - 1"] by auto
  ultimately show "tq_wf q'" using assms(1,2,4) q unfolding tq_wf_def by (simp add: q'_def)
qed

section \<open>The current epoch\<close>

text \<open>\<open>k\<close> tuples belong to the current epoch, and \<^verbatim>\<open>next_epoch_ix\<close> is where the others begin.\<close>

definition tq_split :: "('m, 'w, 'b) TriageQueue \<Rightarrow> int \<Rightarrow> bool" where
  "tq_split q k \<longleftrightarrow> next_epoch_ix q = TQ_NOT_AN_INDEX \<and> k = nelem q \<or> 0 \<le> k \<and> k < nelem q \<and> next_epoch_ix q = tq_ix q k"

lemma tq_split_count:
  assumes "tq_wf q" "tq_split q k"
  shows "num_tups_from_cur_epoch q = k" "0 \<le> k" "k \<le> nelem q"
proof -
  have q: "0 < qlen q" "nelem q \<le> qlen q" "0 \<le> next_dequeue_ix q" "next_dequeue_ix q < qlen q" "0 \<le> nelem q"
    using assms(1) by (simp_all add: tq_wf_def)
  show "0 \<le> k" "k \<le> nelem q" using assms(2) q by (auto simp: tq_split_def)
  show "num_tups_from_cur_epoch q = k"
  proof (cases "next_epoch_ix q = TQ_NOT_AN_INDEX")
    case True
    then have "k = nelem q" using assms(2) tq_ix_bounds [OF q(1), of k] by (auto simp: tq_split_def TQ_NOT_AN_INDEX_def)
    then show ?thesis using True by (simp add: num_tups_from_cur_epoch_def)
  next
    case False
    then have k: "0 \<le> k" "k < nelem q" "next_epoch_ix q = tq_ix q k" using assms(2) by (auto simp: tq_split_def)
    have "tq_ix q k = (if next_dequeue_ix q + k < qlen q then next_dequeue_ix q + k else next_dequeue_ix q + k - qlen q)"
    proof (cases "next_dequeue_ix q + k < qlen q")
      case False
      have "tq_ix q k = (next_dequeue_ix q + k - qlen q) mod qlen q" by (simp add: tq_ix_def)
      also have "\<dots> = next_dequeue_ix q + k - qlen q" by (rule mod_pos_pos_trivial) (use False q k in simp_all)
      finally show ?thesis using False by simp
    qed (use q k in \<open>simp add: tq_ix_def\<close>)
    then show ?thesis using False k q by (auto simp: num_tups_from_cur_epoch_def index_diff_def)
  qed
qed

definition the_ts :: "('m, 'w, 'b, 'p) shed_cfg \<Rightarrow> ('m, 'w, 'b) TriageQueue \<Rightarrow> 'b Tuple \<Rightarrow> timestamp" where
  "the_ts cfg q t = (case get_timestamp_val (cfg_heap cfg) (tq_input_desc q) t of Inr ts \<Rightarrow> ts | Inl e \<Rightarrow> 0)"

abbreviation tup_epoch :: "('m, 'w, 'b, 'p) shed_cfg \<Rightarrow> ('m, 'w, 'b) TriageQueue \<Rightarrow> 'b Tuple \<Rightarrow> int" where
  "tup_epoch cfg q t \<equiv> epoch_of (epochstart q) (epochlen q) (the_ts cfg q t)"

definition tup_ok :: "('m, 'w, 'b, 'p) shed_cfg \<Rightarrow> ('m, 'w, 'b) TriageQueue \<Rightarrow> 'b Tuple \<Rightarrow> bool" where
  "tup_ok cfg q t \<longleftrightarrow> (\<exists>ts. get_timestamp_val (cfg_heap cfg) (tq_input_desc q) t = Inr ts) \<and>
     ts_ok (epochstart q) (epochlen q) (the_ts cfg q t)"

text \<open>The tuples are in the order of their timestamps, the first \<open>k\<close> are of the current epoch and the others of later ones.\<close>

definition tq_epochs :: "('m, 'w, 'b, 'p) shed_cfg \<Rightarrow> ('m, 'w, 'b) TriageQueue \<Rightarrow> int \<Rightarrow> bool" where
  "tq_epochs cfg q k \<longleftrightarrow> tq_wf q \<and> double_rounding (cfg_fl cfg) \<and> epoch_params (epochstart q) (epochlen q) (epochnum q) \<and>
     tq_split q k \<and> (\<forall>t\<in>set (tq_list q). tup_ok cfg q t) \<and> sorted (map (the_ts cfg q) (tq_list q)) \<and>
     (\<forall>t\<in>set (take (nat k) (tq_list q)). tup_epoch cfg q t = epochnum q) \<and>
     (\<forall>t\<in>set (drop (nat k) (tq_list q)). epochnum q < tup_epoch cfg q t)"

lemma tup_ok_window:
  assumes "double_rounding (cfg_fl cfg)" "tup_ok cfg q t"
  shows "tup_ts cfg q (Some t) = Inr (the_ts cfg q t)" "tup_window_no cfg q (Some t) = Inr (tup_epoch cfg q t)"
proof -
  show "tup_ts cfg q (Some t) = Inr (the_ts cfg q t)" using assms(2) by (auto simp: tup_ts_def tup_ok_def the_ts_def)
  then show "tup_window_no cfg q (Some t) = Inr (tup_epoch cfg q t)"
    using window_no_run(1) [OF assms(1), of "epochstart q" "epochlen q" "the_ts cfg q t"] assms(2) by (simp add: tup_window_no_def tup_ok_def)
qed

text \<open>Only some fields of the queue matter for its tuples.\<close>

lemma the_ts_cong: "tq_input_desc q' = tq_input_desc q \<Longrightarrow> the_ts cfg q' = the_ts cfg q"
  by (simp add: the_ts_def fun_eq_iff)

lemma tup_ok_cong:
  "tq_input_desc q' = tq_input_desc q \<Longrightarrow> epochstart q' = epochstart q \<Longrightarrow> epochlen q' = epochlen q \<Longrightarrow> tup_ok cfg q' = tup_ok cfg q"
  by (simp add: tup_ok_def the_ts_def fun_eq_iff)

lemma tq_split_pop:
  assumes "tq_wf q" "tq_split q k" "0 < k"
  defines "q' \<equiv> q\<lparr>next_dequeue_ix := next_index q (next_dequeue_ix q), nelem := nelem q - 1\<rparr>"
  shows "tq_split q' (k - 1)"
proof -
  have "0 < nelem q" using tq_split_count [OF assms(1,2)] assms(3) by simp
  then have "tq_ix q' (k - 1) = tq_ix q k" using tq_pop(3) [OF assms(1), of "k - 1"] by (simp add: q'_def)
  then show ?thesis using assms(2,3) by (auto simp: tq_split_def q'_def)
qed

lemma tq_epochs_pop:
  assumes "tq_epochs cfg q k" "0 < k" "q' = q\<lparr>next_dequeue_ix := next_index q (next_dequeue_ix q), nelem := nelem q - 1\<rparr>"
  shows "tq_epochs cfg q' (k - 1)" "tq_list q = hd (tq_list q) # tq_list q'" "tup_ok cfg q (hd (tq_list q))"
    "tup_epoch cfg q (hd (tq_list q)) = epochnum q"
proof -
  have wf: "tq_wf q" and sp: "tq_split q k" using assms(1) by (simp_all add: tq_epochs_def)
  have n: "0 < nelem q" using tq_split_count [OF wf sp] assms(2) by simp
  then obtain t ts where l: "tq_list q = t # ts" by (cases "tq_list q") (auto dest: arg_cong [of _ _ length])
  have l': "tq_list q' = ts" using tq_pop(2) [OF wf n] l by (simp add: assms(3))
  then show "tq_list q = hd (tq_list q) # tq_list q'" by (simp add: l)
  obtain m where m: "nat k = Suc m" "nat (k - 1) = m" using assms(2) by (cases "nat k") (auto simp: nat_diff_distrib)
  have "tq_wf q'" using tq_pop(1) [OF wf n] by (simp add: assms(3))
  moreover have "tq_split q' (k - 1)" using tq_split_pop [OF wf sp assms(2)] by (simp add: assms(3))
  moreover have "the_ts cfg q' = the_ts cfg q" by (rule the_ts_cong) (simp add: assms(3))
  moreover have "tup_ok cfg q' = tup_ok cfg q" by (rule tup_ok_cong) (simp_all add: assms(3))
  moreover have "epochstart q' = epochstart q" "epochlen q' = epochlen q" "epochnum q' = epochnum q" by (simp_all add: assms(3))
  ultimately show "tq_epochs cfg q' (k - 1)" using assms(1) unfolding tq_epochs_def l l' m by simp
  show "tup_ok cfg q (hd (tq_list q))" "tup_epoch cfg q (hd (tq_list q)) = epochnum q" using assms(1) unfolding tq_epochs_def l m by simp_all
qed
section \<open>Dropping and delivering\<close>

lemma tq_wf_streams [simp]:
  "tq_wf (q\<lparr>drop_sum_state := st\<rparr>) = tq_wf q" "tq_wf (q\<lparr>keep_sum_state := st\<rparr>) = tq_wf q" "tq_wf (q\<lparr>nsent_this_epoch := n\<rparr>) = tq_wf q"
  "tq_list (q\<lparr>drop_sum_state := st\<rparr>) = tq_list q" "tq_list (q\<lparr>keep_sum_state := st\<rparr>) = tq_list q" "tq_list (q\<lparr>nsent_this_epoch := n\<rparr>) = tq_list q"
  by (simp_all add: tq_wf_def tq_list_def tq_ix_def split: option.split)

lemma tup_streams [simp]:
  "the_ts cfg (q\<lparr>drop_sum_state := st\<rparr>) = the_ts cfg q" "the_ts cfg (q\<lparr>keep_sum_state := st\<rparr>) = the_ts cfg q"
  "the_ts cfg (q\<lparr>nsent_this_epoch := n\<rparr>) = the_ts cfg q" "tup_ok cfg (q\<lparr>drop_sum_state := st\<rparr>) = tup_ok cfg q"
  "tup_ok cfg (q\<lparr>keep_sum_state := st\<rparr>) = tup_ok cfg q" "tup_ok cfg (q\<lparr>nsent_this_epoch := n\<rparr>) = tup_ok cfg q"
  by (simp_all add: the_ts_def tup_ok_def fun_eq_iff)

lemma tq_epochs_streams [simp]:
  "tq_epochs cfg (q\<lparr>drop_sum_state := st\<rparr>) k = tq_epochs cfg q k" "tq_epochs cfg (q\<lparr>keep_sum_state := st\<rparr>) k = tq_epochs cfg q k"
  "tq_epochs cfg (q\<lparr>nsent_this_epoch := n\<rparr>) k = tq_epochs cfg q k"
  by (simp_all add: tq_epochs_def tq_split_def tq_ix_def)

text \<open>A summary that can take \<open>n\<close> more tuples.\<close>

definition sum_ok :: "('m, 'w, 'b, 'p) shed_cfg \<Rightarrow> ('m, 'w, 'b) generic_stream_state \<Rightarrow> int \<Rightarrow> bool" where
  "sum_ok cfg st n \<longleftrightarrow> (stype (gs_ds st) = ST_SAMPLE \<longrightarrow> cfg_ok cfg) \<and> stream_ok st \<and> (counted (gs_ds st) \<longrightarrow> stream_size st + n < 2 ^ 31)"

lemma sum_ok_next:
  assumes "sum_ok cfg st n" "0 < n"
  obtains st' s' where "generic_stream_next cfg tup st s = (Inr st', s')" "sum_ok cfg st' (n - 1)"
proof -
  have "stype (gs_ds st) = ST_SAMPLE \<longrightarrow> cfg_ok cfg" "stream_ok st" "counted (gs_ds st) \<longrightarrow> stream_size st + 1 < 2 ^ 31"
    using assms by (auto simp: sum_ok_def)
  then obtain st' s' where "generic_stream_next cfg tup st s = (Inr st', s')" "stream_ok st'" "stype (gs_ds st') = stype (gs_ds st)"
    "counted (gs_ds st) \<longrightarrow> stream_size st' = stream_size st + (if HeapTupleIsPunct tup then 0 else 1)" by (rule generic_stream_next_run)
  then show thesis using assms by (intro that [of st' s']) (auto simp: sum_ok_def split: if_splits)
qed

lemma sum_ok_less: "sum_ok cfg st n \<Longrightarrow> m \<le> n \<Longrightarrow> sum_ok cfg st m"
  by (auto simp: sum_ok_def)

lemma epochs_initialized: "tq_epochs cfg q k \<Longrightarrow> is_initialized q"
  by (auto simp: tq_epochs_def tq_wf_def is_initialized_def split: option.splits)

lemma drop_oldest_run:
  assumes "tq_epochs cfg q k" "0 < k" "sum_ok cfg (drop_sum_state q) n" "0 < n"
  obtains st' s' where "generic_stream_next cfg (hd (tq_list q)) (drop_sum_state q) s = (Inr st', s')" "sum_ok cfg st' (n - 1)"
    "drop_oldest cfg (q, s) = (Inr (), (q\<lparr>next_dequeue_ix := next_index q (next_dequeue_ix q), nelem := nelem q - 1, drop_sum_state := st'\<rparr>, s'))"
proof -
  note pop = tq_epochs_pop [OF assms(1,2) refl]
  obtain ts where l: "tq_list q = hd (tq_list q) # ts" using pop(2) by metis
  have dr: "double_rounding (cfg_fl cfg)" and wf: "tq_wf q" using assms(1) by (simp_all add: tq_epochs_def)
  obtain st' s' where st': "generic_stream_next cfg (hd (tq_list q)) (drop_sum_state q) s = (Inr st', s')" "sum_ok cfg st' (n - 1)"
    by (rule sum_ok_next [OF assms(3,4)])
  have "triage_peek (q, s) = (Inr (Some (hd (tq_list q))), (q, s))" using peek_run [OF wf, of s] by (subst (asm) l) simp
  then have "drop_oldest cfg (q, s) = (Inr (), (q\<lparr>next_dequeue_ix := next_index q (next_dequeue_ix q), nelem := nelem q - 1, drop_sum_state := st'\<rparr>, s'))"
    using epochs_initialized [OF assms(1)] tup_ok_window(2) [OF dr pop(3)] pop(4) st'(1)
    by (simp add: drop_oldest_def assert_initialized_def on_queue_def check_window_def drop_stream_next_def update_queue_def bind_prog_def next_index_def)
  then show thesis using that st' by blast
qed

text \<open>What dropping changes: the summary of dropped tuples and the front of the queue.\<close>

definition drops :: "('m, 'w, 'b, 'p) shed_cfg \<Rightarrow> 'b Tuple list \<Rightarrow> ('m, 'w, 'b) tq \<Rightarrow> ('m, 'w, 'b) tq \<Rightarrow> bool" where
  "drops cfg d qs qs' \<longleftrightarrow> (case (qs, qs') of ((q, s), (q', s')) \<Rightarrow>
     tq_list q = d @ tq_list q' \<and> feed_all cfg d (drop_sum_state q) s = (Inr (drop_sum_state q'), s') \<and>
     q' = q\<lparr>next_dequeue_ix := next_dequeue_ix q', nelem := nelem q', drop_sum_state := drop_sum_state q'\<rparr>)"

lemma drops_refl: "drops cfg [] (q, s) (q, s)"
  by (simp add: drops_def)

lemma drops_trans:
  assumes "drops cfg d (q, s) (q1, s1)" "drops cfg e (q1, s1) (q2, s2)"
  shows "drops cfg (d @ e) (q, s) (q2, s2)"
proof -
  have "q2 = q\<lparr>next_dequeue_ix := next_dequeue_ix q2, nelem := nelem q2, drop_sum_state := drop_sum_state q2\<rparr>"
    using assms unfolding drops_def by (cases q, cases q1, cases q2) simp
  then show ?thesis using assms by (auto simp: drops_def feed_all_append bind_prog_def)
qed

lemma drop_oldest_drops:
  assumes "tq_epochs cfg q k" "0 < k" "sum_ok cfg (drop_sum_state q) n" "0 < n"
  obtains q' s' where "drop_oldest cfg (q, s) = (Inr (), (q', s'))" "drops cfg [hd (tq_list q)] (q, s) (q', s')"
    "tq_epochs cfg q' (k - 1)" "sum_ok cfg (drop_sum_state q') (n - 1)"
proof -
  obtain st' s' where st': "generic_stream_next cfg (hd (tq_list q)) (drop_sum_state q) s = (Inr st', s')" "sum_ok cfg st' (n - 1)"
    "drop_oldest cfg (q, s) = (Inr (), (q\<lparr>next_dequeue_ix := next_index q (next_dequeue_ix q), nelem := nelem q - 1, drop_sum_state := st'\<rparr>, s'))"
    by (rule drop_oldest_run [OF assms])
  note pop = tq_epochs_pop [OF assms(1,2) refl]
  show thesis
  proof (rule that [OF st'(3)])
    show "drops cfg [hd (tq_list q)] (q, s) (q\<lparr>next_dequeue_ix := next_index q (next_dequeue_ix q), nelem := nelem q - 1, drop_sum_state := st'\<rparr>, s')"
      using pop(2) st'(1) unfolding drops_def feed_all_one by simp
  qed (use pop(1) st'(2) in simp_all)
qed

lemma drop_loop_run:
  assumes "tq_epochs cfg q k" "int n \<le> k" "sum_ok cfg (drop_sum_state q) (int n)"
  shows "\<exists>d q' s'. drop_loop cfg n (q, s) = (Inr (), (q', s')) \<and> drops cfg d (q, s) (q', s') \<and> tq_epochs cfg q' (k - int (length d)) \<and>
    length d \<le> n \<and> (\<forall>t\<in>set d. \<not> HeapTupleIsPunct t)"
  using assms
proof (induction n arbitrary: q s k)
  case 0
  then show ?case by (intro exI [of _ "[]"] exI [of _ q] exI [of _ s]) (simp add: drops_refl)
next
  case (Suc n)
  have k: "0 < k" using Suc.prems(2) by simp
  note pop = tq_epochs_pop [OF Suc.prems(1) k refl]
  have wf: "tq_wf q" using Suc.prems(1) by (simp add: tq_epochs_def)
  let ?t = "hd (tq_list q)"
  have peek: "triage_peek (q, s) = (Inr (Some ?t), (q, s))" using peek_run [OF wf, of s] pop(2) by (metis list.simps(5))
  show ?case
  proof (cases "HeapTupleIsPunct ?t")
    case True
    have "drop_loop cfg (Suc n) (q, s) = (Inr (), (q, s))" using True by (simp add: bind_prog_def peek)
    then show ?thesis using Suc.prems(1)
      by (intro exI [of _ "[]"] exI [of _ q] exI [of _ s]) (simp add: drops_refl del: drop_loop.simps)
  next
    case False
    have n: "0 < int (Suc n)" by simp
    obtain q1 s1 where 1: "drop_oldest cfg (q, s) = (Inr (), (q1, s1))" "drops cfg [?t] (q, s) (q1, s1)"
      "tq_epochs cfg q1 (k - 1)" "sum_ok cfg (drop_sum_state q1) (int (Suc n) - 1)"
      by (rule drop_oldest_drops [OF Suc.prems(1) k Suc.prems(3) n])
    have "int n \<le> k - 1" "sum_ok cfg (drop_sum_state q1) (int n)" using Suc.prems(2) 1(4) by simp_all
    from Suc.IH [OF 1(3) this, of s1] obtain d q' s' where 2: "drop_loop cfg n (q1, s1) = (Inr (), (q', s'))" "drops cfg d (q1, s1) (q', s')"
      "tq_epochs cfg q' (k - 1 - int (length d))" "length d \<le> n" "\<forall>t\<in>set d. \<not> HeapTupleIsPunct t" by blast
    have "drop_loop cfg (Suc n) (q, s) = (Inr (), (q', s'))" using False by (simp add: bind_prog_def peek 1(1) 2(1))
    moreover have "drops cfg (?t # d) (q, s) (q', s')" using drops_trans [OF 1(2) 2(2)] by simp
    ultimately show ?thesis using 2(3,4,5) False
      by (intro exI [of _ "?t # d"] exI [of _ q'] exI [of _ s']) (simp del: drop_loop.simps add: diff_diff_eq)
  qed
qed
section \<open>Tuples that cannot be processed in time\<close>

text \<open>Bounds under which the capacity and the overflow stay within an \<^verbatim>\<open>int\<close>: delays of up to three days.\<close>

definition load_ok :: "('m, 'w, 'b) TriageQueue \<Rightarrow> bool" where
  "load_ok q \<longleftrightarrow> i_month (time_cstr q) = 0 \<and> \<bar>i_time (time_cstr q)\<bar> < 2 ^ 38 \<and> 0 \<le> nsent_this_epoch q \<and>
     nsent_this_epoch q < 2 ^ 28 \<and> qlen q < 2 ^ 28"

lemma agg_time_run:
  assumes "double_rounding fl" "0 \<le> n" "n < 2 ^ 28"
  shows "i_mul fl AGG_TIME_PER_TUP (of_int n) = \<lparr>i_time = 200 * n, i_month = 0\<rparr>"
proof -
  have "fl (of_int (200 * n)) = of_int (200 * n)" by (rule fl_int [OF assms(1)]) (use assms(2,3) in simp)
  moreover have "fl 200 = 200" "fl 0 = 0" using fl_int [OF assms(1), of 200] fl_int [OF assms(1), of 0] by simp_all
  ultimately show ?thesis
    using c_int_of_rat_of_int [of "200 * n"] c_int_of_rat_of_int [of 0]
    by (simp add: i_mul_def interval_mul_def AGG_TIME_PER_TUP_def Let_def int32_of_def)
qed

lemma quotient_bound:
  assumes fl: "double_rounding fl" and e: "\<bar>e\<bar> \<le> 7 * 10 ^ 11"
  shows "\<bar>c_int_of_rat (fl (fl (of_int e) / fl (of_int 1000)))\<bar> \<le> 7 * 10 ^ 8"
proof -
  have ex: "fl (of_int e) = of_int e" "fl (of_int 1000) = 1000" "fl (of_int (7 * 10 ^ 8)) = of_int (7 * 10 ^ 8)" "fl (of_int (- (7 * 10 ^ 8))) = of_int (- (7 * 10 ^ 8))"
    using fl_int [OF fl, of e] fl_int [OF fl, of 1000] fl_int [OF fl, of "7 * 10 ^ 8"] fl_int [OF fl, of "- (7 * 10 ^ 8)"] e by simp_all
  have "e \<le> 7 * 10 ^ 11" "- (7 * 10 ^ 11) \<le> e" using e by simp_all
  then have "(of_int e :: rat) \<le> of_int (7 * 10 ^ 11)" "of_int (- (7 * 10 ^ 11)) \<le> (of_int e :: rat)" by (simp_all only: of_int_le_iff)
  then have "of_int e / 1000 \<le> (of_int (7 * 10 ^ 8) :: rat)" "of_int (- (7 * 10 ^ 8)) \<le> (of_int e / 1000 :: rat)" by simp_all
  then have "fl (of_int e / 1000) \<le> of_int (7 * 10 ^ 8)" "of_int (- (7 * 10 ^ 8)) \<le> fl (of_int e / 1000)"
    using fl_mono [OF fl] ex(3,4) by metis+
  then have "c_int_of_rat (fl (of_int e / 1000)) \<le> 7 * 10 ^ 8" "- (7 * 10 ^ 8) \<le> c_int_of_rat (fl (of_int e / 1000))"
    by (simp_all add: c_int_of_rat_def floor_le_iff ceiling_le_iff le_floor_iff le_ceiling_iff)
  then show ?thesis unfolding ex(1,2) by (simp add: abs_le_iff)
qed

lemma overflow_count_run:
  assumes "double_rounding (cfg_fl cfg)" "load_ok q" "\<bar>we\<bar> < 2 ^ 62" "\<bar>now\<bar> < 2 ^ 62" "\<bar>we - now\<bar> < 2 ^ 38"
    "num_tups_from_cur_epoch q = k" "0 \<le> k" "k \<le> qlen q"
  obtains v where "overflow_count cfg q we now = Inr v" "v \<le> k"
proof -
  let ?fl = "cfg_fl cfg" and ?n = "nsent_this_epoch q" and ?d = "i_time (time_cstr q)"
  have l: "i_month (time_cstr q) = 0" "\<bar>?d\<bar> < 2 ^ 38" "0 \<le> ?n" "?n < 2 ^ 28" "qlen q < 2 ^ 28" using assms(2) by (simp_all add: load_ok_def)
  define e where "e = ?d - 10000 + (we - now) - 200 * ?n"
  have "\<bar>e\<bar> \<le> 7 * 10 ^ 11" using l assms(5) by (simp add: e_def abs_le_iff abs_less_iff)
  note qb = quotient_bound [OF assms(1) this]
  define c where "c = c_int_of_rat (?fl (?fl (of_int e) / ?fl (of_int 1000)))"
  have c: "\<bar>c\<bar> \<le> 7 * 10 ^ 8" using qb by (simp add: c_def)
  have "i_mi_i (i_pl_i (i_mi_i (time_cstr q) SHADOW_TIME) \<lparr>i_time = we - now, i_month = 0\<rparr>) \<lparr>i_time = 200 * ?n, i_month = 0\<rparr> =
      \<lparr>i_time = e, i_month = 0\<rparr>"
    using l(1) by (simp add: i_mi_i_def i_pl_i_def interval_mi_def interval_pl_def SHADOW_TIME_def e_def)
  moreover have "i_div_i ?fl \<lparr>i_time = e, i_month = 0\<rparr> FULL_TIME_PER_TUP = Inr (?fl (?fl (of_int e) / ?fl (of_int 1000)))"
    by (simp add: i_div_i_def interval_div_interval_def interval_to_timespan_def FULL_TIME_PER_TUP_def)
  moreover have "c_int c = Inr c" "c_int (c - 1) = Inr (c - 1)" using c by (simp_all add: c_int_def abs_le_iff)
  ultimately have "tuple_cap cfg q we now = Inr (c - 1)"
    using assms(3,4) by (simp add: tuple_cap_def Let_def num_tups_sent_from_cur_epoch_def agg_time_run [OF assms(1) l(3,4)] ts_mi_def mi_usecs c_def)
  moreover have "c_int (k - (c - 1)) = Inr (k - (c - 1))" "c_int ((k - (c - 1)) * 2) = Inr ((k - (c - 1)) * 2)"
    using c assms(7,8) l(5) by (simp_all add: c_int_def abs_le_iff)
  ultimately have "overflow_count cfg q we now = Inr (if (k - (c - 1)) * 2 > k then k else (k - (c - 1)) * 2)"
    by (simp add: overflow_count_def assms(6))
  then show thesis by (rule that) simp
qed


text \<open>The last instant of the current epoch.\<close>

lemma last_instant:
  assumes "epoch_params start len n"
  defines "ts \<equiv> start + n * i_time len - EPSILON"
  shows "ts_ok start len ts" "epoch_of start len ts = n"
proof -
  define m where "m = n * i_time len"
  have p: "i_month len = 0" "0 < i_time len" "i_time len < 2 ^ 37" "\<bar>start\<bar> < 2 ^ 60" "1 \<le> n" "n < 2 ^ 29" "m < 2 ^ 49"
    using assms(1) by (simp_all add: epoch_params_def m_def)
  have m: "i_time len \<le> m" "m \<le> 2 ^ 29 * i_time len" unfolding m_def using p(2,5,6) by (simp_all add: mult_right_mono)
  then show "ts_ok start len ts" using p by (simp add: ts_ok_def window_ok_def ts_def m_def [symmetric] EPSILON_def)
  have "epoch_of start len ts \<le> n" unfolding epoch_of_le [OF p(2), symmetric] by (simp add: ts_def EPSILON_def)
  moreover have "\<not> epoch_of start len ts \<le> n - 1"
    unfolding epoch_of_le [OF p(2), symmetric] using p(2) by (simp add: ts_def EPSILON_def left_diff_distrib)
  ultimately show "epoch_of start len ts = n" by simp
qed

text \<open>The fields that adding and dropping tuples leave alone.\<close>

definition same_setup :: "('m, 'w, 'b) TriageQueue \<Rightarrow> ('m, 'w, 'b) TriageQueue \<Rightarrow> bool" where
  "same_setup q q' \<longleftrightarrow> tq_input_desc q' = tq_input_desc q \<and> tq_summary_desc q' = tq_summary_desc q \<and> qlen q' = qlen q \<and>
     syn_gen q' = syn_gen q \<and> keep_sum_state q' = keep_sum_state q \<and> epochstart q' = epochstart q \<and> epochlen q' = epochlen q \<and>
     nsent_this_epoch q' = nsent_this_epoch q \<and> time_cstr q' = time_cstr q"

lemma drops_setup: "drops cfg d (q, s) (q', s') \<Longrightarrow> same_setup q q' \<and> epochnum q' = epochnum q \<and> tq_state q' = tq_state q \<and> next_epoch_ix q' = next_epoch_ix q \<and> next_enqueue_ix q' = next_enqueue_ix q \<and> tq_buf q' = tq_buf q"
  unfolding drops_def by (cases q, cases q') (simp add: same_setup_def)

lemma push_front_punct_run:
  assumes "tq_epochs cfg q 0" "0 < nelem q" "nelem q < qlen q" "next_epoch_ix q \<noteq> 0" "heap_laws (cfg_heap cfg)" "stream_desc (tq_input_desc q)"
    "we = epochstart q + epochnum q * i_time (epochlen q)"
  obtains q' u where "push_front_punct cfg we (q, s) = (Inr (), (q', s))" "tq_epochs cfg q' 1" "tq_list q' = u # tq_list q" "HeapTupleIsPunct u"
    "same_setup q q'" "epochnum q' = epochnum q" "tq_state q' = tq_state q" "drop_sum_state q' = drop_sum_state q"
proof -
  have e: "tq_wf q" "double_rounding (cfg_fl cfg)" "epoch_params (epochstart q) (epochlen q) (epochnum q)" "tq_split q 0"
    "\<forall>t\<in>set (tq_list q). tup_ok cfg q t" "sorted (map (the_ts cfg q) (tq_list q))" "\<forall>t\<in>set (tq_list q). epochnum q < tup_epoch cfg q t"
    using assms(1) by (simp_all add: tq_epochs_def)
  have ne: "next_epoch_ix q = next_dequeue_ix q" using e(1,4) assms(2) tq_ix_0 [OF e(1)] by (auto simp: tq_split_def)
  obtain buf where buf: "tq_buf q = Some buf" "int (length buf) = qlen q" using e(1) by (auto simp: tq_wf_def split: option.splits)
  have d: "0 < next_dequeue_ix q" "next_dequeue_ix q < qlen q" using ne assms(4) e(1) by (auto simp: tq_wf_def)
  obtain u where u: "form_punct_tup_no_leaks (cfg_heap cfg) (tq_input_desc q) (we - EPSILON) = Inr u" "HeapTupleIsPunct u"
    "get_timestamp_val (cfg_heap cfg) (tq_input_desc q) u = Inr (we - EPSILON)" by (rule form_punct [OF assms(5,6)])
  define q' where "q' = q\<lparr>next_dequeue_ix := next_dequeue_ix q - 1, tq_buf := Some (buf[nat (next_dequeue_ix q - 1) := Some u]), nelem := nelem q + 1\<rparr>"
  note pf = tq_push_front [OF e(1) assms(3) buf(1) d(1), of u, folded q'_def]
  have "prev_index q (next_dequeue_ix q) = next_dequeue_ix q - 1"
    using d by (simp add: prev_index_def signed_modulo_int_def signed_divide_int_def sgn_if)
  then have "push_front_punct cfg we (q, s) = (Inr (), (q', s))"
    using u(1) d buf by (simp add: push_front_punct_def update_queue_def on_queue_def put_at_def buf_put_def bind_prog_def q'_def)
  moreover have "tq_epochs cfg q' 1"
  proof -
    have tu: "the_ts cfg q u = we - EPSILON" using u(3) by (simp add: the_ts_def)
    note li = last_instant [OF e(3), folded assms(7)]
    have up: "tup_ok cfg q u" "tup_epoch cfg q u = epochnum q" using u(3) li by (simp_all add: tup_ok_def tu)
    have l: "0 < i_time (epochlen q)" using e(3) by (simp add: epoch_params_def)
    have "the_ts cfg q u \<le> the_ts cfg q t" if "t \<in> set (tq_list q)" for t
    proof -
      have "\<not> the_ts cfg q t < we" using e(7) that unfolding assms(7) epoch_of_le [OF l] by auto
      then show ?thesis by (simp add: tu EPSILON_def)
    qed
    moreover have "the_ts cfg q' = the_ts cfg q" by (rule the_ts_cong) (simp add: q'_def)
    moreover have "tup_ok cfg q' = tup_ok cfg q" by (rule tup_ok_cong) (simp_all add: q'_def)
    moreover have "tq_split q' 1" using ne pf(3) [of 0] tq_ix_0 [OF e(1)] assms(2) by (simp add: tq_split_def) (simp add: q'_def)
    moreover have "epochstart q' = epochstart q" "epochlen q' = epochlen q" "epochnum q' = epochnum q" by (simp_all add: q'_def)
    ultimately show ?thesis using e pf(1) up unfolding tq_epochs_def pf(2) by simp
  qed
  ultimately show thesis by (rule that) (use pf(2) u(2) in \<open>simp_all add: same_setup_def q'_def\<close>)
qed

text \<open>The slot before the first one is \<open>-1\<close>: C's remainder keeps the sign. A punctuation tuple for that slot is written before the array.\<close>

lemma prev_index_front: "1 < qlen q \<Longrightarrow> prev_index q 0 = -1"
  by (simp add: prev_index_def signed_modulo_int_def signed_divide_int_def sgn_if)

lemma push_front_punct_front:
  assumes "tq_epochs cfg q 0" "0 < nelem q" "nelem q < qlen q" "next_epoch_ix q = 0" "heap_laws (cfg_heap cfg)" "stream_desc (tq_input_desc q)"
  shows "push_front_punct cfg we (q, s) = (Inl (Out_of_bounds ''q->buf''), (q\<lparr>next_dequeue_ix := -1\<rparr>, s))"
proof -
  have e: "tq_wf q" "tq_split q 0" using assms(1) by (simp_all add: tq_epochs_def)
  have "next_dequeue_ix q = 0" using e assms(2,4) tq_ix_0 [OF e(1)] by (auto simp: tq_split_def)
  moreover obtain u where "form_punct_tup_no_leaks (cfg_heap cfg) (tq_input_desc q) (we - EPSILON) = Inr u" by (rule form_punct [OF assms(5,6)])
  moreover obtain buf where "tq_buf q = Some buf" using e(1) by (auto simp: tq_wf_def split: option.splits)
  ultimately show ?thesis using prev_index_front [of q] assms(2,3)
    by (simp add: push_front_punct_def update_queue_def on_queue_def put_at_def buf_put_def bind_prog_def)
qed

lemma same_setup_trans: "same_setup q q1 \<Longrightarrow> same_setup q1 q2 \<Longrightarrow> same_setup q q2"
  by (simp add: same_setup_def)

text \<open>Load shedding: the tuples at the front went to the summary of dropped tuples, and the queue holds the others,
  perhaps behind a punctuation tuple.\<close>

definition sheds :: "('m, 'w, 'b, 'p) shed_cfg \<Rightarrow> 'b Tuple list \<Rightarrow> ('m, 'w, 'b) tq \<Rightarrow> ('m, 'w, 'b) tq \<Rightarrow> bool" where
  "sheds cfg l qs qs' \<longleftrightarrow> (\<exists>dropped punct rest. l = dropped @ rest \<and> tq_list (fst qs') = punct @ rest \<and>
     feed_all cfg dropped (drop_sum_state (fst qs)) (snd qs) = (Inr (drop_sum_state (fst qs')), snd qs') \<and>
     (punct = [] \<or> (\<exists>u. punct = [u] \<and> HeapTupleIsPunct u)) \<and> same_setup (fst qs) (fst qs') \<and> epochnum (fst qs') = epochnum (fst qs))"

lemma drops_list: "drops cfg d (q, s) (q', s') \<Longrightarrow> tq_list q = d @ tq_list q' \<and> feed_all cfg d (drop_sum_state q) s = (Inr (drop_sum_state q'), s')"
  unfolding drops_def by blast

lemma sheds_drops: "drops cfg d (q, s) (q', s') \<Longrightarrow> sheds cfg (tq_list q) (q, s) (q', s')"
  using drops_setup [of cfg d q s q' s'] drops_list [of cfg d q s q' s'] unfolding sheds_def
  by (intro exI [of _ d] exI [of _ "[]"] exI [of _ "tq_list q'"]) simp

lemma sheds_after_drop:
  assumes "drops cfg d (q, s) (q1, s1)" "sheds cfg (tq_list q1 @ l) (q1, s1) (q2, s2)"
  shows "sheds cfg (tq_list q @ l) (q, s) (q2, s2)"
proof -
  obtain e p rest where e: "tq_list q1 @ l = e @ rest" "tq_list q2 = p @ rest" "feed_all cfg e (drop_sum_state q1) s1 = (Inr (drop_sum_state q2), s2)"
    "p = [] \<or> (\<exists>u. p = [u] \<and> HeapTupleIsPunct u)" "same_setup q1 q2" "epochnum q2 = epochnum q1"
    using assms(2) by (auto simp: sheds_def)
  have "same_setup q q2" "epochnum q2 = epochnum q" using drops_setup [OF assms(1)] same_setup_trans [OF _ e(5), of q] e(6) by simp_all
  moreover have "tq_list q @ l = (d @ e) @ rest" "feed_all cfg (d @ e) (drop_sum_state q) s = (Inr (drop_sum_state q2), s2)"
    using drops_list [OF assms(1)] e(1,3) by (simp_all add: feed_all_append bind_prog_def)
  ultimately show ?thesis using e(2,4) unfolding sheds_def by (intro exI [of _ "d @ e"] exI [of _ p] exI [of _ rest]) simp
qed

text \<open>
  The case in which the code writes before the array: all tuples of the current epoch went to the summary of dropped tuples, those
  of later epochs are left, and the front index has become \<open>-1\<close>.
\<close>

definition underruns :: "('m, 'w, 'b, 'p) shed_cfg \<Rightarrow> 'b Tuple list \<Rightarrow> ('m, 'w, 'b) tq \<Rightarrow> ('m, 'w, 'b) tq \<Rightarrow> bool" where
  "underruns cfg l qs qs' \<longleftrightarrow> next_dequeue_ix (fst qs') = -1 \<and>
     (\<exists>dropped rest. l = dropped @ rest \<and> rest \<noteq> [] \<and>
        feed_all cfg dropped (drop_sum_state (fst qs)) (snd qs) = (Inr (drop_sum_state (fst qs')), snd qs') \<and>
        (\<forall>t\<in>set dropped. tup_epoch cfg (fst qs) t = epochnum (fst qs)) \<and> (\<forall>t\<in>set rest. epochnum (fst qs) < tup_epoch cfg (fst qs) t))"

lemma drops_cong:
  assumes "drops cfg d (q, s) (q', s')"
  shows "the_ts cfg q' = the_ts cfg q" "tup_ok cfg q' = tup_ok cfg q"
  by (rule the_ts_cong tup_ok_cong; use drops_setup [OF assms] in \<open>simp add: same_setup_def\<close>)+

lemma underruns_after_drop:
  assumes "drops cfg d (q, s) (q1, s1)" "\<forall>t\<in>set d. tup_epoch cfg q t = epochnum q" "underruns cfg (tq_list q1 @ l) (q1, s1) (q2, s2)"
  shows "underruns cfg (tq_list q @ l) (q, s) (q2, s2)"
proof -
  have same: "epochnum q1 = epochnum q" "epochstart q1 = epochstart q" "epochlen q1 = epochlen q" "the_ts cfg q1 = the_ts cfg q"
    using drops_setup [OF assms(1)] drops_cong [OF assms(1)] by (simp_all add: same_setup_def)
  obtain e rest where e: "tq_list q1 @ l = e @ rest" "rest \<noteq> []" "feed_all cfg e (drop_sum_state q1) s1 = (Inr (drop_sum_state q2), s2)"
    "\<forall>t\<in>set e. tup_epoch cfg q t = epochnum q" "\<forall>t\<in>set rest. epochnum q < tup_epoch cfg q t" "next_dequeue_ix q2 = -1"
    using assms(3) by (auto simp: underruns_def same)
  have "tq_list q @ l = (d @ e) @ rest" "feed_all cfg (d @ e) (drop_sum_state q) s = (Inr (drop_sum_state q2), s2)"
    using drops_list [OF assms(1)] e(1,3) by (simp_all add: feed_all_append bind_prog_def)
  then show ?thesis using e(2,4-6) assms(2) unfolding underruns_def by (intro conjI exI [of _ "d @ e"] exI [of _ rest]) auto
qed

lemma underruns_all:
  assumes "drops cfg d (q, s) (q1, s1)" "tq_epochs cfg q (int (length d))" "0 < nelem q1" "tq_wf q1"
  shows "underruns cfg (tq_list q) (q, s) (q1\<lparr>next_dequeue_ix := -1\<rparr>, s1)"
proof -
  have l: "tq_list q = d @ tq_list q1" "feed_all cfg d (drop_sum_state q) s = (Inr (drop_sum_state q1), s1)" using drops_list [OF assms(1)] by simp_all
  have "tq_list q1 \<noteq> []" using assms(3) by (auto dest: arg_cong [of _ _ length])
  moreover have "\<forall>t\<in>set d. tup_epoch cfg q t = epochnum q" "\<forall>t\<in>set (tq_list q1). epochnum q < tup_epoch cfg q t"
    using assms(2) unfolding tq_epochs_def l(1) by simp_all
  ultimately show ?thesis using l unfolding underruns_def by (intro conjI exI [of _ d] exI [of _ "tq_list q1"]) simp_all
qed

text \<open>What load shedding comes to.\<close>

definition shed_outcome :: "('m, 'w, 'b, 'p) shed_cfg \<Rightarrow> 'b Tuple list \<Rightarrow> int \<Rightarrow> ('m, 'w, 'b) tq \<Rightarrow> unit outcome \<times> ('m, 'w, 'b) tq \<Rightarrow> bool" where
  "shed_outcome cfg l marker qs res \<longleftrightarrow> (case res of
     (Inr _, qs') \<Rightarrow> sheds cfg l qs qs' \<and> tq_state (fst qs') = TQS_HAVE_TS \<and> (\<exists>k'. tq_epochs cfg (fst qs') k')
   | (Inl e, qs') \<Rightarrow> e = Out_of_bounds ''q->buf'' \<and> marker = 0 \<and> underruns cfg l qs qs')"

lemma epoch_end_bound:
  assumes "epoch_params start len n"
  shows "\<bar>start + n * i_time len\<bar> < 2 ^ 61"
proof -
  define m where "m = n * i_time len"
  have "0 \<le> m" "m < 2 ^ 49" "\<bar>start\<bar> < 2 ^ 60" using assms by (simp_all add: epoch_params_def m_def)
  then show ?thesis by (simp add: m_def [symmetric])
qed

lemma cleanup_run:
  assumes "tq_epochs cfg q k" "tq_state q = TQS_HAVE_TS" "load_ok q" "sum_ok cfg (drop_sum_state q) k"
    "heap_laws (cfg_heap cfg)" "stream_desc (tq_input_desc q)"
    "\<bar>epochstart q + epochnum q * i_time (epochlen q) - now\<bar> < 2 ^ 38"
  shows "shed_outcome cfg (tq_list q) (next_epoch_ix q) (q, s) (triage_cleanup_expired_tuples cfg now (q, s))"
proof (cases "nelem q = 0")
  case True
  have wf: "tq_wf q" using assms(1) by (simp add: tq_epochs_def)
  have "tq_list q = []" using True by (simp add: tq_list_def)
  then have "triage_peek (q, s) = (Inr None, (q, s))" using peek_run [OF wf, of s] by simp
  then have "triage_cleanup_expired_tuples cfg now (q, s) = (Inr (), (q, s))"
    using epochs_initialized [OF assms(1)] assms(2)
    by (simp add: triage_cleanup_expired_tuples_def assert_initialized_def on_queue_def bind_prog_def return_prog_def)
  then show ?thesis using sheds_drops [OF drops_refl] assms(1,2) by (auto simp: shed_outcome_def)
next
  case False
  define we where "we = epochstart q + epochnum q * i_time (epochlen q)"
  have e: "tq_wf q" "double_rounding (cfg_fl cfg)" "epoch_params (epochstart q) (epochlen q) (epochnum q)" "tq_split q k"
    using assms(1) by (simp_all add: tq_epochs_def)
  have n: "0 < nelem q" "nelem q \<le> qlen q" using False e(1) by (simp_all add: tq_wf_def)
  then obtain t ts where l: "tq_list q = t # ts" by (cases "tq_list q") (auto dest: arg_cong [of _ _ length])
  have peek: "triage_peek (q, s) = (Inr (Some t), (q, s))" using peek_run [OF e(1), of s] by (simp add: l)
  note c = tq_split_count [OF e(1,4)]
  have "\<bar>we\<bar> < 2 ^ 61" using epoch_end_bound [OF e(3)] by (simp add: we_def)
  then have "\<bar>we\<bar> < 2 ^ 62" "\<bar>now\<bar> < 2 ^ 62" using assms(7) by (simp_all add: we_def [symmetric])
  moreover have "k \<le> qlen q" using c(3) n(2) by simp
  ultimately obtain v where v: "overflow_count cfg q we now = Inr v" "v \<le> k"
    by (rule overflow_count_run [OF e(2) assms(3) _ _ assms(7) [folded we_def] c(1,2)])
  have start: "triage_cleanup_expired_tuples cfg now (q, s) =
      (if v > 0 then bind_prog (drop_loop cfg (nat v)) (\<lambda>_. bind_prog (on_queue (\<lambda>q. Inr (num_tups_from_cur_epoch q = 0 \<and> nelem q > 0)))
         (\<lambda>blown. if blown then push_front_punct cfg we else return_prog ())) else return_prog ()) (q, s)"
    using epochs_initialized [OF assms(1)] assms(2) peek v(1) simple_window_end_run(1) [OF e(2,3), folded we_def]
    by (simp add: triage_cleanup_expired_tuples_def assert_initialized_def on_queue_def bind_prog_def return_prog_def)
  show ?thesis
  proof (cases "v > 0")
    case False
    then show ?thesis using sheds_drops [OF drops_refl] assms(1,2) start by (auto simp: return_prog_def shed_outcome_def)
  next
    case True
    have "int (nat v) \<le> k" "sum_ok cfg (drop_sum_state q) (int (nat v))" using True v(2) sum_ok_less [OF assms(4) v(2)] by simp_all
    then obtain d q1 s1 where d: "drop_loop cfg (nat v) (q, s) = (Inr (), (q1, s1))" "drops cfg d (q, s) (q1, s1)" "tq_epochs cfg q1 (k - int (length d))"
      using drop_loop_run [OF assms(1), of "nat v" s] by blast
    note st = drops_setup [OF d(2)]
    have wf1: "tq_wf q1" "tq_split q1 (k - int (length d))" using d(3) by (simp_all add: tq_epochs_def)
    note c1 = tq_split_count [OF wf1]
    show ?thesis
    proof (cases "num_tups_from_cur_epoch q1 = 0 \<and> nelem q1 > 0")
      case False
      then have "triage_cleanup_expired_tuples cfg now (q, s) = (Inr (), (q1, s1))"
        using start True d(1) by (auto simp: bind_prog_def on_queue_def return_prog_def)
      then show ?thesis using sheds_drops [OF d(2)] d(3) st assms(2) by (auto simp: shed_outcome_def)
    next
      case blown: True
      have k0: "k - int (length d) = 0" using blown c1(1) by simp
      have "int (length (tq_list q)) = int (length d) + int (length (tq_list q1))" using drops_list [OF d(2)] by simp
      moreover have "0 \<le> nelem q1" using wf1(1) by (simp add: tq_wf_def)
      ultimately have lt: "nelem q1 < qlen q1" using n k0 True v(2) st by (simp add: same_setup_def)
      have same: "next_epoch_ix q1 = next_epoch_ix q" "stream_desc (tq_input_desc q1)" "0 < nelem q1" "we = epochstart q1 + epochnum q1 * i_time (epochlen q1)"
        using blown st assms(6) by (simp_all add: same_setup_def we_def)
      have tail: "triage_cleanup_expired_tuples cfg now (q, s) = push_front_punct cfg we (q1, s1)"
        using start True d(1) blown by (simp add: bind_prog_def on_queue_def)
      show ?thesis
      proof (cases "next_epoch_ix q = 0")
        case front: True
        have "underruns cfg (tq_list q) (q, s) (q1\<lparr>next_dequeue_ix := -1\<rparr>, s1)"
          by (rule underruns_all [OF d(2) _ same(3) wf1(1)]) (use assms(1) k0 in simp)
        then show ?thesis
          using tail push_front_punct_front [OF d(3) [unfolded k0] same(3) lt _ assms(5) same(2), of we s1] same(1) front by (simp add: shed_outcome_def)
      next
        case behind: False
        obtain q2 u where q2: "push_front_punct cfg we (q1, s1) = (Inr (), (q2, s1))" "tq_epochs cfg q2 1" "tq_list q2 = u # tq_list q1" "HeapTupleIsPunct u"
          "same_setup q1 q2" "epochnum q2 = epochnum q1" "tq_state q2 = tq_state q1" "drop_sum_state q2 = drop_sum_state q1"
          by (rule push_front_punct_run [OF d(3) [unfolded k0] same(3) lt behind [folded same(1)] assms(5) same(2,4), of s1])
        have "sheds cfg (tq_list q) (q, s) (q2, s1)"
          using drops_list [OF d(2)] q2(3,4,8) same_setup_trans [OF _ q2(5), of q] st q2(6) unfolding sheds_def
          by (intro exI [of _ d] exI [of _ "[u]"] exI [of _ "tq_list q1"]) simp
        then show ?thesis using tail q2(1,2,7) st assms(2) by (auto simp: shed_outcome_def)
      qed
    qed
  qed
qed

section \<open>Enqueueing\<close>

text \<open>The queue with a tuple at its end, which may begin the next epoch.\<close>

definition tq_added :: "('m, 'w, 'b, 'p) shed_cfg \<Rightarrow> 'b Tuple \<Rightarrow> ('m, 'w, 'b) TriageQueue \<Rightarrow> ('m, 'w, 'b) TriageQueue" where
  "tq_added cfg tup q =
     (let q1 = (if next_epoch_ix q = TQ_NOT_AN_INDEX \<and> epochnum q < tup_epoch cfg q tup then q\<lparr>next_epoch_ix := next_enqueue_ix q\<rparr> else q)
      in q1\<lparr>tq_buf := Some ((the (tq_buf q))[nat (next_enqueue_ix q) := Some tup]), next_enqueue_ix := next_index q (next_enqueue_ix q), nelem := nelem q + 1\<rparr>)"

lemma tq_wf_next_epoch [simp]: "tq_wf (q\<lparr>next_epoch_ix := i\<rparr>) = tq_wf q" "tq_list (q\<lparr>next_epoch_ix := i\<rparr>) = tq_list q"
  "tq_ix (q\<lparr>next_epoch_ix := i\<rparr>) = tq_ix q" "next_index (q\<lparr>next_epoch_ix := i\<rparr>) = next_index q"
  by (simp_all add: tq_wf_def tq_list_def tq_ix_def next_index_def fun_eq_iff split: option.split)

lemma tq_added_list:
  assumes "tq_wf q" "nelem q < qlen q"
  shows "tq_wf (tq_added cfg tup q)" "tq_list (tq_added cfg tup q) = tq_list q @ [tup]" "tq_ix (tq_added cfg tup q) = tq_ix q"
proof -
  define q1 where "q1 = (if next_epoch_ix q = TQ_NOT_AN_INDEX \<and> epochnum q < tup_epoch cfg q tup then q\<lparr>next_epoch_ix := next_enqueue_ix q\<rparr> else q)"
  obtain buf where buf: "tq_buf q = Some buf" using assms(1) by (auto simp: tq_wf_def split: option.splits)
  have q1: "tq_wf q1" "nelem q1 < qlen q1" "tq_buf q1 = Some buf" "tq_list q1 = tq_list q" "tq_ix q1 = tq_ix q" "next_index q1 = next_index q"
    "next_enqueue_ix q1 = next_enqueue_ix q" "nelem q1 = nelem q" using assms buf by (simp_all add: q1_def)
  have "tq_added cfg tup q = q1\<lparr>tq_buf := Some (buf[nat (next_enqueue_ix q1) := Some tup]), next_enqueue_ix := next_index q1 (next_enqueue_ix q1), nelem := nelem q1 + 1\<rparr>"
    by (simp add: tq_added_def Let_def q1_def buf)
  then show "tq_wf (tq_added cfg tup q)" "tq_list (tq_added cfg tup q) = tq_list q @ [tup]" "tq_ix (tq_added cfg tup q) = tq_ix q"
    using tq_append [OF q1(1-3), of tup] q1(4,5) by (simp_all add: fun_eq_iff)
qed

lemma tq_added_fields: "same_setup q (tq_added cfg tup q)" "epochnum (tq_added cfg tup q) = epochnum q" "tq_state (tq_added cfg tup q) = tq_state q"
  "drop_sum_state (tq_added cfg tup q) = drop_sum_state q" "nelem (tq_added cfg tup q) = nelem q + 1"
  "next_epoch_ix (tq_added cfg tup q) = (if next_epoch_ix q = TQ_NOT_AN_INDEX \<and> epochnum q < tup_epoch cfg q tup then next_enqueue_ix q else next_epoch_ix q)"
  by (simp_all add: tq_added_def Let_def same_setup_def)

text \<open>A tuple that may come next: not older than those in the queue, and not of an epoch that is over.\<close>

definition next_tuple :: "('m, 'w, 'b, 'p) shed_cfg \<Rightarrow> ('m, 'w, 'b) TriageQueue \<Rightarrow> 'b Tuple \<Rightarrow> bool" where
  "next_tuple cfg q tup \<longleftrightarrow> tup_ok cfg q tup \<and> (\<forall>t\<in>set (tq_list q). the_ts cfg q t \<le> the_ts cfg q tup) \<and> epochnum q \<le> tup_epoch cfg q tup"

lemma tq_added_epochs:
  assumes "tq_epochs cfg q k" "nelem q < qlen q" "next_tuple cfg q tup"
  shows "tq_epochs cfg (tq_added cfg tup q) (if tup_epoch cfg q tup = epochnum q then k + 1 else k)"
proof -
  let ?q = "tq_added cfg tup q" and ?e = "tup_epoch cfg q tup"
  have e: "tq_wf q" "double_rounding (cfg_fl cfg)" "epoch_params (epochstart q) (epochlen q) (epochnum q)" "tq_split q k"
    "\<forall>t\<in>set (tq_list q). tup_ok cfg q t" "sorted (map (the_ts cfg q) (tq_list q))"
    "\<forall>t\<in>set (take (nat k) (tq_list q)). tup_epoch cfg q t = epochnum q" "\<forall>t\<in>set (drop (nat k) (tq_list q)). epochnum q < tup_epoch cfg q t"
    using assms(1) by (simp_all add: tq_epochs_def)
  have nt: "tup_ok cfg q tup" "\<forall>t\<in>set (tq_list q). the_ts cfg q t \<le> the_ts cfg q tup" "epochnum q \<le> ?e" using assms(3) by (simp_all add: next_tuple_def)
  note c = tq_split_count [OF e(1,4)]
  note l = tq_added_list [OF e(1) assms(2), of cfg tup] and f = tq_added_fields [where q = q and cfg = cfg and tup = tup]
  have k: "k = nelem q" if "?e = epochnum q"
  proof (rule ccontr)
    assume "k \<noteq> nelem q"
    then have "drop (nat k) (tq_list q) \<noteq> []" using c by simp
    then obtain t where t: "t \<in> set (drop (nat k) (tq_list q))" by (cases "drop (nat k) (tq_list q)") auto
    have "tup_epoch cfg q t \<le> ?e" using nt(2) in_set_dropD [OF t] e(3) by (intro epoch_of_mono) (simp_all add: epoch_params_def)
    then show False using e(8) t that by auto
  qed
  have eq: "next_enqueue_ix q = tq_ix q (nelem q)" using e(1) by (simp add: tq_wf_def)
  have ixk: "tq_ix q k \<noteq> TQ_NOT_AN_INDEX" using tq_ix_bounds [of q k] e(1) by (simp add: tq_wf_def TQ_NOT_AN_INDEX_def)
  have "the_ts cfg ?q = the_ts cfg q" by (rule the_ts_cong) (use f(1) in \<open>simp add: same_setup_def\<close>)
  moreover have "tup_ok cfg ?q = tup_ok cfg q" by (rule tup_ok_cong) (use f(1) in \<open>simp_all add: same_setup_def\<close>)
  moreover have "tq_split ?q (if ?e = epochnum q then k + 1 else k)"
    using e(4) k nt(3) c(2,3) ixk eq unfolding tq_split_def f(5,6) l(3) by auto
  moreover have "take (nat (if ?e = epochnum q then k + 1 else k)) (tq_list q @ [tup]) = take (nat k) (tq_list q) @ (if ?e = epochnum q then [tup] else [])"
    "drop (nat (if ?e = epochnum q then k + 1 else k)) (tq_list q @ [tup]) = drop (nat k) (tq_list q) @ (if ?e = epochnum q then [] else [tup])"
    using c(2,3) k by (simp_all add: nat_add_distrib)
  moreover have "epochstart ?q = epochstart q" "epochlen ?q = epochlen q" using f(1) by (simp_all add: same_setup_def)
  moreover have "sorted (map (the_ts cfg q) (tq_list q @ [tup]))" using e(6) nt(2) by (simp add: sorted_append)
  moreover have "?e \<noteq> epochnum q \<Longrightarrow> epochnum q < ?e" using nt(3) by simp
  ultimately show ?thesis using e(2,3,5,7,8) l(1) nt(1) f(2) unfolding tq_epochs_def l(2) by (cases "?e = epochnum q") (simp_all add: ball_Un)
qed


lemma enqueue_end_added:
  assumes "tq_epochs cfg q k" "nelem q < qlen q" "next_tuple cfg q tup"
  shows "enqueue_end cfg tup (q, s) = triage_cleanup_expired_tuples cfg (the_ts cfg q tup) (tq_added cfg tup q, s)"
proof -
  have e: "tq_wf q" "double_rounding (cfg_fl cfg)" "epoch_params (epochstart q) (epochlen q) (epochnum q)" using assms(1) by (simp_all add: tq_epochs_def)
  have nt: "tup_ok cfg q tup" "epochnum q \<le> tup_epoch cfg q tup" using assms(3) by (simp_all add: next_tuple_def)
  define q1 where "q1 = (if next_epoch_ix q = TQ_NOT_AN_INDEX \<and> epochnum q < tup_epoch cfg q tup then q\<lparr>next_epoch_ix := next_enqueue_ix q\<rparr> else q)"
  have mark: "mark_epoch cfg tup q = Inr q1"
    using tup_ok_window [OF e(2) nt(1)] past_window_run [OF e(2,3), of "the_ts cfg q tup"] nt(2) by (auto simp: mark_epoch_def q1_def)
  have b: "\<exists>buf. tq_buf q = Some buf \<and> int (length buf) = qlen q" using e(1) by (auto simp: tq_wf_def split: option.splits)
  have ix: "0 \<le> next_enqueue_ix q" "next_enqueue_ix q < qlen q" using e(1) tq_ix_bounds [of q "nelem q"] by (simp_all add: tq_wf_def)
  let ?buf = "(the (tq_buf q))[nat (next_enqueue_ix q) := Some tup]"
  have put: "buf_put (next_enqueue_ix q1) tup q1 = Inr (q1\<lparr>tq_buf := Some ?buf\<rparr>)"
    using b ix by (auto simp: buf_put_def q1_def)
  have add: "tq_added cfg tup q = (q1\<lparr>tq_buf := Some ?buf\<rparr>)\<lparr>next_enqueue_ix := next_index (q1\<lparr>tq_buf := Some ?buf\<rparr>) (next_enqueue_ix (q1\<lparr>tq_buf := Some ?buf\<rparr>)),
      nelem := nelem (q1\<lparr>tq_buf := Some ?buf\<rparr>) + 1\<rparr>"
    by (simp add: tq_added_def Let_def q1_def next_index_def)
  have "tup_ok cfg (tq_added cfg tup q) = tup_ok cfg q" "the_ts cfg (tq_added cfg tup q) = the_ts cfg q"
    by (rule tup_ok_cong the_ts_cong; use tq_added_fields(1) [of q cfg tup] in \<open>simp add: same_setup_def\<close>)+
  then have ts: "tup_ts cfg (tq_added cfg tup q) (Some tup) = Inr (the_ts cfg q tup)"
    using tup_ok_window(1) [OF e(2), of "tq_added cfg tup q" tup] nt(1) by simp
  show ?thesis
    unfolding enqueue_end_def bind_prog_def change_queue_def put_at_def update_queue_def on_queue_def
    by (simp only: split_conv mark sum.case put add [symmetric] ts)
qed


text \<open>Bounds on the load, a descriptor that punctuation tuples can be made for, and room in the summary of dropped tuples.\<close>

definition can_shed :: "('m, 'w, 'b, 'p) shed_cfg \<Rightarrow> ('m, 'w, 'b) TriageQueue \<Rightarrow> 'b Tuple \<Rightarrow> bool" where
  "can_shed cfg q tup \<longleftrightarrow> load_ok q \<and> heap_laws (cfg_heap cfg) \<and> stream_desc (tq_input_desc q) \<and> sum_ok cfg (drop_sum_state q) (nelem q + 1) \<and>
     \<bar>epochstart q + epochnum q * i_time (epochlen q) - the_ts cfg q tup\<bar> < 2 ^ 38"

text \<open>Where the tuples of later epochs begin once a tuple is added; \<open>TQ_NOT_AN_INDEX\<close> when there are none.\<close>

definition epoch_marker :: "('m, 'w, 'b, 'p) shed_cfg \<Rightarrow> ('m, 'w, 'b) TriageQueue \<Rightarrow> 'b Tuple \<Rightarrow> int" where
  "epoch_marker cfg q tup = (if next_epoch_ix q = TQ_NOT_AN_INDEX \<and> epochnum q < tup_epoch cfg q tup then next_enqueue_ix q else next_epoch_ix q)"

lemma enqueue_end_run:
  assumes "tq_epochs cfg q k" "nelem q < qlen q" "next_tuple cfg q tup" "can_shed cfg q tup" "tq_state q = TQS_HAVE_TS"
  shows "shed_outcome cfg (tq_list q @ [tup]) (epoch_marker cfg q tup) (q, s) (enqueue_end cfg tup (q, s))"
proof -
  let ?q = "tq_added cfg tup q"
  define k1 where "k1 = (if tup_epoch cfg q tup = epochnum q then k + 1 else k)"
  have wf: "tq_wf q" "tq_split q k" using assms(1) by (simp_all add: tq_epochs_def)
  note ep = tq_added_epochs [OF assms(1-3), folded k1_def]
  note f = tq_added_fields [where q = q and cfg = cfg and tup = tup] and l = tq_added_list(2) [OF wf(1) assms(2), of cfg tup]
  have c: "load_ok q" "heap_laws (cfg_heap cfg)" "stream_desc (tq_input_desc q)" "sum_ok cfg (drop_sum_state q) (nelem q + 1)"
    "\<bar>epochstart q + epochnum q * i_time (epochlen q) - the_ts cfg q tup\<bar> < 2 ^ 38" using assms(4) by (auto simp: can_shed_def)
  have "k1 \<le> nelem q + 1" using tq_split_count [OF wf] by (simp add: k1_def)
  then have su: "sum_ok cfg (drop_sum_state ?q) k1" using sum_ok_less [OF c(4)] f(4) by simp
  have h: "tq_state ?q = TQS_HAVE_TS" "load_ok ?q" "stream_desc (tq_input_desc ?q)"
    "\<bar>epochstart ?q + epochnum ?q * i_time (epochlen ?q) - the_ts cfg q tup\<bar> < 2 ^ 38"
    using c f(1-3) assms(5) by (simp_all add: same_setup_def load_ok_def)
  have "shed_outcome cfg (tq_list q @ [tup]) (epoch_marker cfg q tup) (?q, s) (enqueue_end cfg tup (q, s))"
    using cleanup_run [OF ep h(1,2) su c(2) h(3,4), of s] f(6) unfolding enqueue_end_added [OF assms(1-3)] l epoch_marker_def by simp
  moreover have "sheds cfg l (?q, s) qs' \<Longrightarrow> sheds cfg l (q, s) qs'" for l qs'
    using f(2,4) same_setup_trans [OF f(1), of "fst qs'"] unfolding sheds_def by auto
  moreover have "underruns cfg l (?q, s) qs' \<Longrightarrow> underruns cfg l (q, s) qs'" for l qs'
    using f(2,4) the_ts_cong [of ?q q cfg] f(1) [unfolded same_setup_def] unfolding underruns_def by simp
  ultimately show ?thesis by (auto simp: shed_outcome_def split: prod.splits sum.splits)
qed

lemma enqueue_start_run:
  assumes "first_tuple cfg tup q = Inr q1" "tq_epochs cfg q1 k"
  shows "enqueue_start cfg tup (q, s) = (Inr (), (q1, s))"
proof -
  have "\<bar>epochstart q1\<bar> < 2 ^ 60" using assms(2) by (simp add: tq_epochs_def epoch_params_def)
  moreover have "epochstart q1 = epochstart q" "is_initialized q1 = is_initialized q" using assms(1)
    by (auto simp: first_tuple_def is_initialized_def bind_outcome_Inr split: if_splits)
  ultimately show ?thesis using epochs_initialized [OF assms(2)] assms(1)
    by (simp add: enqueue_start_def assert_initialized_def on_queue_def change_queue_def bind_prog_def DT_NOBEGIN_def)
qed

lemma first_tuple_later: "tq_state q = TQS_HAVE_TS \<Longrightarrow> first_tuple cfg tup q = Inr q"
  by (simp add: first_tuple_def)


lemma next_tuple_drop:
  assumes "drops cfg d (q, s) (q', s')"
  shows "next_tuple cfg q tup \<Longrightarrow> next_tuple cfg q' tup"
    "can_shed cfg q tup \<Longrightarrow> sum_ok cfg (drop_sum_state q') (nelem q' + 1) \<Longrightarrow> can_shed cfg q' tup"
    "epoch_marker cfg q' tup = epoch_marker cfg q tup"
proof -
  note st = drops_setup [OF assms] and c = drops_cong [OF assms]
  show "next_tuple cfg q tup \<Longrightarrow> next_tuple cfg q' tup" using st drops_list [OF assms] by (auto simp: next_tuple_def c same_setup_def)
  show "can_shed cfg q tup \<Longrightarrow> sum_ok cfg (drop_sum_state q') (nelem q' + 1) \<Longrightarrow> can_shed cfg q' tup"
    using st by (auto simp: can_shed_def load_ok_def c same_setup_def)
  show "epoch_marker cfg q' tup = epoch_marker cfg q tup" using st by (simp add: epoch_marker_def c same_setup_def)
qed

lemma nelem_tq_list: "tq_wf q \<Longrightarrow> nelem q = int (length (tq_list q))"
  by (simp add: tq_wf_def)

lemma drop_oldest_later:
  assumes "tq_epochs cfg q 0" "is_full q"
  shows "drop_oldest cfg (q, s) = (Inl (Elog_error ''Tried to drop a tuple from the wrong summary window''), (q, s))"
proof -
  have e: "tq_wf q" "double_rounding (cfg_fl cfg)" "\<forall>t\<in>set (tq_list q). tup_ok cfg q t \<and> epochnum q < tup_epoch cfg q t"
    using assms(1) by (simp_all add: tq_epochs_def)
  have "0 < nelem q" using e(1) assms(2) by (simp add: tq_wf_def is_full_def)
  then obtain t ts where l: "tq_list q = t # ts" by (cases "tq_list q") (auto dest: arg_cong [of _ _ length])
  have "triage_peek (q, s) = (Inr (Some t), (q, s))" using peek_run [OF e(1), of s] l by simp
  moreover have "tup_window_no cfg q (Some t) = Inr (tup_epoch cfg q t)" "epochnum q < tup_epoch cfg q t"
    using e(3) l tup_ok_window(2) [OF e(2), of q t] by simp_all
  ultimately show ?thesis
    using epochs_initialized [OF assms(1)] by (simp add: drop_oldest_def assert_initialized_def on_queue_def check_window_def bind_prog_def)
qed

lemma triage_enqueue_run:
  assumes "first_tuple cfg tup q = Inr q1" "tq_epochs cfg q1 k" "next_tuple cfg q1 tup" "can_shed cfg q1 tup"
  shows "if is_full q1 \<and> k = 0
    then triage_enqueue cfg tup (q, s) = (Inl (Elog_error ''Tried to drop a tuple from the wrong summary window''), (q1, s))
    else shed_outcome cfg (tq_list q @ [tup]) (epoch_marker cfg q1 tup) (q1, s) (triage_enqueue cfg tup (q, s))"
proof -
  have wf: "tq_wf q1" "tq_split q1 k" using assms(2) by (simp_all add: tq_epochs_def)
  have q1: "tq_state q1 = TQS_HAVE_TS" "tq_list q1 = tq_list q" using assms(1) wf
    by (cases "tq_state q"; auto simp: first_tuple_def bind_outcome_Inr tq_wf_def tq_list_def tq_ix_def)+
  note start = enqueue_start_run [OF assms(1,2), of s]
  show ?thesis
  proof (cases "is_full q1")
    case False
    then have "nelem q1 < qlen q1" using wf by (simp add: is_full_def tq_wf_def)
    then show ?thesis using False start q1(2) enqueue_end_run [OF assms(2) _ assms(3,4) q1(1), of s] by (simp add: triage_enqueue.simps)
  next
    case full: True
    show ?thesis
    proof (cases "k = 0")
      case True
      then show ?thesis using drop_oldest_later [of cfg q1 s] assms(2) full start by (simp add: triage_enqueue.simps)
    next
      case False
      then have k: "0 < k" "0 < nelem q1 + 1" "sum_ok cfg (drop_sum_state q1) (nelem q1 + 1)"
        using tq_split_count(2) [OF wf] assms(4) wf by (simp_all add: can_shed_def tq_wf_def)
      obtain q2 s2 where q2: "drop_oldest cfg (q1, s) = (Inr (), (q2, s2))" "drops cfg [hd (tq_list q1)] (q1, s) (q2, s2)" "tq_epochs cfg q2 (k - 1)"
        "sum_ok cfg (drop_sum_state q2) (nelem q1 + 1 - 1)" by (rule drop_oldest_drops [OF assms(2) k(1,3,2), of s])
      have n2: "nelem q2 = nelem q1 - 1" "qlen q2 = qlen q1" "tq_state q2 = TQS_HAVE_TS"
        using drop_oldest_size [OF q2(1)] drops_setup [OF q2(2)] q1(1) by simp_all
      have full2: "nelem q2 < qlen q2" "\<not> is_full q2" using n2 full by (simp_all add: is_full_def)
      note nt = next_tuple_drop [OF q2(2), of tup]
      have nt2: "next_tuple cfg q2 tup" "can_shed cfg q2 tup" using nt(1,2) assms(3,4) q2(4) n2(1) by simp_all
      have "triage_enqueue cfg tup (q2, s2) = enqueue_end cfg tup (q2, s2)"
        using enqueue_start_run [OF first_tuple_later [OF n2(3)] q2(3)] full2(2) by (subst triage_enqueue.simps) simp
      then have "triage_enqueue cfg tup (q, s) = enqueue_end cfg tup (q2, s2)" using start full q2(1) by (subst triage_enqueue.simps) simp
      then have "shed_outcome cfg (tq_list q2 @ [tup]) (epoch_marker cfg q1 tup) (q2, s2) (triage_enqueue cfg tup (q, s))"
        using enqueue_end_run [OF q2(3) full2(1) nt2 n2(3), of s2] nt(3) by simp
      moreover have "\<forall>t\<in>set [hd (tq_list q1)]. tup_epoch cfg q1 t = epochnum q1" using tq_epochs_pop(4) [OF assms(2) k(1) refl] by simp
      ultimately show ?thesis using False sheds_after_drop [OF q2(2)] underruns_after_drop [OF q2(2)] q1(2)
        unfolding shed_outcome_def by (auto split: prod.splits sum.splits)
    qed
  qed
qed


text \<open>A full queue with two tuples of the first second.\<close>

definition witness_tq :: "(unit, unit, unit Datum option list) TriageQueue" where
  "witness_tq = \<lparr>tq_state = TQS_HAVE_TS, tq_buf = Some [Some (witness_tuple 200000), Some (witness_tuple 100000)], tq_input_desc = witness_desc,
     tq_summary_desc = witness_desc, qlen = 2, nelem = 2, next_enqueue_ix = 1, next_dequeue_ix = 1, syn_gen = witness_count,
     drop_sum_state = witness_stream, keep_sum_state = witness_stream, epochstart = 0, epochlen = \<lparr>i_time = 1000000, i_month = 0\<rparr>,
     epochnum = 1, next_epoch_ix = TQ_NOT_AN_INDEX, nsent_this_epoch = 0, time_cstr = \<lparr>i_time = 1000000, i_month = 0\<rparr>\<rparr>"

lemma witness_tuple_ts [simp]: "get_timestamp_val witness_heap witness_desc (witness_tuple ts) = Inr ts"
  by (simp add: get_timestamp_val_def witness_heap_def witness_desc_def witness_tuple_def get_timestamp_col_def tc_has_timestamp_def TCQTSATTRNOP_def)

lemma witness_tq_fields [simp]: "tq_list witness_tq = [witness_tuple 100000, witness_tuple 200000]" "the_ts witness_cfg witness_tq (witness_tuple ts) = ts"
  by (simp_all add: tq_list_def witness_tq_def tq_ix_def numeral_2_eq_2 the_ts_def witness_cfg_def)

lemma witness_tup_ok: "0 \<le> ts \<Longrightarrow> ts < 10000000 \<Longrightarrow> tup_ok witness_cfg witness_tq (witness_tuple ts)"
  by (simp add: tup_ok_def ts_ok_def window_ok_def) (simp add: witness_tq_def witness_cfg_def)

lemma witness_epoch: "epoch_of (epochstart witness_tq) (epochlen witness_tq) ts = ts div 1000000 + 1" "epochnum witness_tq = 1"
  by (simp_all add: epoch_of_def past_slides_def witness_tq_def)

lemma witness_tq_epochs: "tq_epochs witness_cfg witness_tq 2"
proof -
  have "tq_wf witness_tq" by (auto simp: tq_wf_def witness_tq_def tq_ix_def nth_Cons split: nat.splits)
  moreover have "epoch_params (epochstart witness_tq) (epochlen witness_tq) (epochnum witness_tq)" "tq_split witness_tq 2" "epochnum witness_tq = 1"
    "double_rounding (cfg_fl witness_cfg)"
    by (simp_all add: witness_tq_def epoch_params_def tq_split_def witness_cfg_def double_rounding_exact)
  ultimately show ?thesis by (simp add: tq_epochs_def witness_tup_ok witness_epoch)
qed

lemma witness_sum_ok: "n < 2 ^ 31 \<Longrightarrow> sum_ok witness_cfg witness_stream n"
  by (simp add: sum_ok_def stream_ok_def witness_stream_def stream_buf_def ds_ready_def stream_size_def)

lemma witness_next_tuple: "next_tuple witness_cfg witness_tq (witness_tuple 1100000)" "can_shed witness_cfg witness_tq (witness_tuple 1100000)"
proof -
  show "next_tuple witness_cfg witness_tq (witness_tuple 1100000)"
    by (simp add: next_tuple_def witness_tup_ok witness_epoch)
  show "can_shed witness_cfg witness_tq (witness_tuple 1100000)"
    by (simp add: can_shed_def witness_epoch)
       (simp add: witness_tq_def load_ok_def witness_cfg_def witness_heap_laws stream_desc_def witness_desc_def PUNCT_INIT_SZ_def witness_sum_ok [unfolded witness_cfg_def] TQ_NOT_AN_INDEX_def)
qed


section \<open>Dequeueing\<close>

lemma keep_next_run:
  assumes "sum_ok cfg (keep_sum_state q) 1"
  obtains st' s' where "generic_stream_next cfg t (keep_sum_state q) s = (Inr st', s')" "sum_ok cfg st' 0"
    "keep_stream_next cfg t (q, s) = (Inr (), (q\<lparr>keep_sum_state := st'\<rparr>, s'))"
proof -
  obtain st' s' where "generic_stream_next cfg t (keep_sum_state q) s = (Inr st', s')" "sum_ok cfg st' (1 - 1)"
    by (rule sum_ok_next [OF assms]) simp
  then show thesis by (intro that) (simp_all add: keep_stream_next_def)
qed

lemma dequeue_run:
  assumes "tq_epochs cfg q k" "sum_ok cfg (keep_sum_state q) 1" "0 < k" "tq_list q = t # ts"
  obtains q' s' where "triage_dequeue cfg no_kept (q, s) = (Inr (Some t), (q', s'))" "tq_list q' = ts" "tq_epochs cfg q' (k - 1)"
    "nsent_this_epoch q' = nsent_this_epoch q + 1" "drop_sum_state q' = drop_sum_state q"
    "feed_all cfg (if no_kept then [] else [t]) (keep_sum_state q) s = (Inr (keep_sum_state q'), s')" "tq_state q' = tq_state q"
proof -
  note Cons = assms(4) and k = assms(3)
  have e: "tq_wf q" "double_rounding (cfg_fl cfg)" "tup_ok cfg q t" using assms(1) Cons by (simp_all add: tq_epochs_def)
  have n: "0 < nelem q" using nelem_tq_list [OF e(1)] Cons by simp
  have at: "buf_at q (next_dequeue_ix q) = Inr (Some t)" using buf_at_list [OF e(1), of 0] n Cons tq_ix_0 [OF e(1)] by simp
  have w: "tup_window_no cfg q (Some t) = Inr (tup_epoch cfg q t)" by (rule tup_ok_window(2) [OF e(2,3)])
  define q1 where "q1 = q\<lparr>next_dequeue_ix := next_index q (next_dequeue_ix q), nelem := nelem q - 1\<rparr>"
  note pop = tq_epochs_pop [OF assms(1) k q1_def]
  have ks: "sum_ok cfg (keep_sum_state q1) 1" using assms(2) by (simp add: q1_def)
  obtain st' s' where st': "generic_stream_next cfg t (keep_sum_state q1) s = (Inr st', s')" "sum_ok cfg st' 0"
    "keep_stream_next cfg t (q1, s) = (Inr (), (q1\<lparr>keep_sum_state := st'\<rparr>, s'))" by (rule keep_next_run [OF ks])
  have same: "keep_sum_state q1 = keep_sum_state q" "nsent_this_epoch q1 = nsent_this_epoch q" "drop_sum_state q1 = drop_sum_state q"
    by (simp_all add: q1_def)
  define q2 where "q2 = (if no_kept then q1 else q1\<lparr>keep_sum_state := st'\<rparr>)\<lparr>nsent_this_epoch := nsent_this_epoch q + 1\<rparr>"
  define s2 where "s2 = (if no_kept then s else s')"
  have "triage_dequeue cfg no_kept (q, s) = (Inr (Some t), (q2, s2))"
    using epochs_initialized [OF assms(1)] at w pop(4) n Cons st'(3) same(2)
    by (simp add: triage_dequeue_def assert_initialized_def on_queue_def bind_prog_def return_prog_def is_empty_def check_window_def
        update_queue_def q1_def [symmetric] q2_def s2_def)
  moreover have "tq_list q2 = ts" "tq_epochs cfg q2 (k - 1)" using pop(1,2) Cons by (simp_all add: q2_def)
  moreover have "feed_all cfg (if no_kept then [] else [t]) (keep_sum_state q) s = (Inr (keep_sum_state q2), s2)"
    using st'(1) same(1) by (cases no_kept) (simp_all add: q2_def s2_def feed_all_one del: feed_all.simps(2))
  moreover have "nsent_this_epoch q2 = nsent_this_epoch q + 1" "drop_sum_state q2 = drop_sum_state q" using same(3) by (simp_all add: q2_def)
  moreover have "tq_state q2 = tq_state q" by (simp add: q2_def q1_def)
  ultimately show thesis using that by blast
qed

lemma dequeue_none:
  assumes "tq_epochs cfg q k" "tq_list q = [] \<or> k = 0"
  shows "triage_dequeue cfg no_kept (q, s) =
    ((if tq_list q = [] then Inr None else Inl (Elog_error ''Tried to dequeue a tuple from the wrong summary window'')), (q, s))"
proof (cases "tq_list q")
  case Nil
  have "tq_wf q" using assms(1) by (simp add: tq_epochs_def)
  then have "nelem q = 0" using nelem_tq_list [of q] Nil by simp
  then show ?thesis using Nil epochs_initialized [OF assms(1)]
    by (simp add: triage_dequeue_def assert_initialized_def on_queue_def bind_prog_def return_prog_def is_empty_def)
next
  case (Cons t ts)
  have e: "tq_wf q" "double_rounding (cfg_fl cfg)" "tup_ok cfg q t" "epochnum q < tup_epoch cfg q t" using assms Cons by (simp_all add: tq_epochs_def)
  have n: "0 < nelem q" using nelem_tq_list [OF e(1)] Cons by simp
  have "buf_at q (next_dequeue_ix q) = Inr (Some t)" using buf_at_list [OF e(1), of 0] n Cons tq_ix_0 [OF e(1)] by simp
  moreover have "tup_window_no cfg q (Some t) = Inr (tup_epoch cfg q t)" by (rule tup_ok_window(2) [OF e(2,3)])
  ultimately show ?thesis using Cons epochs_initialized [OF assms(1)] e(4) n
    by (simp add: triage_dequeue_def assert_initialized_def on_queue_def bind_prog_def is_empty_def check_window_def)
qed

text \<open>
  C8. Taking a tuple from the triage queue: an empty queue gives none and does not change; while there are tuples of the current
  epoch the oldest one comes out, it is given to the summary of kept tuples (unless those are disabled), the count of the
  tuples sent goes up, and the rest of the queue is as it was; when only tuples of later epochs are left the call fails and
  changes nothing.
\<close>

theorem triage_dequeue_oldest:
  assumes "tq_epochs cfg q k" "sum_ok cfg (keep_sum_state q) 1"
  shows "case tq_list q of
      [] \<Rightarrow> triage_dequeue cfg no_kept (q, s) = (Inr None, (q, s))
    | t # ts \<Rightarrow>
        if k = 0 then triage_dequeue cfg no_kept (q, s) = (Inl (Elog_error ''Tried to dequeue a tuple from the wrong summary window''), (q, s))
        else \<exists>q' s'. triage_dequeue cfg no_kept (q, s) = (Inr (Some t), (q', s')) \<and> tq_list q' = ts \<and> tq_epochs cfg q' (k - 1) \<and>
          nsent_this_epoch q' = nsent_this_epoch q + 1 \<and> drop_sum_state q' = drop_sum_state q \<and>
          feed_all cfg (if no_kept then [] else [t]) (keep_sum_state q) s = (Inr (keep_sum_state q'), s')"
proof (cases "tq_list q")
  case Nil
  then show ?thesis using dequeue_none [OF assms(1), of no_kept s] by simp
next
  case (Cons t ts)
  show ?thesis
  proof (cases "k = 0")
    case True
    then show ?thesis using Cons dequeue_none [OF assms(1), of no_kept s] by simp
  next
    case False
    then have k: "0 < k" using tq_split_count(2) [of q k] assms(1) by (simp add: tq_epochs_def)
    obtain q' s' where r: "triage_dequeue cfg no_kept (q, s) = (Inr (Some t), (q', s'))" "tq_list q' = ts" "tq_epochs cfg q' (k - 1)"
      "nsent_this_epoch q' = nsent_this_epoch q + 1" "drop_sum_state q' = drop_sum_state q"
      "feed_all cfg (if no_kept then [] else [t]) (keep_sum_state q) s = (Inr (keep_sum_state q'), s')"
      by (rule dequeue_run [OF assms k Cons])
    show ?thesis unfolding Cons list.case if_not_P [OF False] using r by blast
  qed
qed

theorem triage_dequeue_oldest_witness:
  "\<exists>q' s'. triage_dequeue witness_cfg False (witness_tq, witness_process) = (Inr (Some (witness_tuple 100000)), (q', s')) \<and>
     tq_list q' = [witness_tuple 200000] \<and> tq_epochs witness_cfg q' (2 - 1) \<and> nsent_this_epoch q' = nsent_this_epoch witness_tq + 1 \<and>
     drop_sum_state q' = drop_sum_state witness_tq \<and>
     feed_all witness_cfg [witness_tuple 100000] (keep_sum_state witness_tq) witness_process = (Inr (keep_sum_state q'), s')"
proof -
  have "sum_ok witness_cfg (keep_sum_state witness_tq) 1" using witness_sum_ok [of 1] by (simp add: witness_tq_def)
  then show ?thesis using triage_dequeue_oldest [OF witness_tq_epochs, of False witness_process] by simp
qed

end
