(* ===== verification/Triage_Epochs.thy ===== *)
theory Triage_Epochs
  imports Triage_Properties
begin

text \<open>
  The end of an epoch: the search for the tuples of the next one, and the summaries of counting queues, with
  the account of all tuples over any run of the queue.
\<close>

section \<open>The next epoch\<close>

lemma tq_epochs_epochnum [simp]:
  "tq_wf (q\<lparr>epochnum := n\<rparr>) = tq_wf q" "tq_list (q\<lparr>epochnum := n\<rparr>) = tq_list q" "tq_ix (q\<lparr>epochnum := n\<rparr>) = tq_ix q"
  "the_ts cfg (q\<lparr>epochnum := n\<rparr>) = the_ts cfg q" "tup_ok cfg (q\<lparr>epochnum := n\<rparr>) = tup_ok cfg q"
  "the_ts cfg (q\<lparr>next_epoch_ix := i\<rparr>) = the_ts cfg q" "tup_ok cfg (q\<lparr>next_epoch_ix := i\<rparr>) = tup_ok cfg q"
  by (simp_all add: tq_wf_def tq_list_def tq_ix_def the_ts_def tup_ok_def fun_eq_iff split: option.split)

lemma next_index_ix: "tq_wf q \<Longrightarrow> next_index q (tq_ix q i) = tq_ix q (i + 1)"
  using next_index_mod [of q "tq_ix q i"] tq_ix_bounds [of q i] by (simp add: tq_wf_def tq_ix_def mod_add_left_eq mod_add_right_eq algebra_simps)

text \<open>The number of tuples, from the front, that are not past the current epoch.\<close>

abbreviation not_past :: "('m, 'w, 'b, 'p) shed_cfg \<Rightarrow> ('m, 'w, 'b) TriageQueue \<Rightarrow> 'b Tuple list \<Rightarrow> nat" where
  "not_past cfg q l \<equiv> length (takeWhile (\<lambda>t. tup_epoch cfg q t \<le> epochnum q) l)"

lemma advance_epoch_ix_run:
  assumes "tq_wf q" "double_rounding (cfg_fl cfg)" "epoch_params (epochstart q) (epochlen q) (epochnum q)" "nelem q < qlen q"
    "\<forall>t\<in>set (tq_list q). tup_ok cfg q t"
  shows "i \<le> length (tq_list q) \<Longrightarrow> length (tq_list q) - i < n \<Longrightarrow>
    advance_epoch_ix n cfg q (tq_ix q (int i)) = Inr (tq_ix q (int (i + not_past cfg q (drop i (tq_list q)))))"
proof (induction n arbitrary: i)
  case (Suc n)
  have q: "0 < qlen q" "next_enqueue_ix q = tq_ix q (nelem q)" "0 \<le> nelem q" using assms(1) by (simp_all add: tq_wf_def)
  show ?case
  proof (cases "i = length (tq_list q)")
    case True
    then show ?thesis using q(2,3) by simp
  next
    case False
    then have i: "i < length (tq_list q)" "int i < nelem q" using Suc.prems(1) q(3) by simp_all
    let ?t = "tq_list q ! i"
    have "tq_ix q (int i) \<noteq> next_enqueue_ix q" using tq_ix_inj [OF q(1), of "int i" "nelem q"] i(2) assms(4) q by auto
    moreover have "buf_at q (tq_ix q (int i)) = Inr (Some ?t)" using buf_at_list [OF assms(1) _ i(2)] by simp
    moreover have "tup_ts cfg q (Some ?t) = Inr (the_ts cfg q ?t)" by (rule tup_ok_window(1) [OF assms(2)]) (use assms(5) i(1) in simp)
    moreover note past_window_run [OF assms(2,3), of "the_ts cfg q ?t"]
    moreover have "advance_epoch_ix n cfg q (tq_ix q (int (Suc i))) = Inr (tq_ix q (int (Suc i + not_past cfg q (drop (Suc i) (tq_list q)))))"
      by (rule Suc.IH) (use i Suc.prems(2) in simp_all)
    ultimately have "advance_epoch_ix (Suc n) cfg q (tq_ix q (int i)) = (if epochnum q < tup_epoch cfg q ?t then Inr (tq_ix q (int i))
        else Inr (tq_ix q (int (Suc i + not_past cfg q (drop (Suc i) (tq_list q))))))"
      using next_index_ix [OF assms(1), of "int i"] by (simp add: add.commute [of 1])
    moreover have "not_past cfg q (drop i (tq_list q)) = (if epochnum q < tup_epoch cfg q ?t then 0 else Suc (not_past cfg q (drop (Suc i) (tq_list q))))"
      unfolding Cons_nth_drop_Suc [OF i(1), symmetric] by simp
    ultimately show ?thesis by (simp del: advance_epoch_ix.simps add: add.left_commute [of 1])
  qed
qed simp

lemma next_epoch_run:
  assumes "tq_epochs cfg q 0" "nelem q < qlen q" "epoch_params (epochstart q) (epochlen q) (epochnum q + 1)"
  obtains i where "next_epoch cfg (q\<lparr>epochnum := epochnum q + 1\<rparr>) = Inr (q\<lparr>epochnum := epochnum q + 1, next_epoch_ix := i\<rparr>)"
    "tq_epochs cfg (q\<lparr>epochnum := epochnum q + 1, next_epoch_ix := i\<rparr>) (int (length (filter (\<lambda>t. tup_epoch cfg q t = epochnum q + 1) (tq_list q))))"
proof -
  let ?q = "q\<lparr>epochnum := epochnum q + 1\<rparr>" and ?l = "tq_list q" and ?n = "epochnum q + 1"
  let ?p = "\<lambda>t. tup_epoch cfg q t \<le> ?n"
  have e: "tq_wf q" "double_rounding (cfg_fl cfg)" "tq_split q 0" "\<forall>t\<in>set ?l. tup_ok cfg q t" "sorted (map (the_ts cfg q) ?l)"
    "\<forall>t\<in>set ?l. epochnum q < tup_epoch cfg q t" using assms(1) by (simp_all add: tq_epochs_def)
  have l: "0 < i_time (epochlen q)" using assms(3) by (simp add: epoch_params_def)
  have nl: "0 \<le> nelem q" using e(1) by (simp add: tq_wf_def)
  define k where "k = length (takeWhile ?p ?l)"
  have later: "?n < tup_epoch cfg q t" if "t \<in> set (drop k ?l)" for t
  proof -
    have d: "drop k ?l = dropWhile ?p ?l" by (simp add: k_def dropWhile_eq_drop)
    define u us where "u = hd (dropWhile ?p ?l)" and "us = tl (dropWhile ?p ?l)"
    have ne: "dropWhile ?p ?l \<noteq> []" using that unfolding d by (metis empty_iff list.set(1))
    have u: "drop k ?l = u # us" "\<not> ?p u" using ne hd_dropWhile [OF ne] by (simp_all only: d u_def us_def list.collapse not_False_eq_True)
    have "sorted (drop k (map (the_ts cfg q) ?l))" by (rule sorted_wrt_drop [OF e(5)])
    then have "the_ts cfg q u \<le> the_ts cfg q t" using that unfolding drop_map u(1) by auto
    then have "tup_epoch cfg q u \<le> tup_epoch cfg q t" by (rule epoch_of_mono [OF l])
    then show ?thesis using u(2) by simp
  qed
  have now: "tup_epoch cfg q t = ?n" if "t \<in> set (take k ?l)" for t
  proof -
    have "t \<in> set (takeWhile ?p ?l)" using that unfolding k_def by (subst takeWhile_eq_take)
    then have "?p t" "t \<in> set ?l" by (auto dest: set_takeWhileD)
    then show ?thesis using e(6) by force
  qed
  have "filter (\<lambda>t. tup_epoch cfg q t = ?n) (take k ?l) = take k ?l" using now by (simp add: filter_id_conv)
  moreover have "filter (\<lambda>t. tup_epoch cfg q t = ?n) (drop k ?l) = []" using later by (force simp: filter_empty_conv)
  ultimately have "filter (\<lambda>t. tup_epoch cfg q t = ?n) (take k ?l @ drop k ?l) = take k ?l" unfolding filter_append by simp
  moreover have kn: "k \<le> length ?l" unfolding k_def by (rule length_takeWhile_le)
  ultimately have flt: "length (filter (\<lambda>t. tup_epoch cfg q t = ?n) ?l) = k" by simp
  define i where "i = (if k = length ?l then TQ_NOT_AN_INDEX else tq_ix q (int k))"
  have "next_epoch cfg ?q = Inr (?q\<lparr>next_epoch_ix := i\<rparr>)"
  proof (cases "nelem q = 0")
    case True
    then have "?l = []" by (simp add: tq_list_def)
    then have "i = TQ_NOT_AN_INDEX" by (simp add: i_def k_def)
    then show ?thesis using True by (simp add: next_epoch_def)
  next
    case False
    then have ix: "next_epoch_ix q = tq_ix q 0" "next_dequeue_ix q = tq_ix q 0"
      using e(3) tq_ix_0 [OF e(1), symmetric] by (simp_all only: tq_split_def) simp
    have "advance_epoch_ix (Suc (nat (qlen q))) cfg ?q (tq_ix ?q (int 0)) = Inr (tq_ix ?q (int (0 + not_past cfg ?q (drop 0 (tq_list ?q)))))"
      by (rule advance_epoch_ix_run) (use e(1,2,4) assms(2,3) nl in simp_all)
    then have "advance_epoch_ix (Suc (nat (qlen q))) cfg ?q (tq_ix q 0) = Inr (tq_ix q (int k))"
      by (simp add: k_def del: advance_epoch_ix.simps)
    moreover have "tq_ix q (int k) = next_enqueue_ix q \<longleftrightarrow> k = length ?l"
    proof -
      have "0 < qlen q" "next_enqueue_ix q = tq_ix q (nelem q)" using e(1) by (simp_all add: tq_wf_def)
      moreover have "int k \<le> nelem q" using kn nl by simp
      ultimately have "tq_ix q (int k) = next_enqueue_ix q \<longleftrightarrow> int k = nelem q" using tq_ix_inj [of q "int k" "nelem q"] nl assms(2) by auto
      then show ?thesis using nl by auto
    qed
    ultimately show ?thesis using False ix by (simp add: next_epoch_def i_def del: advance_epoch_ix.simps length_tq_list)
  qed
  moreover have "tq_epochs cfg (?q\<lparr>next_epoch_ix := i\<rparr>) (int k)"
  proof -
    have "tq_split (?q\<lparr>next_epoch_ix := i\<rparr>) (int k)" using kn nl by (auto simp: tq_split_def i_def)
    then show ?thesis using e(1,2,4,5) assms(3) now later by (simp add: tq_epochs_def)
  qed
  ultimately show thesis using that [of i] flt by simp
qed

text \<open>The summaries are ready when the tuples of the current epoch have left the queue.\<close>

lemma ready_iff:
  assumes "tq_epochs cfg q k"
  shows "next_dequeue_ix q = next_epoch_ix q \<or> nelem q = 0 \<longleftrightarrow> k = 0"
proof -
  have e: "tq_wf q" "tq_split q k" using assms by (simp_all add: tq_epochs_def)
  have q: "0 < qlen q" "nelem q \<le> qlen q" "0 \<le> nelem q" "next_dequeue_ix q = tq_ix q 0" "0 \<le> next_dequeue_ix q" using e(1) tq_ix_0 [OF e(1)] by (simp_all add: tq_wf_def)
  have k: "0 \<le> k" "k \<le> nelem q" using tq_split_count [OF e] by simp_all
  show ?thesis
  proof (cases "next_epoch_ix q = TQ_NOT_AN_INDEX \<and> k = nelem q")
    case True
    then show ?thesis using q(5) by (auto simp: TQ_NOT_AN_INDEX_def)
  next
    case False
    then have "k < nelem q" "next_epoch_ix q = tq_ix q k" using e(2) by (auto simp: tq_split_def)
    then show ?thesis using tq_ix_inj [OF q(1), of 0 k] k q(2,4) by auto
  qed
qed

section \<open>Full queues\<close>

text \<open>In a full queue the first free slot is the oldest tuple's: the loops that stop there do nothing.\<close>

lemma full_ix: "tq_wf q \<Longrightarrow> nelem q = qlen q \<Longrightarrow> next_enqueue_ix q = next_dequeue_ix q"
  by (simp add: tq_wf_def tq_ix_def)

lemma drop_rest_full:
  assumes "tq_wf q" "nelem q = qlen q"
  shows "drop_rest_of_summary_window cfg (q, s) = (Inr 0, (q, s))"
  using full_ix [OF assms] by (simp add: drop_rest_of_summary_window_def bind_prog_def on_queue_def return_prog_def)

text \<open>All tuples are then taken to be of the next epoch, whatever their timestamps.\<close>

lemma next_epoch_full:
  assumes "tq_epochs cfg q 0" "nelem q = qlen q"
  shows "next_epoch cfg (q\<lparr>epochnum := n\<rparr>) = Inr (q\<lparr>epochnum := n, next_epoch_ix := TQ_NOT_AN_INDEX\<rparr>)"
proof -
  have wf: "tq_wf q" using assms(1) by (simp add: tq_epochs_def)
  have "0 < nelem q" using wf assms(2) by (simp add: tq_wf_def)
  then have "next_epoch_ix q = next_dequeue_ix q" using ready_iff [OF assms(1)] by auto
  then show ?thesis using full_ix [OF wf assms(2)] \<open>0 < nelem q\<close> by (simp add: next_epoch_def)
qed

text \<open>The start of the next epoch in both cases.\<close>

lemma next_epoch_cases:
  assumes "tq_epochs cfg q 0" "epoch_params (epochstart q) (epochlen q) (epochnum q + 1)"
  obtains i where "next_epoch cfg (q\<lparr>epochnum := epochnum q + 1\<rparr>) = Inr (q\<lparr>epochnum := epochnum q + 1, next_epoch_ix := i\<rparr>)"
    "if nelem q < qlen q
     then tq_epochs cfg (q\<lparr>epochnum := epochnum q + 1, next_epoch_ix := i\<rparr>) (int (length (filter (\<lambda>t. tup_epoch cfg q t = epochnum q + 1) (tq_list q))))
     else i = TQ_NOT_AN_INDEX"
proof (cases "nelem q < qlen q")
  case True
  obtain i where "next_epoch cfg (q\<lparr>epochnum := epochnum q + 1\<rparr>) = Inr (q\<lparr>epochnum := epochnum q + 1, next_epoch_ix := i\<rparr>)"
    "tq_epochs cfg (q\<lparr>epochnum := epochnum q + 1, next_epoch_ix := i\<rparr>) (int (length (filter (\<lambda>t. tup_epoch cfg q t = epochnum q + 1) (tq_list q))))"
    by (rule next_epoch_run [OF assms(1) True assms(2)])
  then show thesis using that [of i] True by simp
next
  case False
  then have "nelem q = qlen q" using assms(1) by (simp add: tq_epochs_def tq_wf_def)
  then show thesis using next_epoch_full [OF assms(1)] that [of TQ_NOT_AN_INDEX] by simp
qed

section \<open>Counting queues\<close>

text \<open>A stream that has counted \<open>n\<close> tuples.\<close>

definition counts :: "('m, 'w, 'b) generic_stream_state \<Rightarrow> int \<Rightarrow> bool" where
  "counts st n \<longleftrightarrow> stream_ok st \<and> stype (gs_ds st) = ST_COUNT \<and> stream_size st = n \<and> n < 2 ^ 31"

lemma counts_feed:
  assumes "counts st n" "n + int (length ts) < 2 ^ 31" "feed_all cfg ts st s = (Inr st', s')"
  shows "counts st' (n + int (length (data_tuples ts)))"
proof -
  have "int (length (data_tuples ts)) \<le> int (length ts)" by simp
  then have "n + int (length (data_tuples ts)) < 2 ^ 31" using assms(2) by linarith
  then show ?thesis using feed_all_run [of st cfg ts s] assms by (auto simp: counts_def)
qed

text \<open>The summary of the current epoch for a stream that has counted \<open>n\<close> tuples.\<close>

definition epoch_synopsis :: "('m, 'w, 'b) TriageQueue \<Rightarrow> ('m, 'w, 'b) generic_stream_state \<Rightarrow> int \<Rightarrow> ('m, 'w, 'b) SummaryTuples" where
  "epoch_synopsis q st n = \<lparr>tuples_produced = 0, st_epochnum = epochnum q,
     st_epochstart = epochstart q + (epochnum q - 1) * i_time (epochlen q), st_epochend = epochstart q + epochnum q * i_time (epochlen q),
     summary_tdesc = gs_output_desc st, st_summary = Sum_count n\<rparr>"

lemma get_synopsis_run:
  assumes "double_rounding (cfg_fl cfg)" "epoch_params (epochstart q) (epochlen q) (epochnum q)" "counts (get_state q) n"
    "getSummarizer (syn_gen q) (tq_input_desc q) (tq_summary_desc q) = Inr fresh"
  obtains s' where "get_synopsis cfg get_state set_state (q, s) = (Inr (epoch_synopsis q (get_state q) n), (set_state fresh q, s'))"
proof -
  have c: "stream_ok (get_state q)" "stype (gs_ds (get_state q)) = ST_COUNT" "stream_size (get_state q) < 2 ^ 31" "stream_size (get_state q) = n"
    using assms(3) by (simp_all add: counts_def)
  obtain s' where "generic_stream_done cfg (get_state q) s = (Inr (Sum_count (stream_size (get_state q))), s')" by (rule count_done [OF c(1-3)])
  then have "get_synopsis cfg get_state set_state (q, s) = (Inr (epoch_synopsis q (get_state q) n), (set_state fresh q, s'))"
    using simple_window_end_run [OF assms(1,2)] assms(4) c(4)
    by (simp add: get_synopsis_def epoch_synopsis_def on_queue_def update_queue_def bind_prog_def return_prog_def)
  then show thesis by (rule that)
qed

lemma get_summaries_run:
  assumes "tq_epochs cfg q 0" "epoch_params (epochstart q) (epochlen q) (epochnum q + 1)"
    "getSummarizer (syn_gen q) (tq_input_desc q) (tq_summary_desc q) = Inr fresh" "counts (keep_sum_state q) a" "counts (drop_sum_state q) b"
  obtains kept dropped q' s' where "triage_get_summaries cfg (q, s) = (Inr (kept, dropped), (q', s'))"
    "st_summary kept = Sum_count a" "st_summary dropped = Sum_count b" "st_epochnum kept = epochnum q" "st_epochnum dropped = epochnum q"
    "epochnum q' = epochnum q + 1" "tq_list q' = tq_list q" "keep_sum_state q' = fresh" "drop_sum_state q' = fresh" "nsent_this_epoch q' = 0" "nelem q' = nelem q"
    "if nelem q < qlen q then tq_epochs cfg q' (int (length (filter (\<lambda>t. tup_epoch cfg q t = epochnum q + 1) (tq_list q))))
     else next_epoch_ix q' = TQ_NOT_AN_INDEX"
proof -
  have e: "double_rounding (cfg_fl cfg)" "epoch_params (epochstart q) (epochlen q) (epochnum q)" using assms(1) by (simp_all add: tq_epochs_def)
  define q1 where "q1 = q\<lparr>keep_sum_state := fresh\<rparr>"
  define q2 where "q2 = q1\<lparr>drop_sum_state := fresh\<rparr>"
  obtain s1 where s1: "get_synopsis cfg keep_sum_state (\<lambda>st q. q\<lparr>keep_sum_state := st\<rparr>) (q, s) = (Inr (epoch_synopsis q (keep_sum_state q) a), (q1, s1))"
    unfolding q1_def by (rule get_synopsis_run [where get_state = keep_sum_state, OF e assms(4,3)])
  have same: "epoch_params (epochstart q1) (epochlen q1) (epochnum q1)" "getSummarizer (syn_gen q1) (tq_input_desc q1) (tq_summary_desc q1) = Inr fresh"
    "counts (drop_sum_state q1) b" using e(2) assms(3,5) by (simp_all add: q1_def)
  obtain s2 where s2: "get_synopsis cfg drop_sum_state (\<lambda>st q. q\<lparr>drop_sum_state := st\<rparr>) (q1, s1) = (Inr (epoch_synopsis q1 (drop_sum_state q1) b), (q2, s2))"
    unfolding q2_def by (rule get_synopsis_run [where get_state = drop_sum_state, OF e(1) same(1,3,2)])
  have q2: "tq_epochs cfg q2 0" "nelem q2 = nelem q" "epoch_params (epochstart q2) (epochlen q2) (epochnum q2 + 1)" "tq_list q2 = tq_list q"
    "epochnum q2 = epochnum q" "epochnum q1 = epochnum q" "the_ts cfg q2 = the_ts cfg q" "epochstart q2 = epochstart q" "epochlen q2 = epochlen q"
    "qlen q2 = qlen q" using assms(1,2) by (simp_all add: q2_def q1_def)
  obtain i where i: "next_epoch cfg (q2\<lparr>epochnum := epochnum q2 + 1\<rparr>) = Inr (q2\<lparr>epochnum := epochnum q2 + 1, next_epoch_ix := i\<rparr>)"
    "if nelem q2 < qlen q2
     then tq_epochs cfg (q2\<lparr>epochnum := epochnum q2 + 1, next_epoch_ix := i\<rparr>) (int (length (filter (\<lambda>t. tup_epoch cfg q2 t = epochnum q2 + 1) (tq_list q2))))
     else i = TQ_NOT_AN_INDEX" by (rule next_epoch_cases [OF q2(1,3)])
  define q3 where "q3 = q2\<lparr>epochnum := epochnum q2 + 1, next_epoch_ix := i\<rparr>"
  note run = that [of _ _ "q3\<lparr>nsent_this_epoch := 0\<rparr>" s2]
  show thesis
  proof (rule run)
    show "triage_get_summaries cfg (q, s) = (Inr ((epoch_synopsis q (keep_sum_state q) a),
        (epoch_synopsis q1 (drop_sum_state q1) b)), (q3\<lparr>nsent_this_epoch := 0\<rparr>, s2))"
      using s1 s2 i(1) epochs_initialized [OF assms(1)] ready_iff [OF assms(1)]
      by (simp add: triage_get_summaries_def assert_initialized_def on_queue_def update_queue_def change_queue_def bind_prog_def return_prog_def q3_def [symmetric])
    show "if nelem q < qlen q then tq_epochs cfg (q3\<lparr>nsent_this_epoch := 0\<rparr>) (int (length (filter (\<lambda>t. tup_epoch cfg q t = epochnum q + 1) (tq_list q))))
        else next_epoch_ix (q3\<lparr>nsent_this_epoch := 0\<rparr>) = TQ_NOT_AN_INDEX"
      using i(2) q2(2,4-) by (cases "nelem q < qlen q") (simp_all add: q3_def)
  qed (use q2 in \<open>simp_all add: q3_def epoch_synopsis_def\<close>, simp_all add: q2_def q1_def)
qed

section \<open>Dropping the rest of an epoch\<close>

text \<open>Unless the queue is full, all tuples of the current epoch go to the summary of dropped tuples, and their number is returned.\<close>

lemma drop_rest_loop_run:
  assumes "tq_epochs cfg q k" "nelem q < qlen q" "sum_ok cfg (drop_sum_state q) k" "nat k < n"
  shows "\<exists>d q' s'. drop_rest_loop n cfg m (q, s) = (Inr (m + k), (q', s')) \<and> drops cfg d (q, s) (q', s') \<and> tq_epochs cfg q' 0 \<and> int (length d) = k"
  using assms
proof (induction n arbitrary: q s k m)
  case (Suc n)
  have wf: "tq_wf q" "tq_split q k" using Suc.prems(1) by (simp_all add: tq_epochs_def)
  have k0: "0 \<le> k" "k \<le> nelem q" using tq_split_count [OF wf] by simp_all
  have q: "0 < qlen q" "next_enqueue_ix q = tq_ix q (nelem q)" "next_dequeue_ix q = tq_ix q 0" using wf(1) tq_ix_0 [OF wf(1)] by (simp_all add: tq_wf_def)
  have "next_dequeue_ix q = next_enqueue_ix q \<longleftrightarrow> nelem q = 0" using tq_ix_inj [OF q(1), of 0 "nelem q"] q k0 Suc.prems(2) by auto
  then have more: "next_dequeue_ix q \<noteq> next_enqueue_ix q \<and> next_dequeue_ix q \<noteq> next_epoch_ix q \<longleftrightarrow> k \<noteq> 0"
    using ready_iff [OF Suc.prems(1)] by auto
  show ?case
  proof (cases "k = 0")
    case True
    then show ?thesis using more Suc.prems(1)
      by (intro exI [of _ "[]"] exI [of _ q] exI [of _ s]) (auto simp: bind_prog_def on_queue_def return_prog_def drops_refl)
  next
    case False
    then have k: "0 < k" using k0 by simp
    obtain q1 s1 where 1: "drop_oldest cfg (q, s) = (Inr (), (q1, s1))" "drops cfg [hd (tq_list q)] (q, s) (q1, s1)" "tq_epochs cfg q1 (k - 1)"
      "sum_ok cfg (drop_sum_state q1) (k - 1)" by (rule drop_oldest_drops [OF Suc.prems(1) k Suc.prems(3) k])
    have "nelem q1 < qlen q1" "nat (k - 1) < n" using drop_oldest_size [OF 1(1)] Suc.prems(2,4) k by auto
    then obtain d q2 s2 where 2: "drop_rest_loop n cfg (m + 1) (q1, s1) = (Inr (m + 1 + (k - 1)), (q2, s2))" "drops cfg d (q1, s1) (q2, s2)"
      "tq_epochs cfg q2 0" "int (length d) = k - 1" using Suc.IH [OF 1(3) _ 1(4)] by blast
    have "drop_rest_loop (Suc n) cfg m (q, s) = (Inr (m + k), (q2, s2))" using more False 1(1) 2(1) by (simp add: bind_prog_def on_queue_def)
    then show ?thesis using drops_trans [OF 1(2) 2(2)] 2(3,4) by (intro exI [of _ "[hd (tq_list q)] @ d"] exI [of _ q2] exI [of _ s2]) simp
  qed
qed simp

lemma drop_rest_run:
  assumes "tq_epochs cfg q k" "nelem q < qlen q" "sum_ok cfg (drop_sum_state q) k"
  shows "\<exists>d q' s'. drop_rest_of_summary_window cfg (q, s) = (Inr k, (q', s')) \<and> drops cfg d (q, s) (q', s') \<and> tq_epochs cfg q' 0 \<and> int (length d) = k"
proof -
  have "tq_wf q" "tq_split q k" using assms(1) by (simp_all add: tq_epochs_def)
  then have "nat k < Suc (nat (qlen q))" using tq_split_count(3) [of q k] assms(2) by simp
  then show ?thesis using drop_rest_loop_run [OF assms, of _ 0 s]
    by (simp add: drop_rest_of_summary_window_def bind_prog_def on_queue_def del: drop_rest_loop.simps)
qed

section \<open>An epoch from its first tuple to its summaries\<close>

text \<open>
  Runs of the queue within an epoch: \<open>ins\<close> are the tuples the wrapper process has added, \<open>outs\<close> those it has taken out, \<open>no_kept\<close> says that the
  summaries of kept tuples are disabled. A tuple may be added under the conditions of \<open>next_tuple\<close> and \<open>can_shed\<close>; a call that ends in an error has not
  added it. A call that writes outside the array ends the run.
\<close>

inductive triage_run :: "('m, 'w, 'b, 'p) shed_cfg \<Rightarrow> bool \<Rightarrow> ('m, 'w, 'b) tq \<Rightarrow> 'b Tuple list \<Rightarrow> 'b Tuple list \<Rightarrow> ('m, 'w, 'b) tq \<Rightarrow> bool"
  for cfg no_kept qs0 where
  run_start: "triage_run cfg no_kept qs0 [] [] qs0"
| run_enqueue: "triage_run cfg no_kept qs0 ins outs (q, s) \<Longrightarrow> next_tuple cfg q t \<Longrightarrow> can_shed cfg q t \<Longrightarrow>
    triage_enqueue cfg t (q, s) = (r, qs') \<Longrightarrow> r \<noteq> Inl (Out_of_bounds ''q->buf'') \<Longrightarrow>
    triage_run cfg no_kept qs0 (case r of Inr _ \<Rightarrow> ins @ [t] | Inl _ \<Rightarrow> ins) outs qs'"
| run_dequeue: "triage_run cfg no_kept qs0 ins outs (q, s) \<Longrightarrow> sum_ok cfg (keep_sum_state q) 1 \<Longrightarrow>
    triage_dequeue cfg no_kept (q, s) = (r, qs') \<Longrightarrow> triage_run cfg no_kept qs0 ins (case r of Inr (Some t) \<Rightarrow> outs @ [t] | _ \<Rightarrow> outs) qs'"

abbreviation data_count :: "'b Tuple list \<Rightarrow> int" where
  "data_count ts \<equiv> int (length (data_tuples ts))"

text \<open>The tuples that are summarized as kept.\<close>

abbreviation kept_count :: "bool \<Rightarrow> 'b Tuple list \<Rightarrow> int" where
  "kept_count no_kept outs \<equiv> (if no_kept then 0 else data_count outs)"

definition run_inv :: "('m, 'w, 'b, 'p) shed_cfg \<Rightarrow> bool \<Rightarrow> ('m, 'w, 'b) TriageQueue \<Rightarrow> 'b Tuple list \<Rightarrow> 'b Tuple list \<Rightarrow> ('m, 'w, 'b) TriageQueue \<Rightarrow> bool" where
  "run_inv cfg no_kept q0 ins outs q \<longleftrightarrow> (\<exists>k. tq_epochs cfg q k) \<and> tq_state q = TQS_HAVE_TS \<and> counts (keep_sum_state q) (kept_count no_kept outs) \<and>
     (\<exists>c. counts (drop_sum_state q) c \<and> data_count (tq_list q0) + data_count ins = data_count outs + c + data_count (tq_list q))"

lemma run_invI:
  "tq_epochs cfg q k \<Longrightarrow> tq_state q = TQS_HAVE_TS \<Longrightarrow> counts (keep_sum_state q) (kept_count no_kept outs) \<Longrightarrow> counts (drop_sum_state q) c \<Longrightarrow>
   data_count (tq_list q0) + data_count ins = data_count outs + c + data_count (tq_list q) \<Longrightarrow> run_inv cfg no_kept q0 ins outs q"
  unfolding run_inv_def by blast

lemma sheds_account:
  assumes "sheds cfg l (q, s) (q', s')" "counts (drop_sum_state q) c" "sum_ok cfg (drop_sum_state q) (int (length l))"
  obtains c' where "counts (drop_sum_state q') c'" "c + data_count l = c' + data_count (tq_list q')" "keep_sum_state q' = keep_sum_state q"
proof -
  obtain d p rest where d: "l = d @ rest" "tq_list q' = p @ rest" "feed_all cfg d (drop_sum_state q) s = (Inr (drop_sum_state q'), s')"
    "p = [] \<or> (\<exists>u. p = [u] \<and> HeapTupleIsPunct u)" "keep_sum_state q' = keep_sum_state q"
    using assms(1) by (auto simp: sheds_def same_setup_def)
  have "c + int (length d) < 2 ^ 31" using assms(2,3) d(1) by (simp add: sum_ok_def counts_def)
  then have "counts (drop_sum_state q') (c + data_count d)" by (rule counts_feed [OF assms(2) _ d(3)])
  moreover have "c + data_count l = c + data_count d + data_count (tq_list q')" using d(1,2,4) by auto
  ultimately show thesis using that d(5) by blast
qed

lemma run_inv_enqueue:
  assumes "run_inv cfg no_kept q0 ins outs q" "next_tuple cfg q t" "can_shed cfg q t" "triage_enqueue cfg t (q, s) = (r, (q', s'))"
    "r \<noteq> Inl (Out_of_bounds ''q->buf'')"
  shows "run_inv cfg no_kept q0 (case r of Inr _ \<Rightarrow> ins @ [t] | Inl _ \<Rightarrow> ins) outs q'"
proof -
  obtain k c where i: "tq_epochs cfg q k" "tq_state q = TQS_HAVE_TS" "counts (keep_sum_state q) (kept_count no_kept outs)" "counts (drop_sum_state q) c"
    "data_count (tq_list q0) + data_count ins = data_count outs + c + data_count (tq_list q)" using assms(1) unfolding run_inv_def by blast
  have wf: "tq_wf q" using i(1) by (simp add: tq_epochs_def)
  note run = triage_enqueue_run [OF first_tuple_later [OF i(2)] i(1) assms(2,3), of s]
  show ?thesis
  proof (cases r)
    case (Inl e)
    then have "q' = q" using run assms(4,5) by (auto simp: shed_outcome_def split: if_splits)
    then show ?thesis using assms(1) Inl by simp
  next
    case (Inr u)
    then obtain k' where r: "sheds cfg (tq_list q @ [t]) (q, s) (q', s')" "tq_state q' = TQS_HAVE_TS" "tq_epochs cfg q' k'"
      using run assms(4) by (auto simp: shed_outcome_def split: if_splits)
    have "sum_ok cfg (drop_sum_state q) (int (length (tq_list q @ [t])))"
      using assms(3) nelem_tq_list [OF wf] by (simp add: can_shed_def add.commute [of 1] del: length_tq_list)
    then obtain c' where "counts (drop_sum_state q') c'" "c + data_count (tq_list q @ [t]) = c' + data_count (tq_list q')" "keep_sum_state q' = keep_sum_state q"
      by (rule sheds_account [OF r(1) i(4)])
    moreover have "data_count (tq_list q0) + data_count (ins @ [t]) = data_count outs + c' + data_count (tq_list q')"
      using calculation(2) i(5) by (cases "HeapTupleIsPunct t") simp_all
    ultimately show ?thesis using run_invI [OF r(3,2)] i(3) unfolding Inr sum.case by simp
  qed
qed

lemma run_inv_dequeue:
  assumes "run_inv cfg no_kept q0 ins outs q" "sum_ok cfg (keep_sum_state q) 1" "triage_dequeue cfg no_kept (q, s) = (r, (q', s'))"
  shows "run_inv cfg no_kept q0 ins (case r of Inr (Some t) \<Rightarrow> outs @ [t] | _ \<Rightarrow> outs) q'"
proof -
  obtain k c where i: "tq_epochs cfg q k" "tq_state q = TQS_HAVE_TS" "counts (keep_sum_state q) (kept_count no_kept outs)" "counts (drop_sum_state q) c"
    "data_count (tq_list q0) + data_count ins = data_count outs + c + data_count (tq_list q)" using assms(1) unfolding run_inv_def by blast
  have k: "0 \<le> k" using i(1) tq_split_count(2) by (auto simp: tq_epochs_def)
  show ?thesis
  proof (cases "tq_list q = [] \<or> k = 0")
    case True
    then have "q' = q \<and> (r = Inr None \<or> (\<exists>e. r = Inl e))" using dequeue_none [OF i(1), of no_kept s] assms(3) by (auto split: if_splits)
    then show ?thesis using assms(1) by auto
  next
    case False
    then obtain t ts where l: "tq_list q = t # ts" by (cases "tq_list q") auto
    have "0 < k" using False k by simp
    then obtain q2 s2 where r: "triage_dequeue cfg no_kept (q, s) = (Inr (Some t), (q2, s2))" "tq_list q2 = ts" "tq_epochs cfg q2 (k - 1)"
      "drop_sum_state q2 = drop_sum_state q" "feed_all cfg (if no_kept then [] else [t]) (keep_sum_state q) s = (Inr (keep_sum_state q2), s2)"
      "tq_state q2 = tq_state q" using dequeue_run [OF i(1) assms(2) _ l, of no_kept s] by metis
    have "kept_count no_kept outs + int (length (if no_kept then [] else [t])) < 2 ^ 31" using assms(2) i(3) by (cases no_kept) (simp_all add: sum_ok_def counts_def)
    then have "counts (keep_sum_state q2) (kept_count no_kept outs + data_count (if no_kept then [] else [t]))" by (rule counts_feed [OF i(3) _ r(5)])
    moreover have "kept_count no_kept outs + data_count (if no_kept then [] else [t]) = kept_count no_kept (outs @ [t])" by simp
    ultimately have "counts (keep_sum_state q2) (kept_count no_kept (outs @ [t]))" by (simp only:)
    moreover have "data_count (tq_list q0) + data_count ins = data_count (outs @ [t]) + c + data_count (tq_list q2)" using i(5) l r(2) by simp
    moreover have "q' = q2" "r = Inr (Some t)" using assms(3) r(1) by simp_all
    ultimately show ?thesis using run_invI [OF r(3), of no_kept "outs @ [t]" c q0 ins] r(4,6) i(2,4) by (simp only: sum.case option.case)
  qed
qed

lemma run_inv_run:
  assumes "triage_run cfg no_kept (q0, s0) ins outs qs" "tq_epochs cfg q0 k" "tq_state q0 = TQS_HAVE_TS" "counts (keep_sum_state q0) 0" "counts (drop_sum_state q0) 0"
  shows "run_inv cfg no_kept q0 ins outs (fst qs)"
  using assms(1)
proof (induction rule: triage_run.induct)
  case run_start
  then show ?case using assms(2-) by (auto simp: run_inv_def)
next
  case (run_enqueue ins outs q s t r qs')
  then show ?case using run_inv_enqueue [of cfg no_kept q0 ins outs q t s r] by (cases qs') simp
next
  case (run_dequeue ins outs q s r qs')
  then show ?case using run_inv_dequeue [of cfg no_kept q0 ins outs q s r] by (cases qs') simp
qed


text \<open>
  The full queue of two tuples takes a tuple of the next second, for which it drops the oldest one, and delivers the other: then
  its summaries are ready.
\<close>

definition witness_enqueued :: "unit outcome \<times> (unit, unit, unit Datum option list) tq" where
  "witness_enqueued = triage_enqueue witness_cfg (witness_tuple 1100000) (witness_tq, witness_process)"

definition witness_dequeued :: "unit Datum option list Tuple option outcome \<times> (unit, unit, unit Datum option list) tq" where
  "witness_dequeued = triage_dequeue witness_cfg False (snd witness_enqueued)"

lemma witness_run: "triage_run witness_cfg False (witness_tq, witness_process) [witness_tuple 1100000] [witness_tuple 200000] (snd witness_dequeued)"
proof -
  obtain q1 s1 where e: "snd witness_enqueued = (q1, s1)" by (cases "snd witness_enqueued")
  have "fst witness_enqueued = Inr ()" by code_simp
  then have enq: "triage_enqueue witness_cfg (witness_tuple 1100000) (witness_tq, witness_process) = (Inr (), (q1, s1))"
    using e unfolding witness_enqueued_def [symmetric] by (metis prod.collapse)
  have "triage_run witness_cfg False (witness_tq, witness_process) [witness_tuple 1100000] [] (q1, s1)"
    using run_enqueue [OF run_start witness_next_tuple enq, of False] by simp
  moreover have "keep_sum_state (fst (snd witness_enqueued)) = witness_stream" "fst witness_dequeued = Inr (Some (witness_tuple 200000))" by code_simp+
  moreover have "triage_dequeue witness_cfg False (q1, s1) = (fst witness_dequeued, snd witness_dequeued)" by (simp add: witness_dequeued_def e)
  ultimately show ?thesis using run_dequeue witness_sum_ok [of 1] e by fastforce
qed


end
