(* ===== verification/Skew_Buffer.thy ===== *)
theory Skew_Buffer
  imports TCQ_Prelude
begin

text \<open>
  The transient skew buffer of the fault-tolerant Flux operators (\<^verbatim>\<open>src/src/backend/executor/tsb.c\<close>):
  for every partition a doubly linked list of tuples that wait for acknowledgement, with cursors for the producer and
  for the primary and secondary consumer, a free list, and one reserved entry per partition.
  Pointers to entries are indexes into \<open>ents\<close>, the two arrays that \<^verbatim>\<open>init_TSB\<close> allocates, one after the other;
  \<open>None\<close> is \<^verbatim>\<open>NULL\<close>. The field \<^verbatim>\<open>htup\<close> of an entry is not used by the code and left out.
  \<^verbatim>\<open>sleep\<close> and \<^verbatim>\<open>elog(DEBUG1)\<close> have no effect on the state.
\<close>

section \<open>Data\<close>

type_synonym ptr = "nat option"

definition TSB_PRODUCED :: int where "TSB_PRODUCED = 1"
definition TSB_PRIMARY :: int where "TSB_PRIMARY = 2"
definition TSB_SECONDARY :: int where "TSB_SECONDARY = 4"
definition PUNCTUATION :: int where "PUNCTUATION = -100"

text \<open>A \<^verbatim>\<open>result\<close>: a heap tuple, possibly \<^verbatim>\<open>NULL\<close>, or another type with its number.\<close>

datatype 'b tsb_result = Res_heap "'b option" | Res_other int

record 'b TSB_Entry =
  ent_next :: ptr
  ent_prev :: ptr
  seqnum :: int
  rtup :: "'b tsb_result"
  dmask :: int

record 'b TSB =
  max_size :: int
  tsb_size :: int
  num_parts :: nat
  tsb_counts :: "int list"
  tsb_table :: "ptr list"
  prod_ack :: "ptr list"
  prim_ack :: "ptr list"
  sec_ack :: "ptr list"
  p_head :: "ptr list"
  s_head :: "ptr list"
  f_head :: ptr
  f_tail :: ptr
  last_ents :: "ptr list"
  tsb_shouldFree :: bool
  ents :: "'b TSB_Entry list"
  tsb_freed :: "'b list"

text \<open>The fields of a \<^verbatim>\<open>TupleTableSlot\<close> that the buffer uses.\<close>

record 'b tsb_slot =
  slot_val :: "'b option"
  slot_shouldFree :: bool

section \<open>Memory access\<close>

type_synonym 'b fld = "('b TSB \<Rightarrow> ptr list) \<times> ((ptr list \<Rightarrow> ptr list) \<Rightarrow> 'b TSB \<Rightarrow> 'b TSB)"

definition ent :: "ptr \<Rightarrow> ('b TSB, 'b TSB_Entry) prog" where
  "ent p = (\<lambda>t. case p of
       None \<Rightarrow> (Inl (Out_of_bounds ''NULL entry''), t)
     | Some a \<Rightarrow> if a < length (ents t) then (Inr (ents t ! a), t) else (Inl (Out_of_bounds ''entry''), t))"

definition upd :: "ptr \<Rightarrow> ('b TSB_Entry \<Rightarrow> 'b TSB_Entry) \<Rightarrow> ('b TSB, unit) prog" where
  "upd p f = (\<lambda>t. case p of
       None \<Rightarrow> (Inl (Out_of_bounds ''NULL entry''), t)
     | Some a \<Rightarrow> if a < length (ents t) then (Inr (), t\<lparr>ents := (ents t)[a := f (ents t ! a)]\<rparr>) else (Inl (Out_of_bounds ''entry''), t))"

definition elem_at :: "('b TSB \<Rightarrow> 'a list) \<Rightarrow> nat \<Rightarrow> ('b TSB, 'a) prog" where
  "elem_at f i = (\<lambda>t. if i < length (f t) then (Inr (f t ! i), t) else (Inl (Out_of_bounds ''partition''), t))"

definition set_ptr :: "'b fld \<Rightarrow> nat \<Rightarrow> ptr \<Rightarrow> ('b TSB, unit) prog" where
  "set_ptr fld i p = (\<lambda>t. if i < length (fst fld t) then (Inr (), snd fld (\<lambda>ps. ps[i := p]) t) else (Inl (Out_of_bounds ''partition''), t))"

text \<open>The arrays of pointers, with their updates.\<close>

definition table_fld :: "'b fld" where "table_fld = (tsb_table, tsb_table_update)"
definition prod_ack_fld :: "'b fld" where "prod_ack_fld = (prod_ack, prod_ack_update)"
definition prim_ack_fld :: "'b fld" where "prim_ack_fld = (prim_ack, prim_ack_update)"
definition sec_ack_fld :: "'b fld" where "sec_ack_fld = (sec_ack, sec_ack_update)"
definition p_head_fld :: "'b fld" where "p_head_fld = (p_head, p_head_update)"
definition s_head_fld :: "'b fld" where "s_head_fld = (s_head, s_head_update)"
definition last_ents_fld :: "'b fld" where "last_ents_fld = (last_ents, last_ents_update)"

definition add_count :: "nat \<Rightarrow> int \<Rightarrow> ('b TSB, unit) prog" where
  "add_count i d = (\<lambda>t. if i < length (tsb_counts t) then (Inr (), t\<lparr>tsb_counts := (tsb_counts t)[i := tsb_counts t ! i + d]\<rparr>)
     else (Inl (Out_of_bounds ''partition''), t))"

section \<open>Entries\<close>

definition clear_entry :: "'b TSB_Entry \<Rightarrow> 'b TSB_Entry" where
  "clear_entry e = e\<lparr>seqnum := -1, dmask := -1, ent_next := None, ent_prev := None\<rparr>"

definition alloc_entry :: "('b TSB, ptr) prog" where
  "alloc_entry = (\<lambda>t.
     if f_tail t = None then (Inr None, t)
     else
       bind_prog (if f_head t = f_tail t then modify_prog (\<lambda>t. t\<lparr>f_head := None, f_tail := None\<rparr>)
                  else bind_prog (ent (f_tail t)) (\<lambda>e. modify_prog (\<lambda>t. t\<lparr>f_tail := ent_next e\<rparr>))) (\<lambda>_.
       bind_prog (modify_prog (\<lambda>t. t\<lparr>tsb_size := tsb_size t + 1\<rparr>)) (\<lambda>_.
       bind_prog (upd (f_tail t) clear_entry) (\<lambda>_.
         return_prog (f_tail t)))) t)"

definition alloc_entry_w_last :: "nat \<Rightarrow> ('b TSB, ptr) prog" where
  "alloc_entry_w_last part_no =
     bind_prog alloc_entry (\<lambda>rentry.
       if rentry \<noteq> None then return_prog rentry
       else
         bind_prog (elem_at last_ents part_no) (\<lambda>rentry.
           if rentry \<noteq> None then
             bind_prog (upd rentry clear_entry) (\<lambda>_.
             bind_prog (set_ptr last_ents_fld part_no None) (\<lambda>_. return_prog rentry))
           else return_prog None))"

definition free_entry :: "ptr \<Rightarrow> ('b TSB, unit) prog" where
  "free_entry entry = (\<lambda>t.
     bind_prog (upd entry (\<lambda>e. e\<lparr>ent_next := f_tail t\<rparr>)) (\<lambda>_.
       modify_prog (\<lambda>t. t\<lparr>f_tail := entry, f_head := (if f_head t = None then entry else f_head t), tsb_size := tsb_size t - 1\<rparr>)) t)"

definition free_entry_w_last :: "ptr \<Rightarrow> nat \<Rightarrow> ('b TSB, unit) prog" where
  "free_entry_w_last entry part_no =
     bind_prog (elem_at last_ents part_no) (\<lambda>l.
       if l \<noteq> None then free_entry entry else set_ptr last_ents_fld part_no entry)"

definition return_last_ent_TSB :: "nat \<Rightarrow> ('b TSB, unit) prog" where
  "return_last_ent_TSB part_no =
     bind_prog (elem_at last_ents part_no) (\<lambda>l.
     bind_prog (free_entry l) (\<lambda>_. set_ptr last_ents_fld part_no None))"

definition free_tuple :: "ptr \<Rightarrow> 'b TSB_Entry \<Rightarrow> ('b TSB, unit) prog" where
  "free_tuple tentry e =
     (case rtup e of
        Res_heap (Some tup) \<Rightarrow>
          bind_prog (modify_prog (\<lambda>t. if tsb_shouldFree t then t\<lparr>tsb_freed := tsb_freed t @ [tup]\<rparr> else t)) (\<lambda>_.
            upd tentry (\<lambda>e. e\<lparr>rtup := Res_heap None\<rparr>))
      | _ \<Rightarrow> return_prog ())"

definition del_entry :: "nat \<Rightarrow> ptr \<Rightarrow> ('b TSB, unit) prog" where
  "del_entry part_no tentry =
     bind_prog (ent tentry) (\<lambda>e.
     bind_prog (free_tuple tentry e) (\<lambda>_.
     bind_prog (if ent_prev e \<noteq> None then upd (ent_prev e) (\<lambda>x. x\<lparr>ent_next := ent_next e\<rparr>) else return_prog ()) (\<lambda>_.
     bind_prog (if ent_next e \<noteq> None then upd (ent_next e) (\<lambda>x. x\<lparr>ent_prev := ent_prev e\<rparr>) else return_prog ()) (\<lambda>_.
     bind_prog (free_entry_w_last tentry part_no) (\<lambda>_.
     bind_prog (add_count part_no (-1)) (\<lambda>_.
     bind_prog (elem_at tsb_counts part_no) (\<lambda>c.
       if c < 0 then fail_prog (Elog_error ''Waited for a while, exiting.'') else return_prog ())))))))"

section \<open>Initialisation\<close>

definition init_part :: "nat \<Rightarrow> ('b TSB, unit) prog" where
  "init_part i =
     bind_prog alloc_entry (\<lambda>tentry.
     bind_prog (set_ptr table_fld i tentry) (\<lambda>_.
     bind_prog (set_ptr p_head_fld i tentry) (\<lambda>_.
     bind_prog (set_ptr s_head_fld i tentry) (\<lambda>_.
     bind_prog (set_ptr prod_ack_fld i tentry) (\<lambda>_.
     bind_prog (set_ptr prim_ack_fld i tentry) (\<lambda>_.
     bind_prog (set_ptr sec_ack_fld i tentry) (\<lambda>_.
     bind_prog (\<lambda>t. set_ptr last_ents_fld i (Some (nat (max_size t) + i)) t) (\<lambda>_.
       modify_prog (\<lambda>t. t\<lparr>tsb_counts := (tsb_counts t)[i := 0]\<rparr>)))))))))"

primrec init_parts :: "nat list \<Rightarrow> ('b TSB, unit) prog" where
  "init_parts [] = return_prog ()"
| "init_parts (i # is) = bind_prog (init_part i) (\<lambda>_. init_parts is)"

text \<open>\<open>junk\<close> is what the allocated memory holds.\<close>

definition fresh_TSB :: "(nat \<Rightarrow> 'b TSB_Entry) \<Rightarrow> nat \<Rightarrow> nat \<Rightarrow> 'b TSB" where
  "fresh_TSB junk nparts mx =
     \<lparr>max_size = int mx + int nparts, tsb_size = 0, num_parts = nparts, tsb_counts = replicate nparts 0,
      tsb_table = replicate nparts None, prod_ack = replicate nparts None, prim_ack = replicate nparts None,
      sec_ack = replicate nparts None, p_head = replicate nparts None, s_head = replicate nparts None,
      f_head = Some 0, f_tail = Some (mx + nparts - 1), last_ents = replicate nparts None, tsb_shouldFree = True,
      ents = map (\<lambda>i. (junk i)\<lparr>ent_next := if i = 0 then None else Some (i - 1)\<rparr>) [0..<mx + nparts] @ map junk [mx + nparts..<mx + nparts + nparts],
      tsb_freed = []\<rparr>"

definition init_TSB :: "(nat \<Rightarrow> 'b TSB_Entry) \<Rightarrow> nat \<Rightarrow> nat \<Rightarrow> 'b TSB outcome" where
  "init_TSB junk nparts mx =
     (if mx + nparts = 0 then Inl (Out_of_bounds ''f_head'')
      else case init_parts [0..<nparts] (fresh_TSB junk nparts mx) of (Inl e, _) \<Rightarrow> Inl e | (Inr _, t) \<Rightarrow> Inr t)"

section \<open>Adding entries\<close>

text \<open>The sentinel of the partition becomes an entry and \<open>tentry\<close> the new sentinel.\<close>

definition link_entry :: "nat \<Rightarrow> ptr \<Rightarrow> ('b TSB_Entry \<Rightarrow> 'b TSB_Entry) \<Rightarrow> ('b TSB, unit) prog" where
  "link_entry part_no tentry f =
     bind_prog (elem_at tsb_table part_no) (\<lambda>pentry.
     bind_prog (upd pentry (\<lambda>e. (f e)\<lparr>ent_next := tentry\<rparr>)) (\<lambda>_.
     bind_prog (upd tentry (\<lambda>e. e\<lparr>ent_prev := pentry\<rparr>)) (\<lambda>_.
     bind_prog (set_ptr table_fld part_no tentry) (\<lambda>_.
       add_count part_no 1))))"

definition insert_marker_end_TSB :: "'b tsb_result \<Rightarrow> nat \<Rightarrow> ('b TSB, bool) prog" where
  "insert_marker_end_TSB r part_no =
     bind_prog alloc_entry (\<lambda>tentry.
       if tentry = None then return_prog False
       else bind_prog (link_entry part_no tentry (\<lambda>e. e\<lparr>rtup := r, seqnum := PUNCTUATION, dmask := TSB_PRODUCED\<rparr>)) (\<lambda>_. return_prog True))"

definition append_result_TSB :: "'b tsb_result \<Rightarrow> int \<Rightarrow> int \<Rightarrow> nat \<Rightarrow> ('b TSB, bool) prog" where
  "append_result_TSB r seq_no msk part_no =
     bind_prog (alloc_entry_w_last part_no) (\<lambda>tentry.
       if tentry = None then return_prog False
       else bind_prog (link_entry part_no tentry (\<lambda>e. e\<lparr>rtup := r, seqnum := seq_no, dmask := msk\<rparr>)) (\<lambda>_. return_prog True))"

text \<open>
  The cursors of one side when a marker goes in front of its head; the result is the pair
  of the entries before and after the marker.
\<close>

definition marker_side ::
  "'b fld \<Rightarrow> 'b fld \<Rightarrow>
   nat \<Rightarrow> ptr \<Rightarrow> ('b TSB, ptr \<times> ptr) prog" where
  "marker_side head_fld ack_fld part_no tentry =
     bind_prog (elem_at (fst head_fld) part_no) (\<lambda>a_entry.
     bind_prog (ent a_entry) (\<lambda>e.
     bind_prog (elem_at (fst ack_fld) part_no) (\<lambda>ack.
     bind_prog (if ack = a_entry then set_ptr ack_fld part_no tentry else return_prog ()) (\<lambda>_.
     bind_prog (set_ptr head_fld part_no tentry) (\<lambda>_.
     bind_prog (add_count part_no 1) (\<lambda>_.
       return_prog (ent_prev e, a_entry)))))))"

text \<open>With neither bit in \<open>msk\<close> the code reads two uninitialised pointers.\<close>

definition insert_marker_start_TSB :: "'b tsb_result \<Rightarrow> nat \<Rightarrow> int \<Rightarrow> ('b TSB, bool) prog" where
  "insert_marker_start_TSB r part_no msk =
     bind_prog alloc_entry (\<lambda>tentry.
       if tentry = None then return_prog False
       else
         bind_prog (upd tentry (\<lambda>e. e\<lparr>seqnum := PUNCTUATION, dmask := TSB_PRODUCED OR TSB_PRIMARY OR TSB_SECONDARY\<rparr>)) (\<lambda>_.
         bind_prog (if msk AND TSB_PRIMARY \<noteq> 0 then bind_prog (marker_side p_head_fld prim_ack_fld part_no tentry) (\<lambda>ba. return_prog (Some ba))
                    else return_prog None) (\<lambda>ba1.
         bind_prog (if msk AND TSB_SECONDARY \<noteq> 0 then bind_prog (marker_side s_head_fld sec_ack_fld part_no tentry) (\<lambda>ba. return_prog (Some ba))
                    else return_prog ba1) (\<lambda>ba2.
           case ba2 of
             None \<Rightarrow> fail_prog (Out_of_bounds ''b_entry'')
           | Some (b_entry, a_entry) \<Rightarrow>
               bind_prog (if b_entry \<noteq> None then upd b_entry (\<lambda>e. e\<lparr>ent_next := tentry\<rparr>) else return_prog ()) (\<lambda>_.
               bind_prog (upd tentry (\<lambda>e. e\<lparr>ent_prev := b_entry\<rparr>)) (\<lambda>_.
               bind_prog (if a_entry \<noteq> None then upd a_entry (\<lambda>e. e\<lparr>ent_prev := tentry\<rparr>) else return_prog ()) (\<lambda>_.
               bind_prog (upd tentry (\<lambda>e. e\<lparr>ent_next := a_entry, dmask := dmask e AND NOT msk, rtup := r\<rparr>)) (\<lambda>_.
                 return_prog True))))))))"

section \<open>Acknowledgements\<close>

definition ack_fld :: "int \<Rightarrow> 'b fld option" where
  "ack_fld msk = (if msk = TSB_PRODUCED then Some prod_ack_fld else if msk = TSB_PRIMARY then Some prim_ack_fld
     else if msk = TSB_SECONDARY then Some sec_ack_fld else None)"

text \<open>
  One round of the loop of \<^verbatim>\<open>put_ack_TSB\<close> on the entry \<open>e\<close> under the cursor \<open>c\<close>: whether the sequence number has
  been found, and the slot. \<open>None\<close> for the slot is a \<^verbatim>\<open>NULL\<close> slot.
\<close>

definition ack_one ::
  "'b fld \<Rightarrow> int \<Rightarrow> nat \<Rightarrow> int \<Rightarrow> int \<Rightarrow> ptr \<Rightarrow> 'b TSB_Entry \<Rightarrow> bool \<Rightarrow> 'b tsb_slot option \<Rightarrow>
   ('b TSB, bool \<times> 'b tsb_slot option) prog" where
  "ack_one cursor seqno part_no msk fmask c e found slot =
     (let found' = (found \<or> seqnum e = seqno);
          repl = (case slot of None \<Rightarrow> None | Some sl \<Rightarrow> if seqnum e = seqno then slot_val sl else None);
          slot' = (if repl = None then slot else Some \<lparr>slot_val = None, slot_shouldFree = False\<rparr>)
      in bind_prog (upd c (\<lambda>e. e\<lparr>rtup := (if repl = None then rtup e else Res_heap repl), dmask := dmask e OR msk\<rparr>)) (\<lambda>_.
         bind_prog (set_ptr cursor part_no (ent_next e)) (\<lambda>_.
         bind_prog (ent c) (\<lambda>e'.
         bind_prog (if dmask e' AND fmask = fmask then del_entry part_no c else return_prog ()) (\<lambda>_.
           return_prog (found', slot'))))))"

primrec ack_loop ::
  "nat \<Rightarrow> 'b fld \<Rightarrow> int \<Rightarrow> nat \<Rightarrow> int \<Rightarrow> int \<Rightarrow> bool \<Rightarrow> 'b tsb_slot option \<Rightarrow>
   ('b TSB, bool \<times> 'b tsb_slot option) prog" where
  "ack_loop 0 cursor seqno part_no msk fmask found slot = fail_prog Would_block"
| "ack_loop (Suc n) cursor seqno part_no msk fmask found slot =
     bind_prog (elem_at (fst cursor) part_no) (\<lambda>c.
     bind_prog (ent c) (\<lambda>e.
       if dmask e \<ge> 0 \<and> seqnum e \<le> seqno then
         bind_prog (ack_one cursor seqno part_no msk fmask c e found slot) (\<lambda>(found', slot').
           ack_loop n cursor seqno part_no msk fmask found' slot')
       else return_prog (found, slot)))"

definition put_ack_TSB :: "'b tsb_slot option \<Rightarrow> int \<Rightarrow> nat \<Rightarrow> int \<Rightarrow> int \<Rightarrow> ('b TSB, bool \<times> 'b tsb_slot option) prog" where
  "put_ack_TSB slot seqno part_no msk fmask =
     (case ack_fld msk of
        None \<Rightarrow> return_prog (False, slot)
      | Some cursor \<Rightarrow>
          bind_prog (\<lambda>t. ack_loop (Suc (length (ents t))) cursor seqno part_no msk fmask False slot t) (\<lambda>(found, slot).
          bind_prog (elem_at (fst cursor) part_no) (\<lambda>c.
          bind_prog (ent c) (\<lambda>e.
            if dmask e < 0 \<and> \<not> found then
              bind_prog (alloc_entry_w_last part_no) (\<lambda>tentry.
                if tentry = None then return_prog (False, slot)
                else
                  bind_prog (link_entry part_no tentry (\<lambda>e. e\<lparr>rtup := Res_heap (case slot of None \<Rightarrow> None | Some sl \<Rightarrow> slot_val sl), seqnum := seqno, dmask := msk\<rparr>)) (\<lambda>_.
                  bind_prog (ent c) (\<lambda>e'.
                  bind_prog (set_ptr cursor part_no (ent_next e')) (\<lambda>_.
                    return_prog (True, case slot of None \<Rightarrow> None | Some sl \<Rightarrow> Some \<lparr>slot_val = None, slot_shouldFree = False\<rparr>)))))
            else return_prog (True, slot)))))"

section \<open>Heads\<close>

definition head_fld :: "int \<Rightarrow> 'b fld option" where
  "head_fld msk = (if msk = TSB_PRIMARY then Some p_head_fld else if msk = TSB_SECONDARY then Some s_head_fld else None)"

text \<open>The value of the slot after the call; a result of another type has no tuple.\<close>

definition get_head_TSB :: "'b option \<Rightarrow> nat \<Rightarrow> int \<Rightarrow> ('b TSB, 'b option) prog" where
  "get_head_TSB val part_no msk =
     (case head_fld msk of
        None \<Rightarrow> return_prog val
      | Some hd_fld \<Rightarrow>
          bind_prog (elem_at (fst hd_fld) part_no) (\<lambda>h.
          bind_prog (ent h) (\<lambda>e.
            if \<not> dmask e < 0 then
              (case rtup e of Res_heap v \<Rightarrow> return_prog v | Res_other _ \<Rightarrow> fail_prog (Out_of_bounds ''rtup.data.tuple''))
            else return_prog val)))"

definition get_head_TSB_r :: "'b tsb_result \<Rightarrow> nat \<Rightarrow> int \<Rightarrow> ('b TSB, 'b tsb_result) prog" where
  "get_head_TSB_r r part_no msk =
     (case head_fld msk of
        None \<Rightarrow> return_prog r
      | Some hd_fld \<Rightarrow>
          bind_prog (elem_at (fst hd_fld) part_no) (\<lambda>h.
          bind_prog (ent h) (\<lambda>e. return_prog (if \<not> dmask e < 0 then rtup e else r))))"

definition get_unack_seqno_TSB :: "nat \<Rightarrow> int \<Rightarrow> ('b TSB, int) prog" where
  "get_unack_seqno_TSB part_no msk =
     (case ack_fld msk of
        None \<Rightarrow> return_prog (-1)
      | Some cursor \<Rightarrow>
          bind_prog (elem_at (fst cursor) part_no) (\<lambda>c.
          bind_prog (ent c) (\<lambda>e. return_prog (if \<not> dmask e < 0 then seqnum e else -1))))"

definition advance_head_TSB :: "nat \<Rightarrow> int \<Rightarrow> ('b TSB, unit) prog" where
  "advance_head_TSB part_no msk =
     (case head_fld msk of
        None \<Rightarrow> return_prog ()
      | Some hd_fld \<Rightarrow>
          bind_prog (elem_at (fst hd_fld) part_no) (\<lambda>h.
          bind_prog (ent h) (\<lambda>e. if \<not> dmask e < 0 then set_ptr hd_fld part_no (ent_next e) else return_prog ())))"

definition reset_head_TSB :: "nat \<Rightarrow> int \<Rightarrow> ('b TSB, unit) prog" where
  "reset_head_TSB part_no msk =
     (case (head_fld msk, ack_fld msk) of
        (Some hd_fld, Some cursor) \<Rightarrow> bind_prog (elem_at (fst cursor) part_no) (set_ptr hd_fld part_no)
      | _ \<Rightarrow> return_prog ())"

definition reset_ack_TSB :: "nat \<Rightarrow> int \<Rightarrow> ('b TSB, unit) prog" where
  "reset_ack_TSB part_no msk =
     (if msk = TSB_PRIMARY then bind_prog (elem_at sec_ack part_no) (set_ptr prim_ack_fld part_no)
      else if msk = TSB_SECONDARY then bind_prog (elem_at prim_ack part_no) (set_ptr sec_ack_fld part_no)
      else return_prog ())"

primrec unmark_loop :: "nat \<Rightarrow> int \<Rightarrow> ptr \<Rightarrow> ('b TSB, unit) prog" where
  "unmark_loop 0 msk p = fail_prog Would_block"
| "unmark_loop (Suc n) msk p =
     bind_prog (ent p) (\<lambda>e.
       if dmask e \<noteq> -1 then
         bind_prog (upd p (\<lambda>e. e\<lparr>dmask := dmask e AND NOT msk\<rparr>)) (\<lambda>_. unmark_loop n msk (ent_next e))
       else return_prog ())"

text \<open>For another mask the code reads an uninitialised pointer.\<close>

definition reset_cursors_TSB :: "nat \<Rightarrow> int \<Rightarrow> ('b TSB, unit) prog" where
  "reset_cursors_TSB part_no msk =
     bind_prog (reset_ack_TSB part_no msk) (\<lambda>_.
       case (if msk = TSB_PRODUCED then None else ack_fld msk) of
         None \<Rightarrow> fail_prog (Out_of_bounds ''entry'')
       | Some cursor \<Rightarrow>
           bind_prog (elem_at (fst cursor) part_no) (\<lambda>entry.
           bind_prog (\<lambda>t. unmark_loop (Suc (length (ents t))) msk entry t) (\<lambda>_.
             reset_head_TSB part_no msk)))"

text \<open>
  Every round of the two loops moves the cursor, so one more round than there are entries is enough. The last statements
  of \<^verbatim>\<open>ack_to_marker_TSB\<close> read the cursors only to print them.
\<close>

primrec ack_all_loop :: "nat \<Rightarrow> nat \<Rightarrow> int \<Rightarrow> int \<Rightarrow> ('b TSB, unit) prog" where
  "ack_all_loop 0 partno msk del_mask = fail_prog Would_block"
| "ack_all_loop (Suc n) partno msk del_mask =
     bind_prog (get_unack_seqno_TSB partno msk) (\<lambda>seqno.
       if seqno \<noteq> -1 then bind_prog (put_ack_TSB None seqno partno msk del_mask) (\<lambda>_. ack_all_loop n partno msk del_mask)
       else return_prog ())"

definition ack_all_TSB :: "nat \<Rightarrow> int \<Rightarrow> int \<Rightarrow> ('b TSB, unit) prog" where
  "ack_all_TSB partno msk del_mask =
     bind_prog (\<lambda>t. ack_all_loop (Suc (length (ents t))) partno msk del_mask t) (\<lambda>_. reset_head_TSB partno msk)"

definition cursors_meet :: "nat \<Rightarrow> int \<Rightarrow> ('b TSB, bool) prog" where
  "cursors_meet partno msk =
     (case (ack_fld msk, head_fld msk) of
        (Some a, Some h) \<Rightarrow> bind_prog (elem_at (fst a) partno) (\<lambda>p_ack. bind_prog (elem_at (fst h) partno) (\<lambda>p_head. return_prog (p_ack = p_head)))
      | _ \<Rightarrow> fail_prog (Out_of_bounds ''p_ack''))"

primrec ack_marker_loop :: "nat \<Rightarrow> nat \<Rightarrow> int \<Rightarrow> int \<Rightarrow> bool \<Rightarrow> ('b TSB, unit) prog" where
  "ack_marker_loop 0 partno msk del_mask crossed = fail_prog Would_block"
| "ack_marker_loop (Suc n) partno msk del_mask crossed =
     bind_prog (get_unack_seqno_TSB partno msk) (\<lambda>seqno.
     bind_prog (cursors_meet partno msk) (\<lambda>meet.
       if seqno \<noteq> -1 \<and> \<not> (seqno = PUNCTUATION \<and> (crossed \<or> meet)) then
         bind_prog (put_ack_TSB None seqno partno msk del_mask) (\<lambda>_. ack_marker_loop n partno msk del_mask (crossed \<or> meet))
       else return_prog ()))"

definition ack_to_marker_TSB :: "nat \<Rightarrow> int \<Rightarrow> int \<Rightarrow> ('b TSB, unit) prog" where
  "ack_to_marker_TSB partno msk del_mask =
     bind_prog (\<lambda>t. ack_marker_loop (Suc (length (ents t))) partno msk del_mask False t) (\<lambda>_. reset_head_TSB partno msk)"

section \<open>Installing a moved buffer\<close>

text \<open>
  The receiver of a state movement fills a fresh buffer with \<^verbatim>\<open>append_result_TSB\<close>, the masks of the entries included, and
  \<^verbatim>\<open>adjustTSBPointers\<close> of \<^verbatim>\<open>nodeFluxProd_FT.c\<close> then puts the cursors and heads at the sequence numbers that came with the
  entries and turns on the side that was off. The numbers are the arrays of the state movement control block.
\<close>

record FProdSMCB =
  sm_prod_ack :: "int list"
  sm_prim_ack :: "int list"
  sm_sec_ack :: "int list"
  sm_p_head :: "int list"
  sm_s_head :: "int list"

primrec cursor_search :: "nat \<Rightarrow> int \<Rightarrow> ptr \<Rightarrow> ('b TSB, ptr option) prog" where
  "cursor_search 0 sq start = fail_prog Would_block"
| "cursor_search (Suc n) sq start =
     bind_prog (ent start) (\<lambda>e.
       if seqnum e \<noteq> sq \<and> 0 < dmask e then cursor_search n sq (ent_next e)
       else return_prog (if seqnum e \<noteq> sq then None else Some start))"

definition advanceCursor :: "'b fld \<Rightarrow> nat \<Rightarrow> int \<Rightarrow> ptr \<Rightarrow> ptr \<Rightarrow> ('b TSB, bool) prog" where
  "advanceCursor cursor i sq start tail =
     (if sq = -1 then
        bind_prog (set_ptr cursor i tail) (\<lambda>_.
        bind_prog (ent tail) (\<lambda>e. if dmask e < 0 then return_prog True else fail_prog (Assert_failed ''tail->dmask < 0'')))
      else
        bind_prog (\<lambda>t. cursor_search (Suc (length (ents t))) sq start t) (\<lambda>r.
          case r of None \<Rightarrow> return_prog False | Some p \<Rightarrow> bind_prog (set_ptr cursor i p) (\<lambda>_. return_prog True)))"

definition place_cursor :: "'b fld \<Rightarrow> int list \<Rightarrow> nat \<Rightarrow> ptr \<Rightarrow> ptr \<Rightarrow> ('b TSB, unit) prog" where
  "place_cursor cursor sqs i start tail =
     bind_prog (elem_at (\<lambda>_. sqs) i) (\<lambda>sq.
     bind_prog (advanceCursor cursor i sq start tail) (\<lambda>ok.
       if \<not> ok then fail_prog (Elog_error ''seqno not found'') else return_prog ()))"

text \<open>One round of the loop over the partitions; \<open>fmask\<close> is \<^verbatim>\<open>fmasks[i]\<close>.\<close>

definition adjust_part :: "FProdSMCB \<Rightarrow> nat \<Rightarrow> int \<Rightarrow> ('b TSB, unit) prog" where
  "adjust_part smcb i fmask =
     bind_prog (elem_at prod_ack i) (\<lambda>start.
     bind_prog (elem_at tsb_table i) (\<lambda>tail.
     bind_prog (place_cursor prod_ack_fld (sm_prod_ack smcb) i start tail) (\<lambda>_.
     bind_prog (place_cursor prim_ack_fld (sm_prim_ack smcb) i start tail) (\<lambda>_.
     bind_prog (place_cursor sec_ack_fld (sm_sec_ack smcb) i start tail) (\<lambda>_.
     bind_prog (place_cursor p_head_fld (sm_p_head smcb) i start tail) (\<lambda>_.
     bind_prog (place_cursor s_head_fld (sm_s_head smcb) i start tail) (\<lambda>_.
       if fmask AND TSB_PRIMARY = 0 then reset_cursors_TSB i TSB_PRIMARY
       else if fmask AND TSB_SECONDARY = 0 then reset_cursors_TSB i TSB_SECONDARY
       else return_prog ())))))))"

primrec adjust_loop :: "FProdSMCB \<Rightarrow> nat list \<Rightarrow> int list \<Rightarrow> ('b TSB, int list) prog" where
  "adjust_loop smcb [] fmasks = return_prog fmasks"
| "adjust_loop smcb (i # is) fmasks =
     bind_prog (elem_at (\<lambda>_. fmasks) i) (\<lambda>fmask.
     bind_prog (adjust_part smcb i fmask) (\<lambda>_.
       adjust_loop smcb is (fmasks[i := TSB_PRODUCED OR TSB_PRIMARY OR TSB_SECONDARY])))"

definition adjustTSBPointers :: "FProdSMCB \<Rightarrow> int list \<Rightarrow> ('b TSB, int list) prog" where
  "adjustTSBPointers smcb fmasks = (\<lambda>t. adjust_loop smcb [0..<num_parts t] fmasks t)"

section \<open>Chains and partitions\<close>

primrec chain_len :: "nat \<Rightarrow> ('b TSB_Entry \<Rightarrow> ptr) \<Rightarrow> ptr \<Rightarrow> int \<Rightarrow> ('b TSB, int) prog" where
  "chain_len 0 step p i = fail_prog Would_block"
| "chain_len (Suc n) step p i =
     (if p = None then return_prog i
      else bind_prog (ent p) (\<lambda>e. if dmask e \<noteq> -1 then chain_len n step (step e) (i + 1) else return_prog i))"

definition chain_len_prev :: "ptr \<Rightarrow> ('b TSB, int) prog" where
  "chain_len_prev p = (\<lambda>t. chain_len (Suc (length (ents t))) ent_prev p 0 t)"

definition chain_len_next :: "ptr \<Rightarrow> ('b TSB, int) prog" where
  "chain_len_next p = (\<lambda>t. chain_len (Suc (length (ents t))) ent_next p 0 t)"

definition swap :: "nat \<Rightarrow> nat \<Rightarrow> 'a list \<Rightarrow> 'a list" where
  "swap a b xs = xs[a := xs ! b, b := xs ! a]"

definition swap_tsb_part :: "nat \<Rightarrow> nat \<Rightarrow> ('b TSB, unit) prog" where
  "swap_tsb_part a b = (\<lambda>t.
     if a < num_parts t \<and> b < num_parts t then
       (Inr (), t\<lparr>tsb_counts := swap a b (tsb_counts t), tsb_table := swap a b (tsb_table t), prod_ack := swap a b (prod_ack t),
          prim_ack := swap a b (prim_ack t), sec_ack := swap a b (sec_ack t), p_head := swap a b (p_head t),
          s_head := swap a b (s_head t), last_ents := swap a b (last_ents t)\<rparr>)
     else (Inl (Out_of_bounds ''partition''), t))"

text \<open>The inner loop: the index array \<^verbatim>\<open>curr_idx\<close> is passed along. A map that is not a permutation makes it run for ever.\<close>

primrec permute_while :: "nat \<Rightarrow> nat list \<Rightarrow> nat \<Rightarrow> nat list \<Rightarrow> ('b TSB, nat list) prog" where
  "permute_while 0 perm_map i curr_idx = fail_prog Would_block"
| "permute_while (Suc n) perm_map i curr_idx =
     (if \<not> (i < length curr_idx \<and> curr_idx ! i < length perm_map) then fail_prog (Out_of_bounds ''perm_map'')
      else
        let dloc = perm_map ! (curr_idx ! i)
        in if i \<noteq> dloc then bind_prog (swap_tsb_part i dloc) (\<lambda>_. permute_while n perm_map i (swap i dloc curr_idx))
           else return_prog curr_idx)"

primrec permute_for :: "nat list \<Rightarrow> nat list \<Rightarrow> nat list \<Rightarrow> ('b TSB, nat list) prog" where
  "permute_for perm_map [] curr_idx = return_prog curr_idx"
| "permute_for perm_map (i # is) curr_idx =
     bind_prog (permute_while (Suc (length curr_idx)) perm_map i curr_idx) (\<lambda>curr_idx'. permute_for perm_map is curr_idx')"

definition permute_tsb_parts :: "nat list \<Rightarrow> ('b TSB, unit) prog" where
  "permute_tsb_parts perm_map = (\<lambda>t.
     bind_prog (permute_for perm_map [0..<num_parts t] [0..<num_parts t]) (\<lambda>_. return_prog ()) t)"

end
