(* ===== verification/Skew_Buffer_Shape.thy ===== *)
theory Skew_Buffer_Shape
  imports Skew_Buffer
begin

text \<open>
  The shape of a skew buffer: chains, the places an entry can be in, and what allocating, freeing, linking and
  unlinking do to them.
\<close>

section \<open>Chains in memory\<close>

text \<open>The entries \<open>xs\<close> are linked in both directions; the first one points back to \<open>p\<close> and the last one on to \<open>n\<close>.\<close>

fun dseg :: "'b TSB_Entry list \<Rightarrow> ptr \<Rightarrow> nat list \<Rightarrow> ptr \<Rightarrow> bool" where
  "dseg h p [] n = True"
| "dseg h p (a # xs) n = (a < length h \<and> ent_prev (h ! a) = p \<and> ent_next (h ! a) = (if xs = [] then n else Some (hd xs)) \<and> dseg h (Some a) xs n)"

text \<open>The free list is linked in one direction.\<close>

fun fseg :: "'b TSB_Entry list \<Rightarrow> nat list \<Rightarrow> bool" where
  "fseg h [] = True"
| "fseg h (a # xs) = (a < length h \<and> ent_next (h ! a) = (if xs = [] then None else Some (hd xs)) \<and> fseg h xs)"

lemma dseg_append:
  "dseg h p (xs @ ys) n \<longleftrightarrow> dseg h p xs (if ys = [] then n else Some (hd ys)) \<and> dseg h (if xs = [] then p else Some (last xs)) ys n"
  by (induction xs arbitrary: p) auto

lemma dseg_cong:
  "length h' = length h \<Longrightarrow> (\<And>a. a \<in> set xs \<Longrightarrow> ent_next (h' ! a) = ent_next (h ! a) \<and> ent_prev (h' ! a) = ent_prev (h ! a)) \<Longrightarrow> dseg h' p xs n = dseg h p xs n"
  by (induction xs arbitrary: p) auto

lemma dseg_bound: "dseg h p xs n \<Longrightarrow> a \<in> set xs \<Longrightarrow> a < length h"
  by (induction xs arbitrary: p) auto

lemma fseg_cong: "length h' = length h \<Longrightarrow> (\<And>a. a \<in> set xs \<Longrightarrow> ent_next (h' ! a) = ent_next (h ! a)) \<Longrightarrow> fseg h' xs = fseg h xs"
  by (induction xs) auto

lemma fseg_bound: "fseg h xs \<Longrightarrow> a \<in> set xs \<Longrightarrow> a < length h"
  by (induction xs) auto

lemma upd_notin [simp]: "a \<in> set us \<Longrightarrow> b \<notin> set us \<Longrightarrow> h[b := x] ! a = h ! a"
  by (metis nth_list_update_neq)

text \<open>Appending to a chain, and taking an entry out of it.\<close>

lemma dseg_snoc:
  assumes "dseg h p xs None" "xs \<noteq> []" "distinct (xs @ [a])" "a < length h" "ent_next e' = Some a"
    "ent_prev e' = ent_prev (h ! last xs)" "ent_next f' = None" "ent_prev f' = Some (last xs)"
  shows "dseg (h[last xs := e', a := f']) p (xs @ [a]) None"
proof -
  obtain ys s where xs: "xs = ys @ [s]" using assms(2) by (cases xs rule: rev_cases) auto
  have s: "s < length h" "s \<noteq> a" using assms(1,3) xs by (auto simp: dseg_append)
  have "dseg (h[s := e', a := f']) p ys (Some s) = dseg h p ys (Some s)"
    by (rule dseg_cong) (use assms(3) xs in \<open>auto simp: nth_list_update\<close>)
  then show ?thesis using assms s by (auto simp: xs dseg_append)
qed

lemma dseg_remove:
  assumes "dseg h p (ys @ a # zs) n" "distinct (ys @ a # zs)"
    "h' = (case ent_prev (h ! a) of None \<Rightarrow> h | Some b \<Rightarrow> if ys = [] then h else h[b := (h ! b)\<lparr>ent_next := ent_next (h ! a)\<rparr>])"
    "h'' = (case ent_next (h ! a) of None \<Rightarrow> h' | Some c \<Rightarrow> if zs = [] then h' else h'[c := (h' ! c)\<lparr>ent_prev := ent_prev (h ! a)\<rparr>])"
  shows "dseg h'' p (ys @ zs) n"
proof -
  have a: "ent_prev (h ! a) = (if ys = [] then p else Some (last ys))" "ent_next (h ! a) = (if zs = [] then n else Some (hd zs))"
    "dseg h p ys (Some a)" "dseg h (Some a) zs n" "a < length h"
    using assms(1) by (auto simp: dseg_append)
  have h': "h' = (if ys = [] then h else h[last ys := (h ! last ys)\<lparr>ent_next := ent_next (h ! a)\<rparr>])"
    using assms(3) a(1) by (cases p) auto
  have h'': "h'' = (if zs = [] then h' else h'[hd zs := (h' ! hd zs)\<lparr>ent_prev := ent_prev (h ! a)\<rparr>])"
    using assms(4) a(2) by (cases n) auto
  have l: "length h'' = length h" by (simp add: h' h'')
  have 1: "dseg h'' p ys (if zs = [] then n else Some (hd zs))"
  proof (cases ys rule: rev_cases)
    case (snoc us b)
    have b: "b < length h" "dseg h p us (Some b)" "ent_prev (h ! b) = (if us = [] then p else Some (last us))" using a(3) by (auto simp: snoc dseg_append)
    have "b \<noteq> hd zs" "hd zs \<notin> set us" if "zs \<noteq> []" using assms(2) snoc that hd_in_set [OF that] by auto
    moreover have "b \<notin> set us" using assms(2) snoc by auto
    moreover have "dseg h'' p us (Some b) = dseg h p us (Some b)"
      by (rule dseg_cong [OF l]) (use calculation snoc in \<open>auto simp: h' h'' nth_list_update\<close>)
    ultimately show ?thesis using b a(1,2) by (auto simp: snoc dseg_append h' h'' nth_list_update)
  qed simp
  have 2: "dseg h'' (if ys = [] then p else Some (last ys)) zs n"
  proof (cases zs)
    case (Cons c us)
    have c: "c < length h" "dseg h (Some c) us n" "ent_next (h ! c) = (if us = [] then n else Some (hd us))" using a(4) by (auto simp: Cons)
    have "set ys \<inter> set (c # us) = {}" using assms(2) Cons by auto
    then have "last ys \<noteq> c" "last ys \<notin> set us" if "ys \<noteq> []" using last_in_set [OF that] by (metis disjoint_iff list.set_intros)+
    moreover have "c \<notin> set us" using assms(2) Cons by auto
    moreover have "dseg h'' (Some c) us n = dseg h (Some c) us n"
      by (rule dseg_cong [OF l]) (use calculation Cons in \<open>auto simp: h' h'' nth_list_update\<close>)
    ultimately show ?thesis using c a(1,2) by (auto simp: Cons h' h'' nth_list_update)
  qed simp
  show ?thesis using 1 2 by (simp add: dseg_append)
qed

section \<open>Who owns an entry\<close>

text \<open>Every entry is in a partition, free, reserved for a partition, or in the hands of the operation that runs.\<close>

datatype place = Part nat | Free | Res nat | Hand

type_synonym layout = "place \<Rightarrow> nat list"

definition exact :: "layout \<Rightarrow> nat \<Rightarrow> bool" where
  "exact L n \<longleftrightarrow> (\<forall>p. distinct (L p)) \<and> (\<forall>p q. p \<noteq> q \<longrightarrow> set (L p) \<inter> set (L q) = {}) \<and> (\<Union>p. set (L p)) = {..<n}"

lemma exact_distinct: "exact L n \<Longrightarrow> distinct (L p)"
  by (simp add: exact_def)

lemma exact_disjoint: "exact L n \<Longrightarrow> a \<in> set (L p) \<Longrightarrow> p \<noteq> q \<Longrightarrow> a \<notin> set (L q)"
  by (auto simp: exact_def)

lemma exact_bound: "exact L n \<Longrightarrow> a \<in> set (L p) \<Longrightarrow> a < n"
  by (auto simp: exact_def)

lemma exact_move:
  assumes "exact L n" "p \<noteq> q" "a \<in> set (L p)" "distinct xs" "set xs = set (L p) - {a}" "distinct ys" "set ys = insert a (set (L q))"
  shows "exact (L(p := xs, q := ys)) n"
proof -
  have d: "\<forall>p. distinct (L p)" "\<forall>p q. p \<noteq> q \<longrightarrow> set (L p) \<inter> set (L q) = {}" "(\<Union>p. set (L p)) = {..<n}" using assms(1) by (simp_all add: exact_def)
  have "x \<in> (\<Union>r. set ((L(p := xs, q := ys)) r))" if "x \<in> set (L r)" for x r
  proof (cases "r = p \<and> x = a \<or> r = q")
    case True
    then have "x \<in> set ((L(p := xs, q := ys)) q)" using that assms(2,7) by auto
    then show ?thesis by blast
  next
    case False
    then have "x \<in> set ((L(p := xs, q := ys)) r)" using that assms(5) by auto
    then show ?thesis by blast
  qed
  moreover have "x \<in> (\<Union>r. set (L r))" if "x \<in> set ((L(p := xs, q := ys)) r)" for x r
    using that assms(3,5,7) by (auto split: if_splits)
  ultimately have "(\<Union>r. set ((L(p := xs, q := ys)) r)) = (\<Union>r. set (L r))" by blast
  moreover have "set ((L(p := xs, q := ys)) r) \<inter> set ((L(p := xs, q := ys)) r') = {}" if "r \<noteq> r'" for r r'
    using that d(2) assms(2,3,5,7) by (auto split: if_splits)
  ultimately show ?thesis using d assms(4,6) by (auto simp: exact_def)
qed

section \<open>The shape of the buffer\<close>

text \<open>A partition: a chain that ends in the sentinel the table points to, and nowhere else in an entry with mask -1.\<close>

definition part_shape :: "'b TSB \<Rightarrow> nat \<Rightarrow> nat list \<Rightarrow> bool" where
  "part_shape t i xs \<longleftrightarrow> xs \<noteq> [] \<and> dseg (ents t) None xs None \<and> dmask (ents t ! last xs) = -1 \<and> (\<forall>a\<in>set (butlast xs). 0 \<le> dmask (ents t ! a)) \<and>
     tsb_table t ! i = Some (last xs)"

definition arrays_ok :: "'b TSB \<Rightarrow> bool" where
  "arrays_ok t \<longleftrightarrow> length (tsb_counts t) = num_parts t \<and> length (tsb_table t) = num_parts t \<and> length (prod_ack t) = num_parts t \<and>
     length (prim_ack t) = num_parts t \<and> length (sec_ack t) = num_parts t \<and> length (p_head t) = num_parts t \<and>
     length (s_head t) = num_parts t \<and> length (last_ents t) = num_parts t"

definition free_ok :: "'b TSB \<Rightarrow> nat list \<Rightarrow> bool" where
  "free_ok t fr \<longleftrightarrow> fseg (ents t) fr \<and> f_tail t = (if fr = [] then None else Some (hd fr)) \<and> f_head t = (if fr = [] then None else Some (last fr)) \<and>
     tsb_size t = max_size t - int (length fr)"

definition tsb_shape :: "'b TSB \<Rightarrow> layout \<Rightarrow> bool" where
  "tsb_shape t L \<longleftrightarrow> arrays_ok t \<and> exact L (length (ents t)) \<and> free_ok t (L Free) \<and>
     (\<forall>i. if i < num_parts t then part_shape t i (L (Part i)) \<and> L (Res i) = (case last_ents t ! i of None \<Rightarrow> [] | Some a \<Rightarrow> [a])
          else L (Part i) = [] \<and> L (Res i) = [])"

lemma part_shape_cong:
  assumes "part_shape t i xs" "length (ents t') = length (ents t)" "\<And>a. a \<in> set xs \<Longrightarrow> ents t' ! a = ents t ! a"
    "tsb_table t' ! i = tsb_table t ! i"
  shows "part_shape t' i xs"
proof -
  have x: "xs \<noteq> []" "dseg (ents t) None xs None" using assms(1) by (simp_all add: part_shape_def)
  have "dseg (ents t') None xs None = dseg (ents t) None xs None" by (rule dseg_cong [OF assms(2)]) (simp add: assms(3))
  moreover have "ents t' ! last xs = ents t ! last xs" using assms(3) [of "last xs"] x(1) by simp
  moreover have "ents t' ! a = ents t ! a" if "a \<in> set (butlast xs)" for a using assms(3) in_set_butlastD [OF that] by blast
  ultimately show ?thesis using assms(1,4) by (auto simp: part_shape_def)
qed

lemma shape_part: "tsb_shape t L \<Longrightarrow> i < num_parts t \<Longrightarrow> part_shape t i (L (Part i))"
  by (simp add: tsb_shape_def)

lemma shape_exact: "tsb_shape t L \<Longrightarrow> exact L (length (ents t))"
  by (simp add: tsb_shape_def)

lemma shape_bound: "tsb_shape t L \<Longrightarrow> a \<in> set (L p) \<Longrightarrow> a < length (ents t)"
  using exact_bound [OF shape_exact] by blast

text \<open>
  What it takes to keep the shape when entries move between two places: those two places are in order, and nothing else changes.
\<close>

lemma shape_step:
  assumes "tsb_shape t L" "exact L' (length (ents t))" "length (ents t') = length (ents t)" "num_parts t' = num_parts t" "arrays_ok t'"
    "\<And>a p. a \<in> set (L p) \<Longrightarrow> p \<notin> P \<Longrightarrow> ents t' ! a = ents t ! a" "\<And>p. p \<notin> P \<Longrightarrow> L' p = L p"
    "\<And>i. i < num_parts t \<Longrightarrow> Part i \<in> P \<Longrightarrow> part_shape t' i (L' (Part i))"
    "\<And>i. i < num_parts t \<Longrightarrow> Part i \<notin> P \<Longrightarrow> tsb_table t' ! i = tsb_table t ! i"
    "\<And>i. i < num_parts t \<Longrightarrow> L' (Res i) = (case last_ents t' ! i of None \<Rightarrow> [] | Some a \<Rightarrow> [a])"
    "free_ok t' (L' Free)" "\<And>i. Part i \<in> P \<or> Res i \<in> P \<Longrightarrow> i < num_parts t"
  shows "tsb_shape t' L'"
proof -
  have "part_shape t' i (L' (Part i))" if i: "i < num_parts t" for i
  proof (cases "Part i \<in> P")
    case False
    have "part_shape t' i (L (Part i))"
      by (rule part_shape_cong [OF shape_part [OF assms(1) i] assms(3)]) (use assms(6) assms(9) [OF i False] False in auto)
    then show ?thesis using assms(7) [OF False] by simp
  qed (use assms(8) [OF i] in blast)
  moreover have "L' (Part i) = []" "L' (Res i) = []" if "\<not> i < num_parts t" for i
    using that assms(1,7,12) by (metis tsb_shape_def)+
  ultimately show ?thesis using assms(2-5,10,11) unfolding tsb_shape_def by auto
qed

lemma free_ok_cong:
  assumes "free_ok t fr" "length (ents t') = length (ents t)" "\<And>a. a \<in> set fr \<Longrightarrow> ents t' ! a = ents t ! a"
    "f_tail t' = f_tail t" "f_head t' = f_head t" "tsb_size t' = tsb_size t" "max_size t' = max_size t"
  shows "free_ok t' fr"
  using assms fseg_cong [of "ents t'" "ents t" fr] by (auto simp: free_ok_def)

section \<open>Taking and returning entries\<close>

lemma alloc_none: "tsb_shape t L \<Longrightarrow> L Free = [] \<Longrightarrow> alloc_entry t = (Inr None, t)"
  by (simp add: alloc_entry_def tsb_shape_def free_ok_def)

text \<open>What an operation that only moves entries outside the partitions leaves alone.\<close>

definition same_parts :: "layout \<Rightarrow> 'b TSB \<Rightarrow> 'b TSB \<Rightarrow> bool" where
  "same_parts L t t' \<longleftrightarrow> length (ents t') = length (ents t) \<and> num_parts t' = num_parts t \<and> max_size t' = max_size t \<and> tsb_counts t' = tsb_counts t \<and> tsb_table t' = tsb_table t \<and>
     prod_ack t' = prod_ack t \<and> prim_ack t' = prim_ack t \<and> sec_ack t' = sec_ack t \<and> p_head t' = p_head t \<and> s_head t' = s_head t \<and>
     tsb_shouldFree t' = tsb_shouldFree t \<and> tsb_freed t' = tsb_freed t \<and> (\<forall>i. \<forall>a\<in>set (L (Part i)). ents t' ! a = ents t ! a)"

definition blank :: "'b TSB_Entry \<Rightarrow> bool" where
  "blank e \<longleftrightarrow> seqnum e = -1 \<and> dmask e = -1 \<and> ent_next e = None \<and> ent_prev e = None"

lemma alloc_some:
  assumes "tsb_shape t L" "L Free = a # fr" "L Hand = []"
  obtains t' where "alloc_entry t = (Inr (Some a), t')" "tsb_shape t' (L(Free := fr, Hand := [a]))" "same_parts L t t'" "blank (ents t' ! a)" "last_ents t' = last_ents t"
proof -
  let ?h = "(ents t)[a := clear_entry (ents t ! a)]"
  define t' where "t' = t\<lparr>f_head := (if fr = [] then None else f_head t), f_tail := (if fr = [] then None else Some (hd fr)), tsb_size := tsb_size t + 1, ents := ?h\<rparr>"
  note ex = shape_exact [OF assms(1)]
  have f: "fseg (ents t) (a # fr)" "f_tail t = Some a" "f_head t = Some (last (a # fr))" "tsb_size t = max_size t - int (length (a # fr))"
    using assms(1,2) by (simp_all add: tsb_shape_def free_ok_def)
  have d: "distinct (a # fr)" using exact_distinct [OF ex, of Free] assms(2) by simp
  have a: "a < length (ents t)" "a \<in> set (L Free)" using f(1) assms(2) by simp_all
  have eq: "f_head t = f_tail t \<longleftrightarrow> fr = []" using f(2,3) d by (cases fr) (auto dest: last_in_set)
  have "alloc_entry t = (Inr (Some a), t')"
    using f(1,2) eq a(1) by (auto simp: alloc_entry_def bind_prog_def modify_prog_def return_prog_def ent_def upd_def t'_def)
  moreover have "tsb_shape t' (L(Free := fr, Hand := [a]))"
  proof (rule shape_step [OF assms(1), where P = "{Free, Hand}"])
    show "exact (L(Free := fr, Hand := [a])) (length (ents t))"
      by (rule exact_move [OF ex _ a(2)]) (use assms(2,3) d in auto)
    show "free_ok t' ((L(Free := fr, Hand := [a])) Free)"
      using f d fseg_cong [of ?h "ents t" fr] by (auto simp: free_ok_def t'_def nth_list_update_neq)
    show "ents t' ! b = ents t ! b" if "b \<in> set (L p)" "p \<notin> {Free, Hand}" for b p
      using exact_disjoint [OF ex a(2), of p] that by (auto simp: t'_def)
  qed (use assms(1) in \<open>auto simp: t'_def tsb_shape_def arrays_ok_def\<close>)
  moreover have "a \<notin> set (L (Part i))" for i using exact_disjoint [OF ex a(2)] by simp
  then have "same_parts L t t'" by (auto simp: same_parts_def t'_def)
  ultimately show thesis using that a(1) by (simp add: blank_def clear_entry_def t'_def)
qed

lemma free_entry_run:
  assumes "tsb_shape t L" "L Hand = [a]"
  obtains t' where "free_entry (Some a) t = (Inr (), t')" "tsb_shape t' (L(Hand := [], Free := a # L Free))" "same_parts L t t'" "last_ents t' = last_ents t"
proof -
  let ?h = "(ents t)[a := (ents t ! a)\<lparr>ent_next := f_tail t\<rparr>]"
  define t' where "t' = t\<lparr>f_tail := Some a, f_head := (if f_head t = None then Some a else f_head t), tsb_size := tsb_size t - 1, ents := ?h\<rparr>"
  note ex = shape_exact [OF assms(1)]
  have f: "fseg (ents t) (L Free)" "f_tail t = (if L Free = [] then None else Some (hd (L Free)))" "f_head t = (if L Free = [] then None else Some (last (L Free)))"
    "tsb_size t = max_size t - int (length (L Free))" using assms(1) by (simp_all add: tsb_shape_def free_ok_def)
  have a: "a \<in> set (L Hand)" "a < length (ents t)" "a \<notin> set (L Free)" using assms(2) exact_disjoint [OF ex, of a Hand Free] exact_bound [OF ex, of a Hand] by auto
  have "free_entry (Some a) t = (Inr (), t')" using a(2) by (simp add: free_entry_def bind_prog_def modify_prog_def upd_def t'_def)
  moreover have "tsb_shape t' (L(Hand := [], Free := a # L Free))"
  proof (rule shape_step [OF assms(1), where P = "{Free, Hand}"])
    show "exact (L(Hand := [], Free := a # L Free)) (length (ents t))"
      by (rule exact_move [OF ex _ a(1)]) (use assms(2) exact_distinct [OF ex, of Free] a(3) in auto)
    have "fseg ?h (L Free) = fseg (ents t) (L Free)" by (rule fseg_cong) (use a(3) in simp_all)
    then show "free_ok t' ((L(Hand := [], Free := a # L Free)) Free)" using f a(2) by (auto simp: free_ok_def t'_def)
    show "ents t' ! b = ents t ! b" if "b \<in> set (L p)" "p \<notin> {Free, Hand}" for b p
      using exact_disjoint [OF ex a(1), of p] that by (auto simp: t'_def)
  qed (use assms(1) in \<open>auto simp: t'_def tsb_shape_def arrays_ok_def\<close>)
  moreover have "a \<notin> set (L (Part i))" for i using exact_disjoint [OF ex a(1)] by simp
  then have "same_parts L t t'" by (auto simp: same_parts_def t'_def)
  ultimately show thesis using that by (simp add: t'_def)
qed


text \<open>The reserved entry of a partition goes into the hands of the operation, and back.\<close>

lemma last_ents_step:
  assumes "tsb_shape t L" "i < num_parts t" "t' = t\<lparr>ents := (ents t)[a := e], last_ents := (last_ents t)[i := p]\<rparr>" "\<And>q. q \<noteq> Res i \<Longrightarrow> q \<noteq> Hand \<Longrightarrow> L' q = L q"
    "exact L' (length (ents t))" "L' (Res i) = (case p of None \<Rightarrow> [] | Some b \<Rightarrow> [b])" "a \<in> set (L (Res i)) \<union> set (L Hand)"
  shows "tsb_shape t' L'" "same_parts L t t'"
proof -
  note ex = shape_exact [OF assms(1)]
  have n: "a \<notin> set (L q)" if "q \<noteq> Res i" "q \<noteq> Hand" for q using exact_disjoint [OF ex, of a] assms(7) that by blast
  note o = assms(4)
  show "tsb_shape t' L'"
  proof (rule shape_step [OF assms(1,5), where P = "{Res i, Hand}"])
    show "free_ok t' (L' Free)" unfolding o [of Free, simplified]
      by (rule free_ok_cong [of t]) (use assms(1,3) n [of Free] in \<open>auto simp: tsb_shape_def\<close>)
    show "L' (Res j) = (case last_ents t' ! j of None \<Rightarrow> [] | Some a \<Rightarrow> [a])" if "j < num_parts t" for j
      using assms(1,2,3,6) that o [of "Res j"] by (cases "j = i") (auto simp: tsb_shape_def arrays_ok_def)
    show "ents t' ! b = ents t ! b" if "b \<in> set (L q)" "q \<notin> {Res i, Hand}" for b q using n [of q] that by (auto simp: assms(3))
  qed (use assms(1-3) o in \<open>auto simp: tsb_shape_def arrays_ok_def\<close>)
  have "a \<notin> set (L (Part j))" for j using n by simp
  then show "same_parts L t t'" by (auto simp: same_parts_def assms(3))
qed

lemma alloc_w_last_run:
  assumes "tsb_shape t L" "L Hand = []" "i < num_parts t"
  shows "if L Free = [] \<and> L (Res i) = [] then alloc_entry_w_last i t = (Inr None, t)
    else \<exists>a p t'. alloc_entry_w_last i t = (Inr (Some a), t') \<and> (p = Free \<or> p = Res i) \<and> L p = a # tl (L p) \<and> tsb_shape t' (L(p := tl (L p), Hand := [a])) \<and>
      same_parts L t t' \<and> blank (ents t' ! a)"
proof (cases "L Free")
  case (Cons a fr)
  obtain t' where "alloc_entry t = (Inr (Some a), t')" "tsb_shape t' (L(Free := fr, Hand := [a]))" "same_parts L t t'" "blank (ents t' ! a)"
    by (rule alloc_some [OF assms(1) Cons assms(2)])
  then show ?thesis using Cons
    by (intro if_not_P [THEN iffD2] exI [of _ a] exI [of _ Free] exI [of _ t']) (simp_all add: alloc_entry_w_last_def bind_prog_def return_prog_def)
next
  case Nil
  have r: "L (Res i) = (case last_ents t ! i of None \<Rightarrow> [] | Some a \<Rightarrow> [a])" "i < length (last_ents t)"
    using assms(1,3) by (simp_all add: tsb_shape_def arrays_ok_def)
  note none = alloc_none [OF assms(1) Nil]
  show ?thesis
  proof (cases "last_ents t ! i")
    case None
    then show ?thesis using r none Nil by (simp add: alloc_entry_w_last_def bind_prog_def return_prog_def elem_at_def)
  next
    case (Some a)
    note ex = shape_exact [OF assms(1)]
    have a: "L (Res i) = [a]" "a < length (ents t)" using r(1) Some exact_bound [OF ex, of a "Res i"] by auto
    define t' where "t' = t\<lparr>ents := (ents t)[a := clear_entry (ents t ! a)], last_ents := (last_ents t)[i := None]\<rparr>"
    have "alloc_entry_w_last i t = (Inr (Some a), t')"
      using none Some r(2) a(2) by (simp add: alloc_entry_w_last_def bind_prog_def return_prog_def elem_at_def upd_def set_ptr_def last_ents_fld_def t'_def)
    moreover have ex': "exact (L(Res i := [], Hand := [a])) (length (ents t))"
      by (rule exact_move [OF ex, of _ _ a]) (use a(1) assms(2) in auto)
    have "tsb_shape t' (L(Res i := [], Hand := [a]))" "same_parts L t t'"
      by (rule last_ents_step [OF assms(1,3) t'_def _ ex']; use a(1) in simp)+
    ultimately show ?thesis using a
      by (intro if_not_P [THEN iffD2] exI [of _ a] exI [of _ "Res i"] exI [of _ t']) (simp_all add: blank_def clear_entry_def t'_def)
  qed
qed

lemma free_w_last_run:
  assumes "tsb_shape t L" "L Hand = [a]" "i < num_parts t"
  obtains t' p where "free_entry_w_last (Some a) i t = (Inr (), t')" "p = Free \<or> p = Res i" "tsb_shape t' (L(Hand := [], p := a # L p))" "same_parts L t t'"
proof -
  have r: "L (Res i) = (case last_ents t ! i of None \<Rightarrow> [] | Some a \<Rightarrow> [a])" "i < length (last_ents t)"
    using assms(1,3) by (simp_all add: tsb_shape_def arrays_ok_def)
  note ex = shape_exact [OF assms(1)]
  show thesis
  proof (cases "last_ents t ! i")
    case None
    define t' where "t' = t\<lparr>ents := (ents t)[a := ents t ! a], last_ents := (last_ents t)[i := Some a]\<rparr>"
    have "free_entry_w_last (Some a) i t = (Inr (), t')"
      using None r(2) by (simp add: free_entry_w_last_def bind_prog_def elem_at_def set_ptr_def last_ents_fld_def t'_def)
    moreover have ex': "exact (L(Hand := [], Res i := a # L (Res i))) (length (ents t))"
      by (rule exact_move [OF ex, of _ _ a]) (use assms(2) r(1) None in auto)
    have "tsb_shape t' (L(Hand := [], Res i := a # L (Res i)))" "same_parts L t t'"
      by (rule last_ents_step [OF assms(1,3) t'_def _ ex']; use r(1) None assms(2) in simp)+
    ultimately show thesis using that by blast
  next
    case (Some b)
    obtain t' where "free_entry (Some a) t = (Inr (), t')" "tsb_shape t' (L(Hand := [], Free := a # L Free))" "same_parts L t t'"
      by (rule free_entry_run [OF assms(1,2)])
    then show thesis using that [of t' Free] Some r(2) by (simp add: free_entry_w_last_def bind_prog_def elem_at_def)
  qed
qed


section \<open>Adding an entry to a partition and deleting one\<close>

lemma link_entry_run:
  fixes f :: "'b TSB_Entry \<Rightarrow> 'b TSB_Entry"
  assumes "tsb_shape t L" "L Hand = [a]" "i < num_parts t" "blank (ents t ! a)" "\<And>e. ent_prev (f e) = ent_prev e" "\<And>e. 0 \<le> dmask (f e)"
  defines "s \<equiv> last (L (Part i))"
  defines "t' \<equiv> t\<lparr>ents := (ents t)[s := (f (ents t ! s))\<lparr>ent_next := Some a\<rparr>, a := (ents t ! a)\<lparr>ent_prev := Some s\<rparr>],
     tsb_table := (tsb_table t)[i := Some a], tsb_counts := (tsb_counts t)[i := tsb_counts t ! i + 1]\<rparr>"
  shows "link_entry i (Some a) f t = (Inr (), t')" "tsb_shape t' (L(Hand := [], Part i := L (Part i) @ [a]))" "s < length (ents t)" "s \<noteq> a" "a < length (ents t)"
proof -
  note ex = shape_exact [OF assms(1)]
  have p: "L (Part i) \<noteq> []" "dseg (ents t) None (L (Part i)) None" "dmask (ents t ! s) = -1" "\<forall>b\<in>set (butlast (L (Part i))). 0 \<le> dmask (ents t ! b)" "tsb_table t ! i = Some s"
    using shape_part [OF assms(1,3)] by (simp_all add: part_shape_def s_def)
  have sp: "s \<in> set (L (Part i))" using p(1) by (simp add: s_def)
  have ah: "a \<in> set (L Hand)" using assms(2) by simp
  have an: "a \<notin> set (L q)" if "q \<noteq> Hand" for q by (rule exact_disjoint [OF ex ah]) (use that in simp)
  show b: "s < length (ents t)" "s \<noteq> a" "a < length (ents t)" using exact_bound [OF ex sp] exact_bound [OF ex ah] an [of "Part i"] sp by auto
  have len: "i < length (tsb_table t)" "i < length (tsb_counts t)" using assms(1,3) by (simp_all add: tsb_shape_def arrays_ok_def)
  show "link_entry i (Some a) f t = (Inr (), t')"
    using len p(5) b by (simp add: link_entry_def bind_prog_def elem_at_def upd_def set_ptr_def table_fld_def add_count_def t'_def nth_list_update)
  let ?L = "L(Hand := [], Part i := L (Part i) @ [a])"
  show "tsb_shape t' ?L"
  proof (rule shape_step [OF assms(1), where P = "{Hand, Part i}"])
    show "exact ?L (length (ents t))"
      by (rule exact_move [OF ex _ ah]) (use assms(2) an [of "Part i"] exact_distinct [OF ex, of "Part i"] in auto)
    have sn: "s \<notin> set (L q)" if "q \<noteq> Part i" for q by (rule exact_disjoint [OF ex sp]) (use that in simp)
    show "ents t' ! c = ents t ! c" if "c \<in> set (L q)" "q \<notin> {Hand, Part i}" for c q
      using that an [of q] sn [of q] by (auto simp: t'_def)
    have "free_ok t' (L Free)" by (rule free_ok_cong [of t]) (use assms(1) an [of Free] sn [of Free] in \<open>auto simp: t'_def tsb_shape_def\<close>)
    then show "free_ok t' (?L Free)" by simp
    have d: "distinct (L (Part i) @ [a])" using exact_distinct [OF ex, of "Part i"] an [of "Part i"] by auto
    have "dseg (ents t') None (L (Part i) @ [a]) None"
      unfolding t'_def s_def using assms(4,5) by (simp, intro dseg_snoc [OF p(2,1) d b(3)]) (auto simp: blank_def)
    moreover have "0 \<le> dmask (ents t' ! c)" if "c \<in> set (L (Part i))" for c
    proof (cases "c = s")
      case False
      then have "c \<in> set (butlast (L (Part i)))" using that p(1) by (cases "L (Part i)" rule: rev_cases) (auto simp: s_def)
      then show ?thesis using p(4) False an [of "Part i"] that by (auto simp: t'_def nth_list_update_neq)
    qed (use b assms(6) in \<open>simp add: t'_def\<close>)
    ultimately have "part_shape t' i (L (Part i) @ [a])" using assms(4) b len by (simp add: part_shape_def) (simp add: t'_def blank_def)
    then show "part_shape t' j (?L (Part j))" if "j < num_parts t" "Part j \<in> {Hand, Part i}" for j using that by auto
  qed (use assms(1,3) in \<open>auto simp: t'_def tsb_shape_def arrays_ok_def\<close>)
qed


text \<open>Deleting keeps the cursors, and the contents of all other entries.\<close>

definition same_cursors :: "'b TSB \<Rightarrow> 'b TSB \<Rightarrow> bool" where
  "same_cursors t t' \<longleftrightarrow> length (ents t') = length (ents t) \<and> num_parts t' = num_parts t \<and> max_size t' = max_size t \<and> prod_ack t' = prod_ack t \<and>
     prim_ack t' = prim_ack t \<and> sec_ack t' = sec_ack t \<and> p_head t' = p_head t \<and> s_head t' = s_head t \<and> tsb_shouldFree t' = tsb_shouldFree t"

abbreviation content :: "'b TSB_Entry \<Rightarrow> int \<times> 'b tsb_result \<times> int" where
  "content e \<equiv> (seqnum e, rtup e, dmask e)"

definition tuple_of :: "'b TSB_Entry \<Rightarrow> 'b list" where
  "tuple_of e = (case rtup e of Res_heap (Some tup) \<Rightarrow> [tup] | _ \<Rightarrow> [])"

lemma free_tuple_run:
  fixes t :: "'b TSB"
  assumes "a < length (ents t)"
  obtains h :: "'b TSB_Entry list" where
    "free_tuple (Some a) (ents t ! a) t = (Inr (), t\<lparr>ents := h, tsb_freed := tsb_freed t @ (if tsb_shouldFree t then tuple_of (ents t ! a) else [])\<rparr>)"
    "length h = length (ents t)" "\<And>b. ent_next (h ! b) = ent_next (ents t ! b) \<and> ent_prev (h ! b) = ent_prev (ents t ! b) \<and> dmask (h ! b) = dmask (ents t ! b)"
    "\<And>b. b \<noteq> a \<Longrightarrow> h ! b = ents t ! b"
proof (cases "\<exists>tup. rtup (ents t ! a) = Res_heap (Some tup)")
  case True
  then obtain tup where tup: "rtup (ents t ! a) = Res_heap (Some tup)" by blast
  define h where "h = (ents t)[a := (ents t ! a)\<lparr>rtup := Res_heap None\<rparr>]"
  have "free_tuple (Some a) (ents t ! a) t = (Inr (), t\<lparr>ents := h, tsb_freed := tsb_freed t @ (if tsb_shouldFree t then tuple_of (ents t ! a) else [])\<rparr>)"
    using tup assms by (cases t) (simp add: free_tuple_def bind_prog_def modify_prog_def upd_def h_def tuple_of_def)
  moreover have "ent_next (h ! b) = ent_next (ents t ! b) \<and> ent_prev (h ! b) = ent_prev (ents t ! b) \<and> dmask (h ! b) = dmask (ents t ! b)" for b
    using assms by (cases "b = a") (simp_all add: h_def)
  moreover have "length h = length (ents t)" "\<And>b. b \<noteq> a \<Longrightarrow> h ! b = ents t ! b" by (simp_all add: h_def)
  ultimately show thesis using that by blast
next
  case False
  then have "free_tuple (Some a) (ents t ! a) t = (Inr (), t)" "tuple_of (ents t ! a) = []"
    by (auto simp: free_tuple_def return_prog_def tuple_of_def split: tsb_result.split option.split)
  then show thesis by (intro that [of "ents t"]) simp_all
qed

lemma del_entry_run:
  fixes t :: "'b TSB"
  assumes "tsb_shape t L" "L Hand = []" "i < num_parts t" "L (Part i) = ys @ a # zs" "zs \<noteq> []" "1 \<le> tsb_counts t ! i"
  obtains t' p where "del_entry i (Some a) t = (Inr (), t')" "p = Free \<or> p = Res i" "tsb_shape t' (L(Part i := ys @ zs, p := a # L p))" "same_cursors t t'"
    "tsb_counts t' = (tsb_counts t)[i := tsb_counts t ! i - 1]" "\<And>b j. b \<noteq> a \<Longrightarrow> b \<in> set (L (Part j)) \<Longrightarrow> content (ents t' ! b) = content (ents t ! b)"
    "tsb_freed t' = tsb_freed t @ (if tsb_shouldFree t then tuple_of (ents t ! a) else [])"
proof -
  note ex = shape_exact [OF assms(1)]
  have p: "dseg (ents t) None (ys @ a # zs) None" "dmask (ents t ! last zs) = -1" "\<forall>b\<in>set (ys @ butlast zs). 0 \<le> dmask (ents t ! b)" "tsb_table t ! i = Some (last zs)"
    using shape_part [OF assms(1,3)] assms(4,5) by (auto simp: part_shape_def butlast_append)
  have d: "distinct (ys @ a # zs)" using exact_distinct [OF ex, of "Part i"] assms(4) by simp
  have ap: "a \<in> set (L (Part i))" "a < length (ents t)" using assms(4) exact_bound [OF ex, of a "Part i"] by simp_all
  let ?e = "ents t ! a" and ?fr = "tsb_freed t @ (if tsb_shouldFree t then tuple_of (ents t ! a) else [])"
  have e: "ent_prev ?e = (if ys = [] then None else Some (last ys))" "ent_next ?e = Some (hd zs)" using p(1) assms(5) by (simp_all add: dseg_append)
  obtain h0 :: "'b TSB_Entry list" where h0: "free_tuple (Some a) ?e t = (Inr (), t\<lparr>ents := h0, tsb_freed := ?fr\<rparr>)" "length h0 = length (ents t)"
    "\<And>b. ent_next (h0 ! b) = ent_next (ents t ! b) \<and> ent_prev (h0 ! b) = ent_prev (ents t ! b) \<and> dmask (h0 ! b) = dmask (ents t ! b)" "\<And>b. b \<noteq> a \<Longrightarrow> h0 ! b = ents t ! b"
    by (rule free_tuple_run [OF ap(2)]) blast
  define h1 where "h1 = (if ys = [] then h0 else h0[last ys := (h0 ! last ys)\<lparr>ent_next := ent_next ?e\<rparr>])"
  define h2 where "h2 = h1[hd zs := (h1 ! hd zs)\<lparr>ent_prev := ent_prev ?e\<rparr>]"
  define t1 where "t1 = t\<lparr>tsb_freed := ?fr, ents := h2\<rparr>"
  have len: "length h1 = length (ents t)" "length h2 = length (ents t)" by (simp_all add: h1_def h2_def h0(2))
  have in_part: "hd zs \<in> set (L (Part i))" "ys \<noteq> [] \<Longrightarrow> last ys \<in> set (L (Part i))" using assms(4,5) by simp_all
  have b: "hd zs < length (ents t)" "ys \<noteq> [] \<Longrightarrow> last ys < length (ents t)" using exact_bound [OF ex in_part(1)] exact_bound [OF ex in_part(2)] by simp_all
  have same1: "content (h1 ! c) = content (h0 ! c)" for c using b(2) by (cases "c = last ys") (simp_all add: h1_def h0(2))
  have same: "content (h2 ! c) = content (h0 ! c)" for c using b(1) same1 [of c] len by (cases "c = hd zs") (simp_all add: h2_def)
  have other: "h2 ! c = ents t ! c" if "c \<in> set (L q)" "q \<noteq> Part i" for c q
  proof -
    have "c \<notin> set (L (Part i))" by (rule exact_disjoint [OF ex that(1)]) (use that(2) in simp)
    then have "c \<noteq> a" "c \<noteq> hd zs" "ys \<noteq> [] \<Longrightarrow> c \<noteq> last ys" using ap(1) in_part by auto
    then show ?thesis using h0(4) by (cases "ys = []") (simp_all add: h2_def h1_def)
  qed
  let ?L1 = "L(Part i := ys @ zs, Hand := [a])"
  have shape1: "tsb_shape t1 ?L1"
  proof (rule shape_step [OF assms(1), where P = "{Hand, Part i}"])
    show "exact ?L1 (length (ents t))" by (rule exact_move [OF ex _ ap(1)]) (use assms(2,4) d in auto)
    show "ents t1 ! c = ents t ! c" if "c \<in> set (L q)" "q \<notin> {Hand, Part i}" for c q using other [OF that(1)] that(2) by (simp add: t1_def)
    have "free_ok t1 (L Free)" by (rule free_ok_cong [of t]) (use assms(1) other [of _ Free] in \<open>simp_all add: t1_def len tsb_shape_def\<close>)
    then show "free_ok t1 (?L1 Free)" by simp
    have "dseg h0 None (ys @ a # zs) None = dseg (ents t) None (ys @ a # zs) None" by (rule dseg_cong [OF h0(2)]) (use h0(3) in blast)
    then have "dseg h2 None (ys @ zs) None"
      by (intro dseg_remove [of h0 _ ys a zs None h1]) (use p(1) d e assms(5) h0(3) [of a] in \<open>simp_all add: h1_def h2_def\<close>)
    moreover have "dmask (h2 ! c) = dmask (ents t ! c)" for c using same [of c] h0(3) by simp
    ultimately have "part_shape t1 i (ys @ zs)" using p(2-4) assms(5) by (simp add: part_shape_def t1_def butlast_append)
    then show "part_shape t1 j (?L1 (Part j))" if "j < num_parts t" "Part j \<in> {Hand, Part i}" for j using that by auto
  qed (use assms(1,3) in \<open>auto simp: t1_def len tsb_shape_def arrays_ok_def\<close>)
  obtain t2 p where t2: "free_entry_w_last (Some a) i t1 = (Inr (), t2)" "p = Free \<or> p = Res i" "tsb_shape t2 (?L1(Hand := [], p := a # ?L1 p))" "same_parts ?L1 t1 t2"
    using free_w_last_run [OF shape1, of a i] assms(3) by (auto simp: t1_def)
  define t3 where "t3 = t2\<lparr>tsb_counts := (tsb_counts t)[i := tsb_counts t ! i - 1]\<rparr>"
  have i: "i < length (tsb_counts t)" "tsb_counts t2 = tsb_counts t" using assms(1,3) t2(4) by (simp_all add: tsb_shape_def arrays_ok_def same_parts_def t1_def)
  have "del_entry i (Some a) t = (Inr (), t3)"
    using ap(2) h0(1,2) e b len assms(5,6) t2(1) i
    by (auto simp: del_entry_def ent_def bind_prog_def upd_def return_prog_def add_count_def elem_at_def t1_def h1_def h2_def t3_def)
  moreover have "?L1(Hand := [], p := a # ?L1 p) = L(Part i := ys @ zs, p := a # L p)" using t2(2) assms(2) by (auto simp: fun_eq_iff)
  then have "tsb_shape t2 (L(Part i := ys @ zs, p := a # L p))" using t2(3) by simp
  then have "tsb_shape t3 (L(Part i := ys @ zs, p := a # L p))"
    by (simp add: tsb_shape_def t3_def arrays_ok_def free_ok_def part_shape_def i cong: if_cong)
  moreover have "same_cursors t t3" "tsb_counts t3 = (tsb_counts t)[i := tsb_counts t ! i - 1]" "tsb_freed t3 = ?fr"
    using t2(4) len by (simp_all add: same_cursors_def same_parts_def t3_def t1_def)
  moreover have "content (ents t3 ! c) = content (ents t ! c)" if "c \<noteq> a" "c \<in> set (L (Part j))" for c j
  proof -
    have "c \<in> set (?L1 (Part j))" using that assms(4) by auto
    then have "ents t2 ! c = h2 ! c" using t2(4) by (simp add: same_parts_def t1_def)
    then show ?thesis using same [of c] h0(4) [OF that(1)] by (simp add: t3_def)
  qed
  ultimately show thesis using that t2(2) by blast
qed


end
