(* ===== verification/Skew_Buffer_Properties.thy ===== *)
theory Skew_Buffer_Properties
  imports Skew_Buffer_Shape
begin

text \<open>
  What the transient skew buffer promises: the invariant on cursors and heads, what an acknowledgement does to the list of a
  partition, and that the operations keep the invariant in any sequence a client may use.
\<close>

section \<open>Masks\<close>

abbreviation masks :: "int set" where
  "masks \<equiv> {1, 2, 4}"

lemma mask_bits:
  assumes "m \<in> masks" "m' \<in> masks"
  shows "(d OR m) AND m = m" "m \<noteq> m' \<Longrightarrow> (d OR m) AND m' = d AND m'" "0 \<le> d \<Longrightarrow> 0 \<le> d OR m" "(d AND NOT m) AND m \<noteq> m"
    "m \<noteq> m' \<Longrightarrow> (d AND NOT m) AND m' = d AND m'" "0 \<le> d \<Longrightarrow> 0 \<le> d AND NOT m"
proof -
  have b: "bit m n \<longleftrightarrow> n = (if m = 1 then 0 else if m = 2 then 1 else 2)" if "m \<in> masks" for m :: int and n
    using that bit_push_bit_iff_int [of 1 1 n] bit_push_bit_iff_int [of 2 1 n] by (auto simp: bit_1_iff push_bit_eq_mult)
  show "(d OR m) AND m = m" "m \<noteq> m' \<Longrightarrow> (d OR m) AND m' = d AND m'" "m \<noteq> m' \<Longrightarrow> (d AND NOT m) AND m' = d AND m'"
    using assms by (auto intro!: bit_eqI simp: bit_simps b split: if_splits)
  have "(d AND NOT m) AND m = 0" by (auto intro!: bit_eqI simp: bit_simps)
  then show "(d AND NOT m) AND m \<noteq> m" using assms(1) by auto
  show "0 \<le> d \<Longrightarrow> 0 \<le> d OR m" "0 \<le> d \<Longrightarrow> 0 \<le> d AND NOT m" using assms(1) by auto
qed

section \<open>Cursors\<close>

definition acks :: "int \<Rightarrow> 'b TSB \<Rightarrow> ptr list" where
  "acks m t = (if m = TSB_PRODUCED then prod_ack t else if m = TSB_PRIMARY then prim_ack t else sec_ack t)"

definition heads :: "int \<Rightarrow> 'b TSB \<Rightarrow> ptr list option" where
  "heads m t = (if m = TSB_PRIMARY then Some (p_head t) else if m = TSB_SECONDARY then Some (s_head t) else None)"

definition set_ack :: "int \<Rightarrow> nat \<Rightarrow> ptr \<Rightarrow> 'b TSB \<Rightarrow> 'b TSB" where
  "set_ack m i p t = (if m = TSB_PRODUCED then t\<lparr>prod_ack := (prod_ack t)[i := p]\<rparr> else if m = TSB_PRIMARY then t\<lparr>prim_ack := (prim_ack t)[i := p]\<rparr>
     else t\<lparr>sec_ack := (sec_ack t)[i := p]\<rparr>)"

definition set_head :: "int \<Rightarrow> nat \<Rightarrow> ptr \<Rightarrow> 'b TSB \<Rightarrow> 'b TSB" where
  "set_head m i p t = (if m = TSB_PRIMARY then t\<lparr>p_head := (p_head t)[i := p]\<rparr> else t\<lparr>s_head := (s_head t)[i := p]\<rparr>)"

lemmas tsb_masks = TSB_PRODUCED_def TSB_PRIMARY_def TSB_SECONDARY_def

lemma ack_fld_update:
  "prod_ack_update f t = t\<lparr>prod_ack := f (prod_ack t)\<rparr>" "prim_ack_update f t = t\<lparr>prim_ack := f (prim_ack t)\<rparr>" "sec_ack_update f t = t\<lparr>sec_ack := f (sec_ack t)\<rparr>"
  "p_head_update f t = t\<lparr>p_head := f (p_head t)\<rparr>" "s_head_update f t = t\<lparr>s_head := f (s_head t)\<rparr>"
  by (cases t; simp)+

lemma ack_fld_run:
  assumes "m \<in> masks"
  obtains c :: "'b fld" where "ack_fld m = Some c" "fst c = acks m" "\<And>i p t. i < length (acks m t) \<Longrightarrow> set_ptr c i p t = (Inr (), set_ack m i p t)"
proof -
  define c :: "'b fld" where "c = (if m = 1 then prod_ack_fld else if m = 2 then prim_ack_fld else sec_ack_fld)"
  have f: "ack_fld m = Some c" using assms by (auto simp: ack_fld_def c_def tsb_masks)
  have a: "fst c = acks m" by (rule ext) (simp add: acks_def c_def tsb_masks prod_ack_fld_def prim_ack_fld_def sec_ack_fld_def)
  have s: "snd c (\<lambda>ps. ps[i := p]) t = set_ack m i p t" for i p t
    unfolding c_def set_ack_def tsb_masks prod_ack_fld_def prim_ack_fld_def sec_ack_fld_def
    by (simp add: ack_fld_update(1) [of "\<lambda>ps. ps[i := p]" t] ack_fld_update(2) [of "\<lambda>ps. ps[i := p]" t] ack_fld_update(3) [of "\<lambda>ps. ps[i := p]" t] del: list_update.simps)
  show thesis by (rule that [OF f a]) (simp add: set_ptr_def a s)
qed

lemma head_fld_run:
  assumes "m = 2 \<or> m = 4"
  obtains c :: "'b fld" where "head_fld m = Some c" "\<And>t. heads m t = Some (fst c t)" "\<And>i p t. i < length (fst c t) \<Longrightarrow> set_ptr c i p t = (Inr (), set_head m i p t)"
proof -
  define c :: "'b fld" where "c = (if m = 2 then p_head_fld else s_head_fld)"
  have f: "head_fld m = Some c" using assms by (auto simp: head_fld_def c_def tsb_masks)
  have a: "heads m t = Some (fst c t)" for t using assms by (auto simp: heads_def c_def tsb_masks p_head_fld_def s_head_fld_def)
  have s: "snd c (\<lambda>ps. ps[i := p]) t = set_head m i p t" for i p t
    unfolding c_def set_head_def tsb_masks p_head_fld_def s_head_fld_def
    by (simp add: ack_fld_update(4) [of "\<lambda>ps. ps[i := p]" t] ack_fld_update(5) [of "\<lambda>ps. ps[i := p]" t] del: list_update.simps)
  show thesis by (rule that [OF f a]) (simp add: set_ptr_def s)
qed

lemma shape_frame:
  assumes "ents t' = ents t" "tsb_table t' = tsb_table t" "f_head t' = f_head t" "f_tail t' = f_tail t" "tsb_size t' = tsb_size t" "max_size t' = max_size t"
    "num_parts t' = num_parts t" "last_ents t' = last_ents t" "arrays_ok t' = arrays_ok t"
  shows "tsb_shape t' L = tsb_shape t L"
  using assms by (simp only: tsb_shape_def free_ok_def part_shape_def)

lemma set_ack_simps [simp]:
  "ents (set_ack m i p t) = ents t" "num_parts (set_ack m i p t) = num_parts t" "tsb_counts (set_ack m i p t) = tsb_counts t" "tsb_freed (set_ack m i p t) = tsb_freed t"
  "heads m' (set_ack m i p t) = heads m' t" "tsb_shape (set_ack m i p t) L = tsb_shape t L" "tsb_shouldFree (set_ack m i p t) = tsb_shouldFree t"
  "last_ents (set_ack m i p t) = last_ents t"
  by (simp_all add: set_ack_def heads_def) (intro conjI impI shape_frame; simp add: arrays_ok_def)+

lemma set_head_simps [simp]:
  "ents (set_head m i p t) = ents t" "num_parts (set_head m i p t) = num_parts t" "tsb_counts (set_head m i p t) = tsb_counts t" "tsb_freed (set_head m i p t) = tsb_freed t"
  "acks m' (set_head m i p t) = acks m' t" "tsb_shape (set_head m i p t) L = tsb_shape t L" "tsb_shouldFree (set_head m i p t) = tsb_shouldFree t"
  "last_ents (set_head m i p t) = last_ents t"
  by (simp_all add: set_head_def acks_def) (intro conjI impI shape_frame; simp add: arrays_ok_def)+

lemma acks_set_ack: "m \<in> masks \<Longrightarrow> m' \<in> masks \<Longrightarrow> acks m' (set_ack m i p t) = (if m' = m then (acks m t)[i := p] else acks m' t)"
  by (auto simp: acks_def set_ack_def tsb_masks)

lemma heads_set_head: "m = 2 \<or> m = 4 \<Longrightarrow> heads m' (set_head m i p t) = (if m' = m then map_option (\<lambda>h. h[i := p]) (heads m t) else heads m' t)"
  by (auto simp: heads_def set_head_def tsb_masks)

lemma length_acks: "arrays_ok t \<Longrightarrow> length (acks m t) = num_parts t"
  by (simp add: acks_def arrays_ok_def)

lemma length_heads: "arrays_ok t \<Longrightarrow> heads m t = Some h \<Longrightarrow> length h = num_parts t"
  by (auto simp: heads_def arrays_ok_def split: if_splits)

text \<open>
  A cursor \<open>p\<close> for mask \<open>m\<close> points into the chain, no entry from there on has the bit of \<open>m\<close>, and the head \<open>hp\<close> of that
  side, if it has one, is not before the cursor.
\<close>

definition cursor_ok :: "'b TSB_Entry list \<Rightarrow> nat list \<Rightarrow> int \<Rightarrow> ptr \<Rightarrow> ptr option \<Rightarrow> bool" where
  "cursor_ok h xs m p hp \<longleftrightarrow> (\<exists>ys zs. xs = ys @ zs \<and> zs \<noteq> [] \<and> p = Some (hd zs) \<and> (\<forall>a\<in>set (butlast zs). dmask (h ! a) AND m \<noteq> m) \<and>
     (case hp of None \<Rightarrow> True | Some q \<Rightarrow> \<exists>b\<in>set zs. q = Some b))"

text \<open>
  A well-formed buffer, for the sets \<open>live i\<close> of the sides whose cursors are in use in partition \<open>i\<close>. The head of side \<open>m\<close> of partition \<open>i\<close>
  is looked at only if \<open>hs m i\<close>: \<^verbatim>\<open>ack_all_TSB\<close> lets the cursor overtake the head and puts the head right at the end.
\<close>

definition head_at :: "(int \<Rightarrow> nat \<Rightarrow> bool) \<Rightarrow> int \<Rightarrow> nat \<Rightarrow> 'b TSB \<Rightarrow> ptr option" where
  "head_at hs m i t = (if hs m i then map_option (\<lambda>h. h ! i) (heads m t) else None)"

definition tsb_inv :: "(nat \<Rightarrow> int set) \<Rightarrow> (int \<Rightarrow> nat \<Rightarrow> bool) \<Rightarrow> 'b TSB \<Rightarrow> layout \<Rightarrow> bool" where
  "tsb_inv live hs t L \<longleftrightarrow> tsb_shape t L \<and> L Hand = [] \<and> (\<forall>i<num_parts t. tsb_counts t ! i = int (length (L (Part i))) - 1 \<and>
     (\<forall>m\<in>live i. cursor_ok (ents t) (L (Part i)) m (acks m t ! i) (head_at hs m i t)))"

lemma cursor_okE:
  assumes "cursor_ok h xs m p hp"
  obtains ys zs where "xs = ys @ zs" "zs \<noteq> []" "p = Some (hd zs)" "\<And>a. a \<in> set (butlast zs) \<Longrightarrow> dmask (h ! a) AND m \<noteq> m"
    "case hp of None \<Rightarrow> True | Some q \<Rightarrow> \<exists>b\<in>set zs. q = Some b"
  using assms unfolding cursor_ok_def by (elim exE conjE) (rule that; blast)

lemma cursor_okI:
  assumes "xs = ys @ zs" "zs \<noteq> []" "p = Some (hd zs)" "\<And>a. a \<in> set (butlast zs) \<Longrightarrow> dmask (h ! a) AND m \<noteq> m"
    "case hp of None \<Rightarrow> True | Some q \<Rightarrow> \<exists>b\<in>set zs. q = Some b"
  shows "cursor_ok h xs m p hp"
  unfolding cursor_ok_def using assms by (intro exI conjI ballI) assumption+

lemma cursor_ok_cong:
  assumes "cursor_ok h xs m p hp" "\<And>a. a \<in> set xs \<Longrightarrow> dmask (h' ! a) AND m = dmask (h ! a) AND m"
  shows "cursor_ok h' xs m p hp"
  using assms(1)
proof (rule cursor_okE)
  fix ys zs
  assume *: "xs = ys @ zs" "zs \<noteq> []" "p = Some (hd zs)" "\<And>a. a \<in> set (butlast zs) \<Longrightarrow> dmask (h ! a) AND m \<noteq> m"
    "case hp of None \<Rightarrow> True | Some q \<Rightarrow> \<exists>b\<in>set zs. q = Some b"
  show ?thesis
  proof (rule cursor_okI [OF *(1-3) _ *(5)])
    fix a assume a: "a \<in> set (butlast zs)"
    show "dmask (h' ! a) AND m \<noteq> m" using *(4) [OF a] assms(2) [of a] *(1) in_set_butlastD [OF a] by simp
  qed
qed

lemma split_unique:
  assumes "distinct (ys @ a # zs)" "ys @ a # zs = ys' @ zs'" "zs' \<noteq> []" "hd zs' = a"
  shows "ys' = ys \<and> zs' = a # zs"
proof -
  obtain ws where w: "zs' = a # ws" using assms(3,4) by (cases zs') auto
  have "a \<notin> set ys" "a \<notin> set zs" using assms(1) by auto
  then show ?thesis using assms(2) append_Cons_eq_iff [of a ys zs ys' ws] w by simp
qed

lemma cursor_at:
  assumes "cursor_ok h (ys @ zs) m (Some (hd zs)) hp" "distinct (ys @ zs)" "zs \<noteq> []"
  shows "\<forall>a\<in>set (butlast zs). dmask (h ! a) AND m \<noteq> m" "case hp of None \<Rightarrow> True | Some q \<Rightarrow> \<exists>b\<in>set zs. q = Some b"
proof -
  obtain a ws where zs: "zs = a # ws" using assms(3) by (cases zs) auto
  obtain ys' zs' where s: "ys @ a # ws = ys' @ zs'" "zs' \<noteq> []" "Some a = Some (hd zs')" "\<And>b. b \<in> set (butlast zs') \<Longrightarrow> dmask (h ! b) AND m \<noteq> m"
    "case hp of None \<Rightarrow> True | Some q \<Rightarrow> \<exists>b\<in>set zs'. q = Some b" using assms(1) unfolding zs list.sel by (rule cursor_okE) (rule that; blast)
  have d: "distinct (ys @ a # ws)" "hd zs' = a" using assms(2) zs s(3) by simp_all
  have z: "zs' = zs" unfolding zs by (rule conjunct2 [OF split_unique [OF d(1) s(1,2) d(2)]])
  show "\<forall>a\<in>set (butlast zs). dmask (h ! a) AND m \<noteq> m" "case hp of None \<Rightarrow> True | Some q \<Rightarrow> \<exists>b\<in>set zs. q = Some b" using s(4,5) unfolding z by blast+
qed

lemma cursor_ok_delete:
  assumes "cursor_ok h (ys @ a # zs) m p hp" "distinct (ys @ a # zs)" "zs \<noteq> []" "dmask (h ! a) AND m = m" "\<And>b. b \<in> set (ys @ zs) \<Longrightarrow> dmask (h' ! b) = dmask (h ! b)"
  shows "cursor_ok h' (ys @ zs) m p hp"
proof -
  obtain ys' zs' where s: "ys @ a # zs = ys' @ zs'" "zs' \<noteq> []" "p = Some (hd zs')" "\<And>b. b \<in> set (butlast zs') \<Longrightarrow> dmask (h ! b) AND m \<noteq> m"
    "case hp of None \<Rightarrow> True | Some q \<Rightarrow> \<exists>b\<in>set zs'. q = Some b" by (rule cursor_okE [OF assms(1)]) (rule that; blast)
  have "a \<notin> set zs'"
  proof
    assume a: "a \<in> set zs'"
    have "last zs' = last zs" using arg_cong [OF s(1), of last] s(2) assms(3) by simp
    then have "a \<noteq> last zs'" using assms(2,3) by auto
    then have "a \<in> set (butlast zs')" using a s(2) by (cases zs' rule: rev_cases) auto
    then show False using s(4) [of a] assms(4) by simp
  qed
  then obtain us where us: "ys' = ys @ a # us" "zs = us @ zs'" using s(1) by (auto simp: append_eq_append_conv2 Cons_eq_append_conv)
  show ?thesis
  proof (rule cursor_okI [OF _ s(2,3) _ s(5)])
    show "ys @ zs = (ys @ us) @ zs'" using us(2) by simp
    show "dmask (h' ! b) AND m \<noteq> m" if b: "b \<in> set (butlast zs')" for b
      using s(4) [OF b] assms(5) [of b] us(2) in_set_butlastD [OF b] by simp
  qed
qed
section \<open>Acknowledgements\<close>

lemma shape_mark:
  assumes "tsb_shape t L" "i < num_parts t" "a \<in> set (butlast (L (Part i)))" "ent_next e = ent_next (ents t ! a)" "ent_prev e = ent_prev (ents t ! a)" "0 \<le> dmask e"
  shows "tsb_shape (t\<lparr>ents := (ents t)[a := e]\<rparr>) L"
proof -
  note ex = shape_exact [OF assms(1)]
  let ?h = "(ents t)[a := e]"
  have ai: "a \<in> set (L (Part i))" by (rule in_set_butlastD [OF assms(3)])
  have al: "a < length (ents t)" by (rule exact_bound [OF ex ai])
  have n: "ent_next (?h ! b) = ent_next (ents t ! b)" "ent_prev (?h ! b) = ent_prev (ents t ! b)" for b using assms(4,5) al by (cases "b = a"; simp)+
  have ps: "part_shape (t\<lparr>ents := ?h\<rparr>) j (L (Part j))" if "j < num_parts t" for j
  proof -
    note p = shape_part [OF assms(1) that, unfolded part_shape_def]
    have d: "distinct (L (Part j))" by (rule exact_distinct [OF ex])
    have "last (L (Part j)) \<noteq> a"
    proof (cases "j = i")
      case True
      have "distinct (butlast (L (Part i)) @ [last (L (Part i))])" using d p True by simp
      then show ?thesis using assms(3) True by auto
    next
      case False
      then have "a \<notin> set (L (Part j))" using exact_disjoint [OF ex ai, of "Part j"] by auto
      then show ?thesis using p last_in_set [of "L (Part j)"] by metis
    qed
    moreover have "dseg ?h None (L (Part j)) None" using p dseg_cong [of ?h "ents t" "L (Part j)" None None] n by simp
    moreover have "0 \<le> dmask (?h ! b)" if "b \<in> set (butlast (L (Part j)))" for b using p that assms(6) al by (cases "b = a") auto
    ultimately show ?thesis using p by (simp add: part_shape_def)
  qed
  have "fseg ?h (L Free)" using assms(1) fseg_cong [of ?h "ents t" "L Free"] n by (simp add: tsb_shape_def free_ok_def)
  then show ?thesis using assms(1) ps by (auto simp: tsb_shape_def free_ok_def arrays_ok_def)
qed

lemma tsb_invD:
  assumes "tsb_inv live hs t L" "i < num_parts t"
  shows "tsb_shape t L" "L Hand = []" "tsb_counts t ! i = int (length (L (Part i))) - 1" "distinct (L (Part i))" "L (Part i) \<noteq> []"
    "\<And>m. m \<in> live i \<Longrightarrow> cursor_ok (ents t) (L (Part i)) m (acks m t ! i) (head_at hs m i t)"
  using assms exact_distinct [OF shape_exact, of t L "Part i"] shape_part [of t L i] unfolding tsb_inv_def part_shape_def by blast+

text \<open>The bit of \<open>m\<close> is set in the entry under the cursor, and the cursor moves on.\<close>

lemma inv_mark:
  fixes t :: "'b TSB"
  assumes inv: "tsb_inv live hs t L" and live: "\<forall>j. live j \<subseteq> masks" "m \<in> live i" and i: "i < num_parts t" and L: "L (Part i) = ys @ a # zs" "zs \<noteq> []"
    and cur: "acks m t ! i = Some a" "head_at hs m i t \<noteq> Some (Some a)"
    and e: "ent_next e = ent_next (ents t ! a)" "ent_prev e = ent_prev (ents t ! a)" "dmask e = dmask (ents t ! a) OR m"
  shows "tsb_inv live hs (set_ack m i (Some (hd zs)) (t\<lparr>ents := (ents t)[a := e]\<rparr>)) L"
proof -
  let ?t = "t\<lparr>ents := (ents t)[a := e]\<rparr>" and ?h = "(ents t)[a := e]"
  note I = tsb_invD [OF inv i]
  note ex = shape_exact [OF I(1)]
  have al: "a < length (ents t)" using exact_bound [OF ex, of a "Part i"] L by simp
  have m: "m \<in> masks" using live by blast
  have "a \<in> set (butlast (L (Part i)))" using L by (simp add: butlast_append)
  moreover from this have "0 \<le> dmask (ents t ! a)" using shape_part [OF I(1) i] by (simp add: part_shape_def)
  ultimately have sh: "tsb_shape ?t L" using mask_bits(3) [OF m m] e by (intro shape_mark [OF I(1) i]) auto
  have bits: "dmask (?h ! b) AND m' = dmask (ents t ! b) AND m'" if "b \<noteq> a \<or> (m' \<in> live i \<and> m' \<noteq> m)" for b m'
    using that mask_bits(2) [OF m, of m'] live(1) e(3) al by (cases "b = a") auto
  have cok: "cursor_ok ?h (L (Part j)) m' (acks m' (set_ack m i (Some (hd zs)) ?t) ! j) (head_at hs m' j t)" if j: "j < num_parts t" and m': "m' \<in> live j" for j m'
  proof -
    note c = tsb_invD(6) [OF inv j m']
    have mm: "m' \<in> masks" using m' live by blast
    have la: "length (acks m' t) = num_parts t" using length_acks [of t m'] I(1) by (simp add: tsb_shape_def)
    have ac: "acks m' ?t = acks m' t" for m' by (simp add: acks_def)
    show ?thesis
    proof (cases "m' = m \<and> j = i")
      case False
      have "dmask (?h ! b) AND m' = dmask (ents t ! b) AND m'" if b: "b \<in> set (L (Part j))" for b
        using bits [of b m'] False m' exact_disjoint [OF ex b, of "Part i"] L by auto
      then have "cursor_ok ?h (L (Part j)) m' (acks m' t ! j) (head_at hs m' j t)" by (rule cursor_ok_cong [OF c])
      moreover have "acks m' (set_ack m i (Some (hd zs)) ?t) ! j = acks m' t ! j"
        using False unfolding acks_set_ack [OF m mm] ac by (cases "m' = m") simp_all
      ultimately show ?thesis by simp
    next
      case True
      from c True cur(1) have c': "cursor_ok (ents t) (ys @ a # zs) m (Some a) (head_at hs m i t)" using L by simp
      have s: "\<forall>b\<in>set (butlast (a # zs)). dmask (ents t ! b) AND m \<noteq> m" "case head_at hs m i t of None \<Rightarrow> True | Some q \<Rightarrow> \<exists>b\<in>set (a # zs). q = Some b"
        using cursor_at [of "ents t" ys "a # zs" m "head_at hs m i t"] c' I(4) L by simp_all
      have az: "a \<notin> set zs" using I(4) L by simp
      have "cursor_ok ?h (L (Part i)) m (Some (hd zs)) (head_at hs m i t)"
      proof (rule cursor_okI)
        show "L (Part i) = (ys @ [a]) @ zs" using L by simp
        show "dmask (?h ! b) AND m \<noteq> m" if "b \<in> set (butlast zs)" for b
          using s(1) L(2) that az bits [of b m] in_set_butlastD [OF that] by auto
        show "case head_at hs m i t of None \<Rightarrow> True | Some q \<Rightarrow> \<exists>b\<in>set zs. q = Some b"
          using s(2) cur(2) by (auto split: option.splits)
      qed (use L in auto)
      moreover have "acks m (set_ack m i (Some (hd zs)) ?t) ! i = Some (hd zs)" unfolding acks_set_ack [OF m m] ac using True la i by simp
      ultimately show ?thesis using True by simp
    qed
  qed
  have "head_at hs m' j (set_ack m i (Some (hd zs)) ?t) = head_at hs m' j t" for m' j by (simp add: head_at_def) (simp add: heads_def)
  then show ?thesis using inv cok sh by (simp add: tsb_inv_def)
qed

definition chunk :: "'b TSB \<Rightarrow> nat list \<Rightarrow> (int \<times> 'b tsb_result \<times> int) list" where
  "chunk t xs = map (\<lambda>a. content (ents t ! a)) xs"

definition steady :: "'b TSB \<Rightarrow> 'b TSB \<Rightarrow> bool" where
  "steady t t' \<longleftrightarrow> length (ents t') = length (ents t) \<and> num_parts t' = num_parts t \<and> max_size t' = max_size t \<and> tsb_shouldFree t' = tsb_shouldFree t \<and>
     (\<forall>m. heads m t' = heads m t)"

text \<open>An entry that every live side has acknowledged leaves the buffer.\<close>

lemma inv_delete:
  fixes t :: "'b TSB"
  assumes inv: "tsb_inv live hs t L" and i: "i < num_parts t" and L: "L (Part i) = ys @ a # zs" "zs \<noteq> []" and bits: "\<forall>m\<in>live i. dmask (ents t ! a) AND m = m"
  obtains t' L' where "del_entry i (Some a) t = (Inr (), t')" "tsb_inv live hs t' L'" "L' (Part i) = ys @ zs" "\<forall>j. j \<noteq> i \<longrightarrow> L' (Part j) = L (Part j)" "steady t t'"
    "\<forall>m. acks m t' = acks m t" "\<forall>b j. b \<noteq> a \<longrightarrow> b \<in> set (L (Part j)) \<longrightarrow> content (ents t' ! b) = content (ents t ! b)"
    "tsb_freed t' = tsb_freed t @ (if tsb_shouldFree t then tuple_of (ents t ! a) else [])"
proof -
  note I = tsb_invD [OF inv i]
  have "1 \<le> tsb_counts t ! i" using I(3) L by (cases zs) auto
  then obtain t' p where r: "del_entry i (Some a) t = (Inr (), t')" "p = Free \<or> p = Res i" "tsb_shape t' (L(Part i := ys @ zs, p := a # L p))" "same_cursors t t'"
    "tsb_counts t' = (tsb_counts t)[i := tsb_counts t ! i - 1]" "\<And>b j. b \<noteq> a \<Longrightarrow> b \<in> set (L (Part j)) \<Longrightarrow> content (ents t' ! b) = content (ents t ! b)"
    "tsb_freed t' = tsb_freed t @ (if tsb_shouldFree t then tuple_of (ents t ! a) else [])"
    by (rule del_entry_run [OF I(1,2) i L]) (rule that; blast)
  let ?L = "L(Part i := ys @ zs, p := a # L p)"
  have part: "?L (Part i) = ys @ zs" "\<And>j. j \<noteq> i \<Longrightarrow> ?L (Part j) = L (Part j)" "?L Hand = []" using r(2) I(2) by auto
  have same: "acks m t' = acks m t" "heads m t' = heads m t" for m using r(4) by (auto simp: same_cursors_def acks_def heads_def)
  have hd: "head_at hs m j t' = head_at hs m j t" for m j by (simp add: head_at_def same)
  have n: "num_parts t' = num_parts t" using r(4) by (simp add: same_cursors_def)
  have lc: "length (tsb_counts t) = num_parts t" using I(1) by (simp add: tsb_shape_def arrays_ok_def)
  have "tsb_counts t' ! j = int (length (?L (Part j))) - 1" if "j < num_parts t" for j
    using tsb_invD(3) [OF inv that] part L that lc r(5) by (cases "j = i") auto
  moreover have "cursor_ok (ents t') (?L (Part j)) m (acks m t' ! j) (head_at hs m j t')" if j: "j < num_parts t" and m: "m \<in> live j" for j m
  proof (cases "j = i")
    case True
    have "cursor_ok (ents t') (ys @ zs) m (acks m t ! i) (head_at hs m i t)"
    proof (rule cursor_ok_delete)
      show "cursor_ok (ents t) (ys @ a # zs) m (acks m t ! i) (head_at hs m i t)" using I(6) [OF m [unfolded True]] L by simp
      show "dmask (ents t' ! b) = dmask (ents t ! b)" if "b \<in> set (ys @ zs)" for b using r(6) [of b i] that L I(4) by auto
    qed (use I(4) L bits m True in auto)
    then show ?thesis using True part same hd by simp
  next
    case False
    have "dmask (ents t' ! b) AND m = dmask (ents t ! b) AND m" if b: "b \<in> set (L (Part j))" for b
      using r(6) [of b j] b exact_disjoint [OF shape_exact [OF I(1)] b, of "Part i"] L False by auto
    then have "cursor_ok (ents t') (L (Part j)) m (acks m t ! j) (head_at hs m j t)" by (rule cursor_ok_cong [OF tsb_invD(6) [OF inv j m]])
    then show ?thesis using False part same hd by simp
  qed
  ultimately have inv': "tsb_inv live hs t' ?L" using r(3) part(3) by (simp add: tsb_inv_def n)
  have st: "steady t t'" using r(4) same by (simp add: steady_def same_cursors_def)
  have "\<forall>j. j \<noteq> i \<longrightarrow> ?L (Part j) = L (Part j)" "\<forall>m. acks m t' = acks m t" "\<forall>b j. b \<noteq> a \<longrightarrow> b \<in> set (L (Part j)) \<longrightarrow> content (ents t' ! b) = content (ents t ! b)"
    using part(2) same(1) r(6) by blast+
  then show thesis by (rule that [OF r(1) inv' part(1) _ st _ _ r(7)])
qed
lemma chunk_cong: "(\<And>b. b \<in> set xs \<Longrightarrow> content (ents t' ! b) = content (ents t ! b)) \<Longrightarrow> chunk t' xs = chunk t xs"
  by (simp add: chunk_def)

lemma and_full:
  fixes d :: int
  assumes "d AND fmask = fmask" "fmask AND m = m"
  shows "d AND m = m"
proof -
  have "d AND m = d AND (fmask AND m)" by (simp only: assms(2))
  also have "\<dots> = (d AND fmask) AND m" by (simp only: and.assoc)
  finally show ?thesis by (simp only: assms)
qed

definition res_tuples :: "'b tsb_result \<Rightarrow> 'b list" where
  "res_tuples r = (case r of Res_heap (Some tup) \<Rightarrow> [tup] | _ \<Rightarrow> [])"

lemma tuple_of_res: "tuple_of e = res_tuples (rtup e)"
  by (simp add: tuple_of_def res_tuples_def)

definition new_val :: "int \<Rightarrow> 'b tsb_slot option \<Rightarrow> int \<Rightarrow> 'b option" where
  "new_val seqno slot s = (case slot of None \<Rightarrow> None | Some sl \<Rightarrow> if s = seqno then slot_val sl else None)"

definition new_slot :: "int \<Rightarrow> 'b tsb_slot option \<Rightarrow> int \<Rightarrow> 'b tsb_slot option" where
  "new_slot seqno slot s = (if new_val seqno slot s = None then slot else Some \<lparr>slot_val = None, slot_shouldFree = False\<rparr>)"

definition new_res :: "int \<Rightarrow> 'b tsb_slot option \<Rightarrow> int \<Rightarrow> 'b tsb_result \<Rightarrow> 'b tsb_result" where
  "new_res seqno slot s r = (if new_val seqno slot s = None then r else Res_heap (new_val seqno slot s))"

text \<open>
  What an acknowledgement does to the list of the entries from the cursor on: those up to \<open>seqno\<close> get the bit, and the ones
  that have every bit of \<open>fmask\<close> go. The result is the list that is left, the tuples of the entries that went, whether
  \<open>seqno\<close> has been found and the slot.
\<close>

fun ack_spec ::
  "int \<Rightarrow> int \<Rightarrow> int \<Rightarrow> bool \<Rightarrow> 'b tsb_slot option \<Rightarrow> (int \<times> 'b tsb_result \<times> int) list \<Rightarrow>
   (int \<times> 'b tsb_result \<times> int) list \<times> 'b list \<times> bool \<times> 'b tsb_slot option" where
  "ack_spec seqno m fmask found slot [] = ([], [], found, slot)"
| "ack_spec seqno m fmask found slot ((s, r, d) # xs) =
     (if s \<le> seqno then
        let (ks, fs, out) = ack_spec seqno m fmask (found \<or> s = seqno) (new_slot seqno slot s) xs
        in if (d OR m) AND fmask = fmask then (ks, res_tuples (new_res seqno slot s r) @ fs, out)
           else ((s, new_res seqno slot s r, d OR m) # ks, fs, out)
      else ((s, r, d) # xs, [], found, slot))"

lemma ack_one_run:
  fixes t :: "'b TSB" and slot :: "'b tsb_slot option" and seqno :: int
  assumes inv: "tsb_inv live hs t L" and live: "\<forall>j. live j \<subseteq> masks" "m \<in> live i" "\<forall>m'\<in>live i. fmask AND m' = m'" and i: "i < num_parts t"
    and L: "L (Part i) = ys @ a # zs" "zs \<noteq> []" and cur: "acks m t ! i = Some a" "head_at hs m i t \<noteq> Some (Some a)"
    and c: "\<forall>i p (t :: 'b TSB). i < length (acks m t) \<longrightarrow> set_ptr c i p t = (Inr (), set_ack m i p t)"
  defines "e \<equiv> ents t ! a"
  defines "x \<equiv> (seqnum e, new_res seqno slot (seqnum e) (rtup e), dmask e OR m)" and "full \<equiv> (dmask e OR m) AND fmask = fmask"
  obtains t' L' ys' where "ack_one c seqno i m fmask (Some a) e found slot t = (Inr (found \<or> seqnum e = seqno, new_slot seqno slot (seqnum e)), t')"
    "tsb_inv live hs t' L'" "steady t t'" "L' (Part i) = ys' @ zs" "acks m t' ! i = Some (hd zs)" "\<forall>j. j \<noteq> i \<longrightarrow> L' (Part j) = L (Part j)"
    "chunk t' ys' = chunk t ys @ (if full then [] else [x])" "\<forall>b j. b \<noteq> a \<longrightarrow> b \<in> set (L (Part j)) \<longrightarrow> content (ents t' ! b) = content (ents t ! b)"
    "tsb_freed t' = tsb_freed t @ (if full \<and> tsb_shouldFree t then res_tuples (fst (snd x)) else [])"
proof -
  note I = tsb_invD [OF inv i]
  have m: "m \<in> masks" using live by blast
  have al: "a < length (ents t)" using shape_bound [OF I(1), of a "Part i"] L by simp
  have la: "length (acks m t) = num_parts t" using length_acks [of t m] I(1) by (simp add: tsb_shape_def)
  have nx: "ent_next e = Some (hd zs)" using shape_part [OF I(1) i] L by (simp add: part_shape_def e_def dseg_append)
  define e' where "e' = e\<lparr>rtup := new_res seqno slot (seqnum e) (rtup e), dmask := dmask e OR m\<rparr>"
  define t2 where "t2 = set_ack m i (Some (hd zs)) (t\<lparr>ents := (ents t)[a := e']\<rparr>)"
  have inv2: "tsb_inv live hs t2 L" unfolding t2_def by (rule inv_mark [OF inv live(1,2) i L cur]) (simp_all add: e'_def e_def)
  have c2: "content (ents t2 ! b) = (if b = a then x else content (ents t ! b))" for b using al by (auto simp: t2_def e'_def x_def)
  have ac: "acks m (t\<lparr>ents := h\<rparr>) = acks m t" for h by (simp add: acks_def)
  have st2: "steady t t2" "num_parts t2 = num_parts t" "tsb_freed t2 = tsb_freed t" "tsb_shouldFree t2 = tsb_shouldFree t" "ents t2 = (ents t)[a := e']"
    by (simp_all add: steady_def t2_def) (simp_all add: heads_def set_ack_def)
  have ak2: "acks m t2 ! i = Some (hd zs)" unfolding t2_def acks_set_ack [OF m m] ac using la i by simp
  have run: "ack_one c seqno i m fmask (Some a) e found slot t =
      (bind_prog (if full then del_entry i (Some a) else return_prog ()) (\<lambda>_. return_prog (found \<or> seqnum e = seqno, new_slot seqno slot (seqnum e)))) t2"
  proof -
    have "upd (Some a) (\<lambda>e1. e1\<lparr>rtup := (if new_val seqno slot (seqnum e) = None then rtup e1 else Res_heap (new_val seqno slot (seqnum e))), dmask := dmask e1 OR m\<rparr>) t =
        (Inr (), t\<lparr>ents := (ents t)[a := e']\<rparr>)" using al by (simp add: upd_def e'_def e_def new_res_def)
    moreover have "set_ptr c i (ent_next e) (t\<lparr>ents := (ents t)[a := e']\<rparr>) = (Inr (), t2)" using c la i by (simp add: t2_def nx ac)
    moreover have "ent (Some a) t2 = (Inr e', t2)" using al by (simp add: ent_def st2(5))
    moreover have "(dmask e' AND fmask = fmask) = full" by (simp add: e'_def full_def)
    ultimately show ?thesis unfolding ack_one_def Let_def new_val_def [symmetric] new_slot_def [symmetric] by (simp add: bind_prog_def)
  qed
  have ya: "b \<in> set ys \<Longrightarrow> b \<noteq> a" for b using I(4) L by auto
  show thesis
  proof (cases full)
    case False
    show thesis
    proof (rule that [OF _ inv2 st2(1) _ ak2])
      show "L (Part i) = (ys @ [a]) @ zs" using L by simp
      show "chunk t2 (ys @ [a]) = chunk t ys @ (if full then [] else [x])" using False ya by (auto simp: chunk_def c2)
    qed (use False run st2(3) in \<open>simp_all add: bind_prog_def return_prog_def c2\<close>)
  next
    case True
    have bits2: "\<forall>m'\<in>live i. dmask (ents t2 ! a) AND m' = m'"
    proof
      fix m' assume m': "m' \<in> live i"
      have D: "(dmask e OR m) AND fmask = fmask" using True by (simp only: full_def)
      have "dmask (ents t2 ! a) = dmask e OR m" using c2 [of a] by (simp add: x_def)
      then show "dmask (ents t2 ! a) AND m' = m'" by (simp only: and_full [OF D bspec [OF live(3) m']])
    qed
    have i2: "i < num_parts t2" using i st2(2) by simp
    obtain t' L' where d: "del_entry i (Some a) t2 = (Inr (), t')" "tsb_inv live hs t' L'" "L' (Part i) = ys @ zs" "\<forall>j. j \<noteq> i \<longrightarrow> L' (Part j) = L (Part j)" "steady t2 t'"
      "\<forall>m. acks m t' = acks m t2" "\<forall>b j. b \<noteq> a \<longrightarrow> b \<in> set (L (Part j)) \<longrightarrow> content (ents t' ! b) = content (ents t2 ! b)"
      "tsb_freed t' = tsb_freed t2 @ (if tsb_shouldFree t2 then tuple_of (ents t2 ! a) else [])"
      by (rule inv_delete [OF inv2 i2 L bits2]) (rule that; assumption)
    have rt: "rtup (ents t2 ! a) = fst (snd x)" using c2 [of a] by (cases x) simp
    show thesis
    proof (rule that [OF _ d(2) _ d(3) _ d(4)])
      show "ack_one c seqno i m fmask (Some a) e found slot t = (Inr (found \<or> seqnum e = seqno, new_slot seqno slot (seqnum e)), t')"
        using True run d(1) by (simp add: bind_prog_def return_prog_def)
      show "steady t t'" using st2(1) d(5) by (simp add: steady_def)
      show "acks m t' ! i = Some (hd zs)" using d(6) ak2 by simp
      have "content (ents t' ! b) = content (ents t ! b)" if "b \<in> set ys" for b using d(7) [rule_format, of b i] ya [OF that] that L c2 [of b] by simp
      then show "chunk t' ys = chunk t ys @ (if full then [] else [x])" using True by (simp add: chunk_def)
      show "\<forall>b j. b \<noteq> a \<longrightarrow> b \<in> set (L (Part j)) \<longrightarrow> content (ents t' ! b) = content (ents t ! b)" using d(7) c2 by simp
      show "tsb_freed t' = tsb_freed t @ (if full \<and> tsb_shouldFree t then res_tuples (fst (snd x)) else [])"
        using True d(8) st2(3,4) by (simp add: tuple_of_res rt)
    qed
  qed
qed

definition loop_post ::
  "(nat \<Rightarrow> int set) \<Rightarrow> (int \<Rightarrow> nat \<Rightarrow> bool) \<Rightarrow> int \<Rightarrow> nat \<Rightarrow> int \<Rightarrow> 'b TSB \<Rightarrow> layout \<Rightarrow> nat list \<Rightarrow> nat list \<Rightarrow> (int \<times> 'b tsb_result \<times> int) list \<Rightarrow> 'b list \<Rightarrow>
   'b TSB \<Rightarrow> layout \<Rightarrow> nat list \<Rightarrow> nat list \<Rightarrow> bool" where
  "loop_post live hs m i seqno t L ys zs ks fs t' L' ys' zs' \<longleftrightarrow>
     tsb_inv live hs t' L' \<and> steady t t' \<and> L' (Part i) = ys' @ zs' \<and> (\<exists>us. zs = us @ zs' \<and> (\<forall>b\<in>set us. seqnum (ents t ! b) \<le> seqno)) \<and> zs' \<noteq> [] \<and> acks m t' ! i = Some (hd zs') \<and>
     (zs' = [last zs] \<or> seqno < seqnum (ents t' ! hd zs')) \<and> (\<forall>b\<in>set zs'. content (ents t' ! b) = content (ents t ! b)) \<and>
     chunk t' (ys' @ butlast zs') = chunk t ys @ ks \<and> tsb_freed t' = tsb_freed t @ (if tsb_shouldFree t then fs else []) \<and>
     (\<forall>j. j \<noteq> i \<longrightarrow> L' (Part j) = L (Part j) \<and> chunk t' (L' (Part j)) = chunk t (L (Part j)))"

lemma ack_loop_run:
  fixes t :: "'b TSB"
  assumes live: "\<forall>j. live j \<subseteq> masks" "m \<in> live i" "\<forall>m'\<in>live i. fmask AND m' = m'"
    and c: "fst c = acks m" "\<forall>i p (t :: 'b TSB). i < length (acks m t) \<longrightarrow> set_ptr c i p t = (Inr (), set_ack m i p t)"
  shows "tsb_inv live hs t L \<Longrightarrow> i < num_parts t \<Longrightarrow> L (Part i) = ys @ zs \<Longrightarrow> zs \<noteq> [] \<Longrightarrow> acks m t ! i = Some (hd zs) \<Longrightarrow>
    (\<And>b. head_at hs m i t = Some (Some b) \<Longrightarrow> b = last zs \<or> seqno < seqnum (ents t ! b)) \<Longrightarrow> length zs \<le> n \<Longrightarrow>
    \<exists>t' L' ys' zs' ks fs found' slot'. ack_loop n c seqno i m fmask found slot t = (Inr (found', slot'), t') \<and>
      ack_spec seqno m fmask found slot (chunk t (butlast zs)) = (ks, fs, found', slot') \<and> loop_post live hs m i seqno t L ys zs ks fs t' L' ys' zs'"
proof (induction n arbitrary: t L ys zs found slot)
  case 0
  then show ?case by simp
next
  case (Suc n)
  note I = tsb_invD [OF Suc.prems(1,2)]
  obtain a ws where zs: "zs = a # ws" using Suc.prems(4) by (cases zs) auto
  have al: "a < length (ents t)" using shape_bound [OF I(1), of a "Part i"] Suc.prems(3) zs by simp
  have la: "i < length (acks m t)" using length_acks [of t m] I(1) Suc.prems(2) by (simp add: tsb_shape_def)
  have ac: "acks m t ! i = Some a" using Suc.prems(5) zs by simp
  let ?e = "ents t ! a"
  have run: "ack_loop (Suc n) c seqno i m fmask found slot t =
      (if dmask ?e \<ge> 0 \<and> seqnum ?e \<le> seqno then bind_prog (ack_one c seqno i m fmask (Some a) ?e found slot) (\<lambda>(found', slot'). ack_loop n c seqno i m fmask found' slot')
       else return_prog (found, slot)) t"
    using al la by (simp add: elem_at_def ent_def bind_prog_def c(1) ac)
  have dm: "0 \<le> dmask ?e \<longleftrightarrow> ws \<noteq> []" using shape_part [OF I(1) Suc.prems(2)] Suc.prems(3) zs by (auto simp: part_shape_def butlast_append)
  show ?case
  proof (cases "ws \<noteq> [] \<and> seqnum ?e \<le> seqno")
    case False
    have "ack_spec seqno m fmask found slot (chunk t (butlast zs)) = (chunk t (butlast zs), [], found, slot)"
      using False zs by (cases "ws = []") (simp_all add: chunk_def)
    moreover have "loop_post live hs m i seqno t L ys zs (chunk t (butlast zs)) [] t L ys zs"
      using Suc.prems False zs by (auto simp: loop_post_def steady_def chunk_def)
    moreover have "ack_loop (Suc n) c seqno i m fmask found slot t = (Inr (found, slot), t)" using run dm False by (auto simp: return_prog_def)
    ultimately show ?thesis by blast
  next
    case True
    have hd: "head_at hs m i t \<noteq> Some (Some a)"
    proof
      assume h: "head_at hs m i t = Some (Some a)"
      have "a \<noteq> last zs" using I(4) Suc.prems(3) zs True by auto
      then show False using Suc.prems(6) [OF h] True by simp
    qed
    have La: "L (Part i) = ys @ a # ws" and ws: "ws \<noteq> []" using Suc.prems(3) zs True by simp_all
    let ?x = "(seqnum ?e, new_res seqno slot (seqnum ?e) (rtup ?e), dmask ?e OR m)" and ?full = "(dmask ?e OR m) AND fmask = fmask"
      and ?f = "found \<or> seqnum ?e = seqno" and ?sl = "new_slot seqno slot (seqnum ?e)"
    obtain t1 L1 ys1 where o: "ack_one c seqno i m fmask (Some a) ?e found slot t = (Inr (?f, ?sl), t1)" "tsb_inv live hs t1 L1" "steady t t1" "L1 (Part i) = ys1 @ ws"
      "acks m t1 ! i = Some (hd ws)" "\<forall>j. j \<noteq> i \<longrightarrow> L1 (Part j) = L (Part j)" "chunk t1 ys1 = chunk t ys @ (if ?full then [] else [?x])"
      "\<forall>b j. b \<noteq> a \<longrightarrow> b \<in> set (L (Part j)) \<longrightarrow> content (ents t1 ! b) = content (ents t ! b)"
      "tsb_freed t1 = tsb_freed t @ (if ?full \<and> tsb_shouldFree t then res_tuples (fst (snd ?x)) else [])"
      by (rule ack_one_run [OF Suc.prems(1) live Suc.prems(2) La ws ac hd c(2)]) (rule that; assumption)
    have aw: "a \<notin> set ws" using I(4) La by simp
    have cw: "content (ents t1 ! b) = content (ents t ! b)" if "b \<in> set ws" for b using o(8) [rule_format, of b i] that La aw by auto
    have cj: "chunk t1 (L (Part j)) = chunk t (L (Part j))" if "j \<noteq> i" for j
    proof -
      have "a \<notin> set (L (Part j))" using exact_disjoint [OF shape_exact [OF I(1)], of a "Part i" "Part j"] La that by simp
      then have "content (ents t1 ! b) = content (ents t ! b)" if "b \<in> set (L (Part j))" for b using o(8) [rule_format, OF _ that] that by blast
      then show ?thesis by (rule chunk_cong)
    qed
    have i1: "i < num_parts t1" and hd1: "head_at hs m i t1 = head_at hs m i t" and sf: "tsb_shouldFree t1 = tsb_shouldFree t" using o(3) Suc.prems(2) by (simp_all add: steady_def head_at_def)
    have h1: "b = last ws \<or> seqno < seqnum (ents t1 ! b)" if h: "head_at hs m i t1 = Some (Some b)" for b
    proof -
      have h': "head_at hs m i t = Some (Some b)" using h hd1 by simp
      have "cursor_ok (ents t1) (ys1 @ ws) m (Some (hd ws)) (head_at hs m i t1)" using tsb_invD(6) [OF o(2) i1 live(2)] o(4,5) by simp
      then have "b \<in> set ws" using cursor_at(2) [of "ents t1" ys1 ws m "head_at hs m i t1"] tsb_invD(4) [OF o(2) i1] o(4) ws h by simp
      then show ?thesis using Suc.prems(6) [OF h'] zs ws cw [of b] by auto
    qed
    obtain t' L' ys' zs' ks fs found' slot' where r: "ack_loop n c seqno i m fmask ?f ?sl t1 = (Inr (found', slot'), t')"
      "ack_spec seqno m fmask ?f ?sl (chunk t1 (butlast ws)) = (ks, fs, found', slot')" "loop_post live hs m i seqno t1 L1 ys1 ws ks fs t' L' ys' zs'"
      using Suc.IH [OF o(2) i1 o(4) ws o(5) h1, of ?f ?sl] Suc.prems(7) zs by auto
    have cb: "chunk t1 (butlast ws) = chunk t (butlast ws)" by (rule chunk_cong) (rule cw, rule in_set_butlastD)
    let ?ks = "(if ?full then [] else [?x]) @ ks" and ?fs = "(if ?full then res_tuples (fst (snd ?x)) else []) @ fs"
    have sp: "ack_spec seqno m fmask found slot (chunk t (butlast zs)) = (?ks, ?fs, found', slot')"
      using r(2) True zs ws unfolding cb by (simp add: chunk_def)
    have "loop_post live hs m i seqno t L ys zs ?ks ?fs t' L' ys' zs'"
    proof -
      note P = r(3) [unfolded loop_post_def]
      have "steady t t'" using P o(3) by (simp add: steady_def)
      moreover have "\<exists>us. zs = us @ zs' \<and> (\<forall>b\<in>set us. seqnum (ents t ! b) \<le> seqno)"
      proof -
        obtain us where us: "ws = us @ zs'" "\<forall>b\<in>set us. seqnum (ents t1 ! b) \<le> seqno" using P by blast
        have "\<forall>b\<in>set us. seqnum (ents t ! b) \<le> seqno" using us cw by auto
        then show ?thesis using us(1) zs True by (intro exI [of _ "a # us"]) simp
      qed
      moreover have "\<forall>b\<in>set zs'. content (ents t' ! b) = content (ents t ! b)" using P cw by (metis Un_iff set_append)

      moreover have "chunk t' (ys' @ butlast zs') = chunk t ys @ ?ks" using P o(7) by simp
      moreover have "tsb_freed t' = tsb_freed t @ (if tsb_shouldFree t then ?fs else [])" using P o(9) sf by simp
      moreover have "\<forall>j. j \<noteq> i \<longrightarrow> L' (Part j) = L (Part j) \<and> chunk t' (L' (Part j)) = chunk t (L (Part j))"
      proof (intro allI impI)
        fix j assume j: "j \<noteq> i"
        have "L' (Part j) = L1 (Part j) \<and> chunk t' (L' (Part j)) = chunk t1 (L1 (Part j))" using P j by blast
        then show "L' (Part j) = L (Part j) \<and> chunk t' (L' (Part j)) = chunk t (L (Part j))" using o(6) [rule_format, OF j] cj [OF j] by auto
      qed
      moreover have "tsb_inv live hs t' L'" "L' (Part i) = ys' @ zs'" "zs' \<noteq> []" "acks m t' ! i = Some (hd zs')" using P by blast+
      moreover have "zs' = [last zs] \<or> seqno < seqnum (ents t' ! hd zs')" unfolding zs last_ConsR [OF ws] using P by blast
      ultimately show ?thesis unfolding loop_post_def by (intro conjI) assumption+
    qed
    moreover have "ack_loop (Suc n) c seqno i m fmask found slot t = (Inr (found', slot'), t')" using run dm True o(1) r(1) by (simp add: bind_prog_def)
    ultimately show ?thesis using sp by blast
  qed
qed

lemma ack_spec_found:
  assumes "\<forall>x\<in>set xs. fst x \<le> seqno"
  shows "fst (snd (snd (ack_spec seqno m fmask found slot xs))) = (found \<or> seqno \<in> fst ` set xs)"
  using assms by (induction seqno m fmask found slot xs rule: ack_spec.induct) (auto simp: split_beta Let_def)

text \<open>Appending an entry.\<close>

definition link_post :: "nat \<Rightarrow> int \<Rightarrow> 'b tsb_result \<Rightarrow> int \<Rightarrow> 'b TSB \<Rightarrow> layout \<Rightarrow> nat \<Rightarrow> 'b TSB \<Rightarrow> layout \<Rightarrow> bool" where
  "link_post i sq r d t L a t2 L2 \<longleftrightarrow>
     tsb_shape t2 L2 \<and> L2 Hand = [] \<and> L2 (Part i) = L (Part i) @ [a] \<and> (\<forall>j. j \<noteq> i \<longrightarrow> L2 (Part j) = L (Part j)) \<and> same_cursors t t2 \<and>
     tsb_counts t2 = (tsb_counts t)[i := tsb_counts t ! i + 1] \<and> content (ents t2 ! last (L (Part i))) = (sq, r, d) \<and> ent_next (ents t2 ! last (L (Part i))) = Some a \<and>
     (\<forall>b j. b \<noteq> last (L (Part i)) \<longrightarrow> b \<in> set (L (Part j)) \<longrightarrow> content (ents t2 ! b) = content (ents t ! b)) \<and> tsb_freed t2 = tsb_freed t"

lemma link_run:
  fixes t :: "'b TSB"
  assumes sh: "tsb_shape t L" "L Hand = []" "i < num_parts t" and d: "0 \<le> d"
  shows "if L Free = [] \<and> L (Res i) = [] then alloc_entry_w_last i t = (Inr None, t)
    else \<exists>a t1 t2 L2. alloc_entry_w_last i t = (Inr (Some a), t1) \<and> link_entry i (Some a) (\<lambda>e. e\<lparr>rtup := r, seqnum := sq, dmask := d\<rparr>) t1 = (Inr (), t2) \<and>
      link_post i sq r d t L a t2 L2"
proof (cases "L Free = [] \<and> L (Res i) = []")
  case True
  then show ?thesis using alloc_w_last_run [OF sh] by simp
next
  case False
  obtain a p t1 where al: "alloc_entry_w_last i t = (Inr (Some a), t1)" "p = Free \<or> p = Res i" "L p = a # tl (L p)" "tsb_shape t1 (L(p := tl (L p), Hand := [a]))"
    "same_parts L t t1" "blank (ents t1 ! a)" using alloc_w_last_run [OF sh] False by auto
  let ?L1 = "L(p := tl (L p), Hand := [a])" and ?f = "\<lambda>e :: 'b TSB_Entry. e\<lparr>rtup := r, seqnum := sq, dmask := d\<rparr>"
  let ?s = "last (L (Part i))"
  have part: "?L1 (Part j) = L (Part j)" for j using al(2) by auto
  have i1: "i < num_parts t1" using al(5) sh(3) by (simp add: same_parts_def)
  define t2 where "t2 = t1\<lparr>ents := (ents t1)[?s := (?f (ents t1 ! ?s))\<lparr>ent_next := Some a\<rparr>, a := (ents t1 ! a)\<lparr>ent_prev := Some ?s\<rparr>],
     tsb_table := (tsb_table t1)[i := Some a], tsb_counts := (tsb_counts t1)[i := tsb_counts t1 ! i + 1]\<rparr>"
  note lk = link_entry_run [where f = ?f, OF al(4) _ i1 al(6), unfolded part, folded t2_def]
  have run: "link_entry i (Some a) ?f t1 = (Inr (), t2)" "tsb_shape t2 (?L1(Hand := [], Part i := L (Part i) @ [a]))" "?s < length (ents t1)" "?s \<noteq> a"
    using lk d by simp_all
  let ?L2 = "?L1(Hand := [], Part i := L (Part i) @ [a])"
  have na: "a \<notin> set (L (Part j))" for j
    using exact_disjoint [OF shape_exact [OF sh(1)], of a p "Part j"] al(2,3) by (metis list.set_intros(1) place.distinct(1) place.distinct(3))
  have "content (ents t2 ! b) = content (ents t ! b)" if b: "b \<noteq> ?s" "b \<in> set (L (Part j))" for b j
  proof -
    have "b \<noteq> a" using na [of j] b by auto
    then have "ents t2 ! b = ents t1 ! b" using b by (simp add: t2_def)
    then show ?thesis using al(5) b by (auto simp: same_parts_def)
  qed
  moreover have "content (ents t2 ! ?s) = (sq, r, d)" "ent_next (ents t2 ! ?s) = Some a" using run(3,4) by (simp_all add: t2_def)
  moreover have "same_cursors t t2" "tsb_counts t2 = (tsb_counts t)[i := tsb_counts t ! i + 1]" "tsb_freed t2 = tsb_freed t"
    using al(5) by (simp_all add: same_cursors_def same_parts_def t2_def)
  moreover have "?L2 Hand = []" "?L2 (Part i) = L (Part i) @ [a]" "\<forall>j. j \<noteq> i \<longrightarrow> ?L2 (Part j) = L (Part j)" using al(2) by auto
  ultimately have "link_post i sq r d t L a t2 ?L2" unfolding link_post_def
    using run(2) by (intro conjI allI impI) (assumption | simp)+
  then have "\<exists>a t1 t2 L2. alloc_entry_w_last i t = (Inr (Some a), t1) \<and> link_entry i (Some a) ?f t1 = (Inr (), t2) \<and> link_post i sq r d t L a t2 L2"
    using al(1) run(1) by blast
  then show ?thesis using False by (simp only: if_False)
qed

lemma cursor_ok_snoc:
  assumes "cursor_ok h xs m p hp" "dmask (h' ! last xs) AND m \<noteq> m" "\<And>b. b \<in> set xs \<Longrightarrow> b \<noteq> last xs \<Longrightarrow> dmask (h' ! b) = dmask (h ! b)"
  shows "cursor_ok h' (xs @ [a]) m p hp"
  using assms(1)
proof (rule cursor_okE)
  fix ys zs
  assume *: "xs = ys @ zs" "zs \<noteq> []" "p = Some (hd zs)" "\<And>a. a \<in> set (butlast zs) \<Longrightarrow> dmask (h ! a) AND m \<noteq> m"
    "case hp of None \<Rightarrow> True | Some q \<Rightarrow> \<exists>b\<in>set zs. q = Some b"
  show ?thesis
  proof (rule cursor_okI)
    show "xs @ [a] = ys @ (zs @ [a])" "zs @ [a] \<noteq> []" "p = Some (hd (zs @ [a]))" using * by simp_all
    show "case hp of None \<Rightarrow> True | Some q \<Rightarrow> \<exists>b\<in>set (zs @ [a]). q = Some b" using *(5) by (auto split: option.splits)
    fix b assume "b \<in> set (butlast (zs @ [a]))"
    then have b: "b \<in> set zs" by simp
    show "dmask (h' ! b) AND m \<noteq> m"
    proof (cases "b = last xs")
      case True
      then show ?thesis using assms(2) by simp
    next
      case False
      then have "b \<in> set (butlast zs)" using b *(1,2) by (cases zs rule: rev_cases) auto
      then show ?thesis using *(4) [of b] assms(3) [of b] *(1) b False by simp
    qed
  qed
qed

lemma inv_append:
  assumes inv: "tsb_inv live hs t L" and i: "i < num_parts t" and lp: "link_post i sq r d t L a t2 L2"
    and t3: "\<And>M. tsb_shape t3 M = tsb_shape t2 M" "ents t3 = ents t2" "num_parts t3 = num_parts t2" "tsb_counts t3 = tsb_counts t2" "\<And>m. heads m t3 = heads m t2"
      "\<And>m j. m \<in> live j \<Longrightarrow> j \<noteq> i \<Longrightarrow> acks m t3 ! j = acks m t2 ! j"
      "\<And>m. m \<in> live i \<Longrightarrow> d AND m \<noteq> m \<and> acks m t3 ! i = acks m t2 ! i \<or> acks m t3 ! i = Some a \<and> head_at hs m i t = None"
  shows "tsb_inv live hs t3 L2"
proof -
  note I = tsb_invD [OF inv i]
  note P = lp [unfolded link_post_def]
  have n: "num_parts t2 = num_parts t" and same: "\<And>m. acks m t2 = acks m t" "\<And>m. heads m t2 = heads m t"
    using P by (simp_all add: same_cursors_def acks_def heads_def)
  have hd: "head_at hs m j t3 = head_at hs m j t" for m j by (simp add: head_at_def t3(5) same)
  have lc: "length (tsb_counts t) = num_parts t" using I(1) by (simp add: tsb_shape_def arrays_ok_def)
  have cnt: "tsb_counts t2 ! j = int (length (L2 (Part j))) - 1" if "j < num_parts t" for j
    using tsb_invD(3) [OF inv that] P that lc by (cases "j = i") auto
  have dm: "dmask (ents t2 ! b) = dmask (ents t ! b)" if "b \<noteq> last (L (Part i))" "b \<in> set (L (Part j))" for b j using P that by blast
  have ds: "dmask (ents t2 ! last (L (Part i))) = d" using P by simp
  have "cursor_ok (ents t2) (L2 (Part j)) m (acks m t3 ! j) (head_at hs m j t)" if j: "j < num_parts t" and m: "m \<in> live j" for j m
  proof (cases "j = i")
    case False
    have "dmask (ents t2 ! b) AND m = dmask (ents t ! b) AND m" if b: "b \<in> set (L (Part j))" for b
    proof -
      have "b \<noteq> last (L (Part i))" using exact_disjoint [OF shape_exact [OF I(1)] b, of "Part i"] False last_in_set [OF I(5)] by auto
      then show ?thesis using dm b by simp
    qed
    then have "cursor_ok (ents t2) (L (Part j)) m (acks m t ! j) (head_at hs m j t)" by (rule cursor_ok_cong [OF tsb_invD(6) [OF inv j m]])
    then show ?thesis using P False t3(6) [OF m False] same by simp
  next
    case True
    have Li: "L2 (Part i) = L (Part i) @ [a]" using P by blast
    consider "d AND m \<noteq> m" "acks m t3 ! i = acks m t2 ! i" | "acks m t3 ! i = Some a" "head_at hs m i t = None" using t3(7) [OF m [unfolded True]] by (elim disjE conjE)
    then show ?thesis
    proof cases
      case 1
      have "cursor_ok (ents t2) (L (Part i) @ [a]) m (acks m t ! i) (head_at hs m i t)"
        by (rule cursor_ok_snoc [OF I(6) [OF m [unfolded True]]]) (use ds 1 dm in auto)
      then show ?thesis using 1 True Li same by simp
    next
      case 2
      have "cursor_ok (ents t2) (L (Part i) @ [a]) m (Some a) None" by (rule cursor_okI [where ys = "L (Part i)" and zs = "[a]"]) simp_all
      then show ?thesis using 2 True Li by simp
    qed
  qed
  then show ?thesis using P cnt by (simp add: tsb_inv_def t3 n hd)
qed
lemma steady_cursors: "same_cursors t t' \<Longrightarrow> steady t t'"
  by (simp add: steady_def same_cursors_def heads_def)

lemma steady_trans: "steady t t' \<Longrightarrow> steady t' t'' \<Longrightarrow> steady t t''"
  by (simp add: steady_def)

lemma steady_set_ack: "steady t (set_ack m i p t)"
  by (simp add: steady_def) (simp add: set_ack_def)

lemma chunk_simps [simp]:
  "chunk t [] = []" "chunk t (a # xs) = content (ents t ! a) # chunk t xs" "chunk t (xs @ ys) = chunk t xs @ chunk t ys" "chunk (set_ack m i p t) xs = chunk t xs" "chunk (set_head m i p t) xs = chunk t xs"
  by (simp_all add: chunk_def)

text \<open>
  The whole of \<^verbatim>\<open>put_ack_TSB\<close> on the list of the entries from the cursor on: if the walk reaches the end without finding
  \<open>seqno\<close>, an entry for it is appended, if there is \<open>room\<close>.
\<close>

definition put_spec ::
  "int \<Rightarrow> int \<Rightarrow> int \<Rightarrow> 'b tsb_slot option \<Rightarrow> bool \<Rightarrow> (int \<times> 'b tsb_result \<times> int) list \<Rightarrow>
   (int \<times> 'b tsb_result \<times> int) list \<times> 'b list \<times> bool \<times> 'b tsb_slot option" where
  "put_spec seqno m fmask slot room xs =
     (let (ks, fs, found, slot') = ack_spec seqno m fmask False slot xs
      in if (\<forall>x\<in>set xs. fst x \<le> seqno) \<and> \<not> found then
           if room then (ks @ [(seqno, Res_heap (case slot' of None \<Rightarrow> None | Some sl \<Rightarrow> slot_val sl), m)], fs, True, map_option (\<lambda>_. \<lparr>slot_val = None, slot_shouldFree = False\<rparr>) slot')
           else (ks, fs, False, slot')
         else (ks, fs, True, slot'))"

definition put_post ::
  "(nat \<Rightarrow> int set) \<Rightarrow> (int \<Rightarrow> nat \<Rightarrow> bool) \<Rightarrow> int \<Rightarrow> nat \<Rightarrow> 'b TSB \<Rightarrow> layout \<Rightarrow> nat list \<Rightarrow> nat list \<Rightarrow> (int \<times> 'b tsb_result \<times> int) list \<Rightarrow> 'b list \<Rightarrow> bool \<Rightarrow>
   'b TSB \<Rightarrow> layout \<Rightarrow> bool" where
  "put_post live hs m i t L ys zs ks fs room t' L' \<longleftrightarrow>
     tsb_inv live hs t' L' \<and> steady t t' \<and> chunk t' (butlast (L' (Part i))) = chunk t ys @ ks \<and> tsb_freed t' = tsb_freed t @ (if tsb_shouldFree t then fs else []) \<and>
     (\<forall>j. j \<noteq> i \<longrightarrow> L' (Part j) = L (Part j) \<and> chunk t' (L' (Part j)) = chunk t (L (Part j))) \<and> (\<not> room \<longrightarrow> tsb_size t' = max_size t' \<and> last_ents t' ! i = None)"

lemma loop_post_all:
  assumes "loop_post live hs m i seqno t L ys zs ks fs t' L' ys' zs'" "zs \<noteq> []" "distinct zs"
  shows "zs' = [last zs] \<longleftrightarrow> (\<forall>x\<in>set (chunk t (butlast zs)). fst x \<le> seqno)"
proof -
  note P = assms(1) [unfolded loop_post_def]
  obtain us where us: "zs = us @ zs'" "\<forall>b\<in>set us. seqnum (ents t ! b) \<le> seqno" "zs' \<noteq> []" using P by blast
  show ?thesis
  proof
    assume "zs' = [last zs]"
    then have "butlast zs = us" using us(1) by (metis butlast_snoc)
    then show "\<forall>x\<in>set (chunk t (butlast zs)). fst x \<le> seqno" using us(2) by (auto simp: chunk_def)
  next
    assume all: "\<forall>x\<in>set (chunk t (butlast zs)). fst x \<le> seqno"
    show "zs' = [last zs]"
    proof (rule ccontr)
      assume n: "zs' \<noteq> [last zs]"
      then have "seqno < seqnum (ents t' ! hd zs')" using P by blast
      moreover have "content (ents t' ! hd zs') = content (ents t ! hd zs')" using P us(3) hd_in_set by blast
      moreover have "hd zs' \<in> set (butlast zs)" using n us(1,3) by (cases zs'; cases "tl zs'") (auto simp: butlast_append)
      ultimately show False using all by (force simp: chunk_def)
    qed
  qed
qed

lemma put_ack_run:
  fixes t :: "'b TSB" and slot :: "'b tsb_slot option"
  assumes inv: "tsb_inv live hs t L" and live: "\<forall>j. live j \<subseteq> masks" "m \<in> live i" "\<forall>m'\<in>live i. fmask AND m' = m'" and i: "i < num_parts t"
    and L: "L (Part i) = ys @ zs" "zs \<noteq> []" and cur: "acks m t ! i = Some (hd zs)" and hd: "\<And>b. head_at hs m i t = Some (Some b) \<Longrightarrow> b = last zs \<or> seqno < seqnum (ents t ! b)"
    and sent: "head_at hs m i t = None \<or> seqno \<in> fst ` set (chunk t (butlast zs))"
  shows "\<exists>t' L' ks fs ok slot' room ys' zs'. put_ack_TSB slot seqno i m fmask t = (Inr (ok, slot'), t') \<and>
    put_spec seqno m fmask slot room (chunk t (butlast zs)) = (ks, fs, ok, slot') \<and> put_post live hs m i t L ys zs ks fs room t' L' \<and>
    L' (Part i) = ys' @ zs' \<and> zs' \<noteq> [] \<and> acks m t' ! i = Some (hd zs') \<and> (zs = [last zs] \<or> seqno < seqnum (ents t ! hd zs) \<or> length zs' < length zs)"
proof -
  note I = tsb_invD [OF inv i]
  have m: "m \<in> masks" using live by blast
  obtain c :: "'b fld" where c: "ack_fld m = Some c" "fst c = acks m" "\<forall>i p t. i < length (acks m t) \<longrightarrow> set_ptr c i p t = (Inr (), set_ack m i p t)"
    by (rule ack_fld_run [OF m]) (rule that; blast)
  have "length zs \<le> length (L (Part i))" using L by simp
  also have "\<dots> \<le> length (ents t)"
    using card_mono [of "{..<length (ents t)}" "set (L (Part i))"] distinct_card [OF I(4)] shape_bound [OF I(1), of _ "Part i"] by auto
  finally have fuel: "length zs \<le> Suc (length (ents t))" by simp
  obtain t1 L1 ys1 zs1 ks fs found slot1 where r: "ack_loop (Suc (length (ents t))) c seqno i m fmask False slot t = (Inr (found, slot1), t1)"
    "ack_spec seqno m fmask False slot (chunk t (butlast zs)) = (ks, fs, found, slot1)" "loop_post live hs m i seqno t L ys zs ks fs t1 L1 ys1 zs1"
    using ack_loop_run [OF live c(2,3) inv i L cur hd fuel, of False slot] by blast
  note P = r(3) [unfolded loop_post_def]
  have i1: "i < num_parts t1" using P i by (simp add: steady_def)
  have inv1: "tsb_inv live hs t1 L1" and L1: "L1 (Part i) = ys1 @ zs1" "zs1 \<noteq> []" and ak1: "acks m t1 ! i = Some (hd zs1)" using P by blast+
  note I1 = tsb_invD [OF inv1 i1]
  have dz: "distinct zs" using I(4) L by simp
  let ?all = "\<forall>x\<in>set (chunk t (butlast zs)). fst x \<le> seqno"
  note all = loop_post_all [OF r(3) L(2) dz]
  have b1: "hd zs1 < length (ents t1)" using shape_bound [OF I1(1), of "hd zs1" "Part i"] L1 by simp
  have la1: "i < length (acks m t1)" using length_acks [of t1 m] I1(1) i1 by (simp add: tsb_shape_def)
  have neg: "dmask (ents t1 ! hd zs1) < 0 \<longleftrightarrow> zs1 = [last zs]"
  proof -
    obtain us where us: "zs = us @ zs1" using P by blast
    then have lz: "last zs1 = last zs" using L1(2) by simp
    have s: "dmask (ents t1 ! last zs1) = -1" "\<forall>a\<in>set (butlast zs1). 0 \<le> dmask (ents t1 ! a)" using shape_part [OF I1(1) i1] L1 by (simp_all add: part_shape_def butlast_append)
    show ?thesis using s lz L1(2) by (cases zs1; cases "tl zs1") (auto simp: not_less)
  qed
  have run: "put_ack_TSB slot seqno i m fmask t = (if zs1 = [last zs] \<and> \<not> found then
      bind_prog (alloc_entry_w_last i) (\<lambda>tentry.
        if tentry = None then return_prog (False, slot1)
        else bind_prog (link_entry i tentry (\<lambda>e. e\<lparr>rtup := Res_heap (case slot1 of None \<Rightarrow> None | Some sl \<Rightarrow> slot_val sl), seqnum := seqno, dmask := m\<rparr>)) (\<lambda>_.
          bind_prog (ent (Some (hd zs1))) (\<lambda>e'. bind_prog (set_ptr c i (ent_next e')) (\<lambda>_.
            return_prog (True, case slot1 of None \<Rightarrow> None | Some sl \<Rightarrow> Some \<lparr>slot_val = None, slot_shouldFree = False\<rparr>)))))
      else return_prog (True, slot1)) t1"
  proof -
    have e: "elem_at (fst c) i t1 = (Inr (Some (hd zs1)), t1)" "ent (Some (hd zs1)) t1 = (Inr (ents t1 ! hd zs1), t1)" using la1 b1 by (simp_all add: elem_at_def c(2) ak1 ent_def)
    show ?thesis unfolding put_ack_TSB_def c(1) option.case bind_prog_def [of "\<lambda>t. ack_loop (Suc (length (ents t))) c seqno i m fmask False slot t"] r(1)
      by (simp add: bind_prog_def [of "elem_at (fst c) i"] e bind_prog_def [of "ent (Some (hd zs1))" "\<lambda>e. if dmask e < 0 \<and> \<not> found then _ e else _ e"] neg)
  qed
  show ?thesis
  proof (cases "zs1 = [last zs] \<and> \<not> found")
    case False
    have res: "put_ack_TSB slot seqno i m fmask t = (Inr (True, slot1), t1)" using run False by (simp add: return_prog_def)
    have sp: "put_spec seqno m fmask slot True (chunk t (butlast zs)) = (ks, fs, True, slot1)" using False r(2) all by (auto simp: put_spec_def)
    have "chunk t1 (butlast (L1 (Part i))) = chunk t ys @ ks" using P L1 by (simp add: butlast_append)
    then have post: "put_post live hs m i t L ys zs ks fs True t1 L1" unfolding put_post_def using P by (intro conjI) (assumption | blast)+
    have len: "zs = [last zs] \<or> seqno < seqnum (ents t ! hd zs) \<or> length zs1 < length zs"
    proof (cases "zs1 = zs")
      case True
      then show ?thesis using P by auto
    next
      case False
      then show ?thesis using P by auto
    qed
    show ?thesis using res sp post L1 ak1 len by blast
  next
    case True
    have hn: "head_at hs m i t = None"
    proof (rule ccontr)
      assume "head_at hs m i t \<noteq> None"
      then have "seqno \<in> fst ` set (chunk t (butlast zs))" using sent by (cases "head_at hs m i t") simp_all
      then have "found" using ack_spec_found [of "chunk t (butlast zs)" seqno m fmask False slot] all True r(2) by simp
      then show False using True by simp
    qed
    have la: "last (L1 (Part i)) = hd zs1" "hd zs1 = last zs" "L1 (Part i) = ys1 @ [hd zs1]" using L1 True by simp_all
    have c1: "chunk t1 ys1 = chunk t ys @ ks" using P True by simp
    let ?r = "Res_heap (case slot1 of None \<Rightarrow> None | Some sl \<Rightarrow> slot_val sl)" and ?sl = "case slot1 of None \<Rightarrow> None | Some sl \<Rightarrow> Some \<lparr>slot_val = None, slot_shouldFree = False\<rparr>"
    have m0: "0 \<le> m" using m by auto
    show ?thesis
    proof (cases "L1 Free = [] \<and> L1 (Res i) = []")
      case full: True
      have res: "put_ack_TSB slot seqno i m fmask t = (Inr (False, slot1), t1)" using run True link_run [OF I1(1,2) i1 m0] full by (simp add: bind_prog_def return_prog_def)
      have sp: "put_spec seqno m fmask slot False (chunk t (butlast zs)) = (ks, fs, False, slot1)" using True r(2) all by (simp add: put_spec_def)
      have "chunk t1 (butlast (L1 (Part i))) = chunk t ys @ ks" using P L1 by (simp add: butlast_append)
      moreover have "tsb_size t1 = max_size t1" "last_ents t1 ! i = None" using I1(1) i1 full by (auto simp: tsb_shape_def free_ok_def split: option.splits)
      ultimately have post: "put_post live hs m i t L ys zs ks fs False t1 L1" unfolding put_post_def using P by (intro conjI) (assumption | blast)+
      have "length zs1 < length zs \<or> zs = [last zs]" using True L(2) by (cases zs; cases "tl zs") auto
      then show ?thesis using res sp post L1 ak1 by blast
    next
      case room: False
      obtain a t1' t2 L2 where lk: "alloc_entry_w_last i t1 = (Inr (Some a), t1')" "link_entry i (Some a) (\<lambda>e. e\<lparr>rtup := ?r, seqnum := seqno, dmask := m\<rparr>) t1' = (Inr (), t2)"
        "link_post i seqno ?r m t1 L1 a t2 L2" using link_run [OF I1(1,2) i1 m0, where r = ?r and sq = seqno] room by auto
      note Q = lk(3) [unfolded link_post_def]
      define t3 where "t3 = set_ack m i (Some a) t2"
      have n2: "length (acks m t2) = num_parts t1" "length (ents t2) = length (ents t1)" using length_acks [of t2 m] Q by (simp_all add: tsb_shape_def same_cursors_def)
      have "ent (Some (hd zs1)) t2 = (Inr (ents t2 ! hd zs1), t2)" using b1 n2 by (simp add: ent_def)
      moreover have "ent_next (ents t2 ! hd zs1) = Some a" using Q la by simp
      moreover have "set_ptr c i (Some a) t2 = (Inr (), t3)" using c(3) n2 i1 by (simp add: t3_def)
      ultimately have res: "put_ack_TSB slot seqno i m fmask t = (Inr (True, ?sl), t3)"
        using run True lk(1,2) by (simp add: bind_prog_def return_prog_def)
      have sp: "put_spec seqno m fmask slot True (chunk t (butlast zs)) = (ks @ [(seqno, ?r, m)], fs, True, ?sl)"
        using True r(2) all by (simp add: put_spec_def split: option.splits)
      have inv3: "tsb_inv live hs t3 L2"
      proof (rule inv_append [OF inv1 i1 lk(3)])
        show "acks m' t3 ! j = acks m' t2 ! j" if "m' \<in> live j" "j \<noteq> i" for m' j
          using that live(1) unfolding t3_def acks_set_ack [OF m subsetD [OF spec [OF live(1)] that(1)]] by simp
        show "m AND m' \<noteq> m' \<and> acks m' t3 ! i = acks m' t2 ! i \<or> acks m' t3 ! i = Some a \<and> head_at hs m' i t1 = None" if m': "m' \<in> live i" for m'
        proof (cases "m' = m")
          case True
          have "heads m t1 = heads m t" using P by (simp add: steady_def)
          then have "head_at hs m i t1 = None" using hn by (simp only: head_at_def)
          then show ?thesis using True n2 i1 unfolding t3_def acks_set_ack [OF m m] by (simp add: acks_set_ack [OF m m])
        next
          case False
          have "m AND m' \<noteq> m'" using False m subsetD [OF spec [OF live(1)] m'] by auto
          then show ?thesis using False unfolding t3_def acks_set_ack [OF m subsetD [OF spec [OF live(1)] m']] by simp
        qed
      qed (simp_all add: t3_def)
      have kept: "content (ents t2 ! b) = content (ents t1 ! b)" if "b \<noteq> hd zs1" "b \<in> set (L1 (Part j))" for b j using Q that unfolding la(1) by blast
      have "distinct (ys1 @ [hd zs1])" using I1(4) la by simp
      then have "b \<noteq> hd zs1 \<and> b \<in> set (L1 (Part i))" if "b \<in> set ys1" for b using that unfolding la(3) by auto
      then have "chunk t2 ys1 = chunk t1 ys1" using kept by (intro chunk_cong) blast
      moreover have "content (ents t2 ! hd zs1) = (seqno, ?r, m)" using Q la by simp
      moreover have L2: "L2 (Part i) = (ys1 @ [hd zs1]) @ [a]" using Q la by simp
      ultimately have ch: "chunk t3 (butlast (L2 (Part i))) = chunk t ys @ ks @ [(seqno, ?r, m)]" using c1 by (simp add: t3_def butlast_append)
      have "steady t t1" "same_cursors t1 t2" using P Q by blast+
      then have st: "steady t t3" unfolding t3_def using steady_trans [OF steady_trans [OF _ steady_cursors] steady_set_ack] by blast
      have oth: "L2 (Part j) = L (Part j) \<and> chunk t3 (L2 (Part j)) = chunk t (L (Part j))" if j: "j \<noteq> i" for j
      proof -
        have "hd zs1 \<notin> set (L1 (Part j))" using exact_disjoint [OF shape_exact [OF I1(1)], of "hd zs1" "Part i" "Part j"] la j by simp
        then have "chunk t2 (L1 (Part j)) = chunk t1 (L1 (Part j))" by (intro chunk_cong kept) auto
        moreover have "L2 (Part j) = L1 (Part j)" "L1 (Part j) = L (Part j)" "chunk t1 (L1 (Part j)) = chunk t (L (Part j))" using Q P j by blast+
        ultimately show ?thesis by (simp add: t3_def)
      qed
      have "tsb_freed t3 = tsb_freed t @ (if tsb_shouldFree t then fs else [])" using P Q by (simp add: t3_def)
      then have post: "put_post live hs m i t L ys zs (ks @ [(seqno, ?r, m)]) fs True t3 L2" unfolding put_post_def using inv3 st ch oth by (intro conjI allI impI) (assumption | blast)+
      have "acks m t3 ! i = Some a" using n2 i1 unfolding t3_def acks_set_ack [OF m m] by simp
      moreover have "zs = [last zs] \<or> length [a] < length zs" using L(2) by (cases zs; cases "tl zs") auto
      ultimately show ?thesis using res sp post L2 by (intro exI conjI) (assumption | simp | blast)+
    qed
  qed
qed
section \<open>Initialisation\<close>

text \<open>The buffer after the first \<open>k\<close> partitions have been set up.\<close>

definition filled :: "nat \<Rightarrow> nat \<Rightarrow> (nat \<Rightarrow> nat) \<Rightarrow> ptr list" where
  "filled n k f = map (\<lambda>j. Some (f j)) [0..<k] @ replicate (n - k) None"

definition ent_init :: "(nat \<Rightarrow> 'b TSB_Entry) \<Rightarrow> nat \<Rightarrow> nat \<Rightarrow> nat \<Rightarrow> 'b TSB_Entry" where
  "ent_init junk N k i = (let e = (junk i)\<lparr>ent_next := if i = 0 then None else Some (i - 1)\<rparr> in if i < N then if N - k \<le> i then clear_entry e else e else junk i)"

definition half_TSB :: "(nat \<Rightarrow> 'b TSB_Entry) \<Rightarrow> nat \<Rightarrow> nat \<Rightarrow> nat \<Rightarrow> 'b TSB" where
  "half_TSB junk n mx k = (let N = mx + n; sent = filled n k (\<lambda>j. N - 1 - j) in
     \<lparr>max_size = int N, tsb_size = int k, num_parts = n, tsb_counts = replicate n 0, tsb_table = sent, prod_ack = sent, prim_ack = sent, sec_ack = sent, p_head = sent, s_head = sent,
      f_head = (if k < N then Some 0 else None), f_tail = (if k < N then Some (N - 1 - k) else None), last_ents = filled n k (\<lambda>j. N + j), tsb_shouldFree = True,
      ents = map (ent_init junk N k) [0..<N + n], tsb_freed = []\<rparr>)"

lemma filled_simps [simp]: "k \<le> n \<Longrightarrow> length (filled n k f) = n" "j < k \<Longrightarrow> filled n k f ! j = Some (f j)"
  by (simp_all add: filled_def nth_append)

lemma filled_step: "k < n \<Longrightarrow> (filled n k f)[k := Some (f k)] = filled n (Suc k) f"
  by (rule nth_equalityI) (auto simp: filled_def nth_append nth_list_update less_Suc_eq)

lemma half_fresh: "0 < mx + n \<Longrightarrow> fresh_TSB junk n mx = half_TSB junk n mx 0"
proof -
  assume "0 < mx + n"
  moreover have "map (\<lambda>i. (junk i)\<lparr>ent_next := if i = 0 then None else Some (i - 1)\<rparr>) [0..<mx + n] @ map junk [mx + n..<mx + n + n] = map (ent_init junk (mx + n) 0) [0..<mx + n + n]"
    unfolding upt_add_eq_append [OF le0, of "mx + n" n] map_append by (intro arg_cong2 [where f = append] map_cong) (auto simp: ent_init_def)
  ultimately show ?thesis by (simp add: fresh_TSB_def half_TSB_def filled_def Let_def)
qed

lemma half_step:
  fixes junk :: "nat \<Rightarrow> 'b TSB_Entry"
  assumes k: "k < n"
  shows "init_part k (half_TSB junk n mx k) = (Inr (), half_TSB junk n mx (Suc k))"
proof -
  let ?N = "mx + n" and ?a = "mx + n - 1 - k"
  define h where "h = map (ent_init junk ?N k) [0..<?N + n]"
  have a: "?a < ?N + n" "?a < ?N" "\<not> ?N - k \<le> ?a" using k by auto
  have e: "ents (half_TSB junk n mx k) = h" by (simp add: half_TSB_def h_def Let_def)
  have ha: "h ! ?a = (junk ?a)\<lparr>ent_next := if ?a = 0 then None else Some (?a - 1)\<rparr>" using a by (simp add: h_def ent_init_def Let_def)
  have h': "h[?a := clear_entry (h ! ?a)] = map (ent_init junk ?N (Suc k)) [0..<?N + n]"
  proof (rule nth_equalityI)
    fix i assume "i < length (h[?a := clear_entry (h ! ?a)])"
    then have i: "i < ?N + n" by (simp add: h_def)
    show "h[?a := clear_entry (h ! ?a)] ! i = map (ent_init junk ?N (Suc k)) [0..<?N + n] ! i"
    proof (cases "i = ?a")
      case True
      then show ?thesis using a k i by (simp add: nth_list_update ha) (simp add: h_def ent_init_def Let_def)
    next
      case False
      then have "?N - k \<le> i \<longleftrightarrow> ?N - Suc k \<le> i" by auto
      then show ?thesis using False i by (simp add: h_def ent_init_def Let_def)
    qed
  qed (simp add: h_def)
  have al: "alloc_entry (half_TSB junk n mx k) = (Inr (Some ?a), (half_TSB junk n mx k)\<lparr>tsb_size := int (Suc k), f_head := (if Suc k < ?N then Some 0 else None),
      f_tail := (if Suc k < ?N then Some (?N - 1 - Suc k) else None), ents := map (ent_init junk ?N (Suc k)) [0..<?N + n]\<rparr>)"
  proof -
    have len: "length h = ?N + n" by (simp add: h_def)
    show ?thesis
    proof (cases "?a = 0")
      case True
      then have "\<not> Suc k < ?N" by linarith
      then show ?thesis using True k a(1) len unfolding h' [symmetric] h_def
        by (simp add: alloc_entry_def half_TSB_def Let_def bind_prog_def modify_prog_def upd_def return_prog_def)
    next
      case False
      then have s: "Suc k < ?N" "?a - 1 = ?N - 1 - Suc k" by linarith+
      have n: "ent_next (h ! ?a) = Some (?N - 1 - Suc k)" using ha False s(2) by simp
      have d: "ent (Some ?a) (half_TSB junk n mx k) = (Inr (h ! ?a), half_TSB junk n mx k)" using a(1) len by (simp add: ent_def e)
      have t: "f_tail (half_TSB junk n mx k) = Some ?a" "f_head (half_TSB junk n mx k) = Some 0" "tsb_size (half_TSB junk n mx k) = int k" using k by (simp_all add: half_TSB_def Let_def)
      have h2: "half_TSB junk n mx k\<lparr>f_head := Some 0\<rparr> = half_TSB junk n mx k" using k by (simp add: half_TSB_def Let_def)
      show ?thesis using False s(1) k a(1) len n d t h2 unfolding h' [symmetric]
        by (simp add: alloc_entry_def bind_prog_def modify_prog_def upd_def return_prog_def e)
    qed
  qed
  have "(replicate n (0 :: int))[k := 0] = replicate n 0" using list_update_id [of "replicate n (0 :: int)" k] k by simp
  moreover have "nat (int mx + int n) = mx + n" by simp
  moreover note filled_step [OF k, of "\<lambda>j. mx + n - Suc j"] filled_step [OF k, of "(+) (mx + n)"]
  ultimately show ?thesis unfolding init_part_def bind_prog_def [of alloc_entry] al
    using k by (simp add: half_TSB_def Let_def set_ptr_def table_fld_def p_head_fld_def s_head_fld_def prod_ack_fld_def prim_ack_fld_def sec_ack_fld_def last_ents_fld_def
      bind_prog_def modify_prog_def)
qed

lemma init_TSB_run:
  assumes "0 < mx + n"
  shows "init_TSB junk n mx = Inr (half_TSB junk n mx n)"
proof -
  have "k \<le> n \<Longrightarrow> init_parts [n - k..<n] (half_TSB junk n mx (n - k)) = (Inr (), half_TSB junk n mx n)" for k
  proof (induction k)
    case 0
    then show ?case by (simp add: return_prog_def)
  next
    case (Suc k)
    then have "[n - Suc k..<n] = (n - Suc k) # [n - k..<n]" "Suc (n - Suc k) = n - k" by (simp_all add: upt_conv_Cons Suc_diff_Suc)
    then show ?case using Suc half_step [of "n - Suc k" n junk mx] by (simp add: bind_prog_def)
  qed
  from this [of n] show ?thesis using assms by (simp add: init_TSB_def half_fresh)
qed

definition init_layout :: "nat \<Rightarrow> nat \<Rightarrow> layout" where
  "init_layout n mx p = (case p of Part i \<Rightarrow> if i < n then [mx + n - 1 - i] else [] | Free \<Rightarrow> rev [0..<mx] | Res i \<Rightarrow> if i < n then [mx + n + i] else [] | Hand \<Rightarrow> [])"

lemma init_inv: "tsb_inv live hs (half_TSB junk n mx n) (init_layout n mx)"
proof -
  let ?t = "half_TSB junk n mx n" and ?L = "init_layout n mx" and ?N = "mx + n"
  have E: "length (ents ?t) = ?N + n" "\<And>i. i < ?N + n \<Longrightarrow> ents ?t ! i = ent_init junk ?N n i" by (simp_all add: half_TSB_def Let_def)
  have sent: "ents ?t ! (?N - 1 - i) = clear_entry ((junk (?N - 1 - i))\<lparr>ent_next := if ?N - 1 - i = 0 then None else Some (?N - 1 - i - 1)\<rparr>)" if "i < n" for i
    using that by (subst E(2)) (auto simp: ent_init_def Let_def)
  have ex: "exact ?L (?N + n)"
  proof -
    have "(\<exists>p. x \<in> set (?L p)) \<longleftrightarrow> x < ?N + n" for x
    proof
      assume "x < ?N + n"
      then consider "x < mx" | "mx \<le> x" "x < ?N" | "?N \<le> x" "x < ?N + n" by linarith
      then show "\<exists>p. x \<in> set (?L p)"
      proof cases
        case 1 then show ?thesis by (intro exI [of _ Free]) (simp add: init_layout_def)
      next
        case 2 then show ?thesis by (intro exI [of _ "Part (?N - 1 - x)"]) (auto simp: init_layout_def)
      next
        case 3 then show ?thesis by (intro exI [of _ "Res (x - ?N)"]) (auto simp: init_layout_def)
      qed
    next
      assume "\<exists>p. x \<in> set (?L p)"
      then obtain p where "x \<in> set (?L p)" by blast
      then show "x < ?N + n" by (cases p) (auto simp: init_layout_def split: if_splits)
    qed
    then have "(\<Union>p. set (?L p)) = {..<?N + n}" by auto
    moreover have "set (?L p) \<inter> set (?L q) = {}" if "p \<noteq> q" for p q using that by (cases p; cases q) (auto simp: init_layout_def)
    moreover have "distinct (?L p)" for p by (cases p) (simp_all add: init_layout_def)
    ultimately show ?thesis unfolding exact_def by blast
  qed
  have fs: "fseg (ents ?t) (rev [0..<k])" if "k \<le> mx" for k
    using that
  proof (induction k)
    case (Suc k)
    have "ents ?t ! k = (junk k)\<lparr>ent_next := if k = 0 then None else Some (k - 1)\<rparr>" using Suc.prems by (subst E(2)) (auto simp: ent_init_def Let_def)
    moreover have "rev [0..<Suc k] = k # rev [0..<k]" by simp
    moreover have "hd (rev [0..<k]) = k - 1" if "k \<noteq> 0" using that by (cases k) simp_all
    ultimately show ?case using Suc E(1) by simp
  qed simp
  have "free_ok ?t (?L Free)" using fs [of mx] by (cases mx) (auto simp: free_ok_def init_layout_def half_TSB_def Let_def last_rev)
  moreover have "arrays_ok ?t" by (simp add: arrays_ok_def half_TSB_def Let_def)
  moreover have "part_shape ?t i (?L (Part i))" if "i < n" for i
    using that sent [OF that] E(1) by (auto simp: part_shape_def init_layout_def clear_entry_def) (simp add: half_TSB_def Let_def)
  moreover have "?L (Res i) = (case last_ents ?t ! i of None \<Rightarrow> [] | Some a \<Rightarrow> [a])" if "i < n" for i using that by (simp add: init_layout_def half_TSB_def Let_def)
  ultimately have sh: "tsb_shape ?t ?L" using ex E(1) by (auto simp: tsb_shape_def) (auto simp: half_TSB_def Let_def init_layout_def)
  have "cursor_ok (ents ?t) (?L (Part i)) m (acks m ?t ! i) (head_at hs m i ?t)" if "i < n" for i m
    using that by (intro cursor_okI [where ys = "[]" and zs = "?L (Part i)"]) (auto simp: init_layout_def acks_def head_at_def heads_def half_TSB_def Let_def)
  moreover have "num_parts ?t = n" "i < n \<Longrightarrow> tsb_counts ?t ! i = 0" for i by (simp_all add: half_TSB_def Let_def)
  ultimately show ?thesis using sh by (simp add: tsb_inv_def) (simp add: init_layout_def)
qed
section \<open>Heads and resets\<close>

lemma cursor_ok_none:
  assumes "cursor_ok h xs m p hp"
  shows "cursor_ok h xs m p None"
  using assms unfolding cursor_ok_def option.case by blast

text \<open>A head may be put anywhere from the cursor of its side on.\<close>

lemma inv_set_head:
  fixes t :: "'b TSB"
  assumes inv: "tsb_inv live hs' t L" and m: "m = 2 \<or> m = 4" and i: "i < num_parts t" and L: "L (Part i) = ys @ zs" "acks m t ! i = Some (hd zs)" "b \<in> set zs"
    and hs: "\<And>m' j. (m', j) \<noteq> (m, i) \<Longrightarrow> hs m' j \<Longrightarrow> hs' m' j"
  shows "tsb_inv live hs (set_head m i (Some b) t) L"
proof -
  note I = tsb_invD [OF inv i]
  obtain h where h: "heads m t = Some h" "length h = num_parts t" using m length_heads [of t m] I(1) by (auto simp: heads_def tsb_masks tsb_shape_def)
  have "cursor_ok (ents t) (L (Part j)) m' (acks m' t ! j) (head_at hs m' j (set_head m i (Some b) t))" if j: "j < num_parts t" and m': "m' \<in> live j" for j m'
  proof (cases "m' = m \<and> j = i")
    case True
    have "cursor_ok (ents t) (ys @ zs) m (Some (hd zs)) (head_at hs' m i t)" using I(6) [of m] True m' L by simp
    then have nb: "\<forall>a\<in>set (butlast zs). dmask (ents t ! a) AND m \<noteq> m" using cursor_at(1) [of "ents t" ys zs m] I(4) L by (metis empty_iff empty_set)
    have "head_at hs m i (set_head m i (Some b) t) \<in> {None, Some (Some b)}" unfolding head_at_def heads_set_head [OF m] using h i by simp
    then have "cursor_ok (ents t) (L (Part i)) m (Some (hd zs)) (head_at hs m i (set_head m i (Some b) t))"
      using L nb by (intro cursor_okI [where ys = ys and zs = zs]) auto
    then show ?thesis using True L by simp
  next
    case False
    have "head_at hs m' j (set_head m i (Some b) t) = None \<or> head_at hs m' j (set_head m i (Some b) t) = head_at hs' m' j t"
      using False hs [of m' j] h unfolding head_at_def heads_set_head [OF m] by auto
    then show ?thesis using tsb_invD(6) [OF inv j m'] cursor_ok_none [OF tsb_invD(6) [OF inv j m']] by (elim disjE) simp_all
  qed
  then show ?thesis using inv by (simp add: tsb_inv_def)
qed

lemma inv_weaken:
  assumes "tsb_inv live hs t L" "\<And>m i. hs' m i \<Longrightarrow> hs m i"
  shows "tsb_inv live hs' t L"
proof -
  have "cursor_ok h xs m p (head_at hs' m j t)" if "cursor_ok h xs m p (head_at hs m j t)" for h :: "'a TSB_Entry list" and xs m p j
    using that cursor_ok_none [OF that] assms(2) [of m j] by (cases "hs' m j") (simp_all add: head_at_def)
  then show ?thesis using assms(1) by (auto simp: tsb_inv_def)
qed

text \<open>The part of the chain from the cursor on.\<close>

lemma inv_split:
  assumes "tsb_inv live hs t L" "i < num_parts t" "m \<in> live i"
  obtains ys zs where "L (Part i) = ys @ zs" "zs \<noteq> []" "acks m t ! i = Some (hd zs)" "\<forall>b. head_at hs m i t = Some b \<longrightarrow> (\<exists>a\<in>set zs. b = Some a)"
  by (rule cursor_okE [OF tsb_invD(6) [OF assms]]) (rule that, auto)

lemma advance_head_run:
  fixes t :: "'b TSB"
  assumes inv: "tsb_inv live hs t L" and m: "m \<in> live i" "m = 2 \<or> m = 4" "hs m i" and i: "i < num_parts t"
  shows "\<exists>t'. advance_head_TSB i m t = (Inr (), t') \<and> tsb_inv live hs t' L"
proof -
  note I = tsb_invD [OF inv i]
  obtain ys zs where z: "L (Part i) = ys @ zs" "zs \<noteq> []" "acks m t ! i = Some (hd zs)" "\<forall>b. head_at hs m i t = Some b \<longrightarrow> (\<exists>a\<in>set zs. b = Some a)" by (rule inv_split [OF inv i m(1)])
  obtain c :: "'b fld" where c: "head_fld m = Some c" "\<And>t. heads m t = Some (fst c t)" "\<And>i p t. i < length (fst c t) \<Longrightarrow> set_ptr c i p t = (Inr (), set_head m i p t)"
    by (rule head_fld_run [OF m(2)]) (rule that; blast)
  have lc: "length (fst c t) = num_parts t" using length_heads [of t m] I(1) c(2) by (simp add: tsb_shape_def)
  obtain a where a: "fst c t ! i = Some a" "a \<in> set zs" using z(4) m(3) by (auto simp: head_at_def c(2))
  have al: "a < length (ents t)" using shape_bound [OF I(1), of a "Part i"] a z by simp
  have run: "advance_head_TSB i m t = (if \<not> dmask (ents t ! a) < 0 then (Inr (), set_head m i (ent_next (ents t ! a)) t) else (Inr (), t))"
    using lc i al c(3) [of i t] by (simp add: advance_head_TSB_def c(1) elem_at_def ent_def bind_prog_def return_prog_def a)
  show ?thesis
  proof (cases "dmask (ents t ! a) < 0")
    case True
    then show ?thesis using run inv by simp
  next
    case False
    obtain us ws where u: "zs = us @ a # ws" using a(2) by (meson split_list)
    have p: "dseg (ents t) None (ys @ us @ a # ws) None" "dmask (ents t ! last (ys @ us @ a # ws)) = -1" using shape_part [OF I(1) i] z u by (simp_all add: part_shape_def)
    have ws: "ws \<noteq> []" using p(2) False by auto
    then have "ent_next (ents t ! a) = Some (hd ws)" using p(1) by (simp add: dseg_append)
    moreover have "tsb_inv live hs (set_head m i (Some (hd ws)) t) L" by (rule inv_set_head [OF inv m(2) i z(1,3)]) (use u ws in auto)
    ultimately show ?thesis using run False by simp
  qed
qed

lemma reset_head_run:
  fixes t :: "'b TSB"
  assumes inv: "tsb_inv live hs' t L" and m: "m \<in> live i" "m = 2 \<or> m = 4" and i: "i < num_parts t" and hs: "\<And>m' j. (m', j) \<noteq> (m, i) \<Longrightarrow> hs m' j \<Longrightarrow> hs' m' j"
  shows "\<exists>t'. reset_head_TSB i m t = (Inr (), t') \<and> tsb_inv live hs t' L"
proof -
  note I = tsb_invD [OF inv i]
  obtain ys zs where z: "L (Part i) = ys @ zs" "zs \<noteq> []" "acks m t ! i = Some (hd zs)" "\<forall>b. head_at hs' m i t = Some b \<longrightarrow> (\<exists>a\<in>set zs. b = Some a)" by (rule inv_split [OF inv i m(1)])
  obtain c :: "'b fld" where c: "head_fld m = Some c" "\<And>t. heads m t = Some (fst c t)" "\<And>i p t. i < length (fst c t) \<Longrightarrow> set_ptr c i p t = (Inr (), set_head m i p t)"
    by (rule head_fld_run [OF m(2)]) (rule that; blast)
  have mm: "m \<in> masks" using m(2) by blast
  obtain d :: "'b fld" where d: "ack_fld m = Some d" "fst d = acks m" by (rule ack_fld_run [OF mm]) blast
  have l: "length (fst c t) = num_parts t" "length (acks m t) = num_parts t" using length_heads [of t m] length_acks [of t m] I(1) c(2) by (simp_all add: tsb_shape_def)
  have "reset_head_TSB i m t = (Inr (), set_head m i (Some (hd zs)) t)" using l i c(3) [of i t] z(3) by (simp add: reset_head_TSB_def c(1) d elem_at_def bind_prog_def)
  moreover have "tsb_inv live hs (set_head m i (Some (hd zs)) t) L" by (rule inv_set_head [OF inv m(2) i z(1,3) hd_in_set [OF z(2)] hs])
  ultimately show ?thesis by blast
qed
lemma unmark_run:
  fixes t :: "'b TSB"
  assumes m: "m \<in> masks" and i: "i < num_parts t"
  shows "tsb_shape t L \<Longrightarrow> L (Part i) = ys @ zs \<Longrightarrow> zs \<noteq> [] \<Longrightarrow> length zs \<le> k \<Longrightarrow>
    \<exists>h. unmark_loop k m (Some (hd zs)) t = (Inr (), t\<lparr>ents := h\<rparr>) \<and> tsb_shape (t\<lparr>ents := h\<rparr>) L \<and>
      (\<forall>b. h ! b = (if b \<in> set (butlast zs) then (ents t ! b)\<lparr>dmask := dmask (ents t ! b) AND NOT m\<rparr> else ents t ! b))"
  using i
proof (induction k arbitrary: t ys zs)
  case 0
  then show ?case by simp
next
  case (Suc k)
  obtain a ws where z: "zs = a # ws" using Suc.prems(3) by (cases zs) auto
  have al: "a < length (ents t)" using shape_bound [OF Suc.prems(1), of a "Part i"] Suc.prems(2) z by simp
  have d: "distinct (L (Part i))" by (rule exact_distinct [OF shape_exact [OF Suc.prems(1)]])
  have p: "dseg (ents t) None (ys @ zs) None" "dmask (ents t ! last zs) = -1" "\<forall>b\<in>set (butlast zs). 0 \<le> dmask (ents t ! b)"
    using shape_part [OF Suc.prems(1,5)] Suc.prems(2,3) by (simp_all add: part_shape_def butlast_append)
  show ?case
  proof (cases "ws = []")
    case True
    have "unmark_loop (Suc k) m (Some (hd zs)) t = (Inr (), t)" using al p(2) z True by (simp add: ent_def bind_prog_def return_prog_def)
    then show ?thesis using Suc.prems(1) z True by (intro exI [of _ "ents t"]) simp
  next
    case False
    let ?e = "(ents t ! a)\<lparr>dmask := dmask (ents t ! a) AND NOT m\<rparr>"
    let ?h = "(ents t)[a := ?e]"
    have da: "0 \<le> dmask (ents t ! a)" using p(3) z False by simp
    have nx: "ent_next (ents t ! a) = Some (hd ws)" using p(1) z False by (simp add: dseg_append)
    have ai: "a \<in> set (butlast (L (Part i)))" using Suc.prems(2) z False by (simp add: butlast_append)
    have sh: "tsb_shape (t\<lparr>ents := ?h\<rparr>) L" by (rule shape_mark [OF Suc.prems(1,5) ai]) (use da mask_bits(6) [OF m m] in simp_all)
    obtain h where h: "unmark_loop k m (Some (hd ws)) (t\<lparr>ents := ?h\<rparr>) = (Inr (), t\<lparr>ents := ?h\<rparr>\<lparr>ents := h\<rparr>)" "tsb_shape (t\<lparr>ents := ?h\<rparr>\<lparr>ents := h\<rparr>) L"
      "\<forall>b. h ! b = (if b \<in> set (butlast ws) then (?h ! b)\<lparr>dmask := dmask (?h ! b) AND NOT m\<rparr> else ?h ! b)"
      using Suc.IH [OF sh, of "ys @ [a]" ws] Suc.prems(2,4,5) z False by auto
    have aw: "a \<notin> set (butlast ws)" using d Suc.prems(2) z by (auto dest: in_set_butlastD)
    have "unmark_loop (Suc k) m (Some (hd zs)) t = (Inr (), t\<lparr>ents := h\<rparr>)" using al da z nx h(1) by (simp add: ent_def upd_def bind_prog_def)
    moreover have "h ! b = (if b \<in> set (butlast zs) then (ents t ! b)\<lparr>dmask := dmask (ents t ! b) AND NOT m\<rparr> else ents t ! b)" for b
      using h(3) z False al aw by (cases "b = a") simp_all
    ultimately show ?thesis using h(2) by auto
  qed
qed

text \<open>A side is put back to where the other side is.\<close>

lemma reset_cursors_run:
  fixes t :: "'b TSB"
  assumes inv: "tsb_inv live hs t L" and live: "\<forall>j. live j \<subseteq> masks" "6 - m \<in> live i" and m: "m = 2 \<or> m = 4" and i: "i < num_parts t"
  shows "\<exists>t'. reset_cursors_TSB i m t = (Inr (), t') \<and> tsb_inv (live(i := insert m (live i))) hs t' L"
proof -
  note I = tsb_invD [OF inv i]
  let ?o = "6 - m" and ?live = "live(i := insert m (live i))" and ?hs = "\<lambda>m' j. (m', j) \<noteq> (m, i) \<and> hs m' j"
  have mm: "m \<in> masks" "m \<in> ?live i" "?o \<in> live i" "?o \<in> masks" "?o \<noteq> m" using m live by auto
  obtain ys zs where z: "L (Part i) = ys @ zs" "zs \<noteq> []" "acks ?o t ! i = Some (hd zs)" "\<forall>b. head_at hs ?o i t = Some b \<longrightarrow> (\<exists>a\<in>set zs. b = Some a)" by (rule inv_split [OF inv i mm(3)])
  obtain c :: "'b fld" where c: "ack_fld m = Some c" "fst c = acks m" "\<And>i p t. i < length (acks m t) \<Longrightarrow> set_ptr c i p t = (Inr (), set_ack m i p t)"
    by (rule ack_fld_run [OF mm(1)]) (rule that; blast)
  define t1 where "t1 = set_ack m i (Some (hd zs)) t"
  have l: "length (acks m' t) = num_parts t" for m' using length_acks [of t m'] I(1) by (simp add: tsb_shape_def)
  have ra: "reset_ack_TSB i m t = (Inr (), t1)"
  proof -
    have "reset_ack_TSB i m t = bind_prog (elem_at (acks ?o) i) (set_ptr c i) t"
      using m c(1) by (auto simp: reset_ack_TSB_def ack_fld_def tsb_masks bind_prog_def elem_at_def acks_def)
    then show ?thesis using l i z(3) c(3) by (simp add: bind_prog_def elem_at_def t1_def)
  qed
  have a1: "acks m t1 ! i = Some (hd zs)" "length (acks m t1) = num_parts t" unfolding t1_def acks_set_ack [OF mm(1,1)] using l i by simp_all
  have sh1: "tsb_shape t1 L" "num_parts t1 = num_parts t" "ents t1 = ents t" using I(1) by (simp_all add: t1_def)
  have "length zs \<le> length (L (Part i))" using z by simp
  also have "\<dots> \<le> length (ents t)"
    using card_mono [of "{..<length (ents t)}" "set (L (Part i))"] distinct_card [OF I(4)] shape_bound [OF I(1), of _ "Part i"] by auto
  finally have fuel: "length zs \<le> Suc (length (ents t1))" using sh1 by simp
  obtain h where h: "unmark_loop (Suc (length (ents t1))) m (Some (hd zs)) t1 = (Inr (), t1\<lparr>ents := h\<rparr>)" "tsb_shape (t1\<lparr>ents := h\<rparr>) L"
    "\<forall>b. h ! b = (if b \<in> set (butlast zs) then (ents t ! b)\<lparr>dmask := dmask (ents t ! b) AND NOT m\<rparr> else ents t ! b)"
    using unmark_run [OF mm(1) _ sh1(1) z(1,2) fuel] i sh1 by auto
  define t2 where "t2 = t1\<lparr>ents := h\<rparr>"
  have same: "num_parts t2 = num_parts t" "tsb_counts t2 = tsb_counts t" "ents t2 = h" "\<And>m'. acks m' t2 = acks m' t1" "\<And>m'. heads m' t2 = heads m' t"
    by (simp_all add: t2_def t1_def acks_def) (simp_all add: t1_def heads_def set_ack_def)
  have "cursor_ok h (L (Part j)) m' (acks m' t2 ! j) (head_at ?hs m' j t2)" if j: "j < num_parts t" and m': "m' \<in> ?live j" for j m'
  proof (cases "m' = m \<and> j = i")
    case True
    have "cursor_ok h (L (Part i)) m (Some (hd zs)) None"
      by (rule cursor_okI [OF z(1,2)]) (use h(3) mask_bits(4) [OF mm(1,1)] in simp_all)
    then show ?thesis using True a1 same by (simp add: head_at_def)
  next
    case False
    have m'l: "m' \<in> live j" using m' False by (auto split: if_splits)
    then have m'm: "m' \<in> masks" using live by blast
    have "dmask (h ! b) AND m' = dmask (ents t ! b) AND m'" if b: "b \<in> set (L (Part j))" for b
    proof (cases "m' = m")
      case True
      then have "b \<notin> set (L (Part i))" using exact_disjoint [OF shape_exact [OF I(1)] b, of "Part i"] False by auto
      then have "b \<notin> set (butlast zs)" using z(1) by (auto dest: in_set_butlastD)
      then show ?thesis using h(3) by simp
    next
      case False
      then show ?thesis using h(3) mask_bits(5) [OF mm(1) m'm] by simp
    qed
    then have "cursor_ok h (L (Part j)) m' (acks m' t ! j) (head_at hs m' j t)" by (rule cursor_ok_cong [OF tsb_invD(6) [OF inv j m'l]])
    moreover have "acks m' t1 ! j = acks m' t ! j" unfolding t1_def acks_set_ack [OF mm(1) m'm] using False by auto
    moreover have "head_at ?hs m' j t2 = head_at hs m' j t" using False same by (auto simp: head_at_def)
    ultimately show ?thesis using same by simp
  qed
  then have inv2: "tsb_inv ?live ?hs t2 L" using inv h(2) by (simp add: tsb_inv_def same t2_def [symmetric])
  have "\<exists>t'. reset_head_TSB i m t2 = (Inr (), t') \<and> tsb_inv ?live hs t' L" by (rule reset_head_run [OF inv2 mm(2) m]) (use i same in auto)
  then obtain t' where t': "reset_head_TSB i m t2 = (Inr (), t')" "tsb_inv ?live hs t' L" by blast
  have "reset_cursors_TSB i m t = (Inr (), t')"
    using ra m c a1 i h(1) t'(1) by (auto simp: reset_cursors_TSB_def bind_prog_def elem_at_def tsb_masks t2_def)
  then show ?thesis using t'(2) by blast
qed
lemma head_at_steady: "steady t t' \<Longrightarrow> head_at hs m i t' = head_at hs m i t"
  by (simp add: head_at_def steady_def)

lemma chain_length:
  assumes "tsb_inv live hs t L" "i < num_parts t"
  shows "length (L (Part i)) \<le> length (ents t)"
  using card_mono [of "{..<length (ents t)}" "set (L (Part i))"] distinct_card [OF tsb_invD(4) [OF assms]] shape_bound [OF tsb_invD(1) [OF assms], of _ "Part i"] by auto

lemma ack_all_loop_run:
  fixes t :: "'b TSB"
  assumes live: "\<forall>j. live j \<subseteq> masks" "m \<in> live i" "\<forall>m'\<in>live i. fmask AND m' = m'"
  shows "tsb_inv live hs t L \<Longrightarrow> i < num_parts t \<Longrightarrow> head_at hs m i t = None \<Longrightarrow> L (Part i) = ys @ zs \<Longrightarrow> zs \<noteq> [] \<Longrightarrow> acks m t ! i = Some (hd zs) \<Longrightarrow> length zs \<le> k \<Longrightarrow>
    \<exists>t' L'. ack_all_loop k i m fmask t = (Inr (), t') \<and> tsb_inv live hs t' L' \<and> num_parts t' = num_parts t"
proof (induction k arbitrary: t L ys zs)
  case 0
  then show ?case by simp
next
  case (Suc k)
  note I = tsb_invD [OF Suc.prems(1,2)]
  have m: "m \<in> masks" using live by blast
  obtain c :: "'b fld" where c: "ack_fld m = Some c" "fst c = acks m" by (rule ack_fld_run [OF m]) blast
  have la: "i < length (acks m t)" using length_acks [of t m] I(1) Suc.prems(2) by (simp add: tsb_shape_def)
  have al: "hd zs < length (ents t)" using shape_bound [OF I(1), of "hd zs" "Part i"] Suc.prems(4,5) by simp
  let ?e = "ents t ! hd zs"
  define sq where "sq = (if \<not> dmask ?e < 0 then seqnum ?e else -1)"
  have get: "get_unack_seqno_TSB i m t = (Inr sq, t)" using la al Suc.prems(6) by (simp add: get_unack_seqno_TSB_def c elem_at_def ent_def bind_prog_def return_prog_def sq_def)
  show ?case
  proof (cases "sq = -1")
    case True
    then show ?thesis using get Suc.prems(1) by (auto simp: bind_prog_def return_prog_def)
  next
    case False
    then have nn: "\<not> dmask ?e < 0" "sq = seqnum ?e" by (auto simp: sq_def split: if_splits)
    have s: "dmask (ents t ! last zs) = -1" using shape_part [OF I(1) Suc.prems(2)] Suc.prems(4,5) by (simp add: part_shape_def)
    have one: "zs \<noteq> [last zs]" using nn(1) s by (metis list.sel(1) neg_less_0_iff_less zero_less_one)
    have h: "\<And>b. head_at hs m i t = Some (Some b) \<Longrightarrow> b = last zs \<or> sq < seqnum (ents t ! b)" using Suc.prems(3) by simp
    obtain t' L' ok slot' ys' zs' ks fs room where r: "put_ack_TSB None sq i m fmask t = (Inr (ok, slot'), t')" "put_post live hs m i t L ys zs ks fs room t' L'"
      "L' (Part i) = ys' @ zs'" "zs' \<noteq> []" "acks m t' ! i = Some (hd zs')" "zs = [last zs] \<or> sq < seqnum ?e \<or> length zs' < length zs"
      using put_ack_run [OF Suc.prems(1) live Suc.prems(2,4,5,6) h disjI1 [OF Suc.prems(3)], of None] by blast
    have st: "tsb_inv live hs t' L'" "steady t t'" using r(2) by (simp_all add: put_post_def)
    have i': "i < num_parts t'" "num_parts t' = num_parts t" using st(2) Suc.prems(2) by (simp_all add: steady_def)
    have hn: "head_at hs m i t' = None" using head_at_steady [OF st(2)] Suc.prems(3) by simp
    have len: "length zs' \<le> k" using r(6) one nn(2) Suc.prems(7) by auto
    show ?thesis using Suc.IH [OF st(1) i'(1) hn r(3,4,5) len] get False r(1) i'(2) by (auto simp: bind_prog_def)
  qed
qed

lemma ack_all_run:
  fixes t :: "'b TSB"
  assumes inv: "tsb_inv live hs t L" and live: "\<forall>j. live j \<subseteq> masks" "m \<in> live i" "\<forall>m'\<in>live i. fmask AND m' = m'" and i: "i < num_parts t"
  shows "\<exists>t' L'. ack_all_TSB i m fmask t = (Inr (), t') \<and> tsb_inv live hs t' L'"
proof -
  let ?hs = "\<lambda>m' j. (m', j) \<noteq> (m, i) \<and> hs m' j"
  have m: "m \<in> masks" using live by blast
  have inv': "tsb_inv live ?hs t L" by (rule inv_weaken [OF inv]) blast
  obtain ys zs where z: "L (Part i) = ys @ zs" "zs \<noteq> []" "acks m t ! i = Some (hd zs)" "\<forall>b. head_at ?hs m i t = Some b \<longrightarrow> (\<exists>a\<in>set zs. b = Some a)" by (rule inv_split [OF inv' i live(2)])
  have "head_at ?hs m i t = None" "length zs \<le> Suc (length (ents t))" using chain_length [OF inv i] z(1) by (simp_all add: head_at_def)
  then obtain t1 L1 where r: "ack_all_loop (Suc (length (ents t))) i m fmask t = (Inr (), t1)" "tsb_inv live ?hs t1 L1" "num_parts t1 = num_parts t"
    using ack_all_loop_run [OF live inv' i _ z(1-3)] by blast
  have i1: "i < num_parts t1" using i r(3) by simp
  show ?thesis
  proof (cases "m = 1")
    case True
    have "reset_head_TSB i m t1 = (Inr (), t1)" using True by (simp add: reset_head_TSB_def head_fld_def tsb_masks return_prog_def)
    moreover have "cursor_ok h xs m' p (head_at hs m' j t1)" if "cursor_ok h xs m' p (head_at ?hs m' j t1)" for h :: "'b TSB_Entry list" and xs m' p j
      using that cursor_ok_none [OF that] True by (cases "m' = m") (simp_all add: head_at_def heads_def tsb_masks)
    then have "tsb_inv live hs t1 L1" using r(2) by (simp add: tsb_inv_def)
    ultimately show ?thesis using r(1) by (auto simp: ack_all_TSB_def bind_prog_def)
  next
    case False
    then have m24: "m = 2 \<or> m = 4" using m by auto
    have "\<exists>t'. reset_head_TSB i m t1 = (Inr (), t') \<and> tsb_inv live hs t' L1" by (rule reset_head_run [OF r(2) live(2) m24 i1]) auto
    then show ?thesis using r(1) by (auto simp: ack_all_TSB_def bind_prog_def)
  qed
qed

lemma append_run:
  fixes t :: "'b TSB"
  assumes inv: "tsb_inv live hs t L" and i: "i < num_parts t" and d: "0 \<le> d" "\<forall>m\<in>live i. d AND m \<noteq> m"
  shows "\<exists>t' L' ok. append_result_TSB r sq d i t = (Inr ok, t') \<and> tsb_inv live hs t' L'"
proof (cases "L Free = [] \<and> L (Res i) = []")
  case True
  then show ?thesis using link_run [OF tsb_invD(1,2) [OF inv i] i d(1)] inv by (auto simp: append_result_TSB_def bind_prog_def return_prog_def)
next
  case False
  obtain a t1 t2 L2 where lk: "alloc_entry_w_last i t = (Inr (Some a), t1)" "link_entry i (Some a) (\<lambda>e. e\<lparr>rtup := r, seqnum := sq, dmask := d\<rparr>) t1 = (Inr (), t2)" "link_post i sq r d t L a t2 L2"
    using link_run [OF tsb_invD(1,2) [OF inv i] i d(1), where r = r and sq = sq] False by auto
  have "tsb_inv live hs t2 L2" by (rule inv_append [OF inv i lk(3)]) (use d(2) in auto)
  moreover have "append_result_TSB r sq d i t = (Inr True, t2)" using lk(1,2) by (simp add: append_result_TSB_def bind_prog_def return_prog_def)
  ultimately show ?thesis by blast
qed
section \<open>The chain of a partition\<close>

text \<open>The entries of a partition, read from its sentinel backwards; the part the side \<open>m\<close> has acknowledged and the rest.\<close>

primrec back_from :: "nat \<Rightarrow> 'b TSB_Entry list \<Rightarrow> ptr \<Rightarrow> nat list" where
  "back_from 0 h p = []"
| "back_from (Suc n) h p = (case p of None \<Rightarrow> [] | Some a \<Rightarrow> back_from n h (ent_prev (h ! a)) @ [a])"

definition chain :: "'b TSB \<Rightarrow> nat \<Rightarrow> nat list" where
  "chain t i = back_from (length (ents t)) (ents t) (tsb_table t ! i)"

definition before_ack :: "int \<Rightarrow> 'b TSB \<Rightarrow> nat \<Rightarrow> nat list" where
  "before_ack m t i = takeWhile (\<lambda>a. Some a \<noteq> acks m t ! i) (chain t i)"

definition from_ack :: "int \<Rightarrow> 'b TSB \<Rightarrow> nat \<Rightarrow> nat list" where
  "from_ack m t i = dropWhile (\<lambda>a. Some a \<noteq> acks m t ! i) (chain t i)"

definition head_of :: "int \<Rightarrow> 'b TSB \<Rightarrow> nat \<Rightarrow> ptr" where
  "head_of m t i = (case heads m t of None \<Rightarrow> None | Some h \<Rightarrow> h ! i)"

text \<open>What the side \<open>m\<close> has been sent and has not acknowledged.\<close>

definition sent :: "int \<Rightarrow> 'b TSB \<Rightarrow> nat \<Rightarrow> nat list" where
  "sent m t i = takeWhile (\<lambda>a. Some a \<noteq> head_of m t i) (from_ack m t i)"

definition tsb_list :: "'b TSB \<Rightarrow> nat \<Rightarrow> (int \<times> 'b tsb_result \<times> int) list" where
  "tsb_list t i = chunk t (butlast (chain t i))"

lemma back_from_dseg: "dseg h None xs p \<Longrightarrow> length xs \<le> n \<Longrightarrow> back_from n h (if xs = [] then None else Some (last xs)) = xs"
proof (induction xs arbitrary: n p rule: rev_induct)
  case Nil
  then show ?case by (cases n) simp_all
next
  case (snoc a xs)
  obtain k where n: "n = Suc k" using snoc.prems(2) by (cases n) auto
  have s: "dseg h None xs (Some a)" "ent_prev (h ! a) = (if xs = [] then None else Some (last xs))" using snoc.prems(1) by (simp_all add: dseg_append)
  have "back_from k h (ent_prev (h ! a)) = xs" unfolding s(2) by (rule snoc.IH [OF s(1)]) (use snoc.prems(2) n in simp)
  then show ?case by (simp add: n)
qed

lemma chain_part:
  assumes "tsb_inv live hs t L" "i < num_parts t"
  shows "chain t i = L (Part i)"
proof -
  have p: "L (Part i) \<noteq> []" "dseg (ents t) None (L (Part i)) None" "tsb_table t ! i = Some (last (L (Part i)))"
    using shape_part [OF tsb_invD(1) [OF assms] assms(2)] by (simp_all add: part_shape_def)
  show ?thesis using back_from_dseg [OF p(2) chain_length [OF assms]] p by (simp add: chain_def)
qed

lemma ack_split:
  assumes "tsb_inv live hs t L" "i < num_parts t" "m \<in> live i"
  shows "L (Part i) = before_ack m t i @ from_ack m t i" "from_ack m t i \<noteq> []" "acks m t ! i = Some (hd (from_ack m t i))"
    "\<forall>b. head_at hs m i t = Some b \<longrightarrow> (\<exists>a\<in>set (from_ack m t i). b = Some a)"
proof -
  obtain ys zs where z: "L (Part i) = ys @ zs" "zs \<noteq> []" "acks m t ! i = Some (hd zs)" "\<forall>b. head_at hs m i t = Some b \<longrightarrow> (\<exists>a\<in>set zs. b = Some a)" by (rule inv_split [OF assms])
  have d: "\<forall>a\<in>set ys. a \<noteq> hd zs" using tsb_invD(4) [OF assms(1,2)] z(1,2) by auto
  have "before_ack m t i = ys \<and> from_ack m t i = zs" using d z(2)
    by (cases zs) (auto simp: before_ack_def from_ack_def chain_part [OF assms(1,2)] z(1,3) takeWhile_append2 dropWhile_append2)
  then show "L (Part i) = before_ack m t i @ from_ack m t i" "from_ack m t i \<noteq> []" "acks m t ! i = Some (hd (from_ack m t i))"
    "\<forall>b. head_at hs m i t = Some b \<longrightarrow> (\<exists>a\<in>set (from_ack m t i). b = Some a)" using z by simp_all
qed

section \<open>Installing a moved buffer\<close>

text \<open>The part of the chain \<open>c\<close> from the entry on that \<^verbatim>\<open>advanceCursor\<close> finds for the number \<open>sq\<close>.\<close>

definition locate :: "'b TSB \<Rightarrow> int \<Rightarrow> nat list \<Rightarrow> nat list" where
  "locate t sq c = (if sq = -1 then [last c] else dropWhile (\<lambda>a. seqnum (ents t ! a) \<noteq> sq \<and> 0 < dmask (ents t ! a)) c)"

definition located :: "'b TSB \<Rightarrow> int \<Rightarrow> nat list \<Rightarrow> bool" where
  "located t sq c \<longleftrightarrow> sq = -1 \<or> seqnum (ents t ! hd (locate t sq c)) = sq"

lemma locate_suffix:
  assumes "c \<noteq> []" "dmask (ents t ! last c) = -1"
  shows "locate t sq c \<noteq> []" "\<exists>ys. c = ys @ locate t sq c"
proof -
  let ?P = "\<lambda>a. seqnum (ents t ! a) \<noteq> sq \<and> 0 < dmask (ents t ! a)"
  have "\<not> ?P (last c)" "last c \<in> set c" using assms by auto
  then have "dropWhile ?P c \<noteq> []" unfolding dropWhile_eq_Nil_conv by blast
  then show "locate t sq c \<noteq> []" by (simp add: locate_def)
  have "c = (if sq = -1 then butlast c else takeWhile ?P c) @ locate t sq c" using assms(1) by (simp add: locate_def)
  then show "\<exists>ys. c = ys @ locate t sq c" by blast
qed

lemma cursor_search_run:
  assumes "tsb_shape t L" "i < num_parts t" "sq \<noteq> -1"
  shows "L (Part i) = ys @ zs \<Longrightarrow> zs \<noteq> [] \<Longrightarrow> length zs \<le> n \<Longrightarrow>
    cursor_search n sq (Some (hd zs)) t = (Inr (if located t sq zs then Some (Some (hd (locate t sq zs))) else None), t)"
proof (induction n arbitrary: ys zs)
  case 0
  then show ?case by simp
next
  case (Suc n)
  obtain a ws where z: "zs = a # ws" using Suc.prems(2) by (cases zs) auto
  have al: "a < length (ents t)" using shape_bound [OF assms(1), of a "Part i"] Suc.prems(1) z by simp
  have p: "dseg (ents t) None (ys @ zs) None" "dmask (ents t ! last zs) = -1"
    using shape_part [OF assms(1,2)] Suc.prems(1,2) by (simp_all add: part_shape_def)
  show ?case
  proof (cases "seqnum (ents t ! a) \<noteq> sq \<and> 0 < dmask (ents t ! a)")
    case True
    then have ws: "ws \<noteq> []" using p(2) z by auto
    then have nx: "ent_next (ents t ! a) = Some (hd ws)" using p(1) z by (simp add: dseg_append)
    have "cursor_search n sq (Some (hd ws)) t = (Inr (if located t sq ws then Some (Some (hd (locate t sq ws))) else None), t)"
      by (rule Suc.IH [of "ys @ [a]"]) (use Suc.prems z ws in simp_all)
    moreover have "locate t sq zs = locate t sq ws" using True z assms(3) by (simp add: locate_def)
    ultimately show ?thesis using True z al nx by (simp add: ent_def bind_prog_def located_def)
  next
    case False
    then have "locate t sq zs = zs" using z assms(3) by (auto simp: locate_def)
    then show ?thesis using False z al assms(3) by (auto simp: ent_def bind_prog_def return_prog_def located_def)
  qed
qed

lemma place_cursor_run:
  fixes c :: "'b fld"
  assumes sh: "tsb_shape t L" and i: "i < num_parts t" "i < length sqs" "i < length (fst c t)" and loc: "located t (sqs ! i) (L (Part i))"
    and c: "\<And>p. set_ptr c i p t = (Inr (), f p t)" "\<And>p. ents (f p t) = ents t"
  shows "place_cursor c sqs i (Some (hd (L (Part i)))) (Some (last (L (Part i)))) t = (Inr (), f (Some (hd (locate t (sqs ! i) (L (Part i))))) t)"
proof -
  let ?c = "L (Part i)"
  have p: "?c \<noteq> []" "dmask (ents t ! last ?c) = -1" using shape_part [OF sh i(1)] by (simp_all add: part_shape_def)
  have bound: "last ?c < length (ents t)" using shape_bound [OF sh, of _ "Part i"] last_in_set [OF p(1)] by simp
  have "length ?c \<le> length (ents t)"
    using card_mono [of "{..<length (ents t)}" "set ?c"] distinct_card [OF exact_distinct [OF shape_exact [OF sh]], of "Part i"] shape_bound [OF sh, of _ "Part i"] by auto
  then have s: "cursor_search (Suc (length (ents t))) (sqs ! i) (Some (hd ?c)) t = (Inr (Some (Some (hd (locate t (sqs ! i) ?c)))), t)" if "sqs ! i \<noteq> -1"
    using cursor_search_run [OF sh i(1) that, of "[]" ?c "Suc (length (ents t))"] p loc by simp
  have "advanceCursor c i (sqs ! i) (Some (hd ?c)) (Some (last ?c)) t = (Inr True, f (Some (hd (locate t (sqs ! i) ?c))) t)"
  proof (cases "sqs ! i = -1")
    case True
    then show ?thesis using p bound c by (simp add: advanceCursor_def bind_prog_def return_prog_def ent_def locate_def)
  next
    case False
    then show ?thesis unfolding advanceCursor_def using s c(1) by (simp add: bind_prog_def return_prog_def del: cursor_search.simps)
  qed
  then show ?thesis using i(2) by (simp add: place_cursor_def bind_prog_def return_prog_def elem_at_def)
qed

lemma locate_frame [simp]:
  "locate (set_ack m i p t) sq c = locate t sq c" "locate (set_head m i p t) sq c = locate t sq c"
  "located (set_ack m i p t) sq c = located t sq c" "located (set_head m i p t) sq c = located t sq c"
  by (simp_all add: locate_def located_def)

text \<open>
  The numbers fit the entries: every one is found, and for the sides that keep their cursor no entry from the cursor on has the
  bit of the side, and the head is not before the cursor. The cursors are where \<^verbatim>\<open>init_TSB\<close> put them, at the first entry.
\<close>

definition kept_sides :: "int \<Rightarrow> int set" where
  "kept_sides fmask = (if fmask AND TSB_PRIMARY = 0 then {TSB_PRODUCED, TSB_SECONDARY}
     else if fmask AND TSB_SECONDARY = 0 then {TSB_PRODUCED, TSB_PRIMARY} else {TSB_PRODUCED, TSB_PRIMARY, TSB_SECONDARY})"

definition sm_ack :: "int \<Rightarrow> FProdSMCB \<Rightarrow> int list" where
  "sm_ack m smcb = (if m = TSB_PRODUCED then sm_prod_ack smcb else if m = TSB_PRIMARY then sm_prim_ack smcb else sm_sec_ack smcb)"

definition sm_head :: "int \<Rightarrow> FProdSMCB \<Rightarrow> int list" where
  "sm_head m smcb = (if m = TSB_PRIMARY then sm_p_head smcb else sm_s_head smcb)"

definition adjust_ok :: "'b TSB \<Rightarrow> FProdSMCB \<Rightarrow> nat \<Rightarrow> int \<Rightarrow> bool" where
  "adjust_ok t smcb i fmask \<longleftrightarrow> i < num_parts t \<and> prod_ack t ! i = Some (hd (chain t i)) \<and>
     (\<forall>m\<in>{TSB_PRODUCED, TSB_PRIMARY, TSB_SECONDARY}. i < length (sm_ack m smcb) \<and> located t (sm_ack m smcb ! i) (chain t i)) \<and>
     (\<forall>m\<in>{TSB_PRIMARY, TSB_SECONDARY}. i < length (sm_head m smcb) \<and> located t (sm_head m smcb ! i) (chain t i)) \<and>
     (\<forall>m\<in>kept_sides fmask. (\<forall>a\<in>set (butlast (locate t (sm_ack m smcb ! i) (chain t i))). dmask (ents t ! a) AND m \<noteq> m) \<and>
        (m \<noteq> TSB_PRODUCED \<longrightarrow> hd (locate t (sm_head m smcb ! i) (chain t i)) \<in> set (locate t (sm_ack m smcb ! i) (chain t i))))"

definition placed :: "'b TSB \<Rightarrow> FProdSMCB \<Rightarrow> nat \<Rightarrow> nat list \<Rightarrow> 'b TSB" where
  "placed t smcb i c = (let pos = \<lambda>sqs. Some (hd (locate t (sqs ! i) c)) in
     set_head 4 i (pos (sm_s_head smcb)) (set_head 2 i (pos (sm_p_head smcb))
       (set_ack 4 i (pos (sm_sec_ack smcb)) (set_ack 2 i (pos (sm_prim_ack smcb)) (set_ack 1 i (pos (sm_prod_ack smcb)) t)))))"

lemma placed_simps:
  assumes "arrays_ok t" "i < num_parts t"
  shows "m \<in> masks \<Longrightarrow> acks m (placed t smcb i c) ! j = (if j = i then Some (hd (locate t (sm_ack m smcb ! i) c)) else acks m t ! j)"
    "head_at hs m j (placed t smcb i c) = (if j = i \<and> hs m i \<and> (m = 2 \<or> m = 4) then Some (Some (hd (locate t (sm_head m smcb ! i) c))) else head_at hs m j t)"
  using assms by (cases "j = i"; auto simp: placed_def Let_def acks_def head_at_def heads_def set_ack_def set_head_def sm_ack_def sm_head_def tsb_masks arrays_ok_def)+

lemma placed_run:
  fixes t :: "'b TSB"
  assumes inv: "tsb_inv live hs t L" and ok: "adjust_ok t smcb i fmask"
  shows "adjust_part smcb i fmask t =
    (if fmask AND TSB_PRIMARY = 0 then reset_cursors_TSB i TSB_PRIMARY
     else if fmask AND TSB_SECONDARY = 0 then reset_cursors_TSB i TSB_SECONDARY else return_prog ()) (placed t smcb i (L (Part i)))"
proof -
  have i: "i < num_parts t" using ok by (simp add: adjust_ok_def)
  have c: "chain t i = L (Part i)" by (rule chain_part [OF inv i])
  let ?c = "L (Part i)"
  have sh: "tsb_shape t L" and p: "tsb_table t ! i = Some (last ?c)" using tsb_invD(1) [OF inv i] shape_part [OF tsb_invD(1) [OF inv i] i] by (simp_all add: part_shape_def)
  have ar: "arrays_ok t" using sh by (simp add: tsb_shape_def)
  have loc: "i < length (sm_prod_ack smcb)" "located t (sm_prod_ack smcb ! i) ?c" "i < length (sm_prim_ack smcb)" "located t (sm_prim_ack smcb ! i) ?c"
    "i < length (sm_sec_ack smcb)" "located t (sm_sec_ack smcb ! i) ?c" "i < length (sm_p_head smcb)" "located t (sm_p_head smcb ! i) ?c"
    "i < length (sm_s_head smcb)" "located t (sm_s_head smcb ! i) ?c" "prod_ack t ! i = Some (hd ?c)"
    using ok by (auto simp: adjust_ok_def sm_ack_def sm_head_def tsb_masks c)
  have A: "place_cursor prod_ack_fld sqs i (Some (hd ?c)) (Some (last ?c)) u = (Inr (), set_ack 1 i (Some (hd (locate u (sqs ! i) ?c))) u)"
    "place_cursor prim_ack_fld sqs i (Some (hd ?c)) (Some (last ?c)) u = (Inr (), set_ack 2 i (Some (hd (locate u (sqs ! i) ?c))) u)"
    "place_cursor sec_ack_fld sqs i (Some (hd ?c)) (Some (last ?c)) u = (Inr (), set_ack 4 i (Some (hd (locate u (sqs ! i) ?c))) u)"
    "place_cursor p_head_fld sqs i (Some (hd ?c)) (Some (last ?c)) u = (Inr (), set_head 2 i (Some (hd (locate u (sqs ! i) ?c))) u)"
    "place_cursor s_head_fld sqs i (Some (hd ?c)) (Some (last ?c)) u = (Inr (), set_head 4 i (Some (hd (locate u (sqs ! i) ?c))) u)"
    if u: "tsb_shape u L" "i < num_parts u" "i < length sqs" "located u (sqs ! i) ?c" for u :: "'b TSB" and sqs
  proof -
    have l: "length (prod_ack u) = num_parts u" "length (prim_ack u) = num_parts u" "length (sec_ack u) = num_parts u" "length (p_head u) = num_parts u" "length (s_head u) = num_parts u"
      using u(1) by (simp_all add: tsb_shape_def arrays_ok_def)
    note S = set_ptr_def set_ack_def set_head_def tsb_masks prod_ack_fld_def prim_ack_fld_def sec_ack_fld_def p_head_fld_def s_head_fld_def
    show "place_cursor prod_ack_fld sqs i (Some (hd ?c)) (Some (last ?c)) u = (Inr (), set_ack 1 i (Some (hd (locate u (sqs ! i) ?c))) u)"
      by (rule place_cursor_run [OF u(1-3) _ u(4)]) (use l u(2) in \<open>simp_all add: S\<close>)
    show "place_cursor prim_ack_fld sqs i (Some (hd ?c)) (Some (last ?c)) u = (Inr (), set_ack 2 i (Some (hd (locate u (sqs ! i) ?c))) u)"
      by (rule place_cursor_run [OF u(1-3) _ u(4)]) (use l u(2) in \<open>simp_all add: S\<close>)
    show "place_cursor sec_ack_fld sqs i (Some (hd ?c)) (Some (last ?c)) u = (Inr (), set_ack 4 i (Some (hd (locate u (sqs ! i) ?c))) u)"
      by (rule place_cursor_run [OF u(1-3) _ u(4)]) (use l u(2) in \<open>simp_all add: S\<close>)
    show "place_cursor p_head_fld sqs i (Some (hd ?c)) (Some (last ?c)) u = (Inr (), set_head 2 i (Some (hd (locate u (sqs ! i) ?c))) u)"
      by (rule place_cursor_run [OF u(1-3) _ u(4)]) (use l u(2) in \<open>simp_all add: S\<close>)
    show "place_cursor s_head_fld sqs i (Some (hd ?c)) (Some (last ?c)) u = (Inr (), set_head 4 i (Some (hd (locate u (sqs ! i) ?c))) u)"
      by (rule place_cursor_run [OF u(1-3) _ u(4)]) (use l u(2) in \<open>simp_all add: S\<close>)
  qed
  have "i < length (prod_ack t)" "i < length (tsb_table t)" using ar i by (simp_all add: arrays_ok_def)
  then show ?thesis using loc p i sh by (simp add: adjust_part_def bind_prog_def elem_at_def A placed_def Let_def)
qed

lemma adjust_run:
  fixes t :: "'b TSB"
  assumes inv: "tsb_inv live (\<lambda>_ _. True) t L" and live: "\<forall>j. live j \<subseteq> masks" and ok: "adjust_ok t smcb i fmask"
  shows "\<exists>t'. adjust_part smcb i fmask t = (Inr (), t') \<and> tsb_inv (live(i := masks)) (\<lambda>_ _. True) t' L"
proof -
  have i: "i < num_parts t" using ok by (simp add: adjust_ok_def)
  have c: "chain t i = L (Part i)" by (rule chain_part [OF inv i])
  have sh: "tsb_shape t L" "arrays_ok t" using tsb_invD(1) [OF inv i] by (simp_all add: tsb_shape_def)
  have p: "L (Part i) \<noteq> []" "dmask (ents t ! last (L (Part i))) = -1" using shape_part [OF sh(1) i] by (simp_all add: part_shape_def)
  let ?t = "placed t smcb i (L (Part i))" and ?live = "live(i := kept_sides fmask)"
  have kept: "kept_sides fmask \<subseteq> masks" by (auto simp: kept_sides_def tsb_masks)
  have same: "ents ?t = ents t" "num_parts ?t = num_parts t" "tsb_counts ?t = tsb_counts t" "tsb_shape ?t L = tsb_shape t L" by (simp_all add: placed_def Let_def)
  note S = placed_simps [OF sh(2) i]
  have "cursor_ok (ents t) (L (Part j)) m (acks m ?t ! j) (head_at (\<lambda>_ _. True) m j ?t)" if j: "j < num_parts t" and m: "m \<in> ?live j" for j m
  proof (cases "j = i")
    case True
    have mk: "m \<in> kept_sides fmask" "m \<in> masks" using m True kept by auto
    let ?z = "locate t (sm_ack m smcb ! i) (L (Part i))"
    have z: "?z \<noteq> []" using locate_suffix [OF p] by simp
    obtain ys where ys: "L (Part i) = ys @ ?z" using locate_suffix [OF p] by blast
    have k: "\<forall>a\<in>set (butlast ?z). dmask (ents t ! a) AND m \<noteq> m" "m \<noteq> TSB_PRODUCED \<longrightarrow> hd (locate t (sm_head m smcb ! i) (L (Part i))) \<in> set ?z"
      using ok mk(1) c by (auto simp: adjust_ok_def)
    have "head_at (\<lambda>_ _. True) 1 i t = None" by (simp add: head_at_def heads_def tsb_masks)
    then have "cursor_ok (ents t) (L (Part i)) m (Some (hd ?z)) (head_at (\<lambda>_ _. True) m i ?t)"
      using k mk(2) S(2) by (intro cursor_okI [OF ys z]) (auto simp: tsb_masks)
    then show ?thesis using True S(1) [OF mk(2)] by simp
  next
    case False
    then show ?thesis using tsb_invD(6) [OF inv j, of m] m S(1) S(2) live by (auto simp: subset_iff)
  qed
  then have inv2: "tsb_inv ?live (\<lambda>_ _. True) ?t L" using inv by (simp add: tsb_inv_def same)
  have live2: "\<forall>j. ?live j \<subseteq> masks" using live kept by simp
  have R: "\<exists>t'. reset_cursors_TSB i m ?t = (Inr (), t') \<and> tsb_inv (?live(i := insert m (?live i))) (\<lambda>_ _. True) t' L"
    if "6 - m \<in> kept_sides fmask" "m = 2 \<or> m = 4" for m
    by (rule reset_cursors_run [OF inv2 live2 _ that(2)]) (use that i same in simp_all)
  consider (prim) "fmask AND TSB_PRIMARY = 0" | (sec) "fmask AND TSB_PRIMARY \<noteq> 0" "fmask AND TSB_SECONDARY = 0" | (both) "fmask AND TSB_PRIMARY \<noteq> 0" "fmask AND TSB_SECONDARY \<noteq> 0" by blast
  then show ?thesis
  proof cases
    case prim
    then have "kept_sides fmask = {1, 4}" by (simp add: kept_sides_def tsb_masks)
    then show ?thesis using R [of 2] placed_run [OF inv ok] prim by (simp add: tsb_masks insert_commute)
  next
    case sec
    then have "kept_sides fmask = {1, 2}" by (simp add: kept_sides_def tsb_masks)
    then show ?thesis using R [of 4] placed_run [OF inv ok] sec by (simp add: tsb_masks insert_commute)
  next
    case both
    then have "kept_sides fmask = masks" by (simp add: kept_sides_def tsb_masks)
    then show ?thesis using inv2 placed_run [OF inv ok] both by (simp add: return_prog_def)
  qed
qed

section \<open>Sequences of operations\<close>

datatype 'b tsb_op =
    Op_ack "'b tsb_slot option" int nat int int
  | Op_ack_all nat int int
  | Op_append "'b tsb_result" int int nat
  | Op_advance nat int
  | Op_reset_head nat int
  | Op_reset_cursors nat int
  | Op_adjust FProdSMCB nat int

definition tsb_exec :: "'b tsb_op \<Rightarrow> ('b TSB, unit) prog" where
  "tsb_exec op = (case op of
       Op_ack slot seqno i m fmask \<Rightarrow> bind_prog (put_ack_TSB slot seqno i m fmask) (\<lambda>_. return_prog ())
     | Op_ack_all i m fmask \<Rightarrow> ack_all_TSB i m fmask
     | Op_append r seqno d i \<Rightarrow> bind_prog (append_result_TSB r seqno d i) (\<lambda>_. return_prog ())
     | Op_advance i m \<Rightarrow> advance_head_TSB i m
     | Op_reset_head i m \<Rightarrow> reset_head_TSB i m
     | Op_reset_cursors i m \<Rightarrow> reset_cursors_TSB i m
     | Op_adjust smcb i fmask \<Rightarrow> adjust_part smcb i fmask)"

text \<open>
  What a client may do. \<open>live i\<close> are the sides it uses for partition \<open>i\<close>, the bits of \<^verbatim>\<open>fmasks[i]\<close>, and an entry goes only
  when all of them have acknowledged it. The producing side may acknowledge any number. The other two acknowledge what they have been
  sent: the number is the one of an entry between cursor and head, and the entry under the head, if there is one, has a greater
  number. An appended entry has the bit of no side in use; the receiver of a state movement uses none until it has placed the cursors.
  A consumer is turned on with \<^verbatim>\<open>reset_cursors_TSB\<close> while the other one is in use.
\<close>

definition ack_ok :: "(nat \<Rightarrow> int set) \<Rightarrow> 'b TSB \<Rightarrow> int \<Rightarrow> nat \<Rightarrow> int \<Rightarrow> int \<Rightarrow> bool" where
  "ack_ok live t seqno i m fmask \<longleftrightarrow> i < num_parts t \<and> m \<in> live i \<and> (\<forall>m'\<in>live i. fmask AND m' = m') \<and>
     (m \<noteq> TSB_PRODUCED \<longrightarrow> seqno \<in> (\<lambda>a. seqnum (ents t ! a)) ` set (sent m t i) \<and>
        (case drop (length (sent m t i)) (from_ack m t i) of b # _ # _ \<Rightarrow> seqno < seqnum (ents t ! b) | _ \<Rightarrow> True))"

definition op_ok :: "(nat \<Rightarrow> int set) \<Rightarrow> 'b TSB \<Rightarrow> 'b tsb_op \<Rightarrow> bool" where
  "op_ok live t op = (case op of
       Op_ack slot seqno i m fmask \<Rightarrow> ack_ok live t seqno i m fmask
     | Op_ack_all i m fmask \<Rightarrow> i < num_parts t \<and> m \<in> live i \<and> (\<forall>m'\<in>live i. fmask AND m' = m')
     | Op_append r seqno d i \<Rightarrow> i < num_parts t \<and> 0 \<le> d \<and> (\<forall>m\<in>live i. d AND m \<noteq> m)
     | Op_advance i m \<Rightarrow> i < num_parts t \<and> m \<in> live i \<and> (m = TSB_PRIMARY \<or> m = TSB_SECONDARY)
     | Op_reset_head i m \<Rightarrow> i < num_parts t \<and> m \<in> live i \<and> (m = TSB_PRIMARY \<or> m = TSB_SECONDARY)
     | Op_reset_cursors i m \<Rightarrow> i < num_parts t \<and> (m = TSB_PRIMARY \<and> TSB_SECONDARY \<in> live i \<or> m = TSB_SECONDARY \<and> TSB_PRIMARY \<in> live i)
     | Op_adjust smcb i fmask \<Rightarrow> adjust_ok t smcb i fmask)"

definition live_after :: "'b tsb_op \<Rightarrow> (nat \<Rightarrow> int set) \<Rightarrow> nat \<Rightarrow> int set" where
  "live_after op live = (case op of
       Op_reset_cursors i m \<Rightarrow> live(i := insert m (live i))
     | Op_adjust smcb i fmask \<Rightarrow> live(i := {TSB_PRODUCED, TSB_PRIMARY, TSB_SECONDARY})
     | _ \<Rightarrow> live)"

text \<open>A client can also stop using a side of a partition; the buffer is not told.\<close>


inductive tsb_reach :: "(nat \<Rightarrow> int set) \<Rightarrow> (nat \<Rightarrow> 'b TSB_Entry) \<Rightarrow> nat \<Rightarrow> nat \<Rightarrow> 'b TSB \<Rightarrow> bool" where
  start: "init_TSB junk n mx = Inr t \<Longrightarrow> (\<And>i. live i \<subseteq> {TSB_PRODUCED, TSB_PRIMARY, TSB_SECONDARY}) \<Longrightarrow> tsb_reach live junk n mx t"
| step: "tsb_reach live junk n mx t \<Longrightarrow> op_ok live t op \<Longrightarrow> tsb_exec op t = (Inr (), t') \<Longrightarrow> tsb_reach (live_after op live) junk n mx t'"
| drop: "tsb_reach live junk n mx t \<Longrightarrow> tsb_reach (live(i := live i - {m})) junk n mx t"

definition tsb_wf :: "(nat \<Rightarrow> int set) \<Rightarrow> 'b TSB \<Rightarrow> bool" where
  "tsb_wf live t \<longleftrightarrow> (\<exists>L. tsb_inv live (\<lambda>_ _. True) t L)"

lemma ack_ok_run:
  fixes t :: "'b TSB" and slot :: "'b tsb_slot option"
  assumes inv: "tsb_inv live (\<lambda>_ _. True) t L" and live: "\<forall>j. live j \<subseteq> masks" and ok: "ack_ok live t seqno i m fmask"
  shows "\<exists>t' L' ks fs ok slot' room. put_ack_TSB slot seqno i m fmask t = (Inr (ok, slot'), t') \<and>
    put_spec seqno m fmask slot room (chunk t (butlast (from_ack m t i))) = (ks, fs, ok, slot') \<and> put_post live (\<lambda>_ _. True) m i t L (before_ack m t i) (from_ack m t i) ks fs room t' L'"
proof -
  have o: "i < num_parts t" "m \<in> live i" "\<forall>m'\<in>live i. fmask AND m' = m'" using ok by (simp_all add: ack_ok_def)
  note z = ack_split [OF inv o(1,2)]
  let ?z = "from_ack m t i"
  have m: "m = 1 \<or> m = 2 \<or> m = 4" using o(2) live by auto
  have ha: "head_at (\<lambda>_ _. True) m i t = (if m = 1 then None else Some (head_of m t i))" using m by (auto simp: head_at_def head_of_def heads_def tsb_masks)
  have main: "(\<forall>b. head_at (\<lambda>_ _. True) m i t = Some (Some b) \<longrightarrow> b = last ?z \<or> seqno < seqnum (ents t ! b)) \<and>
      (head_at (\<lambda>_ _. True) m i t = None \<or> seqno \<in> fst ` set (chunk t (butlast ?z)))"
  proof (cases "m = 1")
    case True
    then show ?thesis using ha by simp
  next
    case False
    obtain b where b: "head_of m t i = Some b" "b \<in> set ?z" using z(4) ha False by auto
    obtain us ws where u: "?z = us @ b # ws" "b \<notin> set us" using b(2) by (meson split_list_first)
    have "takeWhile (\<lambda>a. a \<noteq> b) (us @ b # ws) = us" by (subst takeWhile_append2) (use u(2) in auto)
    then have s: "sent m t i = us" "drop (length us) ?z = b # ws" using u(1) by (simp_all add: sent_def b(1))
    obtain a where a: "a \<in> set us" "seqno = seqnum (ents t ! a)" and g: "case b # ws of b # _ # _ \<Rightarrow> seqno < seqnum (ents t ! b) | _ \<Rightarrow> True"
      using ok False s by (auto simp: ack_ok_def tsb_masks)
    have "a \<in> set (butlast ?z)" using a(1) u(1) by (simp add: butlast_append)
    then have "seqno \<in> fst ` set (chunk t (butlast ?z))" using a(2) by (force simp: chunk_def)
    moreover have "b = last ?z \<or> seqno < seqnum (ents t ! b)" using g u(1) by (cases ws) simp_all
    ultimately show ?thesis using False b(1) ha by simp
  qed
  show ?thesis
    using put_ack_run [OF inv live o(2,3,1) z(1-3), of seqno slot] main by blast
qed

lemma op_run:
  fixes t :: "'b TSB"
  assumes "tsb_wf live t" "\<forall>j. live j \<subseteq> masks" "op_ok live t op"
  shows "\<exists>t'. tsb_exec op t = (Inr (), t') \<and> tsb_wf (live_after op live) t'"
proof -
  obtain L where L: "tsb_inv live (\<lambda>_ _. True) t L" using assms(1) by (auto simp: tsb_wf_def)
  show ?thesis
  proof (cases op)
    case (Op_ack slot seqno i m fmask)
    have "ack_ok live t seqno i m fmask" using assms(3) Op_ack by (simp add: op_ok_def)
    from ack_ok_run [OF L assms(2) this, of slot] show ?thesis using Op_ack by (auto simp: tsb_exec_def tsb_wf_def live_after_def put_post_def bind_prog_def return_prog_def)
  next
    case (Op_ack_all i m fmask)
    then show ?thesis using assms ack_all_run [OF L assms(2), of m i fmask] by (auto simp: tsb_exec_def tsb_wf_def live_after_def op_ok_def)
  next
    case (Op_append r seqno d i)
    then show ?thesis using assms append_run [OF L, of i d r seqno] by (auto simp: tsb_exec_def tsb_wf_def live_after_def op_ok_def bind_prog_def return_prog_def)
  next
    case (Op_advance i m)
    then show ?thesis using assms advance_head_run [OF L, of m i] by (auto simp: tsb_exec_def tsb_wf_def live_after_def op_ok_def tsb_masks)
  next
    case (Op_reset_head i m)
    then show ?thesis using assms reset_head_run [OF L, of m i "\<lambda>_ _. True"] by (auto simp: tsb_exec_def tsb_wf_def live_after_def op_ok_def tsb_masks)
  next
    case (Op_reset_cursors i m)
    then have "6 - m \<in> live i" "m = 2 \<or> m = 4" "i < num_parts t" using assms(3) by (auto simp: op_ok_def tsb_masks)
    then show ?thesis using reset_cursors_run [OF L assms(2), of m i] Op_reset_cursors by (auto simp: tsb_exec_def tsb_wf_def live_after_def)
  next
    case (Op_adjust smcb i fmask)
    then show ?thesis using assms(3) adjust_run [OF L assms(2), of smcb i fmask] by (auto simp: tsb_exec_def tsb_wf_def live_after_def op_ok_def tsb_masks)
  qed
qed

lemma live_after_masks: "op_ok live t op \<Longrightarrow> \<forall>j. live j \<subseteq> masks \<Longrightarrow> \<forall>j. live_after op live j \<subseteq> masks"
  by (auto simp: live_after_def op_ok_def tsb_masks split: tsb_op.splits if_splits)

lemma reach_wf:
  assumes "tsb_reach live junk n mx t"
  shows "tsb_wf live t \<and> (\<forall>j. live j \<subseteq> masks)"
  using assms
proof (induction rule: tsb_reach.induct)
  case (start junk n mx t live)
  then have "0 < mx + n" by (auto simp: init_TSB_def split: if_splits)
  then show ?case using start init_TSB_run [of mx n junk] init_inv [of live "\<lambda>_ _. True" junk n mx] by (auto simp: tsb_wf_def tsb_masks)
next
  case (step live junk n mx t op t')
  then show ?case using op_run [of live t op] live_after_masks [of live t op] by auto
next
  case (drop live junk n mx t i m)
  then show ?case by (auto simp: tsb_wf_def tsb_inv_def split: if_splits)
qed

lemma wf_count:
  assumes "tsb_wf live t" "i < num_parts t"
  shows "tsb_counts t ! i = int (length (tsb_list t i))"
proof -
  obtain L where L: "tsb_inv live (\<lambda>_ _. True) t L" using assms(1) by (auto simp: tsb_wf_def)
  show ?thesis using tsb_invD(3,5) [OF L assms(2)] by (cases "L (Part i)") (simp_all add: tsb_list_def chunk_def chain_part [OF L assms(2)])
qed

lemma wf_facts:
  assumes "tsb_wf live t" "i < num_parts t" "m \<in> live i"
  shows "m = TSB_PRIMARY \<or> m = TSB_SECONDARY \<Longrightarrow> head_of m t i \<in> Some ` set (from_ack m t i)"
    "acks m t ! i = Some (hd (from_ack m t i))" "from_ack m t i \<noteq> []" "chain t i = before_ack m t i @ from_ack m t i"
proof -
  obtain L where L: "tsb_inv live (\<lambda>_ _. True) t L" using assms(1) by (auto simp: tsb_wf_def)
  note s = ack_split [OF L assms(2,3)]
  show "head_of m t i \<in> Some ` set (from_ack m t i)" if m: "m = TSB_PRIMARY \<or> m = TSB_SECONDARY"
  proof -
    have "head_at (\<lambda>_ _. True) m i t = Some (head_of m t i)" using m by (auto simp: head_at_def head_of_def heads_def)
    then obtain a where "a \<in> set (from_ack m t i)" "head_of m t i = Some a" using s(4) by blast
    then show ?thesis by simp
  qed
  show "acks m t ! i = Some (hd (from_ack m t i))" "from_ack m t i \<noteq> []" "chain t i = before_ack m t i @ from_ack m t i" using s chain_part [OF L assms(2)] by simp_all
qed

section \<open>Properties\<close>


definition junk_entry :: "nat \<Rightarrow> nat TSB_Entry" where
  "junk_entry i = \<lparr>ent_next = Some 99, ent_prev = Some i, seqnum = 5, rtup = Res_other 0, dmask = 3\<rparr>"

definition produced :: "nat TSB" where
  "produced = (case put_ack_TSB (Some \<lparr>slot_val = Some 7, slot_shouldFree = True\<rparr>) 1 0 TSB_PRODUCED 7 (half_TSB junk_entry 1 2 1) of (_, t) \<Rightarrow> t)"

definition all_sides :: "nat \<Rightarrow> int set" where
  "all_sides i = {TSB_PRODUCED, TSB_PRIMARY, TSB_SECONDARY}"

lemma produced_reach: "tsb_reach all_sides junk_entry 1 2 produced"
proof -
  let ?op = "Op_ack (Some \<lparr>slot_val = Some (7::nat), slot_shouldFree = True\<rparr>) 1 0 TSB_PRODUCED 7" and ?t = "half_TSB junk_entry 1 2 1"
  have "tsb_reach all_sides junk_entry 1 2 ?t" by (rule tsb_reach.start) (simp_all add: init_TSB_run all_sides_def)
  moreover have "op_ok all_sides ?t ?op" by code_simp
  moreover have "tsb_exec ?op ?t = (Inr (), produced)" by code_simp
  ultimately have "tsb_reach (live_after ?op all_sides) junk_entry 1 2 produced" by (rule tsb_reach.step)
  then show ?thesis by (simp add: live_after_def)
qed

text \<open>A buffer that has received two marked entries, the first one acknowledged by the producer and the primary.\<close>

definition received :: "nat TSB" where
  "received = snd (tsb_exec (Op_append (Res_heap (Some 8)) 2 1 0) (snd (tsb_exec (Op_append (Res_heap (Some 7)) 1 3 0) (half_TSB junk_entry 1 2 1))))"

definition moved :: "nat tsb_op" where
  "moved = Op_adjust \<lparr>sm_prod_ack = [-1], sm_prim_ack = [2], sm_sec_ack = [1], sm_p_head = [2], sm_s_head = [2]\<rparr> 0 7"

lemma received_reach: "tsb_reach (\<lambda>_. {}) junk_entry 1 2 received"
proof -
  let ?t = "half_TSB junk_entry 1 2 1" and ?op = "Op_append (Res_heap (Some (7::nat))) 1 3 0" and ?op' = "Op_append (Res_heap (Some (8::nat))) 2 1 0"
  let ?u = "snd (tsb_exec ?op ?t)"
  have s: "tsb_reach (\<lambda>_. {}) junk_entry 1 2 ?t" by (rule tsb_reach.start) (simp_all add: init_TSB_run)
  have x: "op_ok (\<lambda>_. {}) ?t ?op" "op_ok (\<lambda>_. {}) ?u ?op'" by code_simp+
  have y: "fst (tsb_exec ?op ?t) = Inr ()" "fst (tsb_exec ?op' ?u) = Inr ()" by code_simp+
  have "tsb_reach (live_after ?op (\<lambda>_. {})) junk_entry 1 2 ?u" by (rule tsb_reach.step [OF s x(1)]) (rule prod_eqI, simp_all only: y fst_conv snd_conv)
  then have "tsb_reach (\<lambda>_. {}) junk_entry 1 2 ?u" by (simp add: live_after_def)
  then have "tsb_reach (live_after ?op' (\<lambda>_. {})) junk_entry 1 2 (snd (tsb_exec ?op' ?u))" by (rule tsb_reach.step [OF _ x(2)]) (rule prod_eqI, simp_all only: y fst_conv snd_conv)
  then show ?thesis by (simp add: live_after_def received_def)
qed


text \<open>
  C6. An acknowledgement does to the list of a partition what the specification \<open>put_spec\<close> says: the entries from the cursor
  of the side on whose number is at most \<open>seqno\<close> get the bit of the side, the one with that number takes over the tuple of the
  slot, and those that then have every bit of \<open>fmask\<close> leave the list, their tuples freed once and in order. If all were passed
  and none has the number, an entry with the tuple of the slot is appended, unless all entries are in use and the reserved one of
  the partition is gone, and then the result is false. The entries before the cursor and the other partitions stay.
\<close>

theorem put_ack_refines:
  fixes slot :: "'b tsb_slot option"
  assumes "tsb_reach live junk n mx t" "ack_ok live t seqno i m fmask"
  shows "\<exists>t' ks fs ok slot' room. put_ack_TSB slot seqno i m fmask t = (Inr (ok, slot'), t') \<and>
    put_spec seqno m fmask slot room (chunk t (butlast (from_ack m t i))) = (ks, fs, ok, slot') \<and> tsb_list t' i = chunk t (before_ack m t i) @ ks \<and>
    tsb_freed t' = tsb_freed t @ (if tsb_shouldFree t then fs else []) \<and> (\<forall>j<num_parts t. j \<noteq> i \<longrightarrow> tsb_list t' j = tsb_list t j) \<and>
    (\<not> room \<longrightarrow> tsb_size t' = max_size t' \<and> last_ents t' ! i = None)"
proof -
  have live: "\<forall>j. live j \<subseteq> masks" using reach_wf [OF assms(1)] by simp
  obtain L where L: "tsb_inv live (\<lambda>_ _. True) t L" using reach_wf [OF assms(1)] by (auto simp: tsb_wf_def)
  obtain t' L' ks fs ok slot' room where r: "put_ack_TSB slot seqno i m fmask t = (Inr (ok, slot'), t')"
    "put_spec seqno m fmask slot room (chunk t (butlast (from_ack m t i))) = (ks, fs, ok, slot')" "put_post live (\<lambda>_ _. True) m i t L (before_ack m t i) (from_ack m t i) ks fs room t' L'"
    using ack_ok_run [OF L live assms(2), of slot] by blast
  note P = r(3) [unfolded put_post_def]
  have i: "i < num_parts t" using assms(2) by (simp add: ack_ok_def)
  have L': "tsb_inv live (\<lambda>_ _. True) t' L'" and n: "num_parts t' = num_parts t" using P by (auto simp: steady_def)
  have "tsb_list t' j = tsb_list t j" if j: "j < num_parts t" "j \<noteq> i" for j
  proof -
    have e: "chunk t' (L' (Part j)) = chunk t (L (Part j))" "L' (Part j) = L (Part j)" using P j by blast+
    have "chain t' j = L' (Part j)" "chain t j = L (Part j)" using chain_part [OF L'] chain_part [OF L] j n by simp_all
    then show ?thesis using arg_cong [OF e(1), of butlast] by (simp add: tsb_list_def chunk_def map_butlast)
  qed
  moreover have "tsb_list t' i = chunk t (before_ack m t i) @ ks" using P chain_part [OF L', of i] n i by (simp add: tsb_list_def)
  ultimately show ?thesis using r(1,2) P by blast
qed

theorem put_ack_refines_witness:
  "ack_ok all_sides produced 2 0 TSB_PRODUCED 7 \<and> (\<exists>t' ks fs ok slot' room. put_ack_TSB None 2 0 TSB_PRODUCED 7 produced = (Inr (ok, slot'), t') \<and>
    put_spec 2 TSB_PRODUCED 7 None room (chunk produced (butlast (from_ack TSB_PRODUCED produced 0))) = (ks, fs, ok, slot') \<and>
    tsb_list t' 0 = chunk produced (before_ack TSB_PRODUCED produced 0) @ ks \<and> tsb_freed t' = tsb_freed produced @ (if tsb_shouldFree produced then fs else []) \<and>
    (\<forall>j<num_parts produced. j \<noteq> 0 \<longrightarrow> tsb_list t' j = tsb_list produced j) \<and> (\<not> room \<longrightarrow> tsb_size t' = max_size t' \<and> last_ents t' ! 0 = None))"
proof -
  have ok: "ack_ok all_sides produced 2 0 TSB_PRODUCED 7" by code_simp
  show ?thesis using ok put_ack_refines [OF produced_reach ok, of None] by blast
qed

end
