(* ===== verification/Lz_Compress.thy ===== *)
theory Lz_Compress
  imports TCQ_Prelude
begin

text \<open>
  The LZ compression of wide attributes (\<^verbatim>\<open>src/src/backend/utils/adt/pg_lzcompress.c\<close>). Positions in the input and in the
  output area are indexes, entries of the history table are indexes into \<open>hist_entries\<close>; \<open>None\<close> is \<^verbatim>\<open>NULL\<close>. The output
  area \<open>dest\<close> is the memory after the header, as long as the caller made it: a write behind its end is the error
  \<open>Out_of_bounds\<close>. A \<^verbatim>\<open>char\<close> is signed. The history arrays are static, so a call finds in them what earlier calls left.
\<close>

section \<open>Data\<close>

definition PGLZ_HISTORY_LISTS :: nat where "PGLZ_HISTORY_LISTS = 8192"
definition PGLZ_HISTORY_MASK :: int where "PGLZ_HISTORY_MASK = int PGLZ_HISTORY_LISTS - 1"
definition PGLZ_HISTORY_SIZE :: nat where "PGLZ_HISTORY_SIZE = 4096"
definition PGLZ_MAX_MATCH :: int where "PGLZ_MAX_MATCH = 273"

record PGLZ_HistEntry =
  he_next :: "nat option"
  he_prev :: "nat option"
  he_hindex :: nat
  he_pos :: nat

record PGLZ_Strategy =
  min_input_size :: int
  force_input_size :: int
  min_comp_rate :: int
  match_size_good :: int
  match_size_drop :: int

definition PGLZ_strategy_default :: PGLZ_Strategy where
  "PGLZ_strategy_default = \<lparr>min_input_size = 256, force_input_size = 6144, min_comp_rate = 20, match_size_good = 128, match_size_drop = 10\<rparr>"

definition PGLZ_strategy_allways :: PGLZ_Strategy where
  "PGLZ_strategy_allways = \<lparr>min_input_size = 0, force_input_size = 0, min_comp_rate = 0, match_size_good = 128, match_size_drop = 6\<rparr>"

definition PGLZ_strategy_never :: PGLZ_Strategy where
  "PGLZ_strategy_never = \<lparr>min_input_size = 0, force_input_size = 0, min_comp_rate = 0, match_size_good = 0, match_size_drop = 0\<rparr>"

record PGLZ_Header =
  varsize :: int
  rawsize :: int

definition sizeof_PGLZ_Header :: int where "sizeof_PGLZ_Header = 8"

text \<open>The two upper bits of the length word are flags.\<close>

definition VARATT_SIZE :: "PGLZ_Header \<Rightarrow> int" where
  "VARATT_SIZE h = varsize h AND 0x3fffffff"

definition PGLZ_MAX_OUTPUT :: "int \<Rightarrow> int" where
  "PGLZ_MAX_OUTPUT dlen = dlen + drop_bit 3 (dlen OR 0x07) + sizeof_PGLZ_Header"

text \<open>The static arrays, the output area and the local variables of the compressor; \<open>ctrlp\<close> is \<open>None\<close> while it points to \<^verbatim>\<open>ctrl_dummy\<close>.\<close>

record pglz =
  hist_start :: "nat option list"
  hist_entries :: "PGLZ_HistEntry list"
  hist_next :: nat
  hist_recycle :: bool
  dest :: "byte list"
  bp :: nat
  ctrlp :: "nat option"
  ctrlb :: byte
  ctrl :: byte

section \<open>Memory access\<close>

definition hent_at :: "nat \<Rightarrow> (pglz, PGLZ_HistEntry) prog" where
  "hent_at a = (\<lambda>st. if a < length (hist_entries st) then (Inr (hist_entries st ! a), st) else (Inl (Out_of_bounds ''hist_entries''), st))"

definition hent_upd :: "nat \<Rightarrow> (PGLZ_HistEntry \<Rightarrow> PGLZ_HistEntry) \<Rightarrow> (pglz, unit) prog" where
  "hent_upd a f = (\<lambda>st. if a < length (hist_entries st) then (Inr (), st\<lparr>hist_entries := (hist_entries st)[a := f (hist_entries st ! a)]\<rparr>)
     else (Inl (Out_of_bounds ''hist_entries''), st))"

definition start_at :: "nat \<Rightarrow> (pglz, nat option) prog" where
  "start_at i = (\<lambda>st. if i < length (hist_start st) then (Inr (hist_start st ! i), st) else (Inl (Out_of_bounds ''hist_start''), st))"

definition start_set :: "nat \<Rightarrow> nat option \<Rightarrow> (pglz, unit) prog" where
  "start_set i p = (\<lambda>st. if i < length (hist_start st) then (Inr (), st\<lparr>hist_start := (hist_start st)[i := p]\<rparr>) else (Inl (Out_of_bounds ''hist_start''), st))"

definition dest_set :: "nat \<Rightarrow> byte \<Rightarrow> (pglz, unit) prog" where
  "dest_set i b = (\<lambda>st. if i < length (dest st) then (Inr (), st\<lparr>dest := (dest st)[i := b]\<rparr>) else (Inl (Out_of_bounds ''dest''), st))"

text \<open>\<^verbatim>\<open>*bp++ = b\<close>\<close>

definition put_byte :: "byte \<Rightarrow> (pglz, unit) prog" where
  "put_byte b = (\<lambda>st. bind_prog (dest_set (bp st) b) (\<lambda>_. modify_prog (\<lambda>st. st\<lparr>bp := bp st + 1\<rparr>)) st)"

section \<open>History\<close>

text \<open>The argument is the rest of the input, which is not empty.\<close>

definition pglz_hist_idx :: "byte list \<Rightarrow> nat" where
  "pglz_hist_idx s = nat ((if length s < 4 then sint (s ! 0)
     else push_bit 9 (sint (s ! 0)) XOR push_bit 6 (sint (s ! 1)) XOR push_bit 3 (sint (s ! 2)) XOR sint (s ! 3)) AND PGLZ_HISTORY_MASK)"

definition hist_delink :: "nat \<Rightarrow> (pglz, unit) prog" where
  "hist_delink myhe =
     bind_prog (hent_at myhe) (\<lambda>e.
     bind_prog (case he_prev e of None \<Rightarrow> start_set (he_hindex e) (he_next e) | Some p \<Rightarrow> hent_upd p (\<lambda>x. x\<lparr>he_next := he_next e\<rparr>)) (\<lambda>_.
       case he_next e of None \<Rightarrow> return_prog () | Some n \<Rightarrow> hent_upd n (\<lambda>x. x\<lparr>he_prev := he_prev e\<rparr>)))"

definition hist_push :: "nat \<Rightarrow> nat \<Rightarrow> nat \<Rightarrow> (pglz, unit) prog" where
  "hist_push myhe hindex pos =
     bind_prog (start_at hindex) (\<lambda>old.
     bind_prog (hent_upd myhe (\<lambda>x. x\<lparr>he_next := old, he_prev := None, he_hindex := hindex, he_pos := pos\<rparr>)) (\<lambda>_.
     bind_prog (case old of None \<Rightarrow> return_prog () | Some o' \<Rightarrow> hent_upd o' (\<lambda>x. x\<lparr>he_prev := Some myhe\<rparr>)) (\<lambda>_.
       start_set hindex (Some myhe))))"

definition hist_advance :: "pglz \<Rightarrow> pglz" where
  "hist_advance st = (if hist_next st + 1 \<ge> PGLZ_HISTORY_SIZE then st\<lparr>hist_next := 0, hist_recycle := True\<rparr> else st\<lparr>hist_next := hist_next st + 1\<rparr>)"

definition pglz_hist_add :: "byte list \<Rightarrow> nat \<Rightarrow> (pglz, unit) prog" where
  "pglz_hist_add source dp = (\<lambda>st.
     bind_prog (if hist_recycle st then hist_delink (hist_next st) else return_prog ()) (\<lambda>_.
     bind_prog (hist_push (hist_next st) (pglz_hist_idx (drop dp source)) dp) (\<lambda>_.
       modify_prog hist_advance)) st)"

section \<open>Finding a match\<close>

text \<open>The character by character comparison; the first two arguments are what \<^verbatim>\<open>ip\<close> and \<^verbatim>\<open>hp\<close> point to.\<close>

fun match_run :: "byte list \<Rightarrow> byte list \<Rightarrow> int \<Rightarrow> int" where
  "match_run (x # ip) (y # hp) thislen = (if x = y \<and> thislen < PGLZ_MAX_MATCH then match_run ip hp (thislen + 1) else thislen)"
| "match_run ip hp thislen = thislen"

definition this_match :: "byte list \<Rightarrow> nat \<Rightarrow> nat \<Rightarrow> int \<Rightarrow> (pglz, int) prog" where
  "this_match source input hp len =
     (if len \<ge> 16 then
        if input + nat len > length source \<or> hp + nat len > length source then fail_prog (Out_of_bounds ''memcmp'')
        else if mem_read input (nat len) source = mem_read hp (nat len) source
        then return_prog (match_run (drop (input + nat len) source) (drop (hp + nat len) source) len)
        else return_prog 0
      else return_prog (match_run (drop input source) (drop hp source) 0))"

primrec find_loop :: "nat \<Rightarrow> byte list \<Rightarrow> nat \<Rightarrow> nat option \<Rightarrow> int \<Rightarrow> int \<Rightarrow> int \<Rightarrow> int \<Rightarrow> (pglz, int \<times> int) prog" where
  "find_loop 0 source input hent len off good_match good_drop = fail_prog Would_block"
| "find_loop (Suc n) source input hent len off good_match good_drop =
     (case hent of
        None \<Rightarrow> return_prog (len, off)
      | Some a \<Rightarrow>
          bind_prog (hent_at a) (\<lambda>e.
            let thisoff = int input - int (he_pos e) in
            if thisoff \<ge> 0x0fff then return_prog (len, off)
            else
              bind_prog (this_match source input (he_pos e) len) (\<lambda>thislen.
                let len' = (if thislen > len then thislen else len);
                    off' = (if thislen > len then thisoff else off)
                in if he_next e \<noteq> None \<and> len' \<ge> good_match then return_prog (len', off')
                   else find_loop n source input (he_next e) len' off' (good_match - (good_match * good_drop) sdiv 100) good_drop)))"

definition pglz_find_match :: "byte list \<Rightarrow> nat \<Rightarrow> int \<Rightarrow> int \<Rightarrow> (pglz, (int \<times> int) option) prog" where
  "pglz_find_match source input good_match good_drop =
     bind_prog (start_at (pglz_hist_idx (drop input source))) (\<lambda>hent.
     bind_prog (\<lambda>st. find_loop (Suc (length (hist_entries st))) source input hent 0 0 good_match good_drop st) (\<lambda>(len, off).
       return_prog (if len > 2 then Some (len, off) else None)))"

section \<open>Output\<close>

definition store_ctrl :: "(pglz, unit) prog" where
  "store_ctrl = (\<lambda>st. case ctrlp st of None \<Rightarrow> (Inr (), st) | Some p \<Rightarrow> dest_set p (ctrlb st) st)"

definition pglz_out_ctrl :: "(pglz, unit) prog" where
  "pglz_out_ctrl = (\<lambda>st.
     if ctrl st = 0 then bind_prog store_ctrl (\<lambda>_. modify_prog (\<lambda>st. st\<lparr>ctrlp := Some (bp st), bp := bp st + 1, ctrlb := 0, ctrl := 1\<rparr>)) st
     else (Inr (), st))"

definition pglz_out_literal :: "byte \<Rightarrow> (pglz, unit) prog" where
  "pglz_out_literal b =
     bind_prog pglz_out_ctrl (\<lambda>_.
     bind_prog (put_byte b) (\<lambda>_.
       modify_prog (\<lambda>st. st\<lparr>ctrl := push_bit 1 (ctrl st)\<rparr>)))"

definition pglz_out_tag :: "int \<Rightarrow> int \<Rightarrow> (pglz, unit) prog" where
  "pglz_out_tag len off =
     bind_prog pglz_out_ctrl (\<lambda>_.
     bind_prog (modify_prog (\<lambda>st. st\<lparr>ctrlb := ctrlb st OR ctrl st, ctrl := push_bit 1 (ctrl st)\<rparr>)) (\<lambda>_.
       if len > 17 then
         bind_prog (put_byte (word_of_int (drop_bit 4 (off AND 0xf00) OR 0x0f))) (\<lambda>_.
         bind_prog (put_byte (word_of_int (off AND 0xff))) (\<lambda>_.
           put_byte (word_of_int (len - 18))))
       else
         bind_prog (put_byte (word_of_int (drop_bit 4 (off AND 0xf00) OR (len - 3)))) (\<lambda>_.
           put_byte (word_of_int (off AND 0xff)))))"

section \<open>Compression\<close>

primrec hist_add_loop :: "byte list \<Rightarrow> nat \<Rightarrow> nat \<Rightarrow> (pglz, unit) prog" where
  "hist_add_loop source dp 0 = return_prog ()"
| "hist_add_loop source dp (Suc n) = bind_prog (pglz_hist_add source dp) (\<lambda>_. hist_add_loop source (dp + 1) n)"

text \<open>The result is \<^verbatim>\<open>do_compress\<close>.\<close>

primrec comp_loop :: "nat \<Rightarrow> byte list \<Rightarrow> int \<Rightarrow> int \<Rightarrow> int \<Rightarrow> nat \<Rightarrow> (pglz, bool) prog" where
  "comp_loop 0 source result_max good_match good_drop dp = fail_prog Would_block"
| "comp_loop (Suc n) source result_max good_match good_drop dp =
     (if dp < length source then
        (\<lambda>st. if int (bp st) \<ge> result_max then (Inr False, st)
          else bind_prog (pglz_find_match source dp good_match good_drop) (\<lambda>m.
            case m of
              Some (len, off) \<Rightarrow>
                bind_prog (pglz_out_tag len off) (\<lambda>_.
                bind_prog (hist_add_loop source dp (nat len)) (\<lambda>_.
                  comp_loop n source result_max good_match good_drop (dp + nat len)))
            | None \<Rightarrow>
                bind_prog (pglz_out_literal (source ! dp)) (\<lambda>_.
                bind_prog (pglz_hist_add source dp) (\<lambda>_.
                  comp_loop n source result_max good_match good_drop (dp + 1)))) st)
      else return_prog True)"

definition copy_source :: "byte list \<Rightarrow> (pglz, PGLZ_Header) prog" where
  "copy_source source = (\<lambda>st.
     if length source \<le> length (dest st)
     then (Inr \<lparr>varsize = int (length source) + sizeof_PGLZ_Header, rawsize = int (length source)\<rparr>, st\<lparr>dest := mem_write 0 source (dest st)\<rparr>)
     else (Inl (Out_of_bounds ''dest''), st))"

text \<open>The product of input size and compression rate is an \<^verbatim>\<open>int32\<close>.\<close>

definition need_rate :: "PGLZ_Strategy \<Rightarrow> int" where
  "need_rate strategy = (if min_comp_rate strategy < 0 then 0 else if min_comp_rate strategy > 99 then 99 else min_comp_rate strategy)"

definition result_limit :: "PGLZ_Strategy \<Rightarrow> int \<Rightarrow> int" where
  "result_limit strategy slen =
     (if slen \<ge> force_input_size strategy then slen
      else slen - sint (word_of_int (slen * need_rate strategy) :: 32 word) sdiv 100)"

definition pglz_compress :: "byte list \<Rightarrow> PGLZ_Strategy option \<Rightarrow> (pglz, PGLZ_Header) prog" where
  "pglz_compress source strategy0 =
     (let strategy = (case strategy0 of None \<Rightarrow> PGLZ_strategy_default | Some s \<Rightarrow> s);
          slen = int (length source);
          good_match = (let g = (if match_size_good strategy > PGLZ_MAX_MATCH then PGLZ_MAX_MATCH else match_size_good strategy) in if g < 17 then 17 else g);
          good_drop = (let d = (if match_size_drop strategy < 0 then 0 else match_size_drop strategy) in if d > 100 then 100 else d);
          result_max = result_limit strategy slen
      in if match_size_good strategy = 0 \<or> slen < min_input_size strategy then copy_source source
         else
           bind_prog (modify_prog (\<lambda>st. st\<lparr>hist_start := replicate PGLZ_HISTORY_LISTS None, hist_next := 0, hist_recycle := False,
             bp := 0, ctrlp := None, ctrlb := 0, ctrl := 0\<rparr>)) (\<lambda>_.
           bind_prog (comp_loop (Suc (length source)) source result_max good_match good_drop 0) (\<lambda>do_compress.
           if do_compress then
             bind_prog store_ctrl (\<lambda>_ st.
               if int (bp st) \<ge> result_max then copy_source source st
               else (Inr \<lparr>varsize = int (bp st) + sizeof_PGLZ_Header, rawsize = slen\<rparr>, st))
           else copy_source source)))"

section \<open>Decompression\<close>

text \<open>The output area with the position \<^verbatim>\<open>bp\<close>, and reading of the compressed data.\<close>

record pglz_out =
  out :: "byte list"
  obp :: nat

definition in_at :: "byte list \<Rightarrow> nat \<Rightarrow> (pglz_out, byte) prog" where
  "in_at data dp = (if dp < length data then return_prog (data ! dp) else fail_prog (Out_of_bounds ''source''))"

definition out_byte :: "byte \<Rightarrow> (pglz_out, unit) prog" where
  "out_byte b = (\<lambda>o'. if obp o' < length (out o') then (Inr (), o'\<lparr>out := (out o')[obp o' := b], obp := obp o' + 1\<rparr>) else (Inl (Out_of_bounds ''dest''), o'))"

primrec copy_loop :: "nat \<Rightarrow> int \<Rightarrow> (pglz_out, unit) prog" where
  "copy_loop 0 off = return_prog ()"
| "copy_loop (Suc len) off =
     bind_prog (\<lambda>o'. let p = int (obp o') - off in if 0 \<le> p \<and> p < int (length (out o')) then (Inr (out o' ! nat p), o') else (Inl (Out_of_bounds ''bp[-off]''), o')) (\<lambda>b.
     bind_prog (out_byte b) (\<lambda>_. copy_loop len off))"

definition decomp_item :: "byte list \<Rightarrow> byte \<Rightarrow> nat \<Rightarrow> (pglz_out, nat) prog" where
  "decomp_item data ctl dp =
     (if ctl AND 1 \<noteq> 0 then
        bind_prog (in_at data dp) (\<lambda>d0.
        bind_prog (in_at data (dp + 1)) (\<lambda>d1.
          let len = uint (d0 AND 0x0f) + 3; off = push_bit 4 (uint (d0 AND 0xf0)) OR uint d1
          in bind_prog (if len = 18 then bind_prog (in_at data (dp + 2)) (\<lambda>d2. return_prog (len + uint d2, dp + 3)) else return_prog (len, dp + 2)) (\<lambda>(len, dp).
             bind_prog (copy_loop (nat len) off) (\<lambda>_. return_prog dp))))
      else
        bind_prog (in_at data dp) (\<lambda>b. bind_prog (out_byte b) (\<lambda>_. return_prog (dp + 1))))"

primrec decomp_items :: "nat \<Rightarrow> byte list \<Rightarrow> nat \<Rightarrow> byte \<Rightarrow> nat \<Rightarrow> (pglz_out, nat) prog" where
  "decomp_items 0 data dend ctl dp = return_prog dp"
| "decomp_items (Suc n) data dend ctl dp =
     (if dp < dend then bind_prog (decomp_item data ctl dp) (\<lambda>dp. decomp_items n data dend (drop_bit 1 ctl) dp) else return_prog dp)"

primrec decomp_loop :: "nat \<Rightarrow> byte list \<Rightarrow> nat \<Rightarrow> nat \<Rightarrow> (pglz_out, unit) prog" where
  "decomp_loop 0 data dend dp = fail_prog Would_block"
| "decomp_loop (Suc n) data dend dp =
     (if dp < dend then
        bind_prog (in_at data dp) (\<lambda>ctl.
        bind_prog (decomp_items 8 data dend ctl (dp + 1)) (\<lambda>dp. decomp_loop n data dend dp))
      else return_prog ())"

text \<open>\<open>data\<close> is the memory after the header; the result is the number of bytes in the output area.\<close>

definition pglz_decompress :: "PGLZ_Header \<Rightarrow> byte list \<Rightarrow> (pglz_out, int) prog" where
  "pglz_decompress source data =
     (if VARATT_SIZE source = rawsize source + sizeof_PGLZ_Header then
        (\<lambda>o'. if rawsize source \<le> int (length data) \<and> rawsize source \<le> int (length (out o'))
          then (Inr (rawsize source), o'\<lparr>out := mem_write 0 (mem_read 0 (nat (rawsize source)) data) (out o')\<rparr>)
          else (Inl (Out_of_bounds ''memcpy''), o'))
      else
        bind_prog (modify_prog (\<lambda>o'. o'\<lparr>obp := 0\<rparr>)) (\<lambda>_.
        bind_prog (decomp_loop (Suc (length data)) data (nat (VARATT_SIZE source - sizeof_PGLZ_Header)) 0) (\<lambda>_ o'.
          (Inr (int (obp o')), o'))))"

section \<open>Decompression character by character\<close>

text \<open>
  \<open>lz\<close> is the memory after the header. \<^verbatim>\<open>cp_in\<close> points into it, or into the buffer \<open>temp_buf\<close> once \<open>in_temp\<close>;
  \<open>plain\<close> says that \<^verbatim>\<open>next_char\<close> is the function for plain data.
\<close>

record PGLZ_DecompState =
  lz :: "byte list"
  temp_buf :: "byte list"
  in_temp :: bool
  cp_in :: nat
  cp_end :: nat
  cp_out :: nat
  cp_copy :: int
  plain :: bool
  tocopy :: int
  ctrl_count :: nat
  dctrl :: byte

definition pglz_decomp_init :: "PGLZ_Header \<Rightarrow> byte list \<Rightarrow> byte list \<Rightarrow> PGLZ_DecompState" where
  "pglz_decomp_init h data junk =
     (let ds = \<lparr>lz = data, temp_buf = [], in_temp = False, cp_in = 0, cp_end = nat (varsize h - sizeof_PGLZ_Header), cp_out = 0, cp_copy = 0, plain = True,
         tocopy = 0, ctrl_count = 0, dctrl = 0\<rparr>
      in if varsize h \<noteq> rawsize h + sizeof_PGLZ_Header then ds\<lparr>temp_buf := take (nat (rawsize h)) junk, plain := False\<rparr> else ds)"

definition ds_in :: "nat \<Rightarrow> (PGLZ_DecompState, byte) prog" where
  "ds_in i = (\<lambda>ds. let area = (if in_temp ds then temp_buf ds else lz ds) in
     if i < length area then (Inr (area ! i), ds) else (Inl (Out_of_bounds ''cp_in''), ds))"

text \<open>\<^verbatim>\<open>*(cp_out++) = *(cp_copy++)\<close> and \<^verbatim>\<open>*(cp_out++) = *(cp_in++)\<close>\<close>

definition ds_out :: "byte \<Rightarrow> (PGLZ_DecompState, byte) prog" where
  "ds_out b = (\<lambda>ds. if cp_out ds < length (temp_buf ds) then (Inr b, ds\<lparr>temp_buf := (temp_buf ds)[cp_out ds := b], cp_out := cp_out ds + 1\<rparr>)
     else (Inl (Out_of_bounds ''temp_buf''), ds))"

definition ds_copy :: "(PGLZ_DecompState, byte) prog" where
  "ds_copy = (\<lambda>ds. if 0 \<le> cp_copy ds \<and> cp_copy ds < int (length (temp_buf ds))
     then bind_prog (ds_out (temp_buf ds ! nat (cp_copy ds))) (\<lambda>b. bind_prog (modify_prog (\<lambda>ds. ds\<lparr>cp_copy := cp_copy ds + 1\<rparr>)) (\<lambda>_. return_prog b)) ds
     else (Inl (Out_of_bounds ''cp_copy''), ds))"

definition get_from_plain :: "(PGLZ_DecompState, int) prog" where
  "get_from_plain = (\<lambda>ds. if cp_in ds \<ge> cp_end ds then (Inr (-1), ds)
     else bind_prog (ds_in (cp_in ds)) (\<lambda>b. bind_prog (modify_prog (\<lambda>ds. ds\<lparr>cp_in := cp_in ds + 1\<rparr>)) (\<lambda>_. return_prog (uint b))) ds)"

text \<open>The rest is decompressed at once into the buffer. The inner loop stops when \<^verbatim>\<open>cp_in\<close> equals \<^verbatim>\<open>cp_end\<close>.\<close>

primrec rest_items :: "nat \<Rightarrow> byte list \<Rightarrow> nat \<Rightarrow> byte \<Rightarrow> nat \<Rightarrow> (pglz_out, nat) prog" where
  "rest_items 0 data dend ctl dp = return_prog dp"
| "rest_items (Suc n) data dend ctl dp =
     (if dp = dend then return_prog dp else bind_prog (decomp_item data ctl dp) (\<lambda>dp. rest_items n data dend (drop_bit 1 ctl) dp))"

primrec rest_loop :: "nat \<Rightarrow> byte list \<Rightarrow> nat \<Rightarrow> nat \<Rightarrow> (pglz_out, unit) prog" where
  "rest_loop 0 data dend dp = fail_prog Would_block"
| "rest_loop (Suc n) data dend dp =
     (if dp < dend then
        bind_prog (in_at data dp) (\<lambda>ctl.
        bind_prog (rest_items 8 data dend ctl (dp + 1)) (\<lambda>dp. rest_loop n data dend dp))
      else return_prog ())"

definition decomp_rest :: "(PGLZ_DecompState, int) prog" where
  "decomp_rest = (\<lambda>ds.
     case rest_loop (Suc (length (lz ds))) (lz ds) (cp_end ds) (cp_in ds) \<lparr>out = temp_buf ds, obp = cp_out ds\<rparr> of
       (Inl e, _) \<Rightarrow> (Inl e, ds)
     | (Inr _, o') \<Rightarrow>
         bind_prog (ds_in (cp_out ds)) (\<lambda>b. bind_prog (modify_prog (\<lambda>ds. ds\<lparr>cp_in := cp_in ds + 1\<rparr>)) (\<lambda>_. return_prog (uint b)))
           (ds\<lparr>temp_buf := out o', in_temp := True, cp_in := cp_out ds, cp_end := obp o', plain := True\<rparr>))"

definition next_item :: "(PGLZ_DecompState, int) prog" where
  "next_item =
     bind_prog (\<lambda>ds. (Inr (cp_in ds = cp_end ds), ds)) (\<lambda>eof.
       if eof then return_prog (-1)
       else
         bind_prog (modify_prog (\<lambda>ds. ds\<lparr>ctrl_count := ctrl_count ds - 1\<rparr>)) (\<lambda>_.
         bind_prog (\<lambda>ds. (Inr (dctrl ds AND 1 \<noteq> 0), ds)) (\<lambda>tag.
         bind_prog
           (if tag then
              (\<lambda>ds. bind_prog (ds_in (cp_in ds)) (\<lambda>d0.
                bind_prog (ds_in (cp_in ds + 1)) (\<lambda>d1.
                  let len = uint (d0 AND 0x0f) + 3; off = push_bit 4 (uint (d0 AND 0xf0)) OR uint d1
                  in bind_prog (if len = 18 then bind_prog (ds_in (cp_in ds + 2)) (\<lambda>d2. return_prog (len + uint d2, cp_in ds + 3)) else return_prog (len, cp_in ds + 2)) (\<lambda>(len, cp).
                     bind_prog (modify_prog (\<lambda>ds. ds\<lparr>tocopy := len - 1, cp_in := cp, cp_copy := int (cp_out ds) - off\<rparr>)) (\<lambda>_. ds_copy)))) ds)
            else
              (\<lambda>ds. bind_prog (ds_in (cp_in ds)) (\<lambda>b. bind_prog (modify_prog (\<lambda>ds. ds\<lparr>cp_in := cp_in ds + 1\<rparr>)) (\<lambda>_. ds_out b)) ds)) (\<lambda>b.
         bind_prog (modify_prog (\<lambda>ds. ds\<lparr>dctrl := drop_bit 1 (dctrl ds)\<rparr>)) (\<lambda>_. return_prog (uint b))))))"

definition get_from_lzdata :: "(PGLZ_DecompState, int) prog" where
  "get_from_lzdata = (\<lambda>ds.
     if tocopy ds > 0 then bind_prog (modify_prog (\<lambda>ds. ds\<lparr>tocopy := tocopy ds - 1\<rparr>)) (\<lambda>_. bind_prog ds_copy (\<lambda>b. return_prog (uint b))) ds
     else if ctrl_count ds = 0 then
       if cp_in ds = cp_end ds then (Inr (-1), ds)
       else if cp_out ds \<ge> 256 then decomp_rest ds
       else bind_prog (ds_in (cp_in ds)) (\<lambda>b. bind_prog (modify_prog (\<lambda>ds. ds\<lparr>dctrl := b, cp_in := cp_in ds + 1, ctrl_count := 8\<rparr>)) (\<lambda>_. next_item)) ds
     else next_item ds)"

definition pglz_decomp_getchar :: "(PGLZ_DecompState, int) prog" where
  "pglz_decomp_getchar = (\<lambda>ds. (if plain ds then get_from_plain else get_from_lzdata) ds)"

end
