(* ===== verification/Lz_History.thy ===== *)
theory Lz_History
  imports Lz_Compress
begin

text \<open>
  The history table of the compressor: every hash key has a doubly linked list of entries, entries are taken out of their list before they
  are used again, and what \<^verbatim>\<open>pglz_find_match\<close> finds in the table is a repetition of the input.
\<close>

section \<open>The history table\<close>

text \<open>The entries \<open>xs\<close> are linked from \<open>h\<close> on to \<open>n\<close>; the first one points back to \<open>p\<close>.\<close>

fun hseg :: "PGLZ_HistEntry list \<Rightarrow> nat option \<Rightarrow> nat option \<Rightarrow> nat list \<Rightarrow> nat option \<Rightarrow> bool" where
  "hseg he p h [] n = (h = n)"
| "hseg he p h (a # xs) n = (h = Some a \<and> a < length he \<and> he_prev (he ! a) = p \<and> hseg he (Some a) (he_next (he ! a)) xs n)"

lemma hseg_append:
  "hseg he p h (xs @ ys) n \<longleftrightarrow> (\<exists>m. hseg he p h xs m \<and> hseg he (if xs = [] then p else Some (last xs)) m ys n)"
  by (induction xs arbitrary: p h) auto

lemma hseg_cong:
  "length he' = length he \<Longrightarrow> (\<And>a. a \<in> set xs \<Longrightarrow> he_next (he' ! a) = he_next (he ! a) \<and> he_prev (he' ! a) = he_prev (he ! a)) \<Longrightarrow>
   hseg he' p h xs n = hseg he p h xs n"
  by (induction xs arbitrary: p h) auto

lemma hseg_bound: "hseg he p h xs n \<Longrightarrow> a \<in> set xs \<Longrightarrow> a < length he"
  by (induction xs arbitrary: p h) auto

lemma nth_update: "xs[i := v] ! j = (if i = j \<and> j < length xs then v else xs ! j)"
  by (cases "i < length xs") (auto simp: nth_list_update list_update_beyond)

text \<open>Taking an entry out of its list, and putting an entry in front.\<close>

definition unlinked :: "PGLZ_HistEntry list \<Rightarrow> nat \<Rightarrow> PGLZ_HistEntry list" where
  "unlinked he a =
     (let he1 = (case he_prev (he ! a) of None \<Rightarrow> he | Some p \<Rightarrow> he[p := (he ! p)\<lparr>he_next := he_next (he ! a)\<rparr>])
      in case he_next (he ! a) of None \<Rightarrow> he1 | Some n \<Rightarrow> he1[n := (he1 ! n)\<lparr>he_prev := he_prev (he ! a)\<rparr>])"

lemma length_unlinked [simp]: "length (unlinked he a) = length he"
  by (simp add: unlinked_def Let_def split: option.splits)

lemma unlinked_other:
  "he_prev (he ! a) \<noteq> Some b \<Longrightarrow> he_next (he ! a) \<noteq> Some b \<Longrightarrow> unlinked he a ! b = he ! b"
  by (auto simp: unlinked_def Let_def nth_update split: option.splits)

lemma unlinked_data:
  "he_hindex (unlinked he a ! b) = he_hindex (he ! b) \<and> he_pos (unlinked he a ! b) = he_pos (he ! b)"
  by (auto simp: unlinked_def Let_def nth_update split: option.splits)

lemma unlinked_links:
  "b < length he \<Longrightarrow> he_next (unlinked he a ! b) = (if he_prev (he ! a) = Some b then he_next (he ! a) else he_next (he ! b))"
  "b < length he \<Longrightarrow> he_prev (unlinked he a ! b) = (if he_next (he ! a) = Some b then he_prev (he ! a) else he_prev (he ! b))"
  by (auto simp: unlinked_def Let_def nth_update split: option.splits)

lemma hseg_end: "hseg he p h (xs @ [b]) n \<longleftrightarrow> hseg he p h xs (Some b) \<and> b < length he \<and> he_prev (he ! b) = (if xs = [] then p else Some (last xs)) \<and> he_next (he ! b) = n"
  by (auto simp: hseg_append)

lemma hseg_unlinked:
  assumes "hseg he None h (xs @ a # ys) None" "distinct (xs @ a # ys)"
  shows "hseg (unlinked he a) None (if xs = [] then he_next (he ! a) else h) (xs @ ys) None"
    "he_prev (he ! a) = (if xs = [] then None else Some (last xs))" "he_next (he ! a) = (if ys = [] then None else Some (hd ys))" "xs = [] \<Longrightarrow> h = Some a"
proof -
  have 1: "hseg he None h xs (Some a)" "a < length he" "hseg he (Some a) (he_next (he ! a)) ys None"
    using assms(1) by (auto simp: hseg_append split: if_splits)
  show p: "he_prev (he ! a) = (if xs = [] then None else Some (last xs))" using assms(1) by (auto simp: hseg_append split: if_splits)
  show n: "he_next (he ! a) = (if ys = [] then None else Some (hd ys))" using 1(3) by (cases ys) auto
  show "xs = [] \<Longrightarrow> h = Some a" using 1(1) by simp
  have A: "hseg (unlinked he a) None (if xs = [] then he_next (he ! a) else h) xs (he_next (he ! a))"
  proof (cases xs rule: rev_cases)
    case (snoc us b)
    have b: "hseg he None h us (Some b)" "b < length he" "he_prev (he ! b) = (if us = [] then None else Some (last us))"
      using 1(1) by (auto simp: snoc hseg_end)
    have d: "b \<notin> set us" "b \<notin> set ys" "set us \<inter> set ys = {}" using assms(2) snoc by auto
    have nb: "he_next (he ! a) \<noteq> Some b" using n d(2) hd_in_set [of ys] by (auto split: if_splits)
    have "hseg (unlinked he a) None h us (Some b) = hseg he None h us (Some b)"
    proof (rule hseg_cong)
      fix c assume c: "c \<in> set us"
      have "he_prev (he ! a) \<noteq> Some c" using p snoc c d(1) by auto
      moreover have "he_next (he ! a) \<noteq> Some c" using n c d(3) hd_in_set [of ys] by (auto split: if_splits)
      ultimately show "he_next (unlinked he a ! c) = he_next (he ! c) \<and> he_prev (unlinked he a ! c) = he_prev (he ! c)"
        by (simp add: unlinked_other)
    qed simp
    then show ?thesis using b nb p snoc by (simp add: hseg_end unlinked_links)
  qed simp
  have B: "hseg (unlinked he a) (if xs = [] then None else Some (last xs)) (he_next (he ! a)) ys None"
  proof (cases ys)
    case Nil
    then show ?thesis using 1(3) by simp
  next
    case (Cons c us)
    have c: "he_next (he ! a) = Some c" "c < length he" "hseg he (Some c) (he_next (he ! c)) us None" using 1(3) Cons by auto
    have pc: "he_prev (he ! a) \<noteq> Some b" if "b \<in> set ys" for b using p assms(2) that last_in_set [of xs] by (auto split: if_splits simp: disjoint_iff)
    have "hseg (unlinked he a) (Some c) (he_next (he ! c)) us None = hseg he (Some c) (he_next (he ! c)) us None"
    proof (rule hseg_cong)
      fix b assume b: "b \<in> set us"
      have "he_prev (he ! a) \<noteq> Some b" "he_next (he ! a) \<noteq> Some b" using pc b c(1) Cons assms(2) by auto
      then show "he_next (unlinked he a ! b) = he_next (he ! b) \<and> he_prev (unlinked he a ! b) = he_prev (he ! b)" by (simp add: unlinked_other)
    qed simp
    then show ?thesis using c p pc [of c] Cons by (auto simp: unlinked_links)
  qed
  show "hseg (unlinked he a) None (if xs = [] then he_next (he ! a) else h) (xs @ ys) None" using A B by (auto simp: hseg_append)
qed

text \<open>
  The table: list \<open>k\<close> has the entries \<open>cs k\<close>, for positions before \<open>dp\<close>. All entries are in use once the
  array was filled, before that those below \<^verbatim>\<open>hist_next\<close>.
\<close>

definition hist_lists :: "nat option list \<Rightarrow> PGLZ_HistEntry list \<Rightarrow> (nat \<Rightarrow> nat list) \<Rightarrow> nat \<Rightarrow> bool" where
  "hist_lists hs he cs dp \<longleftrightarrow> length hs = PGLZ_HISTORY_LISTS \<and> length he = PGLZ_HISTORY_SIZE \<and>
     (\<forall>k<PGLZ_HISTORY_LISTS. hseg he None (hs ! k) (cs k) None \<and> distinct (cs k) \<and> (\<forall>a\<in>set (cs k). he_hindex (he ! a) = k \<and> he_pos (he ! a) < dp))"

definition listed :: "(nat \<Rightarrow> nat list) \<Rightarrow> nat set" where
  "listed cs = (\<Union>k<PGLZ_HISTORY_LISTS. set (cs k))"

definition hist_ok :: "nat \<Rightarrow> pglz \<Rightarrow> bool" where
  "hist_ok dp st \<longleftrightarrow> hist_next st < PGLZ_HISTORY_SIZE \<and>
     (\<exists>cs. hist_lists (hist_start st) (hist_entries st) cs dp \<and> listed cs = (if hist_recycle st then {..<PGLZ_HISTORY_SIZE} else {..<hist_next st}))"

lemma hist_lists_D:
  assumes "hist_lists hs he cs dp"
  shows "length hs = PGLZ_HISTORY_LISTS" "length he = PGLZ_HISTORY_SIZE" "k < PGLZ_HISTORY_LISTS \<Longrightarrow> hseg he None (hs ! k) (cs k) None"
    "k < PGLZ_HISTORY_LISTS \<Longrightarrow> distinct (cs k)" "k < PGLZ_HISTORY_LISTS \<Longrightarrow> a \<in> set (cs k) \<Longrightarrow> he_hindex (he ! a) = k"
    "k < PGLZ_HISTORY_LISTS \<Longrightarrow> a \<in> set (cs k) \<Longrightarrow> he_pos (he ! a) < dp" "k < PGLZ_HISTORY_LISTS \<Longrightarrow> a \<in> set (cs k) \<Longrightarrow> a < PGLZ_HISTORY_SIZE"
proof -
  show A: "length hs = PGLZ_HISTORY_LISTS" "length he = PGLZ_HISTORY_SIZE" "k < PGLZ_HISTORY_LISTS \<Longrightarrow> hseg he None (hs ! k) (cs k) None"
    "k < PGLZ_HISTORY_LISTS \<Longrightarrow> distinct (cs k)" "k < PGLZ_HISTORY_LISTS \<Longrightarrow> a \<in> set (cs k) \<Longrightarrow> he_hindex (he ! a) = k"
    "k < PGLZ_HISTORY_LISTS \<Longrightarrow> a \<in> set (cs k) \<Longrightarrow> he_pos (he ! a) < dp"
    using assms unfolding hist_lists_def by blast+
  show "k < PGLZ_HISTORY_LISTS \<Longrightarrow> a \<in> set (cs k) \<Longrightarrow> a < PGLZ_HISTORY_SIZE" using A(2,3) hseg_bound by fastforce
qed

lemma hist_delink_run:
  assumes "hist_lists (hist_start st) (hist_entries st) cs dp" "a \<in> listed cs"
  obtains hs he cs' where "hist_delink a st = (Inr (), st\<lparr>hist_start := hs, hist_entries := he\<rparr>)" "hist_lists hs he cs' dp" "listed cs' = listed cs - {a}"
proof -
  let ?hs = "hist_start st" and ?he = "hist_entries st" and ?e = "hist_entries st ! a"
  note D = hist_lists_D [OF assms(1)]
  obtain k where k: "k < PGLZ_HISTORY_LISTS" "a \<in> set (cs k)" using assms(2) by (auto simp: listed_def)
  obtain xs ys where cs: "cs k = xs @ a # ys" using k(2) by (meson split_list)
  have d: "distinct (xs @ a # ys)" using D(4) [OF k(1)] cs by simp
  have al: "a < length ?he" using D(2) D(7) [OF k] by simp
  note U = hseg_unlinked [OF D(3) [OF k(1), unfolded cs] d]
  have hk: "he_hindex ?e = k" using D(5) [OF k] .
  define hs where "hs = (if xs = [] then ?hs[k := he_next ?e] else ?hs)"
  define cs' where "cs' = cs(k := xs @ ys)"
  have inb: "b < length ?he" if "he_prev ?e = Some b \<or> he_next ?e = Some b" for b
    using that U(2,3) cs D(2) D(7) [OF k(1)] last_in_set [of xs] hd_in_set [of ys] by (auto split: if_splits)
  have run: "hist_delink a st = (Inr (), st\<lparr>hist_start := hs, hist_entries := unlinked ?he a\<rparr>)"
    using al inb D(1) k(1) hk U(2)
    by (auto simp: hist_delink_def bind_prog_def hent_at_def hent_upd_def start_set_def unlinked_def hs_def Let_def split: option.splits if_splits)
  have not_other: "a \<notin> set (cs j)" if "j < PGLZ_HISTORY_LISTS" "j \<noteq> k" for j using that D(5) [OF that(1)] hk by metis
  have "hist_lists hs (unlinked ?he a) cs' dp"
    unfolding hist_lists_def
  proof (intro conjI allI impI ballI)
    show "length hs = PGLZ_HISTORY_LISTS" "length (unlinked ?he a) = PGLZ_HISTORY_SIZE" using D(1,2) by (auto simp: hs_def)
    fix j assume j: "j < PGLZ_HISTORY_LISTS"
    show "distinct (cs' j)" using D(4) [OF j] d by (auto simp: cs'_def)
    show "hseg (unlinked ?he a) None (hs ! j) (cs' j) None"
    proof (cases "j = k")
      case True
      then show ?thesis using U(1) j D(1) by (auto simp: cs'_def hs_def)
    next
      case False
      have "hseg (unlinked ?he a) None (?hs ! j) (cs j) None = hseg ?he None (?hs ! j) (cs j) None"
      proof (rule hseg_cong)
        fix b assume b: "b \<in> set (cs j)"
        have "b \<notin> set (cs k)" using D(5) [OF j b] D(5) [OF k(1)] False by metis
        then have "he_prev ?e \<noteq> Some b" "he_next ?e \<noteq> Some b" using U(2,3) cs last_in_set [of xs] hd_in_set [of ys] by (auto split: if_splits)
        then show "he_next (unlinked ?he a ! b) = he_next (?he ! b) \<and> he_prev (unlinked ?he a ! b) = he_prev (?he ! b)" by (simp add: unlinked_other)
      qed simp
      then show ?thesis using False D(3) [OF j] by (auto simp: cs'_def hs_def)
    qed
    fix b assume "b \<in> set (cs' j)"
    then have "b \<in> set (cs j)" using cs by (auto simp: cs'_def split: if_splits)
    then show "he_hindex (unlinked ?he a ! b) = j" "he_pos (unlinked ?he a ! b) < dp" using D(5,6) [OF j] by (simp_all add: unlinked_data)
  qed
  moreover have "set (cs' j) = set (cs j) - {a}" if "j < PGLZ_HISTORY_LISTS" for j using that cs d not_other by (auto simp: cs'_def)
  then have "listed cs' = listed cs - {a}" by (auto simp: listed_def)
  ultimately show ?thesis using that run by blast
qed

lemma hist_push_run:
  assumes "hist_lists (hist_start st) (hist_entries st) cs dp" "a \<notin> listed cs" "a < PGLZ_HISTORY_SIZE" "k < PGLZ_HISTORY_LISTS"
  obtains hs he cs' where "hist_push a k dp st = (Inr (), st\<lparr>hist_start := hs, hist_entries := he\<rparr>)" "hist_lists hs he cs' (Suc dp)" "listed cs' = insert a (listed cs)"
proof -
  let ?hs = "hist_start st" and ?he = "hist_entries st"
  note D = hist_lists_D [OF assms(1)]
  define old where "old = ?hs ! k"
  define he1 where "he1 = ?he[a := (?he ! a)\<lparr>he_next := old, he_prev := None, he_hindex := k, he_pos := dp\<rparr>]"
  define he where "he = (case old of None \<Rightarrow> he1 | Some b \<Rightarrow> he1[b := (he1 ! b)\<lparr>he_prev := Some a\<rparr>])"
  define cs' where "cs' = cs(k := a # cs k)"
  have notin: "a \<notin> set (cs j)" if "j < PGLZ_HISTORY_LISTS" for j using assms(2) that by (auto simp: listed_def)
  have old: "old = (if cs k = [] then None else Some (hd (cs k)))" using D(3) [OF assms(4)] by (cases "cs k") (auto simp: old_def)
  have oldb: "b \<in> set (cs k) \<and> b < length ?he \<and> b \<noteq> a" if "old = Some b" for b
    using that old D(2) D(7) [OF assms(4)] notin [OF assms(4)] hd_in_set [of "cs k"] by (auto split: if_splits)
  have run: "hist_push a k dp st = (Inr (), st\<lparr>hist_start := ?hs[k := Some a], hist_entries := he\<rparr>)"
    using assms(3,4) D(1,2) oldb
    by (auto simp: hist_push_def bind_prog_def hent_upd_def start_at_def start_set_def he_def he1_def old_def [symmetric] split: option.splits)
  have lhe: "length he = length ?he" by (simp add: he_def he1_def split: option.splits)
  have hea: "he ! a = (?he ! a)\<lparr>he_next := old, he_prev := None, he_hindex := k, he_pos := dp\<rparr>"
    using oldb assms(3) D(2) by (auto simp: he_def he1_def nth_update split: option.splits)
  have other: "he ! b = (if old = Some b then (?he ! b)\<lparr>he_prev := Some a\<rparr> else ?he ! b)" if "b \<noteq> a" for b
    using that oldb by (auto simp: he_def he1_def nth_update split: option.splits)
  have "hist_lists (?hs[k := Some a]) he cs' (Suc dp)"
    unfolding hist_lists_def
  proof (intro conjI allI impI ballI)
    show "length (?hs[k := Some a]) = PGLZ_HISTORY_LISTS" "length he = PGLZ_HISTORY_SIZE" using D(1,2) lhe by auto
    fix j assume j: "j < PGLZ_HISTORY_LISTS"
    show "distinct (cs' j)" using D(4) [OF j] notin [OF j] by (auto simp: cs'_def)
    show "hseg he None (?hs[k := Some a] ! j) (cs' j) None"
    proof (cases "j = k")
      case True
      have "hseg he (Some a) old (cs k) None"
      proof (cases "cs k")
        case Nil
        then show ?thesis using old by simp
      next
        case (Cons c us)
        have c: "old = Some c" "c < length ?he" "hseg ?he (Some c) (he_next (?he ! c)) us None" "c \<noteq> a"
          using D(3) [OF assms(4)] Cons oldb by (auto simp: old_def)
        have "hseg he (Some c) (he_next (?he ! c)) us None = hseg ?he (Some c) (he_next (?he ! c)) us None"
        proof (rule hseg_cong [OF lhe])
          fix b assume b: "b \<in> set us"
          have "b \<noteq> a" "old \<noteq> Some b" using b c(1) Cons D(4) [OF assms(4)] notin [OF assms(4)] by auto
          then show "he_next (he ! b) = he_next (?he ! b) \<and> he_prev (he ! b) = he_prev (?he ! b)" by (simp add: other)
        qed
        then show ?thesis using c Cons lhe by (simp add: other)
      qed
      then show ?thesis using True assms(3,4) D(1,2) lhe hea by (simp add: cs'_def)
    next
      case False
      have "hseg he None (?hs ! j) (cs j) None = hseg ?he None (?hs ! j) (cs j) None"
      proof (rule hseg_cong [OF lhe])
        fix b assume b: "b \<in> set (cs j)"
        have "b \<noteq> a" using b notin [OF j] by auto
        moreover have "old \<noteq> Some b" using oldb D(5) [OF j b] D(5) [OF assms(4)] False by metis
        ultimately show "he_next (he ! b) = he_next (?he ! b) \<and> he_prev (he ! b) = he_prev (?he ! b)" by (simp add: other)
      qed
      then show ?thesis using False D(3) [OF j] by (simp add: cs'_def)
    qed
    fix b assume "b \<in> set (cs' j)"
    then consider "b = a" "j = k" | "b \<in> set (cs j)" "b \<noteq> a" using notin [OF j] by (auto simp: cs'_def split: if_splits)
    then show "he_hindex (he ! b) = j" "he_pos (he ! b) < Suc dp" using hea D(5,6) [OF j, of b] by (cases; auto simp: other)+
  qed
  moreover have "listed cs' = insert a (listed cs)" using assms(4) by (auto simp: listed_def cs'_def split: if_splits)
  ultimately show ?thesis using that run by blast
qed

lemma pglz_hist_idx_bound: "pglz_hist_idx s < PGLZ_HISTORY_LISTS"
proof -
  have "nat (x AND 8191) < 8192" for x :: int using AND_upper2 [of 8191 x] by (simp add: nat_less_iff)
  then show ?thesis by (simp add: pglz_hist_idx_def PGLZ_HISTORY_MASK_def PGLZ_HISTORY_LISTS_def)
qed

definition same_output :: "pglz \<Rightarrow> pglz \<Rightarrow> bool" where
  "same_output st st' \<longleftrightarrow> dest st' = dest st \<and> bp st' = bp st \<and> ctrlp st' = ctrlp st \<and> ctrlb st' = ctrlb st \<and> ctrl st' = ctrl st"

lemma hist_advance_ok:
  assumes "hist_lists (hist_start st) (hist_entries st) cs dp" "hist_next st < PGLZ_HISTORY_SIZE"
    "listed cs = (if hist_recycle st then {..<PGLZ_HISTORY_SIZE} else {..<Suc (hist_next st)})"
  shows "hist_ok dp (hist_advance st)"
proof (cases "Suc (hist_next st) \<ge> PGLZ_HISTORY_SIZE")
  case True
  then have "Suc (hist_next st) = PGLZ_HISTORY_SIZE" using assms(2) by simp
  then have "listed cs = {..<PGLZ_HISTORY_SIZE}" using assms(3) by auto
  then show ?thesis using assms(1) True by (auto simp: hist_ok_def hist_advance_def PGLZ_HISTORY_SIZE_def)
next
  case False
  then show ?thesis using assms by (auto simp: hist_ok_def hist_advance_def)
qed

lemma pglz_hist_add_run:
  assumes "hist_ok dp st"
  obtains st' where "pglz_hist_add source dp st = (Inr (), st')" "hist_ok (Suc dp) st'" "same_output st st'"
proof -
  let ?a = "hist_next st" and ?k = "pglz_hist_idx (drop dp source)"
  obtain cs where cs: "hist_lists (hist_start st) (hist_entries st) cs dp" "?a < PGLZ_HISTORY_SIZE"
    "listed cs = (if hist_recycle st then {..<PGLZ_HISTORY_SIZE} else {..<?a})"
    using assms by (auto simp: hist_ok_def)
  obtain hs he cs1 where 1: "(if hist_recycle st then hist_delink ?a else return_prog ()) st = (Inr (), st\<lparr>hist_start := hs, hist_entries := he\<rparr>)"
    "hist_lists hs he cs1 dp" "listed cs1 = listed cs - {?a}"
  proof (cases "hist_recycle st")
    case True
    then have "?a \<in> listed cs" using cs by simp
    from hist_delink_run [OF cs(1) this]
    obtain hs he cs1 where 1: "hist_delink ?a st = (Inr (), st\<lparr>hist_start := hs, hist_entries := he\<rparr>)" "hist_lists hs he cs1 dp" "listed cs1 = listed cs - {?a}" .
    show ?thesis by (rule that [OF _ 1(2,3)]) (simp add: True 1(1))
  next
    case False
    have "listed cs = listed cs - {?a}" using cs(3) False by auto
    then show ?thesis by (rule that [OF _ cs(1), rotated]) (simp add: False)
  qed
  let ?st1 = "st\<lparr>hist_start := hs, hist_entries := he\<rparr>"
  have "hist_lists (hist_start ?st1) (hist_entries ?st1) cs1 dp" "?a \<notin> listed cs1" using 1 by simp_all
  from hist_push_run [OF this cs(2) pglz_hist_idx_bound]
  obtain hs' he' cs2 where 2: "hist_push ?a ?k dp ?st1 = (Inr (), ?st1\<lparr>hist_start := hs', hist_entries := he'\<rparr>)"
    "hist_lists hs' he' cs2 (Suc dp)" "listed cs2 = insert ?a (listed cs1)" .
  let ?st2 = "?st1\<lparr>hist_start := hs', hist_entries := he'\<rparr>"
  have A: "pglz_hist_add source dp st = (Inr (), hist_advance ?st2)"
    unfolding pglz_hist_add_def bind_prog_def 1(1) by (simp only: 2(1) prod.case sum.case run_basic_prog)
  have B: "hist_ok (Suc dp) (hist_advance ?st2)"
    by (rule hist_advance_ok [of _ cs2]) (use cs 1(3) 2 in auto)
  have C: "same_output st (hist_advance ?st2)" by (simp add: same_output_def hist_advance_def)
  show ?thesis by (rule that [OF A B C])
qed

lemma hist_add_loop_run:
  "hist_ok dp st \<Longrightarrow> \<exists>st'. hist_add_loop source dp n st = (Inr (), st') \<and> hist_ok (dp + n) st' \<and> same_output st st'"
proof (induction n arbitrary: dp st)
  case 0
  then show ?case by (simp add: same_output_def)
next
  case (Suc n)
  obtain st1 where 1: "pglz_hist_add source dp st = (Inr (), st1)" "hist_ok (Suc dp) st1" "same_output st st1"
    using pglz_hist_add_run [OF Suc.prems] .
  obtain st2 where 2: "hist_add_loop source (Suc dp) n st1 = (Inr (), st2)" "hist_ok (Suc dp + n) st2" "same_output st1 st2"
    using Suc.IH [OF 1(2)] by blast
  then show ?case using 1 by (auto simp: bind_prog_def same_output_def)
qed

section \<open>Finding a match\<close>

text \<open>The \<open>len\<close> bytes at \<open>dp\<close> are those \<open>off\<close> bytes before; the two areas may overlap.\<close>

definition is_match :: "byte list \<Rightarrow> nat \<Rightarrow> nat \<Rightarrow> nat \<Rightarrow> bool" where
  "is_match source dp len off \<longleftrightarrow> 1 \<le> off \<and> off \<le> dp \<and> off < 0xfff \<and> len \<le> 273 \<and> dp + len \<le> length source \<and>
     (\<forall>i<len. source ! (dp + i) = source ! (dp - off + i))"

lemma match_run_spec:
  "\<exists>k. match_run ip hp n = n + int k \<and> k \<le> length ip \<and> k \<le> length hp \<and> (\<forall>i<k. ip ! i = hp ! i) \<and> n + int k \<le> max n 273"
proof (induction ip hp n rule: match_run.induct)
  case (1 x ip y hp n)
  show ?case
  proof (cases "x = y \<and> n < PGLZ_MAX_MATCH")
    case True
    then obtain k where k: "match_run ip hp (n + 1) = n + 1 + int k" "k \<le> length ip" "k \<le> length hp" "\<forall>i<k. ip ! i = hp ! i" "n + 1 + int k \<le> max (n + 1) 273"
      using 1 by blast
    have "\<forall>i<Suc k. (x # ip) ! i = (y # hp) ! i" using k(4) True by (auto simp: less_Suc_eq_0_disj)
    then show ?thesis using k True by (intro exI [of _ "Suc k"]) (auto simp: PGLZ_MAX_MATCH_def)
  qed (auto intro: exI [of _ 0])
qed (auto intro: exI [of _ 0])

lemma this_match_run:
  assumes "hp < dp" "dp - hp < 0xfff" "dp + l \<le> length source" "l \<le> 273" "dp \<le> length source"
  shows "\<exists>k. this_match source dp hp (int l) st = (Inr (int k), st) \<and> (k = 0 \<or> is_match source dp k (dp - hp))"
proof -
  consider "l < 16" | "l \<ge> 16" "mem_read dp l source = mem_read hp l source" | "l \<ge> 16" "mem_read dp l source \<noteq> mem_read hp l source" by linarith
  then show ?thesis
  proof cases
    case 1
    obtain k where k: "match_run (drop dp source) (drop hp source) 0 = 0 + int k" "k \<le> length (drop dp source)" "k \<le> length (drop hp source)"
      "\<forall>i<k. drop dp source ! i = drop hp source ! i" "0 + int k \<le> max 0 273" using match_run_spec by blast
    then have "is_match source dp k (dp - hp)" using assms by (auto simp: is_match_def)
    then show ?thesis using 1 k(1) by (simp add: this_match_def)
  next
    case 2
    obtain k where k: "match_run (drop (dp + l) source) (drop (hp + l) source) (int l) = int l + int k" "k \<le> length (drop (dp + l) source)" "k \<le> length (drop (hp + l) source)"
      "\<forall>i<k. drop (dp + l) source ! i = drop (hp + l) source ! i" "int l + int k \<le> max (int l) 273" using match_run_spec by blast
    have lo: "source ! (dp + i) = source ! (hp + i)" if "i < l" for i
      using arg_cong [OF 2(2), of "\<lambda>xs. xs ! i"] that assms by simp
    have hi: "source ! (dp + i) = source ! (hp + i)" if "l \<le> i" "i < l + k" for i
      using k(4) [rule_format, of "i - l"] that k(2) assms by simp
    have "is_match source dp (l + k) (dp - hp)" using assms k lo hi by (auto simp: is_match_def) (metis not_less)
    then show ?thesis using 2 k(1) assms by (intro exI [of _ "l + k"]) (simp add: this_match_def)
  next
    case 3
    then show ?thesis using assms by (intro exI [of _ 0]) (simp add: this_match_def)
  qed
qed

lemma find_loop_run:
  assumes "length (hist_entries st) = PGLZ_HISTORY_SIZE" "dp \<le> length source"
  shows "hseg (hist_entries st) p hent xs None \<Longrightarrow> \<forall>a\<in>set xs. he_pos (hist_entries st ! a) < dp \<Longrightarrow> length xs < n \<Longrightarrow>
    l = 0 \<or> is_match source dp l f \<Longrightarrow>
    \<exists>l' f'. find_loop n source dp hent (int l) (int f) good_match good_drop st = (Inr (int l', int f'), st) \<and> (l' = 0 \<or> is_match source dp l' f')"
proof (induction xs arbitrary: p hent n l f good_match)
  case Nil
  then show ?case by (cases n) auto
next
  case (Cons a xs)
  obtain m where n: "n = Suc m" "length xs < m" using Cons.prems(3) by (cases n) auto
  let ?e = "hist_entries st ! a"
  have a: "hent = Some a" "a < length (hist_entries st)" "hseg (hist_entries st) (Some a) (he_next ?e) xs None" "he_pos ?e < dp" using Cons.prems(1,2) by auto
  have hent: "hent_at a st = (Inr ?e, st)" using a(2) by (simp add: hent_at_def)
  show ?case
  proof (cases "int dp - int (he_pos ?e) \<ge> 0xfff")
    case True
    then show ?thesis using Cons.prems(4) by (auto simp: n a(1) bind_prog_def hent)
  next
    case False
    have "dp - he_pos ?e < 0xfff" "dp + l \<le> length source" "l \<le> 273" using False a(4) Cons.prems(4) assms(2) by (auto simp: is_match_def)
    from this_match_run [OF a(4) this assms(2)]
    obtain k where k: "this_match source dp (he_pos ?e) (int l) st = (Inr (int k), st)" "k = 0 \<or> is_match source dp k (dp - he_pos ?e)" by blast
    define l' where "l' = (if k > l then k else l)"
    define f' where "f' = (if k > l then dp - he_pos ?e else f)"
    have lf: "l' = 0 \<or> is_match source dp l' f'" using k(2) Cons.prems(4) by (auto simp: l'_def f'_def)
    have run: "find_loop n source dp hent (int l) (int f) good_match good_drop st =
      (if he_next ?e \<noteq> None \<and> int l' \<ge> good_match then (Inr (int l', int f'), st)
       else find_loop m source dp (he_next ?e) (int l') (int f') (good_match - (good_match * good_drop) sdiv 100) good_drop st)"
      using False a(4) by (auto simp: n a(1) bind_prog_def hent k(1) l'_def f'_def Let_def of_nat_diff)
    have rest: "\<forall>a\<in>set xs. he_pos (hist_entries st ! a) < dp" using Cons.prems(2) by simp
    show ?thesis using lf Cons.IH [OF a(3) rest n(2) lf] unfolding run by auto
  qed
qed

lemma pglz_find_match_run:
  assumes "hist_ok dp st" "dp \<le> length source"
  shows "\<exists>m. pglz_find_match source dp good_match good_drop st = (Inr m, st) \<and>
    (case m of None \<Rightarrow> True | Some (len, off) \<Rightarrow> \<exists>l f. len = int l \<and> off = int f \<and> 3 \<le> l \<and> is_match source dp l f)"
proof -
  obtain cs where cs: "hist_lists (hist_start st) (hist_entries st) cs dp" using assms(1) by (auto simp: hist_ok_def)
  note D = hist_lists_D [OF this]
  define k where "k = pglz_hist_idx (drop dp source)"
  have k: "k < PGLZ_HISTORY_LISTS" by (simp add: k_def pglz_hist_idx_bound)
  have start: "start_at k st = (Inr (hist_start st ! k), st)" using k D(1) by (simp add: start_at_def)
  have "length (cs k) = card (set (cs k))" using D(4) [OF k] by (simp add: distinct_card)
  also have "\<dots> \<le> card {..<PGLZ_HISTORY_SIZE}" by (rule card_mono) (use D(7) [OF k] in auto)
  finally have "length (cs k) < Suc (length (hist_entries st))" using D(2) by simp
  from find_loop_run [OF D(2) assms(2) D(3) [OF k] _ this, of 0 0 good_match good_drop] D(6) [OF k]
  obtain l f where lf: "find_loop (Suc (length (hist_entries st))) source dp (hist_start st ! k) 0 0 good_match good_drop st = (Inr (int l, int f), st)"
    "l = 0 \<or> is_match source dp l f" by auto
  have "pglz_find_match source dp good_match good_drop st = (Inr (if int l > 2 then Some (int l, int f) else None), st)"
    using lf(1) by (simp add: pglz_find_match_def k_def [symmetric] start bind_prog_def)
  then show ?thesis using lf(2) by auto
qed
end
