(* ===== verification/Lz_Format.thy ===== *)
theory Lz_Format
  imports Lz_History
begin

text \<open>
  The compressed format: sequences of literals and tags, their bytes in groups of eight items with a control byte, and what they stand
  for. Both decompressors write what the sequence stands for.
\<close>

section \<open>The compressed format\<close>

text \<open>A literal byte, or a tag: copy \<open>len\<close> bytes from \<open>off\<close> bytes before the end of the output.\<close>

datatype token = Lit byte | Tag nat nat

fun is_tag :: "token \<Rightarrow> bool" where
  "is_tag (Lit b) = False"
| "is_tag (Tag len off) = True"

fun token_bytes :: "token \<Rightarrow> byte list" where
  "token_bytes (Lit b) = [b]"
| "token_bytes (Tag len off) =
     (if len > 17 then [of_nat (off div 256 * 16 + 15), of_nat (off mod 256), of_nat (len - 18)]
      else [of_nat (off div 256 * 16 + (len - 3)), of_nat (off mod 256)])"

text \<open>A control byte has a bit for each of up to eight items.\<close>

fun control :: "token list \<Rightarrow> byte" where
  "control [] = 0"
| "control (t # ts) = of_bool (is_tag t) OR push_bit 1 (control ts)"

definition group_bytes :: "token list \<Rightarrow> byte list" where
  "group_bytes ts = control ts # concat (map token_bytes ts)"

fun encode :: "token list \<Rightarrow> byte list" where
  "encode ts = (if ts = [] then [] else group_bytes (take 8 ts) @ encode (drop 8 ts))"

declare encode.simps [simp del]

text \<open>What a sequence of tokens stands for.\<close>

primrec copy_back :: "nat \<Rightarrow> nat \<Rightarrow> byte list \<Rightarrow> byte list" where
  "copy_back 0 off o' = o'"
| "copy_back (Suc len) off o' = copy_back len off (o' @ [o' ! (length o' - off)])"

fun expand :: "byte list \<Rightarrow> token list \<Rightarrow> byte list" where
  "expand o' [] = o'"
| "expand o' (Lit b # ts) = expand (o' @ [b]) ts"
| "expand o' (Tag len off # ts) = expand (copy_back len off o') ts"

fun token_size :: "token \<Rightarrow> nat" where
  "token_size (Lit b) = 1"
| "token_size (Tag len off) = len"

text \<open>Tags that fit into their bytes and point into the \<open>n\<close> bytes of output before them.\<close>

fun tokens_ok :: "nat \<Rightarrow> token list \<Rightarrow> bool" where
  "tokens_ok n [] = True"
| "tokens_ok n (Lit b # ts) = tokens_ok (Suc n) ts"
| "tokens_ok n (Tag len off # ts) = (3 \<le> len \<and> len \<le> 273 \<and> 1 \<le> off \<and> off \<le> n \<and> off < 4096 \<and> tokens_ok (n + len) ts)"

abbreviation total_size :: "token list \<Rightarrow> nat" where
  "total_size ts \<equiv> sum_list (map token_size ts)"

lemma length_copy_back [simp]: "length (copy_back n off o') = length o' + n"
  by (induction n arbitrary: o') auto

lemma length_expand [simp]: "length (expand o' ts) = length o' + total_size ts"
  by (induction o' ts rule: expand.induct) auto

lemma expand_append: "expand o' (ts @ us) = expand (expand o' ts) us"
  by (induction o' ts rule: expand.induct) auto

lemma tokens_ok_append: "tokens_ok n (ts @ us) \<longleftrightarrow> tokens_ok n ts \<and> tokens_ok (n + total_size ts) us"
  by (induction n ts rule: tokens_ok.induct) (auto simp: add.assoc)

lemma tokens_ok_one: "tokens_ok n (t # ts) \<longleftrightarrow> tokens_ok n [t] \<and> tokens_ok (n + token_size t) ts"
  by (cases t) auto

lemma expand_one: "expand o' (t # ts) = expand (expand o' [t]) ts"
  by (cases t) auto

text \<open>Copying from a place where the input repeats itself gives the input.\<close>

lemma copy_back_match:
  "1 \<le> off \<Longrightarrow> off \<le> d \<Longrightarrow> d + n \<le> length source \<Longrightarrow> (\<forall>i<n. source ! (d + i) = source ! (d - off + i)) \<Longrightarrow>
   copy_back n off (take d source) = take (d + n) source"
proof (induction n arbitrary: d)
  case (Suc n)
  have "take d source @ [take d source ! (length (take d source) - off)] = take (Suc d) source"
    using Suc.prems(1-3) Suc.prems(4) [rule_format, of 0] by (simp add: take_Suc_conv_app_nth)
  moreover have "\<forall>i<n. source ! (Suc d + i) = source ! (Suc d - off + i)"
    using Suc.prems(2) Suc.prems(4) by (auto simp: Suc_diff_le)
  ultimately show ?case using Suc.IH [of "Suc d"] Suc.prems(1-3) by simp
qed simp

text \<open>The bytes of a tag.\<close>

lemma or_low_bits: "0 \<le> l \<Longrightarrow> l < 2 ^ n \<Longrightarrow> push_bit n h OR l = h * 2 ^ n + l" for h l :: int
proof -
  assume "0 \<le> l" "l < 2 ^ n"
  then have l: "l = take_bit n l" by (simp add: take_bit_int_eq_self)
  have "push_bit n h OR l = push_bit n h + l"
    by (rule disjunctive_add [symmetric]) (subst l, auto simp: bit_push_bit_iff bit_take_bit_iff)
  then show ?thesis by (simp add: push_bit_eq_mult)
qed

lemma no_high_bit: "n < 2 ^ k \<Longrightarrow> bit (int n) i \<Longrightarrow> i < k"
proof -
  assume "n < 2 ^ k" "bit (int n) i"
  then have "int n = take_bit k (int n)" by (simp add: take_bit_int_eq_self)
  then have "bit (take_bit k (int n)) i" using \<open>bit (int n) i\<close> by simp
  then show ?thesis by (simp only: bit_take_bit_iff)
qed

lemma uint_of_nat_byte: "n < 256 \<Longrightarrow> uint (of_nat n :: byte) = int n"
  by (subst unsigned_of_nat) (simp add: take_bit_nat_eq_self)

lemma tag_byte:
  assumes "off < 4096" "l < 16"
  shows "(word_of_int (drop_bit 4 (int off AND 0xf00) OR int l) :: byte) = of_nat (off div 256 * 16 + l)"
proof -
  have m: "int off AND 0xf00 = push_bit 8 (int (off div 256))"
  proof (rule bit_eqI)
    fix n
    have c: "(0xf00 :: int) = push_bit 8 (mask 4)" by (simp add: mask_eq_exp_minus_1 push_bit_eq_mult)
    have d: "int (off div 256) = drop_bit 8 (int off)" by (simp add: drop_bit_eq_div zdiv_int)
    have b: "n < 12" if "bit (int off) n" using no_high_bit [of off 12 n] assms(1) that by simp
    show "bit (int off AND 0xf00) n = bit (push_bit 8 (int (off div 256))) n"
      unfolding c d using b by (auto simp: bit_push_bit_iff bit_and_iff bit_drop_bit_eq bit_mask_iff simp del: bit_of_nat_iff_bit)
  qed
  have "drop_bit 4 (int off AND 0xf00) OR int l = int (off div 256 * 16 + l)"
    using or_low_bits [of "int l" 4 "int (off div 256)"] assms(2) by (simp add: m drop_bit_push_bit)
  then show ?thesis by (simp only: of_int_of_nat_eq)
qed

lemma tag_decode:
  assumes "h < 16" "l < 16"
  shows "uint ((of_nat (h * 16 + l) :: byte) AND 0x0f) = int l" "push_bit 4 (uint ((of_nat (h * 16 + l) :: byte) AND 0xf0)) = push_bit 8 (int h)"
proof -
  have u: "uint (of_nat (h * 16 + l) :: byte) = push_bit 4 (int h) OR int l"
    using or_low_bits [of "int l" 4 "int h"] uint_of_nat_byte [of "h * 16 + l"] assms by simp
  have hb: "n < 4" if "bit (int h) n" for n
    using no_high_bit [of h 4 n] assms(1) that by simp
  have lb: "n < 4" if "bit (int l) n" for n
    using no_high_bit [of l 4 n] assms(2) that by simp
  have m: "uint (0x0f :: byte) = mask 4" "uint (0xf0 :: byte) = push_bit 4 (mask 4)" by (simp_all add: mask_eq_exp_minus_1 push_bit_eq_mult)
  show "uint ((of_nat (h * 16 + l) :: byte) AND 0x0f) = int l"
    unfolding unsigned_and_eq u m by (rule bit_eqI) (use lb in \<open>auto simp: bit_push_bit_iff bit_and_iff bit_or_iff bit_mask_iff simp del: bit_of_nat_iff_bit\<close>)
  show "push_bit 4 (uint ((of_nat (h * 16 + l) :: byte) AND 0xf0)) = push_bit 8 (int h)"
    unfolding unsigned_and_eq u m by (rule bit_eqI) (use lb hb in \<open>force simp: bit_push_bit_iff bit_and_iff bit_or_iff bit_mask_iff simp del: bit_of_nat_iff_bit\<close>)
qed

text \<open>Control bytes and groups.\<close>

lemma bit_control: "bit (control ts) n \<longleftrightarrow> n < 8 \<and> n < length ts \<and> is_tag (ts ! n)"
proof (induction ts arbitrary: n)
  case (Cons t ts)
  have "bit (control (t # ts)) n \<longleftrightarrow> n = 0 \<and> is_tag t \<or> 1 \<le> n \<and> n < 8 \<and> bit (control ts) (n - 1)"
    by (simp only: control.simps bit_or_iff bit_push_bit_iff bit_of_bool_iff possible_bit_word len_num0 len_num1 len_bit0 len_bit1) auto
  then show ?case by (cases n) (auto simp: Cons.IH)
qed simp

lemma control_first: "control (t # ts) AND 1 \<noteq> 0 \<longleftrightarrow> is_tag t"
proof -
  have "control (t # ts) AND 1 = of_bool (bit (control (t # ts)) 0)" by (simp only: and_one_eq bit_0 mod2_eq_if of_bool_def) simp
  then show ?thesis by (simp add: bit_control del: control.simps)
qed

lemma control_rest: "length ts < 8 \<Longrightarrow> drop_bit 1 (control (t # ts)) = control ts"
  by (rule bit_word_eqI) (auto simp: bit_drop_bit_eq bit_control simp del: control.simps)

lemma control_snoc: "control (ts @ [t]) = control ts OR (if is_tag t then push_bit (length ts) 1 else 0)"
  by (rule bit_word_eqI) (auto simp: bit_or_iff bit_exp_iff bit_control nth_append less_Suc_eq simp del: control.simps)

lemma encode_Nil [simp]: "encode [] = []"
  by (simp add: encode.simps)

lemma encode_group: "us \<noteq> [] \<Longrightarrow> length us \<le> 8 \<Longrightarrow> encode us = group_bytes us"
  by (subst encode.simps) simp

lemma encode_append: "length ts = 8 * k \<Longrightarrow> encode (ts @ us) = encode ts @ encode us"
proof (induction k arbitrary: ts)
  case (Suc k)
  have "ts \<noteq> []" "8 \<le> length ts" "length (drop 8 ts) = 8 * k" using Suc.prems by auto
  then show ?case using Suc.IH [of "drop 8 ts"] encode.simps [of "ts @ us"] encode.simps [of ts] by simp
qed simp

lemma length_token_bytes: "1 \<le> length (token_bytes t)" "length (token_bytes t) \<le> 3"
  by (cases t; simp)+

section \<open>Decompression\<close>

text \<open>The output area after the bytes \<open>o'\<close> were written.\<close>

definition out_area :: "byte list \<Rightarrow> byte list \<Rightarrow> pglz_out" where
  "out_area o' r = \<lparr>out = o' @ r, obp = length o'\<rparr>"

lemma out_byte_run: "r \<noteq> [] \<Longrightarrow> out_byte b (out_area o' r) = (Inr (), out_area (o' @ [b]) (drop 1 r))"
  by (cases r) (auto simp: out_byte_def out_area_def)

lemma copy_loop_run:
  "1 \<le> off \<Longrightarrow> off \<le> length o' \<Longrightarrow> n \<le> length r \<Longrightarrow> copy_loop n (int off) (out_area o' r) = (Inr (), out_area (copy_back n off o') (drop n r))"
proof (induction n arbitrary: o' r)
  case (Suc n)
  have "r \<noteq> []" using Suc.prems by auto
  then have o: "out_byte b (out_area o' r) = (Inr (), out_area (o' @ [b]) (drop 1 r))" for b by (rule out_byte_run)
  have p: "nat (int (obp (out_area o' r)) - int off) = length o' - off" "0 \<le> int (obp (out_area o' r)) - int off"
    "int (obp (out_area o' r)) - int off < int (length (out (out_area o' r)))" "out (out_area o' r) ! (length o' - off) = o' ! (length o' - off)"
    using Suc.prems by (auto simp: out_area_def nth_append)
  have "copy_loop (Suc n) (int off) (out_area o' r) = copy_loop n (int off) (out_area (o' @ [o' ! (length o' - off)]) (drop 1 r))"
    using p by (simp add: bind_prog_def Let_def o)
  also have "\<dots> = (Inr (), out_area (copy_back n off (o' @ [o' ! (length o' - off)])) (drop n (drop 1 r)))"
    by (rule Suc.IH) (use Suc.prems in auto)
  finally show ?case by simp
qed simp

lemma tag_parts:
  assumes "3 \<le> len" "len \<le> 273" "off < 4096"
  shows "uint (token_bytes (Tag len off) ! 0 AND 0x0f) + 3 = (if len > 17 then 18 else int len)"
    "push_bit 4 (uint (token_bytes (Tag len off) ! 0 AND 0xf0)) OR uint (token_bytes (Tag len off) ! 1) = int off"
    "len > 17 \<Longrightarrow> uint (token_bytes (Tag len off) ! 2) = int len - 18" "length (token_bytes (Tag len off)) = (if len > 17 then 3 else 2)"
proof -
  let ?bs = "token_bytes (Tag len off)" and ?l = "if len > 17 then 15 else len - 3"
  have h: "off div 256 < 16" "?l < 16" using assms(3) by auto
  have b0: "?bs ! 0 = of_nat (off div 256 * 16 + ?l)" and b1: "?bs ! 1 = of_nat (off mod 256)" by simp_all
  show "uint (?bs ! 0 AND 0x0f) + 3 = (if len > 17 then 18 else int len)" using tag_decode(1) [OF h] b0 assms(1) by simp
  have "push_bit 4 (uint (?bs ! 0 AND 0xf0)) OR uint (?bs ! 1) = push_bit 8 (int (off div 256)) OR int (off mod 256)"
    using tag_decode(2) [OF h] b0 b1 uint_of_nat_byte [of "off mod 256"] by simp
  also have "\<dots> = int off" using or_low_bits [of "int (off mod 256)" 8 "int (off div 256)"] by (simp add: zdiv_int zmod_int)
  finally show "push_bit 4 (uint (?bs ! 0 AND 0xf0)) OR uint (?bs ! 1) = int off" .
  show "len > 17 \<Longrightarrow> uint (?bs ! 2) = int len - 18" using uint_of_nat_byte [of "len - 18"] assms(2) by simp
qed simp

lemma in_at_append: "i < length bs \<Longrightarrow> in_at (pre @ bs @ post) (length pre + i) = return_prog (bs ! i)"
  by (simp add: in_at_def nth_append)

lemma decomp_item_run:
  assumes "tokens_ok (length o') [t]" "token_size t \<le> length r" "ctl AND 1 \<noteq> 0 \<longleftrightarrow> is_tag t"
  shows "decomp_item (pre @ token_bytes t @ post) ctl (length pre) (out_area o' r) =
    (Inr (length pre + length (token_bytes t)), out_area (expand o' [t]) (drop (token_size t) r))"
proof (cases t)
  case (Lit b)
  have "r \<noteq> []" using assms(2) Lit by auto
  then show ?thesis using assms(3) in_at_append [of 0 "[b]" pre post] by (simp add: Lit decomp_item_def bind_prog_def out_byte_run)
next
  case (Tag len off)
  let ?bs = "token_bytes t"
  have ok: "3 \<le> len" "len \<le> 273" "1 \<le> off" "off \<le> length o'" "off < 4096" using assms(1) Tag by auto
  note D = tag_parts [OF ok(1,2,5), folded Tag]
  have r0: "in_at (pre @ ?bs @ post) (length pre) = return_prog (?bs ! 0)" using in_at_append [of 0 ?bs pre post] by (simp add: Tag)
  have r1: "in_at (pre @ ?bs @ post) (length pre + 1) = return_prog (?bs ! 1)" by (rule in_at_append) (simp add: Tag)
  have ext: "(if uint (?bs ! 0 AND 0x0f) + 3 = 18 then bind_prog (in_at (pre @ ?bs @ post) (length pre + 2)) (\<lambda>d2. return_prog (uint (?bs ! 0 AND 0x0f) + 3 + uint d2, length pre + 3))
      else return_prog (uint (?bs ! 0 AND 0x0f) + 3, length pre + 2)) = return_prog (int len, length pre + length ?bs)"
  proof (cases "len > 17")
    case True
    have r2: "in_at (pre @ ?bs @ post) (length pre + 2) = return_prog (?bs ! 2)" by (rule in_at_append) (simp add: D(4) True)
    show ?thesis unfolding r2 D(1,4) bind_basic_prog using D(3) True by simp
  next
    case False
    then show ?thesis unfolding D(1,4) using ok(1) by simp
  qed
  have c: "copy_loop len (int off) (out_area o' r) = (Inr (), out_area (copy_back len off o') (drop len r))"
    using copy_loop_run [of off o' len r] ok assms(2) Tag by simp
  show ?thesis using assms(3) unfolding decomp_item_def r0 r1 bind_basic_prog Let_def ext D(2)
    by (simp add: Tag bind_prog_def c)
qed

text \<open>
  The two loops over the items of a group differ in their test for the end only. A group of less than eight items ends at the end of the data.
\<close>

lemma items_run:
  "length ts \<le> n \<Longrightarrow> length ts \<le> 8 \<Longrightarrow> tokens_ok (length o') ts \<Longrightarrow> total_size ts \<le> length r \<Longrightarrow>
   length pre + length (concat (map token_bytes ts)) = dp' \<Longrightarrow> dp' = dend \<or> length ts = n \<and> dp' \<le> dend \<Longrightarrow>
   decomp_items n (pre @ concat (map token_bytes ts) @ post) dend (control ts) (length pre) (out_area o' r) = (Inr dp', out_area (expand o' ts) (drop (total_size ts) r)) \<and>
   rest_items n (pre @ concat (map token_bytes ts) @ post) dend (control ts) (length pre) (out_area o' r) = (Inr dp', out_area (expand o' ts) (drop (total_size ts) r))"
proof (induction ts arbitrary: n o' r pre)
  case Nil
  then show ?case by (cases n) auto
next
  case (Cons t ts)
  obtain m where n: "n = Suc m" using Cons.prems(1) by (cases n) auto
  have tok: "tokens_ok (length o') [t]" "tokens_ok (length o' + token_size t) ts" using Cons.prems(3) tokens_ok_one [of "length o'" t ts] by blast+
  let ?data = "pre @ concat (map token_bytes (t # ts)) @ post"
  have item: "decomp_item ?data (control (t # ts)) (length pre) (out_area o' r) =
    (Inr (length pre + length (token_bytes t)), out_area (expand o' [t]) (drop (token_size t) r))"
    using decomp_item_run [OF tok(1) _ control_first, of r pre "concat (map token_bytes ts) @ post" ts] Cons.prems(4) by simp
  have p: "length ts \<le> m" "length ts \<le> 8" "tokens_ok (length (expand o' [t])) ts" "total_size ts \<le> length (drop (token_size t) r)"
    "length (pre @ token_bytes t) + length (concat (map token_bytes ts)) = dp'" "dp' = dend \<or> length ts = m \<and> dp' \<le> dend"
    using Cons.prems(1,2,4-6) tok(2) n by simp_all
  have IH: "decomp_items m ((pre @ token_bytes t) @ concat (map token_bytes ts) @ post) dend (control ts) (length (pre @ token_bytes t)) (out_area (expand o' [t]) (drop (token_size t) r)) =
      (Inr dp', out_area (expand (expand o' [t]) ts) (drop (total_size ts) (drop (token_size t) r))) \<and>
    rest_items m ((pre @ token_bytes t) @ concat (map token_bytes ts) @ post) dend (control ts) (length (pre @ token_bytes t)) (out_area (expand o' [t]) (drop (token_size t) r)) =
      (Inr dp', out_area (expand (expand o' [t]) ts) (drop (total_size ts) (drop (token_size t) r)))"
    by (rule Cons.IH [OF p])
  have data: "(pre @ token_bytes t) @ concat (map token_bytes ts) @ post = ?data" "length (pre @ token_bytes t) = length pre + length (token_bytes t)" by simp_all
  note IH1 = IH [unfolded data, THEN conjunct1] and IH2 = IH [unfolded data, THEN conjunct2]
  have d: "length pre < dend" using Cons.prems(5,6) length_token_bytes(1) [of t] by auto
  then have d': "length pre \<noteq> dend" by simp
  have c: "drop_bit 1 (control (t # ts)) = control ts" using Cons.prems(2) by (intro control_rest) simp
  have s: "drop (total_size (t # ts)) r = drop (total_size ts) (drop (token_size t) r)" by (simp add: add.commute)
  show ?case
    by (intro conjI; simp only: n decomp_items.simps rest_items.simps if_P [OF d] if_not_P [OF d'] bind_prog_def item prod.case sum.case c s IH1 IH2 expand_one [of o' t ts])
qed

lemma loop_run:
  "length ts < n \<Longrightarrow> tokens_ok (length o') ts \<Longrightarrow> total_size ts \<le> length r \<Longrightarrow> dend = length pre + length (encode ts) \<Longrightarrow>
   decomp_loop n (pre @ encode ts @ post) dend (length pre) (out_area o' r) = (Inr (), out_area (expand o' ts) (drop (total_size ts) r)) \<and>
   rest_loop n (pre @ encode ts @ post) dend (length pre) (out_area o' r) = (Inr (), out_area (expand o' ts) (drop (total_size ts) r))"
proof (induction n arbitrary: ts o' r pre)
  case (Suc n)
  show ?case
  proof (cases "ts = []")
    case True
    then show ?thesis using Suc.prems by simp
  next
    case False
    define us where "us = take 8 ts"
    define vs where "vs = drop 8 ts"
    have uv: "ts = us @ vs" "us \<noteq> []" "length us \<le> 8" "length us = 8 \<or> vs = []" "0 < length us" using False by (auto simp: us_def vs_def)
    have "length ts = length us + length vs" by (simp add: uv(1))
    then have vn: "length vs < n" using Suc.prems(1) uv(5) by linarith
    have e: "encode ts = control us # concat (map token_bytes us) @ encode vs"
      using False by (subst encode.simps) (simp add: us_def vs_def group_bytes_def)
    let ?data = "pre @ encode ts @ post" and ?pre = "pre @ [control us]"
    have data: "?data = ?pre @ concat (map token_bytes us) @ (encode vs @ post)" using e by simp
    have data2: "?data = (?pre @ concat (map token_bytes us)) @ encode vs @ post" using e by simp
    have tok: "tokens_ok (length o') us" "tokens_ok (length (expand o' us)) vs" using Suc.prems(2) uv(1) by (auto simp: tokens_ok_append)
    let ?dp = "length ?pre + length (concat (map token_bytes us))"
    have ii: "decomp_items 8 ?data dend (control us) (length ?pre) (out_area o' r) = (Inr ?dp, out_area (expand o' us) (drop (total_size us) r)) \<and>
      rest_items 8 ?data dend (control us) (length ?pre) (out_area o' r) = (Inr ?dp, out_area (expand o' us) (drop (total_size us) r))"
      unfolding data by (rule items_run) (use uv tok Suc.prems(3,4) e in auto)
    have ll: "decomp_loop n ?data dend (length (?pre @ concat (map token_bytes us))) (out_area (expand o' us) (drop (total_size us) r)) =
        (Inr (), out_area (expand (expand o' us) vs) (drop (total_size vs) (drop (total_size us) r))) \<and>
      rest_loop n ?data dend (length (?pre @ concat (map token_bytes us))) (out_area (expand o' us) (drop (total_size us) r)) =
        (Inr (), out_area (expand (expand o' us) vs) (drop (total_size vs) (drop (total_size us) r)))"
      unfolding data2 by (rule Suc.IH) (use vn uv(1) tok(2) Suc.prems e in auto)
    have c: "in_at ?data (length pre) = return_prog (control us)" using in_at_append [of 0 "encode ts" pre post] e by simp
    have d: "length pre < dend" using Suc.prems(4) e by simp
    have w: "out_area (expand o' ts) (drop (total_size ts) r) = out_area (expand (expand o' us) vs) (drop (total_size vs) (drop (total_size us) r))"
      by (simp add: uv(1) expand_append add.commute)
    show ?thesis using ii ll d unfolding w decomp_loop.simps rest_loop.simps c by (simp add: bind_prog_def)
  qed
qed simp
end
