(* ===== verification/Lz_Output.thy ===== *)
theory Lz_Output
  imports Lz_Format
begin

text \<open>
  The output of the compressor: the main loop never leaves the output area if that is three bytes longer than the input, and what it
  writes are the bytes of a sequence of items that stands for the input. What \<^verbatim>\<open>pglz_compress\<close> stores is the input or such a sequence,
  and \<^verbatim>\<open>pglz_decompress\<close> gives the input back.
\<close>

section \<open>The output of the compressor\<close>

definition same_history :: "pglz \<Rightarrow> pglz \<Rightarrow> bool" where
  "same_history st st' \<longleftrightarrow> hist_start st' = hist_start st \<and> hist_entries st' = hist_entries st \<and> hist_next st' = hist_next st \<and> hist_recycle st' = hist_recycle st"

lemma same_history_ok: "same_history st st' \<Longrightarrow> hist_ok dp st \<Longrightarrow> hist_ok dp st'"
  by (auto simp: same_history_def hist_ok_def)

text \<open>The groups \<open>ts\<close> are complete, the items \<open>us\<close> of the current group are written and its control byte is kept in \<^verbatim>\<open>ctrlb\<close>.\<close>

definition open_group :: "token list \<Rightarrow> token list \<Rightarrow> pglz \<Rightarrow> bool" where
  "open_group ts us st \<longleftrightarrow> (\<exists>k. length ts = 8 * k) \<and> length us \<le> 8 \<and> bp st \<le> length (dest st) \<and> ctrlp st = Some (length (encode ts)) \<and>
     ctrlb st = control us \<and> ctrl st = push_bit (length us) 1 \<and> (\<exists>x. take (bp st) (dest st) = encode ts @ x # concat (map token_bytes us))"

definition emitted :: "token list \<Rightarrow> pglz \<Rightarrow> bool" where
  "emitted ts st \<longleftrightarrow> ts = [] \<and> ctrlp st = None \<and> ctrl st = 0 \<and> bp st = 0 \<or> (\<exists>us vs. ts = us @ vs \<and> vs \<noteq> [] \<and> open_group us vs st)"

lemma emitted_cong: "same_output st st' \<Longrightarrow> emitted ts st \<Longrightarrow> emitted ts st'"
  by (simp add: same_output_def emitted_def open_group_def)

lemma store_ctrl_run:
  assumes "open_group ts us st" "us \<noteq> []"
  shows "store_ctrl st = (Inr (), st\<lparr>dest := (dest st)[length (encode ts) := control us]\<rparr>)"
    "take (bp st) ((dest st)[length (encode ts) := control us]) = encode (ts @ us)"
proof -
  obtain k x where o: "length ts = 8 * k" "length us \<le> 8" "bp st \<le> length (dest st)" "ctrlp st = Some (length (encode ts))" "ctrlb st = control us"
    "take (bp st) (dest st) = encode ts @ x # concat (map token_bytes us)"
    using assms(1) by (auto simp: open_group_def)
  have "length (take (bp st) (dest st)) = bp st" using o(3) by simp
  then have lt: "length (encode ts) < bp st" using o(6) by simp
  then show "store_ctrl st = (Inr (), st\<lparr>dest := (dest st)[length (encode ts) := control us]\<rparr>)"
    using o(3-5) by (simp add: store_ctrl_def dest_set_def)
  have "encode (ts @ us) = encode ts @ group_bytes us" using encode_append [OF o(1)] encode_group [OF assms(2) o(2)] by simp
  then show "take (bp st) ((dest st)[length (encode ts) := control us]) = encode (ts @ us)"
    using o(6) by (simp add: take_update_swap group_bytes_def list_update_append)
qed

lemma pglz_out_ctrl_run:
  assumes "emitted ts st" "bp st < length (dest st)"
  obtains us vs st' where "pglz_out_ctrl st = (Inr (), st')" "ts = us @ vs" "length vs < 8" "open_group us vs st'" "same_history st st'"
    "length (dest st') = length (dest st)" "bp st' \<le> bp st + 1"
proof (cases "ctrl st = 0")
  case False
  then obtain us vs where o: "ts = us @ vs" "open_group us vs st" using assms(1) by (auto simp: emitted_def)
  then have "ctrl st = push_bit (length vs) 1" "length vs \<le> 8" by (auto simp: open_group_def)
  then have "length vs < 8" using False by (cases "length vs = 8") (auto simp: push_bit_eq_mult)
  then show ?thesis using that [of st us vs] o False by (auto simp: pglz_out_ctrl_def same_history_def)
next
  case True
  note result = that
  let ?f = "\<lambda>st. st\<lparr>ctrlp := Some (bp st), bp := bp st + 1, ctrlb := 0, ctrl := 1\<rparr>"
  have *: thesis if s: "store_ctrl st = (Inr (), st\<lparr>dest := d\<rparr>)" "take (bp st) d = encode ts" "length d = length (dest st)" and k: "length ts = 8 * k" for d k
  proof (rule result [of "?f (st\<lparr>dest := d\<rparr>)" ts "[]"])
    show "pglz_out_ctrl st = (Inr (), ?f (st\<lparr>dest := d\<rparr>))" using True s(1) by (simp add: pglz_out_ctrl_def bind_prog_def)
    have bp: "bp st = length (encode ts)" using s(2,3) assms(2) by (metis length_take less_imp_le min.absorb2)
    have "take (Suc (bp st)) d = encode ts @ [d ! bp st]" using s(2,3) assms(2) by (simp add: take_Suc_conv_app_nth)
    then show "open_group ts [] (?f (st\<lparr>dest := d\<rparr>))" using k s(3) assms(2) bp by (auto simp: open_group_def)
  qed (use s(3) in \<open>auto simp: same_history_def\<close>)
  show ?thesis
  proof (cases "ts = []")
    case T: True
    have "ctrlp st = None \<and> bp st = 0" using assms(1) T by (auto simp: emitted_def)
    then show ?thesis using * [of "dest st" 0] T by (simp add: store_ctrl_def)
  next
    case F: False
    then obtain us vs where o: "ts = us @ vs" "vs \<noteq> []" "open_group us vs st" using assms(1) by (auto simp: emitted_def)
    then have c: "ctrl st = push_bit (length vs) 1" "length vs \<le> 8" by (auto simp: open_group_def)
    have "bit (ctrl st) (length vs)" if "length vs < 8" using that by (simp add: c(1) bit_exp_iff)
    then have "length vs = 8" using True c(2) by (cases "length vs < 8") auto
    moreover obtain k where "length us = 8 * k" using o(3) by (auto simp: open_group_def)
    ultimately have "length ts = 8 * Suc k" using o(1) by simp
    then show ?thesis using * [OF _ _ _ _] store_ctrl_run [OF o(3,2)] o(1) by (metis length_list_update)
  qed
qed

lemma put_byte_run: "bp st < length (dest st) \<Longrightarrow> put_byte b st = (Inr (), st\<lparr>dest := (dest st)[bp st := b], bp := Suc (bp st)\<rparr>)"
  by (simp add: put_byte_def dest_set_def bind_prog_def)

lemma put_bytes_run:
  "bp st + 2 \<le> length (dest st) \<Longrightarrow> bind_prog (put_byte a) (\<lambda>_. put_byte b) st = (Inr (), st\<lparr>dest := mem_write (bp st) [a, b] (dest st), bp := bp st + 2\<rparr>)"
  "bp st + 3 \<le> length (dest st) \<Longrightarrow> bind_prog (put_byte a) (\<lambda>_. bind_prog (put_byte b) (\<lambda>_. put_byte c)) st =
     (Inr (), st\<lparr>dest := mem_write (bp st) [a, b, c] (dest st), bp := bp st + 3\<rparr>)"
  by (simp_all add: bind_prog_def put_byte_run)

lemma take_put: "n < length d \<Longrightarrow> take (Suc n) (d[n := b]) = take n d @ [b]"
  by (simp add: take_Suc_conv_app_nth)

lemma open_group_snoc:
  assumes "open_group us vs st" "length vs < 8" "length (dest st') = length (dest st)" "bp st' \<le> length (dest st)"
    "take (bp st') (dest st') = take (bp st) (dest st) @ token_bytes t" "ctrlp st' = ctrlp st"
    "ctrlb st' = (if is_tag t then ctrlb st OR ctrl st else ctrlb st)" "ctrl st' = push_bit 1 (ctrl st)"
  shows "emitted ((us @ vs) @ [t]) st'"
proof -
  have "control (vs @ [t]) = ctrlb st'" using assms(1,7) by (simp add: open_group_def control_snoc)
  moreover have "ctrl st' = push_bit (length (vs @ [t])) 1" using assms(1,8) by (simp add: open_group_def push_bit_push_bit)
  ultimately have "open_group us (vs @ [t]) st'" using assms by (auto simp: open_group_def simp del: push_bit_of_1)
  then show ?thesis by (auto simp: emitted_def)
qed

lemma pglz_out_literal_run:
  assumes "emitted ts st" "bp st + 2 \<le> length (dest st)"
  obtains st' where "pglz_out_literal b st = (Inr (), st')" "emitted (ts @ [Lit b]) st'" "same_history st st'" "length (dest st') = length (dest st)"
proof -
  obtain us vs st1 where 1: "pglz_out_ctrl st = (Inr (), st1)" "ts = us @ vs" "length vs < 8" "open_group us vs st1" "same_history st st1"
    "length (dest st1) = length (dest st)" "bp st1 \<le> bp st + 1"
    by (rule pglz_out_ctrl_run [OF assms(1)]) (use assms(2) in auto)
  have bp: "bp st1 < length (dest st1)" using 1(6,7) assms(2) by simp
  let ?st = "st1\<lparr>dest := (dest st1)[bp st1 := b], bp := Suc (bp st1), ctrl := push_bit 1 (ctrl st1)\<rparr>"
  have A: "pglz_out_literal b st = (Inr (), ?st)" by (simp add: pglz_out_literal_def bind_prog_def 1(1) put_byte_run [OF bp])
  have B: "emitted (ts @ [Lit b]) ?st" unfolding 1(2)
    by (rule open_group_snoc [OF 1(4,3)]) (use bp in \<open>simp_all add: take_put\<close>)
  show ?thesis by (rule that [OF A B]) (use 1(5,6) in \<open>simp_all add: same_history_def\<close>)
qed

lemma pglz_out_tag_run:
  assumes "emitted ts st" "bp st + 4 \<le> length (dest st)" "3 \<le> len" "len \<le> 273" "off < 4096"
  obtains st' where "pglz_out_tag (int len) (int off) st = (Inr (), st')" "emitted (ts @ [Tag len off]) st'" "same_history st st'" "length (dest st') = length (dest st)"
proof -
  obtain us vs st1 where 1: "pglz_out_ctrl st = (Inr (), st1)" "ts = us @ vs" "length vs < 8" "open_group us vs st1" "same_history st st1"
    "length (dest st1) = length (dest st)" "bp st1 \<le> bp st + 1"
    by (rule pglz_out_ctrl_run [OF assms(1)]) (use assms(2) in auto)
  let ?n = "bp st1" and ?st2 = "st1\<lparr>ctrlb := ctrlb st1 OR ctrl st1, ctrl := push_bit 1 (ctrl st1)\<rparr>" and ?t = "token_bytes (Tag len off)"
  have bp: "?n + 3 \<le> length (dest st1)" using 1(6,7) assms(2) by simp
  have low: "word_of_int (int off AND 0xff) = (of_nat (off mod 256) :: byte)"
  proof -
    have "int off AND 0xff = int (off mod 256)" using take_bit_eq_mask [of 8 "int off"] by (simp add: mask_eq_exp_minus_1 take_bit_eq_mod zmod_int)
    then show ?thesis by (simp only: of_int_of_nat_eq)
  qed
  have run: "pglz_out_tag (int len) (int off) st = (Inr (), ?st2\<lparr>dest := mem_write ?n ?t (dest st1), bp := ?n + length ?t\<rparr>)"
  proof (cases "len > 17")
    case True
    have w: "word_of_int (int len - 18) = (of_nat (len - 18) :: byte)" using True by (simp add: of_nat_diff)
    have t: "?t = [word_of_int (drop_bit 4 (int off AND 0xf00) OR 0x0f), word_of_int (int off AND 0xff), word_of_int (int len - 18)]"
      using True tag_byte [OF assms(5), of 15] unfolding w low by simp
    show ?thesis using True bp put_bytes_run(2) [of ?st2] unfolding t pglz_out_tag_def by (simp add: bind_prog_simps(2) [of pglz_out_ctrl, OF 1(1)])
  next
    case False
    have w: "int len - 3 = int (len - 3)" "len - 3 < 16" using False assms(3) by auto
    have t: "?t = [word_of_int (drop_bit 4 (int off AND 0xf00) OR (int len - 3)), word_of_int (int off AND 0xff)]"
      using False tag_byte [OF assms(5) w(2)] unfolding w(1) low by simp
    show ?thesis using False bp put_bytes_run(1) [of ?st2] unfolding t pglz_out_tag_def by (simp add: bind_prog_simps(2) [of pglz_out_ctrl, OF 1(1)])
  qed
  have l: "length ?t \<le> 3" by (rule length_token_bytes)
  have w: "take (?n + length ?t) (mem_write ?n ?t (dest st1)) = take ?n (dest st1) @ ?t"
    by (rule nth_equalityI) (use bp l in \<open>auto simp: nth_mem_write nth_append simp del: token_bytes.simps\<close>)
  have B: "emitted (ts @ [Tag len off]) (?st2\<lparr>dest := mem_write ?n ?t (dest st1), bp := ?n + length ?t\<rparr>)" unfolding 1(2)
    by (rule open_group_snoc [OF 1(4,3)]) (use bp l w in \<open>simp_all del: token_bytes.simps\<close>)
  show ?thesis by (rule that [OF run B]) (use 1(5,6) in \<open>simp_all add: same_history_def\<close>)
qed

section \<open>Compression\<close>

lemma comp_loop_run:
  assumes "result_max \<le> int (length source)"
  shows "length source - dp < n \<Longrightarrow> dp \<le> length source \<Longrightarrow> hist_ok dp st \<Longrightarrow> emitted ts st \<Longrightarrow> length source + 3 \<le> length (dest st) \<Longrightarrow>
    tokens_ok 0 ts \<Longrightarrow> expand [] ts = take dp source \<Longrightarrow>
    \<exists>r st'. comp_loop n source result_max good_match good_drop dp st = (Inr r, st') \<and> length (dest st') = length (dest st) \<and>
      (r \<longrightarrow> (\<exists>ts. emitted ts st' \<and> tokens_ok 0 ts \<and> expand [] ts = source))"
proof (induction n arbitrary: dp st ts)
  case (Suc n)
  consider "dp = length source" | "dp < length source" "int (bp st) \<ge> result_max" | "dp < length source" "int (bp st) < result_max" using Suc.prems(2) by linarith
  then show ?case
  proof cases
    case 3
    have room: "bp st + 4 \<le> length (dest st)" using 3 assms Suc.prems(5) by linarith
    have size: "0 + total_size ts = dp" using arg_cong [OF Suc.prems(7), of length] Suc.prems(2) by simp
    obtain m where m: "pglz_find_match source dp good_match good_drop st = (Inr m, st)"
      "case m of None \<Rightarrow> True | Some (len, off) \<Rightarrow> \<exists>l f. len = int l \<and> off = int f \<and> 3 \<le> l \<and> is_match source dp l f"
      using pglz_find_match_run [OF Suc.prems(3,2)] by blast
    show ?thesis
    proof (cases m)
      case None
      obtain st1 where 1: "pglz_out_literal (source ! dp) st = (Inr (), st1)" "emitted (ts @ [Lit (source ! dp)]) st1" "same_history st st1" "length (dest st1) = length (dest st)"
        by (rule pglz_out_literal_run [OF Suc.prems(4)]) (use room in auto)
      obtain st2 where 2: "pglz_hist_add source dp st1 = (Inr (), st2)" "hist_ok (Suc dp) st2" "same_output st1 st2"
        by (rule pglz_hist_add_run [OF same_history_ok [OF 1(3) Suc.prems(3)]])
      have l: "length (dest st2) = length (dest st)" using 1(4) 2(3) by (simp add: same_output_def)
      have run: "comp_loop (Suc n) source result_max good_match good_drop dp st = comp_loop n source result_max good_match good_drop (Suc dp) st2"
        using 3 by (simp add: bind_prog_def m(1) None 1(1) 2(1))
      have "expand [] (ts @ [Lit (source ! dp)]) = take (Suc dp) source" using 3(1) Suc.prems(7) by (simp add: expand_append take_Suc_conv_app_nth)
      moreover have "tokens_ok 0 (ts @ [Lit (source ! dp)])" using Suc.prems(6) by (simp add: tokens_ok_append)
      ultimately show ?thesis using Suc.IH [of "Suc dp" st2 "ts @ [Lit (source ! dp)]"] 2(2) emitted_cong [OF 2(3) 1(2)] l Suc.prems(1,5) 3(1)
        unfolding run by simp
    next
      case (Some p)
      obtain l f where lf: "m = Some (int l, int f)" "3 \<le> l" "is_match source dp l f" using m(2) Some by auto
      then have M: "1 \<le> f" "f \<le> dp" "f < 0xfff" "l \<le> 273" "dp + l \<le> length source" "\<forall>i<l. source ! (dp + i) = source ! (dp - f + i)" by (auto simp: is_match_def)
      have f: "f < 4096" using M(3) by simp
      obtain st1 where 1: "pglz_out_tag (int l) (int f) st = (Inr (), st1)" "emitted (ts @ [Tag l f]) st1" "same_history st st1" "length (dest st1) = length (dest st)"
        by (rule pglz_out_tag_run [OF Suc.prems(4) room lf(2) M(4) f])
      obtain st2 where 2: "hist_add_loop source dp l st1 = (Inr (), st2)" "hist_ok (dp + l) st2" "same_output st1 st2"
        using hist_add_loop_run [OF same_history_ok [OF 1(3) Suc.prems(3)]] by blast
      have len: "length (dest st2) = length (dest st)" using 1(4) 2(3) by (simp add: same_output_def)
      have run: "comp_loop (Suc n) source result_max good_match good_drop dp st = comp_loop n source result_max good_match good_drop (dp + l) st2"
        using 3 by (simp add: bind_prog_def m(1) lf(1) 1(1) 2(1))
      have "expand [] (ts @ [Tag l f]) = take (dp + l) source" using copy_back_match [OF M(1,2,5,6)] Suc.prems(7) by (simp add: expand_append)
      moreover have "tokens_ok 0 (ts @ [Tag l f])" using Suc.prems(6) lf(2) M f size by (simp add: tokens_ok_append)
      ultimately show ?thesis using Suc.IH [of "dp + l" st2 "ts @ [Tag l f]"] 2(2) emitted_cong [OF 2(3) 1(2)] len Suc.prems(1,5) M(5) lf(2)
        unfolding run by simp
    qed
  qed (use Suc.prems(4,6,7) in auto)
qed simp
section \<open>Compression and decompression\<close>

lemma sdiv_100_nonneg: "0 \<le> x \<Longrightarrow> 0 \<le> x sdiv 100" for x :: int
  by (cases "x = 0") (simp_all add: signed_divide_int_def)

text \<open>
  The product of the size and the rate does not overflow, or the size is at least the one from which on the rate is not asked for.
\<close>

definition rate_exact :: "PGLZ_Strategy option \<Rightarrow> nat \<Rightarrow> bool" where
  "rate_exact strategy n \<longleftrightarrow> (let s = (case strategy of None \<Rightarrow> PGLZ_strategy_default | Some s \<Rightarrow> s)
     in force_input_size s \<le> int n \<or> int n * need_rate s < 2 ^ 31)"

lemma result_limit_le:
  assumes "force_input_size s \<le> int n \<or> int n * need_rate s < 2 ^ 31"
  shows "result_limit s (int n) \<le> int n"
proof (cases "force_input_size s \<le> int n")
  case False
  then have r: "int n * need_rate s < 2 ^ 31" "0 \<le> int n * need_rate s" using assms by (simp_all add: need_rate_def)
  have "0 \<le> sint (word_of_int (int n * need_rate s) :: 32 word) sdiv 100"
    by (intro sdiv_100_nonneg) (subst sint_word_of_int_32; use r in simp)
  then show ?thesis using False by (simp add: result_limit_def)
qed (simp add: result_limit_def)

lemma varatt_size: "0 \<le> varsize h \<Longrightarrow> varsize h < 2 ^ 30 \<Longrightarrow> VARATT_SIZE h = varsize h"
proof -
  assume r: "0 \<le> varsize h" "varsize h < 2 ^ 30"
  have "(0x3fffffff :: int) = mask 30" by (simp add: mask_eq_exp_minus_1)
  then have "VARATT_SIZE h = take_bit 30 (varsize h)" by (simp add: VARATT_SIZE_def take_bit_eq_mask)
  then show "VARATT_SIZE h = varsize h" using r by (simp add: take_bit_int_eq_self)
qed

lemma copy_source_run:
  assumes "length source \<le> length (dest st)"
  obtains st' where "copy_source source st = (Inr \<lparr>varsize = int (length source) + sizeof_PGLZ_Header, rawsize = int (length source)\<rparr>, st')"
    "take (length source) (dest st') = source" "length (dest st') = length (dest st)"
proof (rule that)
  let ?st = "st\<lparr>dest := mem_write 0 source (dest st)\<rparr>"
  show "copy_source source st = (Inr \<lparr>varsize = int (length source) + sizeof_PGLZ_Header, rawsize = int (length source)\<rparr>, ?st)"
    using assms by (simp add: copy_source_def)
  show "take (length source) (dest ?st) = source" using mem_read_write_same [of 0 source "dest st"] assms by (simp add: mem_read_def)
qed simp

text \<open>The result is the input itself, or a shorter sequence of items that stands for it.\<close>

definition compressed_as :: "byte list \<Rightarrow> PGLZ_Header \<Rightarrow> byte list \<Rightarrow> bool" where
  "compressed_as source h data \<longleftrightarrow> rawsize h = int (length source) \<and>
     (varsize h = int (length source) + sizeof_PGLZ_Header \<and> data = source \<or>
      (\<exists>ts. tokens_ok 0 ts \<and> expand [] ts = source \<and> length (encode ts) < length source \<and> varsize h = int (length (encode ts)) + sizeof_PGLZ_Header \<and> data = encode ts))"

lemma pglz_compress_run:
  assumes "length (hist_entries st) = PGLZ_HISTORY_SIZE" "length source + 3 \<le> length (dest st)" "rate_exact strategy (length source)"
  obtains h st' where "pglz_compress source strategy st = (Inr h, st')" "length (dest st') = length (dest st)"
    "compressed_as source h (take (nat (varsize h - sizeof_PGLZ_Header)) (dest st'))"
proof -
  define s where "s = (case strategy of None \<Rightarrow> PGLZ_strategy_default | Some s \<Rightarrow> s)"
  define slen where "slen = int (length source)"
  define lim where "lim = result_limit s slen"
  define gm where "gm = (let g = (if match_size_good s > PGLZ_MAX_MATCH then PGLZ_MAX_MATCH else match_size_good s) in if g < 17 then 17 else g)"
  define gd where "gd = (let d = (if match_size_drop s < 0 then 0 else match_size_drop s) in if d > 100 then 100 else d)"
  define st0 where "st0 = st\<lparr>hist_start := replicate PGLZ_HISTORY_LISTS None, hist_next := 0, hist_recycle := False, bp := 0, ctrlp := None, ctrlb := 0, ctrl := 0\<rparr>"
  have lim: "lim \<le> int (length source)" using result_limit_le [of s "length source"] assms(3) by (simp add: lim_def slen_def rate_exact_def s_def Let_def)
  note result = that
  have copy: thesis if c: "pglz_compress source strategy st = copy_source source st1" "length (dest st1) = length (dest st)" for st1
  proof -
    let ?h = "\<lparr>varsize = int (length source) + sizeof_PGLZ_Header, rawsize = int (length source)\<rparr>"
    obtain st2 where C: "copy_source source st1 = (Inr \<lparr>varsize = int (length source) + sizeof_PGLZ_Header, rawsize = int (length source)\<rparr>, st2)"
      "take (length source) (dest st2) = source" "length (dest st2) = length (dest st1)"
      using copy_source_run [of source st1] c(2) assms(2) by auto
    have "compressed_as source ?h (take (nat (varsize ?h - sizeof_PGLZ_Header)) (dest st2))" using C(2) by (simp add: compressed_as_def)
    then show ?thesis by (rule result [rotated 2]) (use c C in simp_all)
  qed
  show ?thesis
  proof (cases "match_size_good s = 0 \<or> slen < min_input_size s")
    case True
    then show ?thesis using copy [of st] by (simp add: pglz_compress_def s_def slen_def Let_def)
  next
    case False
    have "hist_lists (hist_start st0) (hist_entries st0) (\<lambda>_. []) 0" using assms(1) by (simp add: hist_lists_def st0_def)
    then have ok: "hist_ok 0 st0" by (auto simp: hist_ok_def st0_def listed_def PGLZ_HISTORY_SIZE_def)
    have "emitted [] st0" "length source + 3 \<le> length (dest st0)" using assms(2) by (simp_all add: emitted_def st0_def)
    from comp_loop_run [OF lim _ _ ok this, of "Suc (length source)" gm gd]
    obtain r st1 where 1: "comp_loop (Suc (length source)) source lim gm gd 0 st0 = (Inr r, st1)" "length (dest st1) = length (dest st0)"
      "r \<longrightarrow> (\<exists>ts. emitted ts st1 \<and> tokens_ok 0 ts \<and> expand [] ts = source)" by auto
    have run: "pglz_compress source strategy st = (if r then bind_prog store_ctrl (\<lambda>_ st. if int (bp st) \<ge> lim then copy_source source st
        else (Inr \<lparr>varsize = int (bp st) + sizeof_PGLZ_Header, rawsize = slen\<rparr>, st)) st1 else copy_source source st1)"
      using False 1(1) by (simp add: pglz_compress_def s_def [symmetric] slen_def [symmetric] lim_def [symmetric] gm_def [symmetric] gd_def [symmetric] st0_def [symmetric] bind_prog_def)
    have l1: "length (dest st1) = length (dest st)" using 1(2) by (simp add: st0_def)
    show ?thesis
    proof (cases r)
      case F: False
      then show ?thesis using copy [of st1] run l1 by simp
    next
      case T: True
      then obtain ts where ts: "emitted ts st1" "tokens_ok 0 ts" "expand [] ts = source" using 1(3) by blast
      obtain d where d: "store_ctrl st1 = (Inr (), st1\<lparr>dest := d\<rparr>)" "take (bp st1) d = encode ts" "length d = length (dest st1)" "bp st1 \<le> length (dest st1)"
      proof (cases "ts = []")
        case True
        then show ?thesis using that [of "dest st1"] ts(1) by (auto simp: emitted_def store_ctrl_def)
      next
        case F: False
        then obtain us vs where "ts = us @ vs" "vs \<noteq> []" "open_group us vs st1" using ts(1) by (auto simp: emitted_def)
        then show ?thesis using that store_ctrl_run [of us vs st1] by (auto simp: open_group_def)
      qed
      have bp: "bp st1 = length (encode ts)" using d(2-4) by (metis length_take min.absorb2)
      show ?thesis
      proof (cases "int (bp st1) \<ge> lim")
        case True
        then show ?thesis using copy [of "st1\<lparr>dest := d\<rparr>"] run T d l1 by (simp add: bind_prog_def)
      next
        case N: False
        let ?h = "\<lparr>varsize = int (bp st1) + sizeof_PGLZ_Header, rawsize = slen\<rparr>" and ?st = "st1\<lparr>dest := d\<rparr>"
        have A: "pglz_compress source strategy st = (Inr ?h, ?st)" using run T d(1) N by (simp add: bind_prog_def)
        have "length (encode ts) < length source" using N lim bp by simp
        then have "compressed_as source ?h (take (nat (varsize ?h - sizeof_PGLZ_Header)) (dest ?st))"
          using ts(2,3) d(2) bp unfolding compressed_as_def slen_def by auto
        then show ?thesis by (rule result [OF A, rotated]) (use d(3) l1 in simp)
      qed
    qed
  qed
qed

lemma length_encode: "length ts \<le> length (encode ts)"
proof (induction ts rule: encode.induct)
  case (1 ts)
  show ?case
  proof (cases "ts = []")
    case False
    have "length us \<le> length (concat (map token_bytes us))" for us
    proof (induction us)
      case (Cons t us)
      then show ?case using length_token_bytes(1) [of t] by simp
    qed simp
    then have "length (take 8 ts) \<le> length (group_bytes (take 8 ts))" by (simp add: group_bytes_def le_SucI del: length_take)
    moreover have "length ts = length (take 8 ts) + length (drop 8 ts)" by simp
    moreover have "length (encode ts) = length (group_bytes (take 8 ts)) + length (encode (drop 8 ts))" using False by (subst encode.simps) simp
    ultimately show ?thesis using 1 [OF False] by linarith
  qed simp
qed

lemma pglz_decompress_run:
  assumes "compressed_as source h data" "length source \<le> length (out o')" "length source + 8 < 2 ^ 30"
  shows "\<exists>o''. pglz_decompress h (data @ junk) o' = (Inr (int (length source)), o'') \<and> out o'' = source @ drop (length source) (out o')"
proof (cases "varsize h = rawsize h + sizeof_PGLZ_Header")
  case True
  have v: "VARATT_SIZE h = varsize h" by (rule varatt_size) (use assms(1,3) True in \<open>auto simp: compressed_as_def sizeof_PGLZ_Header_def\<close>)
  have "data = source" "rawsize h = int (length source)" using True assms(1) by (auto simp: compressed_as_def)
  moreover have "mem_write 0 source (out o') = source @ drop (length source) (out o')"
    by (rule nth_equalityI) (use assms(2) in \<open>auto simp: nth_mem_write nth_append\<close>)
  ultimately show ?thesis using True assms(2) by (simp add: pglz_decompress_def mem_read_def v)
next
  case False
  then obtain ts where ts: "tokens_ok 0 ts" "expand [] ts = source" "varsize h = int (length (encode ts)) + sizeof_PGLZ_Header" "data = encode ts"
    and short: "length (encode ts) < length source" using assms(1) by (auto simp: compressed_as_def)
  have v: "VARATT_SIZE h = varsize h" by (rule varatt_size) (use assms(3) ts(3) short in \<open>simp_all add: sizeof_PGLZ_Header_def\<close>)
  have "total_size ts = length source" using arg_cong [OF ts(2), of length] by simp
  then have "decomp_loop (Suc (length (data @ junk))) ([] @ encode ts @ junk) (length (encode ts)) (length ([] :: byte list)) (out_area [] (out o')) =
    (Inr (), out_area source (drop (length source) (out o')))"
    using loop_run [of ts "Suc (length (data @ junk))" "[]" "out o'" "length (encode ts)" "[]" junk] ts assms(2) length_encode [of ts] by (simp del: decomp_loop.simps)
  moreover have "o'\<lparr>obp := 0\<rparr> = out_area [] (out o')" by (simp add: out_area_def)
  ultimately have L: "decomp_loop (Suc (length (data @ junk))) (data @ junk) (length (encode ts)) 0 (o'\<lparr>obp := 0\<rparr>) = (Inr (), out_area source (drop (length source) (out o')))"
    using ts(4) by (simp only: append_Nil list.size)
  have "nat (varsize h - sizeof_PGLZ_Header) = length (encode ts)" using ts(3) by simp
  with False show ?thesis by (simp add: pglz_decompress_def v bind_prog_def L out_area_def del: decomp_loop.simps length_append)
qed
end
