(* ===== verification/Lz_Properties.thy ===== *)
theory Lz_Properties
  imports Lz_Output
begin

text \<open>
  The decompression of one character at a time as a source of characters, and the properties of the compression: the round trip
  through both decompressors, and the input for which the documented size of the output area is too small.
\<close>

section \<open>Reading one character at a time\<close>

text \<open>
  The contract of a source of characters: \<open>rest s bs\<close> says that the bytes \<open>bs\<close> are still to come. Each call returns the next one,
  and \<^verbatim>\<open>EOF\<close> when there is none.
\<close>

primrec getchars :: "('s, int) prog \<Rightarrow> nat \<Rightarrow> ('s, int list) prog" where
  "getchars get 0 = return_prog []"
| "getchars get (Suc n) = bind_prog get (\<lambda>c. bind_prog (getchars get n) (\<lambda>cs. return_prog (c # cs)))"

locale char_source =
  fixes get :: "('s, int) prog" and rest :: "'s \<Rightarrow> byte list \<Rightarrow> bool"
  assumes next_char: "rest s (b # bs) \<Longrightarrow> \<exists>s'. get s = (Inr (uint b), s') \<and> rest s' bs"
    and at_end: "rest s [] \<Longrightarrow> \<exists>s'. get s = (Inr (- 1), s') \<and> rest s' []"
begin

lemma getchars_end: "rest s [] \<Longrightarrow> \<exists>s'. getchars get k s = (Inr (replicate k (- 1)), s') \<and> rest s' []"
proof (induction k arbitrary: s)
  case (Suc k)
  obtain s1 where 1: "get s = (Inr (- 1), s1)" "rest s1 []" using at_end [OF Suc.prems] by blast
  obtain s2 where "getchars get k s1 = (Inr (replicate k (- 1)), s2)" "rest s2 []" using Suc.IH [OF 1(2)] by blast
  then show ?case using 1(1) by (simp add: bind_prog_def)
qed simp

lemma getchars_all: "rest s bs \<Longrightarrow> \<exists>s'. getchars get (length bs + k) s = (Inr (map uint bs @ replicate k (- 1)), s') \<and> rest s' []"
proof (induction bs arbitrary: s)
  case Nil
  then show ?case using getchars_end by simp
next
  case (Cons b bs)
  obtain s1 where 1: "get s = (Inr (uint b), s1)" "rest s1 bs" using next_char [OF Cons.prems] by blast
  obtain s2 where "getchars get (length bs + k) s1 = (Inr (map uint bs @ replicate k (- 1)), s2)" "rest s2 []" using Cons.IH [OF 1(2)] by blast
  then show ?case using 1(1) by (simp add: bind_prog_def)
qed

end

text \<open>Plain data.\<close>

definition plain_rest :: "PGLZ_DecompState \<Rightarrow> byte list \<Rightarrow> bool" where
  "plain_rest ds bs \<longleftrightarrow> plain ds \<and>
     (let area = (if in_temp ds then temp_buf ds else lz ds) in cp_in ds \<le> cp_end ds \<and> cp_end ds \<le> length area \<and> bs = drop (cp_in ds) (take (cp_end ds) area))"

interpretation plain_source: char_source get_from_plain plain_rest
proof unfold_locales
  fix ds b bs assume r: "plain_rest ds (b # bs)"
  define area where "area = (if in_temp ds then temp_buf ds else lz ds)"
  define k where "k = cp_in ds"
  have a: "k \<le> cp_end ds" "cp_end ds \<le> length area" "b # bs = drop k (take (cp_end ds) area)" "plain ds"
    using r by (simp_all add: plain_rest_def Let_def area_def k_def)
  have "k \<noteq> cp_end ds" using a(3) by auto
  then have lt: "k < cp_end ds" using a(1) by simp
  have "drop k (take (cp_end ds) area) = take (cp_end ds) area ! k # drop (Suc k) (take (cp_end ds) area)"
    by (rule Cons_nth_drop_Suc [symmetric]) (use lt a(2) in simp)
  then have b: "b = area ! k" "bs = drop (Suc k) (take (cp_end ds) area)" using a(3) lt by simp_all
  have "ds_in k ds = (Inr b, ds)" using a(2) lt b(1) by (simp add: ds_in_def Let_def area_def)
  then have "get_from_plain ds = (Inr (uint b), ds\<lparr>cp_in := Suc k\<rparr>)" using lt by (simp add: get_from_plain_def bind_prog_def k_def)
  moreover have "plain_rest (ds\<lparr>cp_in := Suc k\<rparr>) bs" using a(2,4) lt b(2) by (auto simp: plain_rest_def Let_def area_def)
  ultimately show "\<exists>s'. get_from_plain ds = (Inr (uint b), s') \<and> plain_rest s' bs" by blast
next
  fix ds assume r: "plain_rest ds []"
  then have "cp_end ds \<le> cp_in ds" by (auto simp: plain_rest_def Let_def split: if_splits)
  then show "\<exists>s'. get_from_plain ds = (Inr (- 1), s') \<and> plain_rest s' []" using r by (simp add: get_from_plain_def)
qed

text \<open>
  Compressed data: \<open>o'\<close> was written, \<open>n\<close> bytes of a tag are to be copied, the items \<open>ts\<close> of the current group and \<open>us\<close> of the following
  groups are to be read.
\<close>

definition lz_at :: "byte list \<Rightarrow> byte list \<Rightarrow> nat \<Rightarrow> nat \<Rightarrow> token list \<Rightarrow> token list \<Rightarrow> byte list \<Rightarrow> byte list \<Rightarrow> PGLZ_DecompState \<Rightarrow> bool" where
  "lz_at o' r n off ts us pre post ds \<longleftrightarrow> \<not> plain ds \<and> \<not> in_temp ds \<and> temp_buf ds = o' @ r \<and> cp_out ds = length o' \<and> tocopy ds = int n \<and>
     (0 < n \<longrightarrow> cp_copy ds = int (length o') - int off \<and> 1 \<le> off \<and> off \<le> length o') \<and>
     lz ds = pre @ concat (map token_bytes ts) @ encode us @ post \<and> cp_in ds = length pre \<and>
     cp_end ds = length pre + length (concat (map token_bytes ts)) + length (encode us) \<and> dctrl ds = control ts \<and> length ts \<le> ctrl_count ds \<and> ctrl_count ds \<le> 8 \<and>
     (us \<noteq> [] \<longrightarrow> length ts = ctrl_count ds) \<and> tokens_ok (length o' + n) (ts @ us) \<and> n + total_size (ts @ us) \<le> length r"

definition lz_rest :: "PGLZ_DecompState \<Rightarrow> byte list \<Rightarrow> bool" where
  "lz_rest ds bs \<longleftrightarrow> (\<exists>o' r n off ts us pre post. lz_at o' r n off ts us pre post ds \<and> expand (copy_back n off o') (ts @ us) = o' @ bs)"

lemma total_size_ge: "tokens_ok n ts \<Longrightarrow> length ts \<le> total_size ts"
  by (induction n ts rule: tokens_ok.induct) auto

lemma copy_back_extends: "\<exists>x. copy_back n off o' = o' @ x"
  by (induction n arbitrary: o') (auto, metis append.assoc)

lemma expand_extends: "\<exists>x. expand o' ts = o' @ x"
proof (induction o' ts rule: expand.induct)
  case (3 o' len off ts)
  then show ?case using copy_back_extends [of len off o'] by auto
qed auto

lemma expand_copy_extends:
  obtains x where "expand (copy_back n off o') ts = o' @ x"
proof -
  obtain y where y: "copy_back n off o' = o' @ y" using copy_back_extends by blast
  obtain z where "expand (o' @ y) ts = (o' @ y) @ z" using expand_extends by blast
  then show ?thesis using that [of "y @ z"] y by simp
qed

lemma ds_out_run:
  "temp_buf ds = o' @ r \<Longrightarrow> r \<noteq> [] \<Longrightarrow> cp_out ds = length o' \<Longrightarrow> ds_out b ds = (Inr b, ds\<lparr>temp_buf := (o' @ [b]) @ drop 1 r, cp_out := Suc (length o')\<rparr>)"
  by (cases r) (auto simp: ds_out_def)

lemma ds_copy_run:
  assumes "temp_buf ds = o' @ r" "r \<noteq> []" "cp_out ds = length o'" "cp_copy ds = int (length o') - int off" "1 \<le> off" "off \<le> length o'"
  shows "ds_copy ds = (Inr (o' ! (length o' - off)), ds\<lparr>temp_buf := (o' @ [o' ! (length o' - off)]) @ drop 1 r, cp_out := Suc (length o'), cp_copy := int (Suc (length o')) - int off\<rparr>)"
proof -
  have "nat (cp_copy ds) = length o' - off" "0 \<le> cp_copy ds" "cp_copy ds < int (length (temp_buf ds))" "temp_buf ds ! (length o' - off) = o' ! (length o' - off)"
    using assms by (auto simp: nth_append)
  then show ?thesis using ds_out_run [OF assms(1-3)] assms(4) by (simp add: ds_copy_def bind_prog_def)
qed

text \<open>A byte of a tag is copied.\<close>

lemma lz_copy_step:
  assumes "lz_at o' r (Suc n) off ts us pre post ds" "expand (copy_back (Suc n) off o') (ts @ us) = o' @ bs"
  shows "\<exists>b bs' ds'. bs = b # bs' \<and> get_from_lzdata ds = (Inr (uint b), ds') \<and> lz_rest ds' bs'"
proof -
  note L = assms(1) [unfolded lz_at_def]
  define b where "b = o' ! (length o' - off)"
  let ?ds = "ds\<lparr>tocopy := int n, temp_buf := (o' @ [b]) @ drop 1 r, cp_out := Suc (length o'), cp_copy := int (Suc (length o')) - int off\<rparr>"
  have "r \<noteq> []" using L by auto
  then have c: "ds_copy (ds\<lparr>tocopy := int n\<rparr>) = (Inr b, ?ds)" using ds_copy_run [of "ds\<lparr>tocopy := int n\<rparr>" o' r off] L by (simp add: b_def)
  have run: "get_from_lzdata ds = (Inr (uint b), ?ds)" using L c by (simp add: get_from_lzdata_def bind_prog_def)
  have at: "lz_at (o' @ [b]) (drop 1 r) n off ts us pre post ?ds" using L by (simp add: lz_at_def) linarith
  obtain x where x: "expand (copy_back n off (o' @ [b])) (ts @ us) = (o' @ [b]) @ x" by (rule expand_copy_extends)
  have "bs = b # x" using assms(2) x by (simp add: b_def)
  moreover have "lz_rest ?ds x" unfolding lz_rest_def using at x by blast
  ultimately show ?thesis using run by blast
qed

text \<open>An item of the current group is read.\<close>

lemma ds_in_run: "\<not> in_temp ds \<Longrightarrow> lz ds = pre @ bs @ post \<Longrightarrow> i < length bs \<Longrightarrow> ds_in (length pre + i) ds = (Inr (bs ! i), ds)"
  by (simp add: ds_in_def Let_def nth_append)

lemma next_item_literal:
  assumes "lz_at o' r 0 off (Lit b # ts) us pre post ds"
  obtains ds' where "next_item ds = (Inr (uint b), ds')" "lz_at (o' @ [b]) (drop 1 r) 0 off ts us (pre @ [b]) post ds'"
proof -
  note L = assms [unfolded lz_at_def]
  let ?ds1 = "ds\<lparr>ctrl_count := ctrl_count ds - 1\<rparr>"
  let ?ds = "?ds1\<lparr>cp_in := Suc (length pre), temp_buf := (o' @ [b]) @ drop 1 r, cp_out := Suc (length o'), dctrl := control ts\<rparr>"
  have "r \<noteq> []" using L by auto
  then have o: "ds_out b (?ds1\<lparr>cp_in := Suc (length pre)\<rparr>) = (Inr b, ?ds1\<lparr>cp_in := Suc (length pre), temp_buf := (o' @ [b]) @ drop 1 r, cp_out := Suc (length o')\<rparr>)"
    using ds_out_run [of "?ds1\<lparr>cp_in := Suc (length pre)\<rparr>" o' r b] L by simp
  have i: "ds_in (length pre) ?ds1 = (Inr b, ?ds1)" using L ds_in_run [of ?ds1 pre "[b]" _ 0] by simp
  have tag: "\<not> dctrl ?ds1 AND 1 \<noteq> 0" using L control_first [of "Lit b" ts] by simp
  have d: "drop_bit 1 (dctrl ds) = control ts" using L control_rest [of ts "Lit b"] by simp
  have "cp_in ds \<noteq> cp_end ds" "cp_in ds = length pre" using L by simp_all
  then have A: "next_item ds = (Inr (uint b), ?ds)" using tag i o d by (simp add: next_item_def bind_prog_def)
  have B: "lz_at (o' @ [b]) (drop 1 r) 0 off ts us (pre @ [b]) post ?ds" using L by (simp add: lz_at_def) linarith
  show ?thesis by (rule that [OF A B])
qed

lemma bind_prog_get: "bind_prog (\<lambda>s. (Inr (g s), s)) f s = f (g s) s"
  by (simp add: bind_prog_def)

lemma next_item_tag:
  assumes "lz_at o' r 0 off0 (Tag len off # ts) us pre post ds"
  obtains ds' where "next_item ds = (Inr (uint (o' ! (length o' - off))), ds')"
    "lz_at (o' @ [o' ! (length o' - off)]) (drop 1 r) (len - 1) off ts us (pre @ token_bytes (Tag len off)) post ds'"
proof -
  note L = assms [unfolded lz_at_def]
  let ?t = "token_bytes (Tag len off)" and ?b = "o' ! (length o' - off)"
  let ?ds1 = "ds\<lparr>ctrl_count := ctrl_count ds - 1\<rparr>"
  let ?ds2 = "?ds1\<lparr>tocopy := int len - 1, cp_in := length pre + length ?t, cp_copy := int (length o') - int off\<rparr>"
  let ?ds3 = "?ds2\<lparr>temp_buf := (o' @ [?b]) @ drop 1 r, cp_out := Suc (length o'), cp_copy := int (Suc (length o')) - int off\<rparr>"
  let ?ds = "?ds3\<lparr>dctrl := control ts\<rparr>"
  have ok: "3 \<le> len" "len \<le> 273" "1 \<le> off" "off \<le> length o'" "off < 4096" using L by auto
  note D = tag_parts [OF ok(1,2,5)]
  have "r \<noteq> []" using L ok(1) by auto
  then have c: "ds_copy ?ds2 = (Inr ?b, ?ds3)" using ds_copy_run [of ?ds2 o' r off] L ok by simp
  have lz: "\<not> in_temp ?ds1" "lz ?ds1 = pre @ ?t @ (concat (map token_bytes ts) @ encode us @ post)" using L by simp_all
  have i: "ds_in (length pre) ?ds1 = (Inr (?t ! 0), ?ds1)" "ds_in (length pre + 1) ?ds1 = (Inr (?t ! 1), ?ds1)"
    "len > 17 \<Longrightarrow> ds_in (length pre + 2) ?ds1 = (Inr (?t ! 2), ?ds1)"
    using ds_in_run [OF lz, of 0] ds_in_run [OF lz, of 1] ds_in_run [OF lz, of 2] D(4) by (simp_all del: token_bytes.simps split: if_splits)
  let ?ext = "if uint (?t ! 0 AND 0x0f) + 3 = 18 then bind_prog (ds_in (length pre + 2)) (\<lambda>d2. return_prog (uint (?t ! 0 AND 0x0f) + 3 + uint d2, length pre + 3))
      else return_prog (uint (?t ! 0 AND 0x0f) + 3, length pre + 2)"
  have ext: "?ext ?ds1 = (Inr (int len, length pre + length ?t), ?ds1)"
  proof (cases "len > 17")
    case True
    then show ?thesis unfolding D(1,4) bind_prog_def i(3) [OF True] using D(3) i(3) by (simp del: token_bytes.simps)
  next
    case False
    then show ?thesis unfolding D(1,4) using ok(1) by (simp del: token_bytes.simps)
  qed
  have tag: "dctrl ?ds1 AND 1 \<noteq> 0" using L control_first [of "Tag len off" ts] by simp
  have d: "drop_bit 1 (dctrl ds) = control ts" using L control_rest [of ts "Tag len off"] by simp
  have ne: "cp_in ds \<noteq> cp_end ds" "cp_in ?ds1 = length pre" "cp_out ds = length o'" using L by simp_all
  let ?rd = "\<lambda>ds. bind_prog (ds_in (cp_in ds)) (\<lambda>d0. bind_prog (ds_in (cp_in ds + 1)) (\<lambda>d1.
      let len = uint (d0 AND 0x0f) + 3; off = push_bit 4 (uint (d0 AND 0xf0)) OR uint d1
      in bind_prog (if len = 18 then bind_prog (ds_in (cp_in ds + 2)) (\<lambda>d2. return_prog (len + uint d2, cp_in ds + 3)) else return_prog (len, cp_in ds + 2)) (\<lambda>(len, cp).
         bind_prog (modify_prog (\<lambda>ds. ds\<lparr>tocopy := len - 1, cp_in := cp, cp_copy := int (cp_out ds) - off\<rparr>)) (\<lambda>_. ds_copy)))) ds"
  have read: "?rd ?ds1 = (Inr ?b, ?ds3)"
    unfolding ne(2) bind_prog_simps(2) [of "ds_in (length pre)", OF i(1)] bind_prog_simps(2) [of "ds_in (length pre + 1)", OF i(2)] Let_def D(2) bind_prog_simps(2) [of ?ext, OF ext]
    using c ne(3) by simp
  have "dctrl ?ds3 = dctrl ds" by simp
  then have A: "next_item ds = (Inr (uint ?b), ?ds)"
    by (simp only: next_item_def bind_prog_get bind_basic_prog run_basic_prog ne(1) tag if_True if_False not_False_eq_True bind_prog_simps(2) [of ?rd, OF read] d)
  have B: "lz_at (o' @ [?b]) (drop 1 r) (len - 1) off ts us (pre @ ?t) post ?ds" using L ok by (simp add: lz_at_def del: token_bytes.simps) linarith
  show ?thesis by (rule that [OF A B])
qed

lemma lz_item_step:
  assumes "lz_at o' r 0 off (t # ts) us pre post ds" "expand o' (t # ts @ us) = o' @ bs"
  shows "\<exists>b bs' ds'. bs = b # bs' \<and> next_item ds = (Inr (uint b), ds') \<and> lz_rest ds' bs'"
proof (cases t)
  case (Lit b)
  obtain ds' where n: "next_item ds = (Inr (uint b), ds')" "lz_at (o' @ [b]) (drop 1 r) 0 off ts us (pre @ [b]) post ds'"
    by (rule next_item_literal [OF assms(1) [unfolded Lit]])
  obtain x where x: "expand (copy_back 0 off (o' @ [b])) (ts @ us) = (o' @ [b]) @ x" by (rule expand_copy_extends)
  have "lz_rest ds' x" unfolding lz_rest_def using n(2) x by blast
  moreover have "bs = b # x" using assms(2) x by (simp add: Lit)
  ultimately show ?thesis using n(1) by blast
next
  case (Tag len off1)
  define b where "b = o' ! (length o' - off1)"
  obtain ds' where n: "next_item ds = (Inr (uint b), ds')" "lz_at (o' @ [b]) (drop 1 r) (len - 1) off1 ts us (pre @ token_bytes (Tag len off1)) post ds'"
    unfolding b_def by (rule next_item_tag [OF assms(1) [unfolded Tag]])
  obtain x where x: "expand (copy_back (len - 1) off1 (o' @ [b])) (ts @ us) = (o' @ [b]) @ x" by (rule expand_copy_extends)
  have "lz_rest ds' x" unfolding lz_rest_def using n(2) x by blast
  moreover have "len = Suc (len - 1)" using assms(1) by (simp add: lz_at_def Tag)
  then have "copy_back len off1 o' = copy_back (len - 1) off1 (o' @ [b])" unfolding b_def by (metis copy_back.simps(2))
  then have "bs = b # x" using assms(2) x by (simp add: Tag)
  ultimately show ?thesis using n(1) by blast
qed

text \<open>The rest is decompressed at once.\<close>

lemma lz_rest_step:
  assumes "lz_at o' r 0 off [] us pre post ds" "us \<noteq> []" "expand o' us = o' @ bs"
  shows "\<exists>b bs' ds'. bs = b # bs' \<and> decomp_rest ds = (Inr (uint b), ds') \<and> plain_rest ds' bs'"
proof -
  note L = assms(1) [unfolded lz_at_def]
  have len: "length us < Suc (length (lz ds))" using L length_encode [of us] by simp
  have "rest_loop (Suc (length (lz ds))) (pre @ encode us @ post) (cp_end ds) (length pre) (out_area o' r) = (Inr (), out_area (expand o' us) (drop (total_size us) r))"
    using loop_run [OF len, of o' r "cp_end ds" pre post] L by simp
  then have run: "rest_loop (Suc (length (lz ds))) (lz ds) (cp_end ds) (cp_in ds) \<lparr>out = temp_buf ds, obp = cp_out ds\<rparr> = (Inr (), out_area (expand o' us) (drop (total_size us) r))"
    using L by (simp add: out_area_def del: rest_loop.simps)
  have "length us \<le> total_size us" using L by (intro total_size_ge [of "length o'"]) simp
  then have "0 < total_size us" using assms(2) by (cases us) auto
  moreover have "length bs = total_size us" using arg_cong [OF assms(3), of length] by simp
  ultimately have "0 < length bs" by linarith
  then obtain b bs' where bs: "bs = b # bs'" by (cases bs) auto
  let ?ds = "ds\<lparr>temp_buf := o' @ bs @ drop (total_size us) r, in_temp := True, cp_in := length o', cp_end := length o' + length bs, plain := True\<rparr>"
  have "decomp_rest ds = bind_prog (ds_in (length o')) (\<lambda>b. bind_prog (modify_prog (\<lambda>ds. ds\<lparr>cp_in := cp_in ds + 1\<rparr>)) (\<lambda>_. return_prog (uint b))) ?ds"
    using L run assms(3) by (simp add: decomp_rest_def out_area_def del: rest_loop.simps)
  also have "\<dots> = (Inr (uint b), ?ds\<lparr>cp_in := Suc (length o')\<rparr>)" by (simp add: bind_prog_def ds_in_def bs Let_def nth_append)
  finally have "decomp_rest ds = (Inr (uint b), ?ds\<lparr>cp_in := Suc (length o')\<rparr>)" .
  moreover have "plain_rest (?ds\<lparr>cp_in := Suc (length o')\<rparr>) bs'" by (simp add: plain_rest_def bs)
  ultimately show ?thesis using bs by blast
qed

text \<open>The next group is opened.\<close>

lemma lz_group_step:
  assumes "lz_at o' r 0 off [] us pre post ds" "us \<noteq> []" "expand o' us = o' @ bs"
  shows "\<exists>b bs' ds'. bs = b # bs' \<and> bind_prog (ds_in (cp_in ds)) (\<lambda>b. bind_prog (modify_prog (\<lambda>ds. ds\<lparr>dctrl := b, cp_in := cp_in ds + 1, ctrl_count := 8\<rparr>)) (\<lambda>_. next_item)) ds
    = (Inr (uint b), ds') \<and> lz_rest ds' bs'"
proof -
  note L = assms(1) [unfolded lz_at_def]
  define vs where "vs = take 8 us"
  define ws where "ws = drop 8 us"
  have e: "encode us = control vs # concat (map token_bytes vs) @ encode ws" using assms(2) by (subst encode.simps) (simp add: vs_def ws_def group_bytes_def)
  have us: "us = vs @ ws" by (simp add: vs_def ws_def)
  obtain t ts where vs: "vs = t # ts" using assms(2) by (cases vs) (auto simp: vs_def)
  let ?ds = "ds\<lparr>dctrl := control vs, cp_in := Suc (length pre), ctrl_count := 8\<rparr>"
  have "ds_in (cp_in ds) ds = (Inr (control vs), ds)" using L e ds_in_run [of ds pre "encode us" post 0] by simp
  then have run: "bind_prog (ds_in (cp_in ds)) (\<lambda>b. bind_prog (modify_prog (\<lambda>ds. ds\<lparr>dctrl := b, cp_in := cp_in ds + 1, ctrl_count := 8\<rparr>)) (\<lambda>_. next_item)) ds = next_item ?ds"
    using L by (simp add: bind_prog_def)
  have "length vs \<le> 8" "ws \<noteq> [] \<longrightarrow> length vs = 8" by (auto simp: vs_def ws_def)
  moreover have "tokens_ok (length o') (vs @ ws)" "total_size (vs @ ws) \<le> length r" using L us by simp_all
  ultimately have "lz_at o' r 0 off vs ws (pre @ [control vs]) post ?ds" using L e unfolding lz_at_def by simp
  then show ?thesis unfolding run using lz_item_step [of o' r off t ts ws "pre @ [control vs]" post ?ds bs] assms(3) us vs by simp
qed

lemma get_from_lzdata_step:
  assumes "lz_rest ds (b # bs)"
  shows "\<exists>ds'. get_from_lzdata ds = (Inr (uint b), ds') \<and> (lz_rest ds' bs \<or> plain_rest ds' bs)"
proof -
  obtain o' r n off ts us pre post where a: "lz_at o' r n off ts us pre post ds" "expand (copy_back n off o') (ts @ us) = o' @ b # bs"
    using assms by (auto simp: lz_rest_def)
  show ?thesis
  proof (cases n)
    case (Suc m)
    then show ?thesis using lz_copy_step [of o' r m off ts us pre post ds "b # bs"] a by auto
  next
    case 0
    note a = a [unfolded 0, unfolded copy_back.simps(1)]
    have t: "tocopy ds = 0" using a(1) by (simp add: lz_at_def)
    show ?thesis
    proof (cases ts)
      case (Cons t ts')
      have "ctrl_count ds \<noteq> 0" using a(1) by (auto simp: lz_at_def Cons)
      then show ?thesis using lz_item_step [of o' r off t ts' us pre post ds "b # bs"] a t by (auto simp: Cons get_from_lzdata_def)
    next
      case Nil
      have us: "us \<noteq> []" using a(2) by (auto simp: Nil)
      then have "ctrl_count ds = 0" "cp_in ds \<noteq> cp_end ds" using a(1) by (auto simp: lz_at_def Nil encode.simps [of us] group_bytes_def)
      then have "get_from_lzdata ds = (if cp_out ds \<ge> 256 then decomp_rest ds
        else bind_prog (ds_in (cp_in ds)) (\<lambda>b. bind_prog (modify_prog (\<lambda>ds. ds\<lparr>dctrl := b, cp_in := cp_in ds + 1, ctrl_count := 8\<rparr>)) (\<lambda>_. next_item)) ds)"
        using t by (simp add: get_from_lzdata_def)
      then show ?thesis using lz_rest_step [of o' r off us pre post ds "b # bs"] lz_group_step [of o' r off us pre post ds "b # bs"] a us
        by (auto simp: Nil)
    qed
  qed
qed

lemma get_from_lzdata_end:
  assumes "lz_rest ds []"
  shows "get_from_lzdata ds = (Inr (- 1), ds)"
proof -
  obtain o' r n off ts us pre post where a: "lz_at o' r n off ts us pre post ds" "expand (copy_back n off o') (ts @ us) = o'"
    using assms by (auto simp: lz_rest_def)
  have "n = 0 \<and> total_size (ts @ us) = 0" using arg_cong [OF a(2), of length] by simp
  moreover have "length (ts @ us) \<le> total_size (ts @ us)" using a(1) by (intro total_size_ge [of "length o' + n"]) (simp add: lz_at_def)
  ultimately have "n = 0" "length (ts @ us) = 0" by linarith+
  then have "n = 0" "ts = []" "us = []" by simp_all
  then show ?thesis using a(1) by (simp add: lz_at_def get_from_lzdata_def next_item_def bind_prog_def)
qed

text \<open>The characters still to come, in either of the two modes.\<close>

definition chars_rest :: "PGLZ_DecompState \<Rightarrow> byte list \<Rightarrow> bool" where
  "chars_rest ds bs \<longleftrightarrow> plain_rest ds bs \<or> lz_rest ds bs"

interpretation lz_source: char_source pglz_decomp_getchar chars_rest
proof unfold_locales
  fix ds b bs assume r: "chars_rest ds (b # bs)"
  show "\<exists>s'. pglz_decomp_getchar ds = (Inr (uint b), s') \<and> chars_rest s' bs"
  proof (cases "plain ds")
    case True
    then have "plain_rest ds (b # bs)" using r by (auto simp: chars_rest_def lz_rest_def lz_at_def)
    then show ?thesis using plain_source.next_char True by (fastforce simp: chars_rest_def pglz_decomp_getchar_def)
  next
    case False
    then have "lz_rest ds (b # bs)" using r by (auto simp: chars_rest_def plain_rest_def)
    then show ?thesis using get_from_lzdata_step False by (fastforce simp: chars_rest_def pglz_decomp_getchar_def)
  qed
next
  fix ds assume r: "chars_rest ds []"
  show "\<exists>s'. pglz_decomp_getchar ds = (Inr (- 1), s') \<and> chars_rest s' []"
  proof (cases "plain ds")
    case True
    then have "plain_rest ds []" using r by (auto simp: chars_rest_def lz_rest_def lz_at_def)
    then show ?thesis using plain_source.at_end True by (fastforce simp: chars_rest_def pglz_decomp_getchar_def)
  next
    case False
    then have "lz_rest ds []" using r by (auto simp: chars_rest_def plain_rest_def)
    then show ?thesis using get_from_lzdata_end False r by (simp add: pglz_decomp_getchar_def)
  qed
qed

lemma pglz_decomp_init_rest:
  assumes "compressed_as source h data" "length source \<le> length mem"
  shows "chars_rest (pglz_decomp_init h (data @ junk) mem) source"
proof (cases "varsize h = rawsize h + sizeof_PGLZ_Header")
  case True
  then have "data = source" "rawsize h = int (length source)" using assms(1) by (auto simp: compressed_as_def)
  then show ?thesis using True by (simp add: chars_rest_def plain_rest_def pglz_decomp_init_def)
next
  case False
  then obtain ts where ts: "rawsize h = int (length source)" "tokens_ok 0 ts" "expand [] ts = source" "varsize h = int (length (encode ts)) + sizeof_PGLZ_Header" "data = encode ts"
    using assms(1) by (auto simp: compressed_as_def)
  have "total_size ts = length source" using arg_cong [OF ts(3), of length] by simp
  then have "lz_at [] (take (length source) mem) 0 0 [] ts [] junk (pglz_decomp_init h (data @ junk) mem)"
    using ts False assms(2) by (simp add: lz_at_def pglz_decomp_init_def Let_def)
  then have "lz_rest (pglz_decomp_init h (data @ junk) mem) source" unfolding lz_rest_def using ts(3) by (metis append_Nil copy_back.simps(1))
  then show ?thesis by (simp add: chars_rest_def)
qed

section \<open>Properties\<close>


text \<open>A state of the compressor with an output area of \<open>n\<close> bytes and arbitrary contents of the static arrays.\<close>

definition fresh_pglz :: "nat \<Rightarrow> pglz" where
  "fresh_pglz n = \<lparr>hist_start = [], hist_entries = replicate PGLZ_HISTORY_SIZE \<lparr>he_next = Some 7, he_prev = None, he_hindex = 3, he_pos = 9\<rparr>,
     hist_next = 0, hist_recycle = False, dest = replicate n 0xaa, bp = 0, ctrlp = None, ctrlb = 0, ctrl = 0\<rparr>"


text \<open>
  C11. Reading the result of a compression one character at a time gives the input, character by character, and then end of
  file as often as one asks, whether the data were stored plain or compressed, across groups and tags, and across the
  switch to the decompression of the whole rest; the buffer of the raw size that holds the output is never left. The input has less than
  \<open>2\<^sup>3\<^sup>0 - 8\<close> bytes, the output area of the compression is three bytes longer, and the product of size and rate does not overflow, as in the round trip.
\<close>

theorem getchar_stream:
  assumes "length (hist_entries st) = PGLZ_HISTORY_SIZE" "length source + 3 \<le> length (dest st)" "length source + 8 < 2 ^ 30" "rate_exact strategy (length source)"
    "length source \<le> length mem" "pglz_compress source strategy st = (Inr h, st')"
  shows "\<exists>ds. getchars pglz_decomp_getchar (length source + k) (pglz_decomp_init h (take (nat (varsize h - sizeof_PGLZ_Header)) (dest st') @ junk) mem)
    = (Inr (map uint source @ replicate k (- 1)), ds)"
proof -
  have "compressed_as source h (take (nat (varsize h - sizeof_PGLZ_Header)) (dest st'))"
    by (rule pglz_compress_run [OF assms(1,2,4)]) (use assms(6) in simp)
  then show ?thesis using lz_source.getchars_all [OF pglz_decomp_init_rest [OF _ assms(5)]] by blast
qed

theorem getchar_stream_witness:
  "\<exists>h st' ds. pglz_compress (replicate 40 7) (Some PGLZ_strategy_allways) (fresh_pglz 43) = (Inr h, st') \<and>
    getchars pglz_decomp_getchar (40 + 1) (pglz_decomp_init h (take (nat (varsize h - sizeof_PGLZ_Header)) (dest st') @ []) (replicate 40 0)) = (Inr (replicate 40 7 @ [- 1]), ds)"
proof -
  have p: "length (hist_entries (fresh_pglz 43)) = PGLZ_HISTORY_SIZE" "length (replicate 40 (7 :: byte)) + 3 \<le> length (dest (fresh_pglz 43))"
    "length (replicate 40 (7 :: byte)) + 8 < 2 ^ 30" "rate_exact (Some PGLZ_strategy_allways) (length (replicate 40 (7 :: byte)))"
    "length (replicate 40 (7 :: byte)) \<le> length (replicate 40 (0 :: byte))" by (simp_all add: fresh_pglz_def rate_exact_def PGLZ_strategy_allways_def)
  obtain h st' where c: "pglz_compress (replicate 40 7) (Some PGLZ_strategy_allways) (fresh_pglz 43) = (Inr h, st')"
    by (rule pglz_compress_run [OF p(1,2,4)])
  show ?thesis using c getchar_stream [OF p c, of 1 "[]"] by (simp add: map_replicate_const)
qed

lemma rate_exact_defined:
  assumes "strategy \<in> {None, Some PGLZ_strategy_default, Some PGLZ_strategy_allways, Some PGLZ_strategy_never} \<or> n * 99 < 2 ^ 31"
  shows "rate_exact strategy n"
proof -
  define s where "s = (case strategy of None \<Rightarrow> PGLZ_strategy_default | Some s \<Rightarrow> s)"
  have "force_input_size s \<le> int n \<or> int n * need_rate s < 2 ^ 31"
  proof (cases "n * 99 < 2 ^ 31")
    case True
    have "int n * need_rate s \<le> int n * 99" by (intro mult_left_mono) (simp_all add: need_rate_def)
    also have "\<dots> < 2 ^ 31" using True by (metis of_nat_less_iff of_nat_mult of_nat_numeral of_nat_power)
    finally show ?thesis by blast
  next
    case False
    then have "6144 \<le> int n" by simp
    then show ?thesis using assms False by (auto simp: s_def PGLZ_strategy_default_def PGLZ_strategy_allways_def PGLZ_strategy_never_def)
  qed
  then show ?thesis by (simp add: rate_exact_def s_def [symmetric] Let_def)
qed

text \<open>
  Without that condition the product wraps to a negative number, and the limit for the result exceeds the size of the input.
\<close>

lemma result_limit_wraps:
  "result_limit \<lparr>min_input_size = 0, force_input_size = 2000000000, min_comp_rate = 99, match_size_good = 128, match_size_drop = 10\<rparr> 30000000 = 43249672"
  by code_simp

text \<open>
  The macro for the size of the output area is too small for an input of one byte: the control byte fills the area, and the literal is
  written behind it.
\<close>

lemma one_byte_overrun:
  assumes "length (dest st) = nat (PGLZ_MAX_OUTPUT 1 - sizeof_PGLZ_Header)" "length (hist_entries st) = PGLZ_HISTORY_SIZE"
  shows "\<exists>st'. pglz_compress [b] (Some PGLZ_strategy_allways) st = (Inl (Out_of_bounds ''dest''), st')"
proof -
  have l: "length (dest st) = 1" using assms(1) by (simp add: PGLZ_MAX_OUTPUT_def sizeof_PGLZ_Header_def)
  have i: "pglz_hist_idx [b] < 8192" using pglz_hist_idx_bound [of "[b]"] by (simp add: PGLZ_HISTORY_LISTS_def)
  then show ?thesis using l
    by (simp add: pglz_compress_def PGLZ_strategy_allways_def result_limit_def Let_def bind_prog_def pglz_find_match_def start_at_def PGLZ_HISTORY_LISTS_def
        pglz_out_literal_def pglz_out_ctrl_def store_ctrl_def put_byte_def dest_set_def PGLZ_MAX_MATCH_def)
qed
end
