(* ===== verification/Spec2Isabelle.thy ===== *)
theory Spec2Isabelle
  imports Queue_Properties Queue_Comm Plumbing Window Triage_Epochs Skew_Buffer_Properties Lz_Properties
begin

text \<open>
  TelegraphCQ: a verification library for the stream-processing parts of the server under \<^verbatim>\<open>src/src\<close>.

  \<^bold>\<open>The program.\<close> TelegraphCQ is PostgreSQL 7.3.2 with continuous queries over streams. Front ends, the back end that runs
  the shared eddy, and the wrapper clearinghouse are separate processes; they exchange plans, tuples and errors through queues in
  shared memory. A stream tuple goes from a wrapper through an ingress queue, or through a triage queue that
  sheds load, into the eddy. The eddy records in bit arrays which queries a tuple is for, and the result destination projects
  the tuple for each of them and puts it into the result queue of the query. Windows decide which tuples a query sees at what
  time; they are computed with the timestamps and intervals of the server. Between machines, Flux operators
  keep the tuples that were not acknowledged yet in a skew buffer. Wide attributes are stored compressed.

  \<^bold>\<open>The model.\<close> An operation is a function on the state of its component. \<open>TCQ_Prelude\<close> has the types: an \<open>outcome\<close> is a value or
  a \<open>tcq_error\<close> (a call of \<^verbatim>\<open>elog(ERROR)\<close>, a failed \<^verbatim>\<open>Assert\<close>, a wait that would block, an access outside an object or through
  a null pointer), and a \<open>prog\<close> returns its outcome with the state it leaves, also when it fails half way. An \<^verbatim>\<open>int\<close> of
  the code is an \<open>int\<close> where the values stay in range by the theorems' hypotheses and is wrapped where the code relies on it
  (\<open>c_int\<close>, \<open>size_t\<close>); bytes are 8-bit words. Loops are structural recursion, or recursion on a bound that every run
  stays below: one round more than there are queues, bytes, buffer slots or cells. A run that used the bound up would end in
  the error \<open>Would_block\<close> or in \<open>None\<close>, and the theorems about these operations say that they return a result.

  \<^bold>\<open>Result queues\<close> (\<^verbatim>\<open>backend/rqueue\<close>).
  \<^item> \<open>Queue_Lock\<close>: \<^verbatim>\<open>struct queue_lock\<close> and its three tables of operations in \<^verbatim>\<open>resultq.c\<close>, with the semaphores of
    \<^verbatim>\<open>port/sysv_sema.c\<close> as counts.
  \<^item> \<open>Result_Queue\<close>: \<^verbatim>\<open>struct Queue\<close> with its byte buffer, and \<^verbatim>\<open>make_queue\<close>, \<^verbatim>\<open>clear_queue\<close>, \<^verbatim>\<open>check_capacity\<close>, \<^verbatim>\<open>enqueue_elt\<close>,
    \<^verbatim>\<open>dequeue_elt\<close>, \<^verbatim>\<open>enqueue\<close>, \<^verbatim>\<open>dequeue\<close> of \<^verbatim>\<open>resultq.c\<close>, on the bytes, with the wrap-around at the wall.
  \<^item> \<open>Fifo_Spec\<close> is the contract of a bounded queue as the locale \<open>fifo_buffer\<close>; \<open>Queue_Interface\<close> has the contract of a
    serializer, \<open>queue_serializer_laws\<close>, and shows that with it the element operations and the non-blocking operations are such
    queues. \<open>Result_Dest\<close> interprets it for the serializers of the code.
  \<^item> \<open>Result_Dest\<close>: \<^verbatim>\<open>rqdest.c\<close>, that is the serializers of result entries, the pool of result queues, the iterator over the
    selected queues, \<^verbatim>\<open>resultqdest\<close> and the feedback of recursive queries.
  \<^item> \<open>Queue_Properties\<close>: the queue never fails, loses or reorders entries (C1 to C3), delivery (C4), waiting and
    waking (C13, C14), the pool (C15, C18), serializers (C16), the selection of queues (C17), capacity and clearing (C19, C20), and two
    defects (C21, C22).
  \<^item> \<open>Queue_Comm\<close>: the senders and receivers of whole queues in \<^verbatim>\<open>resultq.c\<close> as a protocol between two processes, a step relation
    on the bytes in flight (C25, C26), and the relocation of a received queue (C27).
  \<^item> \<open>Ingress_Queues\<close>: \<^verbatim>\<open>ingresq.c\<close>, the table of named queues with reference counts (C28, C29). \<open>Plumbing\<close>: \<^verbatim>\<open>telegraphcq.c\<close>
    sets all of this up (C30).
  \<^item> \<open>Bit_Array\<close>: \<^verbatim>\<open>backend/lib/bit.c\<close>, refined to sets of indices by the locale \<open>bit_set\<close> (C12, C23, C24).

  \<^bold>\<open>Time\<close> (\<^verbatim>\<open>backend/utils/adt\<close>, \<^verbatim>\<open>backend/telegraphcq/window.c\<close>).
  \<^item> \<open>Calendar\<close>: \<^verbatim>\<open>date2j\<close>, \<^verbatim>\<open>j2date\<close>, \<^verbatim>\<open>tm2timestamp\<close>, \<^verbatim>\<open>timestamp2tm\<close> and what they call, with the Gregorian calendar as the
    specification (C35, C36).
  \<^item> \<open>Timestamp_Arith\<close>: comparison, rounding, months, intervals and \<^verbatim>\<open>OVERLAPS\<close> of \<^verbatim>\<open>timestamp.c\<close> (C37, C38).
  \<^item> \<open>Window\<close>: \<^verbatim>\<open>window.c\<close>, the numbering of the windows of a query, lifetimes of tuples and sliced windows (C31 to C34).

  \<^bold>\<open>Load shedding\<close> (\<^verbatim>\<open>backend/telegraphcq\<close>).
  \<^item> \<open>Punct\<close>: punctuation tuples of \<^verbatim>\<open>punct.c\<close> and the timestamp column of a stream.
  \<^item> \<open>Shedding\<close>: tuple buffers, reservoir samples and the summaries of \<^verbatim>\<open>shedding.c\<close> (C39, C40).
  \<^item> \<open>Triage_Queue\<close>: the circular buffer, epochs and summaries of \<^verbatim>\<open>triageq.c\<close>. \<open>Triage_Properties\<close> refines the
    buffer to a list that is sorted by time and shows what adding and taking tuples do (C7, C8); \<open>Triage_Epochs\<close> follows the
    epochs and accounts for every tuple over any run (C9).

  \<^bold>\<open>Flux\<close> (\<^verbatim>\<open>backend/executor/tsb.c\<close>).
  \<^item> \<open>Skew_Buffer\<close>: the memory cells of the buffer, with pointers as addresses, the free list, the chain of every partition,
    three acknowledgement cursors and two heads, and every operation of \<^verbatim>\<open>tsb.c\<close>. \<open>Skew_Buffer_Shape\<close> says which cell is
    in which chain and what allocation, linking and unlinking do to that; \<open>Skew_Buffer_Properties\<close> has the
    invariant of cursors and heads, kept by any sequence of calls (C5), and the refinement of an acknowledgement to lists (C6).

  \<^bold>\<open>Compression\<close> (\<^verbatim>\<open>backend/utils/adt/pg_lzcompress.c\<close>).
  \<^item> \<open>Lz_Compress\<close>: the compression of wide attributes with its history table of linked entries, the decompressor, and the
    decompression of one character at a time. The search of a list has as its bound the number of entries plus one, the main loop
    the number of bytes plus one; both are shown to be enough.
  \<^item> \<open>Lz_History\<close> shows that the lists of the table stay linked, without cycles, in whatever order entries are recycled, and that a
    match that is found is one. \<open>Lz_Format\<close> has the items of the compressed format and what they stand for, \<open>Lz_Output\<close> what the compressor
    writes and that it stays in its area. \<open>Lz_Properties\<close> has the round trip (C10) and the contract of a source of characters as the locale
    \<open>char_source\<close>, interpreted for plain and for compressed data (C11).

  \<^bold>\<open>Choices.\<close> Timestamps are the 64-bit integers of \<^verbatim>\<open>HAVE_INT64_TIMESTAMP\<close>, counted in microseconds, although the shipped
  \<^verbatim>\<open>pg_config.h\<close> leaves \<^verbatim>\<open>USE_INTEGER_DATETIMES\<close> undefined: the branch with doubles computes with rounding
  errors the code does not bound. Where doubles are used anyway (window numbers, sampling) they are rationals with the
  rounding as the argument \<open>fl\<close>, of which \<open>double_rounding\<close> asks that it is monotone, exact on integers of 53 bits, and off by a relative error of at most
  one in \<open>2 ^ 53\<close>. Assertions are on, as the tree is configured. Code of the tree that is not modelled is an argument with its documented laws as named
  hypotheses: the heap tuple routines (\<open>heap_ops\<close>, \<open>heap_laws\<close>), histograms and wavelets (\<open>synopsis_ops\<close>), the projection of the
  eddy (\<open>project_stable\<close>), input of timestamps and intervals. The contents of fresh memory, the results of \<^verbatim>\<open>rand\<close>, of
  sockets and of \<^verbatim>\<open>mktime\<close> are arguments, too. Operations on a shared queue run one
  after the other, as its lock makes them; the protocol of \<open>Queue_Comm\<close> interleaves the single reads and writes of the two sides.

  \<^bold>\<open>Not modelled.\<close> The parts TelegraphCQ shares with PostgreSQL (parser, planner, catalogs, storage, access
  methods, transaction log, the other data types, clients and drivers) and the executor with the eddy, the SteMs and the Flux
  operators that use the skew buffer: these work on plan trees, pages and the function manager, and almost every line
  calls code that would again be an argument. Histograms and wavelets (\<^verbatim>\<open>histogram.c\<close>, \<^verbatim>\<open>wavelet.c\<close>) are
  numerical codes on single-precision arrays with Judy arrays of a third party. The wrapper clearinghouse (\<^verbatim>\<open>wrapch.c\<close>) and
  the main loops are process control and sockets. Within the modelled files, functions that only print, \<^verbatim>\<open>triage_destroy\<close>, which
  reads freed memory, the benchmark in \<^verbatim>\<open>shedding.c\<close> and the time zone branches, which call the C library, are left out.
\<close>

end
